(* ===== verification/Prelude.thy ===== *)
theory Prelude
  imports Main "HOL-Library.Word" "HOL-Library.Monad_Syntax" "HOL-Library.Signed_Division"
begin

text \<open>
  Shared vocabulary of the development.

  A C function is a HOL function on the values it reads. Where the C code has no
  defined behaviour (an access outside an array, a freed object, a wild pointer) the
  model returns \<^term>\<open>None\<close>; where it returns an error code, the code is a value.
  Operations are chained with the do-notation of the option type.

  \<^verbatim>\<open>debug_panic\<close> (\<^verbatim>\<open>a3/fs/debug.c\<close>) prints a report and returns, so a failed \<^verbatim>\<open>ASSERT\<close>
  does not stop the program: it appends a \<open>Panic\<close> event to the console and the caller
  goes on. The console is threaded as an explicit list of events, and
  \<open>console unchanged\<close> is how the theorems say that no assertion failed.

  \<^verbatim>\<open>size_t\<close> is \<^typ>\<open>nat\<close> with the wrap-around of 64-bit arithmetic written out (\<open>sz\<close>);
  \<^verbatim>\<open>block_sector_t\<close> is a \<^typ>\<open>32 word\<close>, a byte an \<^typ>\<open>8 word\<close>, an element of a bitmap a
  \<^typ>\<open>64 word\<close>; \<^verbatim>\<open>offset_t\<close> and \<^verbatim>\<open>int\<close> are \<^typ>\<open>int\<close>, with C's truncating division.
\<close>

unbundle bit_operations_syntax

type_synonym byte = "8 word"
type_synonym u32 = "32 word"
type_synonym u64 = "64 word"

named_theorems frame_simps \<open>what an operation leaves unchanged\<close>
named_theorems wf_intros \<open>well-formedness is kept\<close>

subsection \<open>The console and assertions\<close>

datatype event = Panic string | Print string

type_synonym console = "event list"

definition debug_panic :: "string \<Rightarrow> console \<Rightarrow> console" where
  "debug_panic fn lg = lg @ [Panic fn]"

definition ASSERT :: "bool \<Rightarrow> string \<Rightarrow> console \<Rightarrow> console" where
  "ASSERT c fn lg = (if c then lg else debug_panic fn lg)"

lemma ASSERT_True [simp]: "ASSERT True fn lg = lg"
  by (simp add: ASSERT_def)

lemma ASSERT_holds: "c \<Longrightarrow> ASSERT c fn lg = lg"
  by (simp add: ASSERT_def)

lemma ASSERT_keeps_iff: "ASSERT c fn lg = lg \<longleftrightarrow> c"
  by (simp add: ASSERT_def debug_panic_def)

text \<open>What a function that may call \<^verbatim>\<open>exit\<close> ends with.\<close>

datatype 'a outcome = Done 'a | Exit int

subsection \<open>C arithmetic\<close>

text \<open>\<^verbatim>\<open>size_t\<close> arithmetic is modulo \<open>2^64\<close>.\<close>

definition sz :: "nat \<Rightarrow> nat" where
  "sz n = n mod 2 ^ 64"

lemma sz_less [simp]: "n < 2 ^ 64 \<Longrightarrow> sz n = n"
  by (simp add: sz_def)

lemma sz_le: "sz n \<le> n"
  by (simp add: sz_def)

text \<open>Subtraction of \<^verbatim>\<open>size_t\<close> values wraps below zero.\<close>

definition sz_diff :: "nat \<Rightarrow> nat \<Rightarrow> nat" where
  "sz_diff a b = (if b \<le> a then a - b else 2 ^ 64 + a - b)"

definition DIV_ROUND_UP :: "nat \<Rightarrow> nat \<Rightarrow> nat" where
  "DIV_ROUND_UP x step = sz (x + step - 1) div step"

definition ROUND_DOWN :: "nat \<Rightarrow> nat \<Rightarrow> nat" where
  "ROUND_DOWN x step = x div step * step"

lemma DIV_ROUND_UP_bounds:
  assumes "0 < step" and "x + step \<le> 2 ^ 64"
  shows "x \<le> DIV_ROUND_UP x step * step" and "DIV_ROUND_UP x step * step < x + step"
proof -
  let ?q = "(x + step - 1) div step"
  have eq: "DIV_ROUND_UP x step = ?q"
    using assms by (simp add: DIV_ROUND_UP_def)
  have d: "?q * step + (x + step - 1) mod step = x + step - 1"
    by (rule div_mult_mod_eq)
  have m: "(x + step - 1) mod step < step"
    using assms(1) by simp
  show "x \<le> DIV_ROUND_UP x step * step"
    unfolding eq using d m assms(1) by linarith
  show "DIV_ROUND_UP x step * step < x + step"
    unfolding eq using d m assms(1) by linarith
qed

text \<open>C's \<^verbatim>\<open>/\<close> and \<^verbatim>\<open>%\<close> on \<^verbatim>\<open>int\<close> truncate towards zero; on non-negative numbers they are \<open>div\<close> and \<open>mod\<close>.\<close>

lemma int_smod: "int a smod numeral k = int (a mod numeral k)"
  by (simp add: smod_mod_positive zmod_int)

lemma int_sdiv: "int a sdiv numeral k = int (a div numeral k)"
  by (cases "a = 0") (simp_all add: signed_divide_int_def zdiv_int)

lemma if_less_min: "(if a < b then a else b) = min a (b :: int)"
  by simp

subsection \<open>Lists\<close>

lemma nth_update_if:
  "i < length xs \<Longrightarrow> xs[i := v] ! j = (if i = j then v else xs ! j)"
  by simp

lemma list_eq_nthI:
  "length xs = length ys \<Longrightarrow> (\<And>i. i < length xs \<Longrightarrow> xs ! i = ys ! i) \<Longrightarrow> xs = ys"
  by (rule nth_equalityI)

text \<open>Overwriting a run of a list: what \<^verbatim>\<open>memcpy\<close> into the middle of a buffer does.\<close>

definition overwrite :: "nat \<Rightarrow> 'a list \<Rightarrow> 'a list \<Rightarrow> 'a list" where
  "overwrite ofs src buf = take ofs buf @ src @ drop (ofs + length src) buf"

lemma length_overwrite [simp]:
  "ofs + length src \<le> length buf \<Longrightarrow> length (overwrite ofs src buf) = length buf"
  by (simp add: overwrite_def)

lemma nth_overwrite:
  assumes "ofs + length src \<le> length buf" and "i < length buf"
  shows "overwrite ofs src buf ! i =
    (if ofs \<le> i \<and> i < ofs + length src then src ! (i - ofs) else buf ! i)"
  using assms by (auto simp: overwrite_def nth_append min_def)

lemma overwrite_Nil [simp]: "overwrite ofs [] buf = buf"
  by (simp add: overwrite_def)

lemma overwrite_append:
  assumes "ofs + length xs + length ys \<le> length buf"
  shows "overwrite (ofs + length xs) ys (overwrite ofs xs buf) = overwrite ofs (xs @ ys) buf"
  using assms by (simp add: overwrite_def ac_simps)

lemma overwrite_all: "length src = length buf \<Longrightarrow> overwrite 0 src buf = src"
  by (simp add: overwrite_def)

subsection \<open>Little-endian encoding\<close>

fun le_encode :: "nat \<Rightarrow> nat \<Rightarrow> byte list" where
  "le_encode 0 x = []"
| "le_encode (Suc n) x = of_nat (x mod 256) # le_encode n (x div 256)"

fun le_decode :: "byte list \<Rightarrow> nat" where
  "le_decode [] = 0"
| "le_decode (b # bs) = unat b + 256 * le_decode bs"

lemma length_le_encode [simp]: "length (le_encode n x) = n"
  by (induction n arbitrary: x) auto

lemma unat_byte_of_nat: "x < 256 \<Longrightarrow> unat (of_nat x :: byte) = x"
  by (simp add: unat_of_nat)

lemma le_decode_encode: "x < 256 ^ n \<Longrightarrow> le_decode (le_encode n x) = x"
proof (induction n arbitrary: x)
  case 0
  then show ?case by simp
next
  case (Suc n)
  then have "x div 256 < 256 ^ n"
    by (simp add: less_mult_imp_div_less mult.commute)
  then have "le_decode (le_encode n (x div 256)) = x div 256"
    by (rule Suc.IH)
  then show ?case
    by (simp add: unat_byte_of_nat)
qed

lemma byte_less: "unat (b :: byte) < 256"
  using unsigned_less [of b] by simp

lemma u32_less: "unat (x :: u32) < 4294967296"
  using unsigned_less [of x] by simp

lemma le_decode_less: "le_decode bs < 256 ^ length bs"
proof (induction bs)
  case Nil
  then show ?case by simp
next
  case (Cons b bs)
  have "unat b + 256 * le_decode bs < 256 * (le_decode bs + 1)"
    using byte_less [of b] by simp
  also have "\<dots> \<le> 256 * 256 ^ length bs"
    using Cons.IH by (intro mult_le_mono2) simp
  finally show ?case by simp
qed

lemma le_encode_decode: "length bs = n \<Longrightarrow> le_encode n (le_decode bs) = bs"
proof (induction bs arbitrary: n)
  case Nil
  then show ?case by simp
next
  case (Cons b bs)
  have "(unat b + 256 * le_decode bs) mod 256 = unat b"
    using byte_less [of b] by simp
  moreover have "(unat b + 256 * le_decode bs) div 256 = le_decode bs"
    using byte_less [of b] by simp
  ultimately show ?case
    using Cons by auto
qed

text \<open>The bytes of an array of fixed-width elements, and back.\<close>

fun chunks :: "nat \<Rightarrow> nat \<Rightarrow> 'a list \<Rightarrow> 'a list list" where
  "chunks w 0 xs = []"
| "chunks w (Suc n) xs = take w xs # chunks w n (drop w xs)"

lemma length_chunks [simp]: "length (chunks w n xs) = n"
  by (induction n arbitrary: xs) auto

lemma chunks_concat:
  "(\<forall>x \<in> set xss. length x = w) \<Longrightarrow> chunks w (length xss) (concat xss @ ys) = xss"
  by (induction xss) auto

lemma concat_chunks: "length xs = w * n \<Longrightarrow> concat (chunks w n xs) = xs"
  by (induction n arbitrary: xs) auto

lemma chunks_lengths: "w * n \<le> length xs \<Longrightarrow> c \<in> set (chunks w n xs) \<Longrightarrow> length c = w"
proof (induction n arbitrary: xs)
  case 0
  then show ?case by simp
next
  case (Suc n)
  show ?case
  proof (cases "c = take w xs")
    case True
    then show ?thesis using Suc.prems(1) by simp
  next
    case False
    then have "c \<in> set (chunks w n (drop w xs))"
      using Suc.prems(2) by simp
    then show ?thesis
      using Suc.prems(1) by (intro Suc.IH [of "drop w xs"]) auto
  qed
qed

definition words_of_bytes :: "nat \<Rightarrow> nat \<Rightarrow> byte list \<Rightarrow> 'a::len word list" where
  "words_of_bytes w n bs = map (\<lambda>c. word_of_nat (le_decode c)) (chunks w n bs)"

definition bytes_of_words :: "nat \<Rightarrow> 'a::len word list \<Rightarrow> byte list" where
  "bytes_of_words w ws = concat (map (\<lambda>x. le_encode w (unat x)) ws)"

lemma length_words_of_bytes [simp]: "length (words_of_bytes w n bs) = n"
  by (simp add: words_of_bytes_def)

lemma length_bytes_of_words [simp]: "length (bytes_of_words w ws) = w * length ws"
  by (induction ws) (auto simp: bytes_of_words_def)

lemma words_of_bytes_of_words:
  fixes ws :: "'a::len word list"
  assumes w: "256 ^ w = (2::nat) ^ LENGTH('a)" and n: "length ws = n"
  shows "words_of_bytes w n (bytes_of_words w ws @ bs) = ws"
proof -
  have c: "chunks w n (bytes_of_words w ws @ bs) = map (\<lambda>x. le_encode w (unat x)) ws"
    using chunks_concat [of "map (\<lambda>x. le_encode w (unat x)) ws" w bs] n
    by (simp add: bytes_of_words_def)
  have "le_decode (le_encode w (unat x)) = unat x" for x :: "'a word"
    using unsigned_less [of x] w by (intro le_decode_encode) simp
  then show ?thesis
    by (simp add: words_of_bytes_def c o_def)
qed

lemma bytes_of_words_of_bytes:
  fixes bs :: "byte list"
  assumes w: "256 ^ w = (2::nat) ^ LENGTH('a::len)" and n: "length bs = w * n"
  shows "bytes_of_words w (words_of_bytes w n bs :: 'a word list) = bs"
proof -
  have "le_encode w (unat (word_of_nat (le_decode c) :: 'a word)) = c"
    if "c \<in> set (chunks w n bs)" for c
  proof -
    have l: "length c = w"
      using chunks_lengths [of w n bs c] n that by simp
    then have "le_decode c < 2 ^ LENGTH('a)"
      using le_decode_less [of c] w by simp
    then show ?thesis
      using l by (simp add: unat_of_nat le_encode_decode)
  qed
  then have "map (\<lambda>c. le_encode w (unat (word_of_nat (le_decode c) :: 'a word))) (chunks w n bs)
      = chunks w n bs"
    by (intro map_idI)
  then show ?thesis
    by (simp add: bytes_of_words_def words_of_bytes_def o_def concat_chunks [OF n])
qed

subsection \<open>Decimal numbers as \<^verbatim>\<open>printf\<close> writes them\<close>

fun dec :: "nat \<Rightarrow> string" where
  "dec n = (if n < 10 then [char_of (48 + n)] else dec (n div 10) @ [char_of (48 + n mod 10)])"

declare dec.simps [simp del]

definition dec_int :: "int \<Rightarrow> string" where
  "dec_int n = (if n < 0 then CHR ''-'' # dec (nat (- n)) else dec (nat n))"

lemma map_upt_split:
  "m \<le> n \<Longrightarrow> map f [0..<n] = map f [0..<m] @ map (\<lambda>j. f (m + j)) [0..<n - m]"
  by (rule nth_equalityI) (auto simp: nth_append)

lemma unat_less_u32: "unat (k :: u32) < 4294967296"
  using unsigned_less [of k, where 'a = nat] by simp

end
