(* ===== verification/Text_Stream.thy ===== *)
theory Text_Stream
  imports Main
begin

text \<open>
  Streams of the C library as the shells read them. A \<^verbatim>\<open>FILE *\<close> opened for reading is the text not yet
  read and the end-of-file flag; \<^verbatim>\<open>fgets\<close> stops after a newline or when the buffer is full, and sets
  the flag when it runs into the end of the text.
\<close>

record stream =
  rest :: string
  eof :: bool

definition newline :: char where
  "newline = CHR 0x0A"

fun take_line :: "nat \<Rightarrow> string \<Rightarrow> string \<times> string" where
  "take_line 0 s = ([], s)"
| "take_line (Suc n) [] = ([], [])"
| "take_line (Suc n) (c # s) =
     (if c = newline then ([c], s) else let (l, r) = take_line n s in (c # l, r))"

definition fgets :: "nat \<Rightarrow> stream \<Rightarrow> string option \<times> stream" where
  "fgets len fp =
     (if rest fp = [] then (None, fp\<lparr>eof := True\<rparr>)
      else let (l, r) = take_line (len - 1) (rest fp)
           in (Some l, \<lparr>rest = r,
                        eof = (eof fp \<or> (r = [] \<and> last l \<noteq> newline \<and> length l < len - 1))\<rparr>))"

text \<open>A line that fits a buffer of \<open>n\<close> bytes: it ends with its only newline.\<close>

definition prog_line :: "nat \<Rightarrow> string \<Rightarrow> bool" where
  "prog_line n l \<longleftrightarrow> (\<exists>w. l = w @ [newline] \<and> newline \<notin> set w \<and> length w + 1 < n)"

lemma take_line_ok:
  "newline \<notin> set w \<Longrightarrow> length w < n \<Longrightarrow> take_line n (w @ newline # r) = (w @ [newline], r)"
proof (induction w arbitrary: n)
  case Nil
  then show ?case by (cases n) auto
next
  case (Cons c w)
  then show ?case by (cases n) auto
qed

lemma fgets_line: "prog_line n l \<Longrightarrow> fgets n \<lparr>rest = l @ r, eof = e\<rparr> = (Some l, \<lparr>rest = r, eof = e\<rparr>)"
  by (auto simp: prog_line_def fgets_def take_line_ok)

lemma fgets_end: "fgets n \<lparr>rest = [], eof = e\<rparr> = (None, \<lparr>rest = [], eof = True\<rparr>)"
  by (simp add: fgets_def)

lemma take_line_all: "newline \<notin> set t \<Longrightarrow> length t < n \<Longrightarrow> take_line n t = (t, [])"
  by (induction n t rule: take_line.induct) auto

lemma fgets_rest:
  assumes "t \<noteq> []" and "newline \<notin> set t" and "length t < n - 1"
  shows "fgets n \<lparr>rest = t, eof = e\<rparr> = (Some t, \<lparr>rest = [], eof = True\<rparr>)"
proof -
  have "last t \<noteq> newline" using assms(1,2) last_in_set by metis
  then show ?thesis using assms by (simp add: fgets_def take_line_all)
qed

end
