(* ===== verification/C_String.thy ===== *)
theory C_String
  imports Prelude
begin

text \<open>
  The string functions of the C library that the programs use. A string is the list of its characters
  before the terminator; a character array in a structure is its list of bytes.
\<close>

subsection \<open>Tokens: strtok, strtok_r\<close>

text \<open>The next token of a string and what is left after the delimiter that ends it; \<open>None\<close> when only
  delimiters are left.\<close>

definition strtok_next :: "char \<Rightarrow> string \<Rightarrow> (string \<times> string) option" where
  "strtok_next c s =
     (let s = dropWhile (\<lambda>x. x = c) s
      in if s = [] then None else Some (takeWhile (\<lambda>x. x \<noteq> c) s, drop 1 (dropWhile (\<lambda>x. x \<noteq> c) s)))"

lemma strtok_next_None: "strtok_next c s = None \<longleftrightarrow> (\<forall>x \<in> set s. x = c)"
  by (simp add: strtok_next_def Let_def dropWhile_eq_Nil_conv)

lemma strtok_next_shorter:
  assumes "strtok_next c s = Some (t, r)"
  shows "length r < length s"
proof -
  let ?s = "dropWhile (\<lambda>x. x = c) s"
  have ne: "?s \<noteq> []" and r: "r = drop 1 (dropWhile (\<lambda>x. x \<noteq> c) ?s)"
    using assms by (auto simp: strtok_next_def Let_def split: if_splits)
  have "length r < length ?s"
    using ne length_dropWhile_le [of "\<lambda>x. x \<noteq> c" ?s] unfolding r by (cases ?s) auto
  then show ?thesis
    using length_dropWhile_le [of "\<lambda>x. x = c" s] by linarith
qed

lemma strtok_next_token:
  assumes "strtok_next c s = Some (t, r)"
  shows "t \<noteq> []" "c \<notin> set t"
proof -
  let ?s = "dropWhile (\<lambda>x. x = c) s"
  have "?s \<noteq> []" and t: "t = takeWhile (\<lambda>x. x \<noteq> c) ?s"
    using assms by (auto simp: strtok_next_def Let_def split: if_splits)
  then have "hd ?s \<noteq> c" using hd_dropWhile [of "\<lambda>x. x = c" s] by simp
  then show "t \<noteq> []" using \<open>?s \<noteq> []\<close> t by (cases ?s) auto
  show "c \<notin> set t" unfolding t by (auto dest: set_takeWhileD)
qed

function tokens :: "char \<Rightarrow> string \<Rightarrow> string list" where
  "tokens c s = (case strtok_next c s of None \<Rightarrow> [] | Some (t, r) \<Rightarrow> t # tokens c r)"
  by pat_completeness auto
termination
  by (relation "measure (\<lambda>(c, s). length s)") (auto dest: strtok_next_shorter)

declare tokens.simps [simp del]

lemma tokens_clean: "t \<in> set (tokens c s) \<Longrightarrow> t \<noteq> [] \<and> c \<notin> set t"
proof (induction c s rule: tokens.induct)
  case (1 c s)
  then show ?case
    by (cases "strtok_next c s") (auto simp: tokens.simps [of c s] dest: strtok_next_token)
qed

lemma tokens_delim [simp]: "tokens c (c # s) = tokens c s"
  by (subst (1 2) tokens.simps) (simp add: strtok_next_def)

lemma tokens_Nil [simp]: "tokens c [] = []"
  by (subst tokens.simps) (simp add: strtok_next_def)

lemma tokens_word:
  assumes "t \<noteq> []" and "c \<notin> set t"
  shows "tokens c t = [t]" "tokens c (t @ c # s) = t # tokens c s"
proof -
  have "dropWhile (\<lambda>x. x = c) (t @ u) = t @ u" for u using assms by (cases t) auto
  moreover have "takeWhile (\<lambda>x. x \<noteq> c) t = t" "dropWhile (\<lambda>x. x \<noteq> c) t = []"
    "takeWhile (\<lambda>x. x \<noteq> c) (t @ c # s) = t" "dropWhile (\<lambda>x. x \<noteq> c) (t @ c # s) = c # s"
    using assms(2) by (auto simp: takeWhile_append dropWhile_append)
  moreover have "dropWhile (\<lambda>x. x = c) t = t" "drop 1 (dropWhile (\<lambda>x. x \<noteq> c) t) = []"
    using calculation(1) [of "[]"] by (simp, simp only: calculation(3) drop_Nil)
  ultimately have "strtok_next c t = Some (t, [])" "strtok_next c (t @ c # s) = Some (t, s)"
    using assms(1) by (simp_all add: strtok_next_def Let_def del: drop_eq_Nil)
  then show "tokens c t = [t]" "tokens c (t @ c # s) = t # tokens c s"
    by (simp_all add: tokens.simps [of c t] tokens.simps [of c "t @ c # s"])
qed

lemma token_length: "t \<in> set (tokens c s) \<Longrightarrow> length t \<le> length (filter (\<lambda>x. x \<noteq> c) s)"
proof (induction c s rule: tokens.induct)
  case (1 c s)
  show ?case
  proof (cases "strtok_next c s")
    case None
    then show ?thesis using 1(2) by (simp add: tokens.simps [of c s])
  next
    case (Some tr)
    obtain u r where ur: "tr = (u, r)" by (cases tr)
    let ?s = "dropWhile (\<lambda>x. x = c) s"
    have u: "u = takeWhile (\<lambda>x. x \<noteq> c) ?s" "r = drop 1 (dropWhile (\<lambda>x. x \<noteq> c) ?s)"
      using Some ur by (simp_all add: strtok_next_def Let_def split: if_splits)
    let ?f = "filter (\<lambda>x. x \<noteq> c)" and ?d = "dropWhile (\<lambda>x. x \<noteq> c) (dropWhile (\<lambda>x. x = c) s)"
    have "?f ?s = ?f s" by (induction s) auto
    moreover have "?f ?s = ?f u @ ?f ?d"
      using filter_append [of "\<lambda>x. x \<noteq> c" u ?d] u(1) by (simp only: takeWhile_dropWhile_id)
    moreover have "?f u = u" by (simp only: filter_id_conv) (metis set_takeWhileD u(1))
    ultimately have e: "?f s = u @ ?f ?d" by simp
    have "length (filter P (drop 1 xs)) \<le> length (filter P xs)" for P and xs :: string by (cases xs) simp_all
    then have "length (?f r) \<le> length (?f ?d)" unfolding u(2) .
    then have le: "length u \<le> length (?f s)" "length (?f r) \<le> length (?f s)" unfolding e by simp_all
    have "t = u \<or> t \<in> set (tokens c r)" using 1(2) Some ur by (simp add: tokens.simps [of c s])
    then show ?thesis using le 1(1) [OF Some ur [symmetric]] Some ur by fastforce
  qed
qed

subsection \<open>Character arrays\<close>

definition cbytes :: "string \<Rightarrow> byte list" where
  "cbytes s = map of_char s"

text \<open>\<^verbatim>\<open>strncpy(dst, src, n)\<close>, as the contents of \<^verbatim>\<open>dst\<close> afterwards: the source is padded with zeros, and has no
  terminator when it is too long.\<close>

definition strncpy_bytes :: "nat \<Rightarrow> byte list \<Rightarrow> byte list" where
  "strncpy_bytes n src =
     (let t = take n (takeWhile (\<lambda>b. b \<noteq> 0) src) in t @ replicate (n - length t) 0)"

text \<open>\<^verbatim>\<open>!strcmp(s, a)\<close> for a string \<open>s\<close> and a character array \<open>a\<close>: it reads \<open>a\<close> up to the first difference, and is
  undefined when that is beyond the array.\<close>

fun strcmp_eq :: "string \<Rightarrow> byte list \<Rightarrow> bool option" where
  "strcmp_eq s [] = None"
| "strcmp_eq [] (b # bs) = Some (b = 0)"
| "strcmp_eq (c # cs) (b # bs) = (if of_char c = b then strcmp_eq cs bs else Some False)"

text \<open>The string an array holds.\<close>

definition cstring :: "byte list \<Rightarrow> string" where
  "cstring bs = map (\<lambda>b. char_of (unat b)) (takeWhile (\<lambda>b. b \<noteq> 0) bs)"

definition no_nul :: "string \<Rightarrow> bool" where
  "no_nul s \<longleftrightarrow> CHR 0x00 \<notin> set s"

lemma unat_of_char [simp]: "unat (of_char c :: byte) = of_char c"
proof -
  have "of_char c < (256 :: nat)" by (metis of_char_mod_256 mod_less_divisor zero_less_numeral)
  then have "unat (of_nat (of_char c) :: byte) = of_char c" by (rule unat_byte_of_nat)
  then show ?thesis by (simp only: of_nat_of_char)
qed

lemma byte_char [simp]: "(of_char c :: byte) = of_char d \<longleftrightarrow> c = d"
  by (metis char_of_char unat_of_char)

lemma of_char_zero: "(of_char c :: byte) = 0 \<longleftrightarrow> c = CHR 0x00"
  using byte_char [of c "CHR 0x00"] by simp

lemma length_cbytes [simp]: "length (cbytes s) = length s"
  by (simp add: cbytes_def)

lemma length_strncpy_bytes [simp]: "length (strncpy_bytes n src) = n"
  by (simp add: strncpy_bytes_def Let_def)

lemma no_nul_takeWhile [simp]: "no_nul s \<Longrightarrow> takeWhile (\<lambda>b. b \<noteq> 0) (cbytes s) = cbytes s"
  by (auto simp: no_nul_def cbytes_def of_char_zero intro!: takeWhile_eq_all_conv [THEN iffD2])

lemma strncpy_cbytes:
  "no_nul s \<Longrightarrow> length s \<le> n \<Longrightarrow> strncpy_bytes n (cbytes s) = cbytes s @ replicate (n - length s) 0"
  by (simp add: strncpy_bytes_def)

text \<open>Comparison with an array that holds a terminated string.\<close>

lemma strcmp_eq_stored:
  assumes "no_nul s" and "no_nul t" and "0 < k"
  shows "strcmp_eq s (cbytes t @ replicate k 0) = Some (s = t)"
  using assms
proof (induction s arbitrary: t)
  case Nil
  then show ?case by (cases t; cases k) (auto simp: cbytes_def no_nul_def of_char_zero)
next
  case (Cons c cs)
  have "of_char c \<noteq> (0 :: byte)" using Cons.prems(1) by (auto simp: no_nul_def of_char_zero)
  then show ?case
    using Cons by (cases t; cases k) (auto simp: cbytes_def no_nul_def)
qed

lemma cstring_stored: "no_nul s \<Longrightarrow> 0 < k \<Longrightarrow> cstring (cbytes s @ replicate k 0) = s"
  by (cases k) (auto simp: cstring_def takeWhile_append cbytes_def no_nul_def of_char_zero comp_def)

end
