(* ===== verification/Shell_Host.thy ===== *)
theory Shell_Host
  imports Prelude Text_Stream C_String
begin

text \<open>
  What the three shells take from the host, and the helpers their interpreters share. The host's file
  system and terminal are not part of the program: the record \<open>host\<close> holds the calls the shells make,
  on a state \<open>'h\<close> of the host that the model does not look into. The contents of a file are read when it
  is opened.
\<close>

record 'h host =
  h_read :: "string \<Rightarrow> 'h \<Rightarrow> string option"
  h_write :: "string \<Rightarrow> string \<Rightarrow> 'h \<Rightarrow> 'h option"
  h_mkdir :: "string \<Rightarrow> 'h \<Rightarrow> int \<times> 'h"
  h_chdir :: "string \<Rightarrow> 'h \<Rightarrow> int \<times> 'h"
  h_isdir :: "string \<Rightarrow> 'h \<Rightarrow> bool option"
  h_list :: "string \<Rightarrow> 'h \<Rightarrow> string list option"
  h_unlink :: "string \<Rightarrow> 'h \<Rightarrow> int \<times> 'h"
  h_rmdir :: "string \<Rightarrow> 'h \<Rightarrow> int \<times> 'h"
  h_realpath :: "string \<Rightarrow> 'h \<Rightarrow> string option"
  h_system :: "string \<Rightarrow> 'h \<Rightarrow> int \<times> string \<times> 'h"
  h_tty :: "'h \<Rightarrow> (stream \<times> 'h) option"
  h_isatty :: "'h \<Rightarrow> bool"

text \<open>In the order of the fields: \<^verbatim>\<open>fopen\<close> for reading and the contents, or no file; \<^verbatim>\<open>fopen\<close> for writing, writing the
  given contents and closing, \<open>None\<close> when it cannot be opened; \<^verbatim>\<open>mkdir\<close>; \<^verbatim>\<open>chdir\<close>; \<^verbatim>\<open>stat\<close> and \<^verbatim>\<open>S_ISDIR\<close>; the names that
  \<^verbatim>\<open>readdir\<close> gives for a directory; \<^verbatim>\<open>unlink\<close>; \<^verbatim>\<open>rmdir\<close>; \<^verbatim>\<open>realpath\<close>; \<^verbatim>\<open>system\<close> with its status and output; \<^verbatim>\<open>freopen\<close> of the
  terminal on the standard input; \<^verbatim>\<open>isatty\<close> of the standard input.\<close>

subsection \<open>Arguments of a command\<close>

definition nul :: char where
  "nul = CHR 0x00"

definition blank :: char where
  "blank = CHR 0x20"

text \<open>A string ends at its terminator.\<close>

definition c_str :: "string \<Rightarrow> string" where
  "c_str s = takeWhile (\<lambda>c. c \<noteq> nul) s"

text \<open>\<^verbatim>\<open>w[strcspn(w, "\r\n")] = 0\<close>\<close>

definition strip :: "string \<Rightarrow> string" where
  "strip w = takeWhile (\<lambda>c. c \<noteq> CHR 0x0D \<and> c \<noteq> newline) w"

text \<open>The argument vector is an array of which only the first entries are set.\<close>

definition arg :: "string list \<Rightarrow> nat \<Rightarrow> string option" where
  "arg ws i = (if i < length ws then Some (ws ! i) else None)"

text \<open>The words from index \<open>i\<close> up to \<open>j\<close>, the first of them in any case, with a space before each but the first,
  copied into an array of \<open>n\<close> bytes.\<close>

definition joined_args :: "nat \<Rightarrow> string list \<Rightarrow> nat \<Rightarrow> nat \<Rightarrow> string option" where
  "joined_args n ws i j =
     do { w \<leftarrow> arg ws i;
          let v = w @ concat (map (\<lambda>k. blank # ws ! k) [i + 1..<j]);
          if length v < n then Some v else None }"

text \<open>\<^verbatim>\<open>printf("%s\n", s)\<close>, as the text it adds to the standard output.\<close>

definition line_of :: "string \<Rightarrow> string" where
  "line_of s = s @ [newline]"

subsection \<open>Facts\<close>

text \<open>A word that the shells take as one argument.\<close>

definition plain_char :: "char \<Rightarrow> bool" where
  "plain_char c \<longleftrightarrow> c \<notin> {nul, blank, newline, CHR 0x0D, CHR '';''}"

definition plain :: "string \<Rightarrow> bool" where
  "plain w \<longleftrightarrow> w \<noteq> [] \<and> (\<forall>c \<in> set w. plain_char c)"

definition spaced :: "string list \<Rightarrow> string" where
  "spaced ws = concat (map (\<lambda>w. blank # w) ws)"

text \<open>The line that gives a command with its arguments.\<close>

definition cmd_line :: "string list \<Rightarrow> string" where
  "cmd_line ws = hd ws @ spaced (tl ws)"

lemmas char_defs = nul_def blank_def newline_def

lemma strip_plain [simp]: "plain w \<Longrightarrow> strip w = w"
  by (auto simp: strip_def plain_def plain_char_def intro!: takeWhile_eq_all_conv [THEN iffD2])

lemma c_str_plain [simp]: "plain w \<Longrightarrow> c_str w = w"
  by (auto simp: c_str_def plain_def plain_char_def intro!: takeWhile_eq_all_conv [THEN iffD2])

text \<open>A plain word is what a scan takes that goes on at plain characters and stops at the next one.\<close>

lemma plain_prefix:
  assumes "plain w" and "\<And>c. plain_char c \<Longrightarrow> P c" and "x = [] \<or> \<not> P (hd x)"
  shows "takeWhile P (w @ x) = w" "dropWhile P (w @ x) = x"
proof -
  have "\<forall>c \<in> set w. P c" using assms(1,2) by (auto simp: plain_def)
  then show "takeWhile P (w @ x) = w" "dropWhile P (w @ x) = x" using assms(3) by (cases x; simp)+
qed

lemma map_strip_plain [simp]: "\<forall>w \<in> set ws. plain w \<Longrightarrow> map strip ws = ws"
  by (simp add: map_idI)

lemma spaced_Nil [simp]: "spaced [] = []"
  by (simp add: spaced_def)

lemma spaced_Cons [simp]: "spaced (w # ws) = blank # w @ spaced ws"
  by (simp add: spaced_def)

lemma joined_args_range:
  assumes "i < j" and "j \<le> length ws" and "length (ws ! i @ spaced (take (j - Suc i) (drop (Suc i) ws))) < n"
  shows "joined_args n ws i j = Some (ws ! i @ spaced (take (j - Suc i) (drop (Suc i) ws)))"
proof -
  have "map ((!) ws) [Suc i..<j] = take (j - Suc i) (drop (Suc i) ws)"
    using assms(2) by (intro nth_equalityI) auto
  then have "map (\<lambda>k. blank # ws ! k) [Suc i..<j] = map ((#) blank) (take (j - Suc i) (drop (Suc i) ws))"
    by (metis (no_types, lifting) comp_apply map_eq_conv map_map)
  then show ?thesis
    using assms by (simp add: joined_args_def arg_def spaced_def)
qed

lemma plain_no_nul: "plain w \<Longrightarrow> nul \<notin> set w"
  by (auto simp: plain_def plain_char_def)

lemma c_str_id [simp]: "nul \<notin> set s \<Longrightarrow> c_str s = s"
  by (auto simp: c_str_def intro!: takeWhile_eq_all_conv [THEN iffD2])

lemma spaced_no_nul: "\<forall>w \<in> set ws. plain w \<Longrightarrow> nul \<notin> set (spaced ws)"
  by (auto simp: spaced_def dest: plain_no_nul) (auto simp: char_defs)

text \<open>A host with plain files and no directories, to try the shells on.\<close>

definition files_only :: "(string \<rightharpoonup> string) host" where
  "files_only =
     \<lparr>h_read = (\<lambda>f h. h f), h_write = (\<lambda>f t h. Some (h(f \<mapsto> t))), h_mkdir = (\<lambda>d h. (-1, h)), h_chdir = (\<lambda>d h. (-1, h)),
      h_isdir = (\<lambda>f h. map_option (\<lambda>t. False) (h f)), h_list = (\<lambda>d h. None),
      h_unlink = (\<lambda>f h. if h f = None then (-1, h) else (0, h(f := None))), h_rmdir = (\<lambda>d h. (-1, h)),
      h_realpath = (\<lambda>f h. Some f), h_system = (\<lambda>c h. (0, [], h)), h_tty = (\<lambda>h. Some (\<lparr>rest = [], eof = False\<rparr>, h)),
      h_isatty = (\<lambda>h. False)\<rparr>"

end
