(* ===== verification/Var_Store.thy ===== *)
theory Var_Store
  imports Main
begin

text \<open>
  The contract of a store of shell variables. The three shells each have one (\<^verbatim>\<open>a1/shellmemory.c\<close>,
  \<^verbatim>\<open>a2/shellmemory.c\<close>, \<^verbatim>\<open>a3/shellmemory.c\<close>): an array searched by name, in which one name marks a free
  cell. \<open>look m s\<close> is the value a reader of variable \<open>s\<close> gets, \<open>room s m\<close> says that the array has a cell
  for \<open>s\<close>, and \<open>reserved\<close> is the name that marks a free cell.
\<close>

locale var_store =
  fixes ok :: "'m \<Rightarrow> bool"
    and look :: "'m \<Rightarrow> string \<Rightarrow> string option"
    and room :: "string \<Rightarrow> 'm \<Rightarrow> bool"
    and put :: "string \<Rightarrow> string \<Rightarrow> 'm \<Rightarrow> 'm"
    and reserved :: string
  assumes put_ok: "ok m \<Longrightarrow> s \<noteq> reserved \<Longrightarrow> room s m \<Longrightarrow> ok (put s v m)"
    and look_put_same: "ok m \<Longrightarrow> s \<noteq> reserved \<Longrightarrow> room s m \<Longrightarrow> look (put s v m) s = Some v"
    and look_put_other: "ok m \<Longrightarrow> s \<noteq> reserved \<Longrightarrow> room s m \<Longrightarrow> t \<noteq> s \<Longrightarrow> t \<noteq> reserved \<Longrightarrow>
      look (put s v m) t = look m t"
    and look_room: "look m s \<noteq> None \<Longrightarrow> room s m"
begin

text \<open>A variable that was stored can be stored again, and the last value stored is the one read.\<close>

lemma put_put:
  assumes "ok m" and "s \<noteq> reserved" and "room s m" and "t \<noteq> reserved"
  shows "look (put s w (put s v m)) t = look (put s w m) t"
proof -
  have r: "room s (put s v m)" using look_room [of "put s v m" s] look_put_same [OF assms(1-3)] by simp
  note ok = put_ok [OF assms(1-3), of v]
  show ?thesis
  proof (cases "t = s")
    case True
    then show ?thesis
      using look_put_same [OF ok assms(2) r] look_put_same [OF assms(1-3)] by simp
  next
    case False
    then show ?thesis
      using look_put_other [OF ok assms(2) r False assms(4)] look_put_other [OF assms(1-3) False assms(4)]
      by simp
  qed
qed

text \<open>Storing different variables in either order gives the same variables.\<close>

lemma put_commute:
  assumes "ok m" and "s \<noteq> reserved" and "t \<noteq> reserved" and "s \<noteq> t" and "u \<noteq> reserved"
    and "room s m" and "room t m" and "room t (put s v m)" and "room s (put t w m)"
  shows "look (put t w (put s v m)) u = look (put s v (put t w m)) u"
  using assms put_ok [OF assms(1,2,6), of v] put_ok [OF assms(1,3,7), of w]
  by (cases "u = s"; cases "u = t") (simp_all add: look_put_same look_put_other)

end

subsection \<open>Arrays of named cells\<close>

text \<open>The array of names and values as all three shells search it, from the index \<open>b\<close> on (0 in the first
  shell, the end of the frame store in the others): a name that occurs is given a new value in
  place, otherwise the first free cell is taken.\<close>

type_synonym vcell = "string \<times> string"

definition find_named :: "nat \<Rightarrow> string \<Rightarrow> vcell list \<Rightarrow> nat option" where
  "find_named b s cs = find (\<lambda>k. fst (cs ! k) = s) [b..<length cs]"

definition get_named :: "nat \<Rightarrow> vcell list \<Rightarrow> string \<Rightarrow> string option" where
  "get_named b cs s = map_option (\<lambda>k. snd (cs ! k)) (find_named b s cs)"

definition set_named :: "nat \<Rightarrow> string \<Rightarrow> string \<Rightarrow> vcell list \<Rightarrow> vcell list" where
  "set_named b s v cs =
     (case find_named b s cs of
        Some k \<Rightarrow> cs[k := (fst (cs ! k), v)]
      | None \<Rightarrow> (case find_named b ''none'' cs of Some k \<Rightarrow> cs[k := (s, v)] | None \<Rightarrow> cs))"

text \<open>No name occurs twice, apart from the mark of a free cell.\<close>

definition wf_named :: "nat \<Rightarrow> vcell list \<Rightarrow> bool" where
  "wf_named b cs \<longleftrightarrow>
     (\<forall>i j. b \<le> i \<and> i < length cs \<and> b \<le> j \<and> j < length cs \<and> fst (cs ! i) = fst (cs ! j) \<and>
        fst (cs ! i) \<noteq> ''none'' \<longrightarrow> i = j)"

definition room_named :: "nat \<Rightarrow> string \<Rightarrow> vcell list \<Rightarrow> bool" where
  "room_named b s cs \<longleftrightarrow> (\<exists>k. b \<le> k \<and> k < length cs \<and> fst (cs ! k) \<in> {s, ''none''})"

lemma find_named_Some:
  "find_named b s cs = Some k \<longleftrightarrow>
     b \<le> k \<and> k < length cs \<and> fst (cs ! k) = s \<and> (\<forall>j. b \<le> j \<and> j < k \<longrightarrow> fst (cs ! j) \<noteq> s)"
  (is "?L \<longleftrightarrow> ?R")
proof
  assume ?L
  then obtain n where n: "n < length cs - b" "k = b + n" "fst (cs ! (b + n)) = s"
    "\<forall>j < n. fst (cs ! (b + j)) \<noteq> s" by (auto simp: find_named_def find_Some_iff)
  then have "fst (cs ! j) \<noteq> s" if "b \<le> j" "j < k" for j
    using that n(4) [rule_format, of "j - b"] by auto
  then show ?R using n by auto
next
  assume ?R
  then show ?L unfolding find_named_def find_Some_iff by (intro exI [of _ "k - b"]) auto
qed

lemma find_named_None:
  "find_named b s cs = None \<longleftrightarrow> (\<forall>k. b \<le> k \<and> k < length cs \<longrightarrow> fst (cs ! k) \<noteq> s)"
  by (auto simp: find_named_def find_None_iff)

lemma wf_named_unique:
  assumes "wf_named b cs" and "b \<le> i" and "i < length cs" and "b \<le> j" and "j < length cs"
    and "fst (cs ! i) = s" and "fst (cs ! j) = s" and "s \<noteq> ''none''"
  shows "i = j"
  using assms(1) [unfolded wf_named_def, THEN spec, THEN spec, of i j] assms(2-) by simp

lemma find_named_eq:
  assumes "wf_named b cs" and "s \<noteq> ''none''" and "b \<le> k" and "k < length cs" and "fst (cs ! k) = s"
  shows "find_named b s cs = Some k"
proof -
  have "fst (cs ! j) \<noteq> s" if "b \<le> j" "j < k" for j
    using wf_named_unique [OF assms(1) that(1) _ assms(3,4) _ assms(5,2)] that(2) assms(4) by auto
  then show ?thesis using assms by (simp add: find_named_Some)
qed

lemma length_set_named [simp]: "length (set_named b s v cs) = length cs"
  by (simp add: set_named_def split: option.split)

lemma set_named_below: "i < b \<Longrightarrow> set_named b s v cs ! i = cs ! i"
  by (auto simp: set_named_def find_named_Some split: option.splits)

text \<open>Storing a variable writes one cell: its old one, or the first free one.\<close>

lemma set_named_cell:
  assumes "s \<noteq> ''none''" and "room_named b s cs"
  shows "\<exists>k. b \<le> k \<and> k < length cs \<and> fst (cs ! k) \<in> {s, ''none''} \<and>
    (fst (cs ! k) = ''none'' \<longrightarrow> find_named b s cs = None) \<and> set_named b s v cs = cs[k := (s, v)]"
proof (cases "find_named b s cs")
  case (Some k)
  then have k: "b \<le> k" "k < length cs" "fst (cs ! k) = s" by (simp_all add: find_named_Some)
  moreover have "set_named b s v cs = cs[k := (s, v)]" using Some k(3) by (simp add: set_named_def)
  ultimately show ?thesis using assms(1) by blast
next
  case None
  then have "find_named b ''none'' cs \<noteq> None" using assms(2) by (auto simp: find_named_None room_named_def)
  then obtain k where "find_named b ''none'' cs = Some k" by blast
  moreover from this have "b \<le> k" "k < length cs" "fst (cs ! k) = ''none''" by (simp_all add: find_named_Some)
  moreover have "set_named b s v cs = cs[k := (s, v)]" using None calculation(1) by (simp add: set_named_def)
  ultimately show ?thesis using None by blast
qed

lemma set_named_ok:
  assumes wf: "wf_named b cs" and s: "s \<noteq> ''none''" and r: "room_named b s cs"
  shows "wf_named b (set_named b s v cs)" "get_named b (set_named b s v cs) s = Some v"
    "t \<noteq> s \<Longrightarrow> t \<noteq> ''none'' \<Longrightarrow> get_named b (set_named b s v cs) t = get_named b cs t"
proof -
  obtain k where k: "b \<le> k" "k < length cs" "fst (cs ! k) \<in> {s, ''none''}"
    "fst (cs ! k) = ''none'' \<longrightarrow> find_named b s cs = None" and set: "set_named b s v cs = cs[k := (s, v)]"
    using set_named_cell [OF s r] by blast
  have uniq: "fst (cs ! i) \<noteq> s" if "b \<le> i" "i < length cs" "i \<noteq> k" for i
  proof (cases "fst (cs ! k) = s")
    case True
    then show ?thesis using wf_named_unique [OF wf that(1,2) k(1,2) _ True s] that(3) by blast
  next
    case False
    then show ?thesis using k(3,4) that by (auto simp: find_named_None)
  qed
  show wf': "wf_named b (set_named b s v cs)"
    unfolding wf_named_def set
  proof (intro allI impI)
    fix i j assume ij: "b \<le> i \<and> i < length (cs[k := (s, v)]) \<and> b \<le> j \<and> j < length (cs[k := (s, v)]) \<and>
      fst (cs[k := (s, v)] ! i) = fst (cs[k := (s, v)] ! j) \<and> fst (cs[k := (s, v)] ! i) \<noteq> ''none''"
    show "i = j"
    proof (cases "i = k \<or> j = k")
      case True
      then show ?thesis using ij uniq [of i] uniq [of j] k(2) by (auto simp: nth_list_update split: if_splits)
    next
      case False
      then show ?thesis using ij wf_named_unique [OF wf, of i j] by (auto simp: nth_list_update)
    qed
  qed
  show "get_named b (set_named b s v cs) s = Some v"
    using find_named_eq [OF wf' s, of k] k(1,2) by (simp add: get_named_def set)
  assume t: "t \<noteq> s" "t \<noteq> ''none''"
  have "fst (cs[k := (s, v)] ! i) = t \<longleftrightarrow> fst (cs ! i) = t" for i
    using k(2,3) t by (cases "i = k") auto
  then have same: "find_named b t (set_named b s v cs) = find_named b t cs" by (simp add: find_named_def set)
  have "i \<noteq> k" if "find_named b t cs = Some i" for i
    using that k(3) t by (auto simp: find_named_Some)
  then show "get_named b (set_named b s v cs) t = get_named b cs t"
    by (cases "find_named b t cs") (auto simp: get_named_def same [unfolded set] set)
qed

lemma wf_set_named: "wf_named b cs \<Longrightarrow> wf_named b (set_named b x v cs)"
proof (cases "x \<noteq> ''none'' \<and> room_named b x cs")
  case True
  assume "wf_named b cs"
  with True show ?thesis using set_named_ok(1) by blast
next
  case False
  assume wf: "wf_named b cs"
  have "map fst (set_named b x v cs) = map fst cs"
  proof (cases "find_named b x cs")
    case None
    then have "find_named b ''none'' cs = None"
      using False by (auto simp: find_named_None room_named_def)
    then show ?thesis using None by (simp add: set_named_def)
  next
    case (Some k)
    moreover from this have "fst (cs ! k) = x" "k < length cs" by (simp_all add: find_named_Some)
    ultimately show ?thesis by (simp add: set_named_def map_update list_update_same_conv)
  qed
  moreover have "wf_named b us \<longleftrightarrow> wf_named b vs" if "map fst us = map fst vs" for us vs :: "vcell list"
    using that by (auto simp: wf_named_def) (metis length_map nth_map)+
  ultimately show ?thesis using wf by blast
qed

lemma wf_named_clear: "wf_named b cs \<Longrightarrow> wf_named b (cs[i := (''none'', v)])"
  unfolding wf_named_def by (cases "i < length cs") (auto simp: nth_list_update split: if_splits)

lemma wf_named_below:
  assumes "i < b"
  shows "wf_named b (cs[i := x]) = wf_named b cs"
proof -
  have "cs[i := x] ! k = cs ! k" if "b \<le> k" for k using that assms by simp
  then show ?thesis unfolding wf_named_def by (metis length_list_update)
qed

lemma get_named_room: "get_named b cs s \<noteq> None \<Longrightarrow> room_named b s cs"
  by (auto simp: get_named_def room_named_def find_named_Some)

interpretation named: var_store "wf_named b" "get_named b" "room_named b" "set_named b" "''none''" for b
  by unfold_locales (simp_all add: set_named_ok get_named_room)

end
