(* ===== verification/Shell_Memory.thy ===== *)
theory Shell_Memory
  imports Prelude Var_Store Text_Stream
begin

text \<open>
  The memories of the first and the third shell (\<^verbatim>\<open>a1/shellmemory.c\<close>, \<^verbatim>\<open>a3/shellmemory.c\<close>) and the
  processes of the third (\<^verbatim>\<open>a3/pcb.c\<close>). A cell is a name and a value; these shells never free a string,
  so a string is its characters. The functions that exist in several shells carry the name of the
  assignment as a suffix. A function that may call \<^verbatim>\<open>exit\<close> returns an \<open>outcome\<close>.
\<close>

subsection \<open>The first shell: a1/shellmemory.c\<close>

type_synonym memory_a1 = "vcell list"

definition mem_init_a1 :: "memory_a1 \<Rightarrow> memory_a1" where
  "mem_init_a1 cs = map (\<lambda>c. (''none'', ''none'')) cs"

definition mem_set_value_a1 :: "string \<Rightarrow> string \<Rightarrow> memory_a1 \<Rightarrow> memory_a1" where
  "mem_set_value_a1 var_in value_in cs =
     (case find_named 0 var_in cs of
        Some i \<Rightarrow> cs[i := (fst (cs ! i), value_in)]
      | None \<Rightarrow>
          (case find_named 0 ''none'' cs of Some i \<Rightarrow> cs[i := (var_in, value_in)] | None \<Rightarrow> cs))"

definition mem_get_value_a1 :: "string \<Rightarrow> memory_a1 \<Rightarrow> string option" where
  "mem_get_value_a1 var_in cs =
     (case find_named 0 var_in cs of Some i \<Rightarrow> Some (snd (cs ! i)) | None \<Rightarrow> None)"

subsection \<open>The third shell: a3/shellmemory.c\<close>

record memory_a3 =
  mcells :: "vcell list"
  border :: nat

definition mem_init_a3 :: "memory_a3 \<Rightarrow> memory_a3" where
  "mem_init_a3 m = m\<lparr>mcells := map (\<lambda>c. (''none'', ''none'')) (mcells m)\<rparr>"

definition in_mem :: "int \<Rightarrow> memory_a3 \<Rightarrow> bool" where
  "in_mem pos m \<longleftrightarrow> 0 \<le> pos \<and> nat pos < length (mcells m)"

definition mem_free_at :: "int \<Rightarrow> memory_a3 \<Rightarrow> memory_a3 option" where
  "mem_free_at pos m =
     (if in_mem pos m then Some (m\<lparr>mcells := (mcells m)[nat pos := (''none'', ''none'')]\<rparr>) else None)"

text \<open>The inner loop of \<^verbatim>\<open>frame_alloc\<close>: the first index from \<open>j\<close> on that is occupied, or where the loop
  ends.\<close>

function window_loop :: "vcell list \<Rightarrow> nat \<Rightarrow> nat \<Rightarrow> nat \<Rightarrow> nat" where
  "window_loop cs bd j stop =
     (if j < stop \<and> j < bd
      then if fst (cs ! j) \<noteq> ''none'' then j else window_loop cs bd (j + 1) stop
      else j)"
  by pat_completeness auto
termination
  by (relation "measure (\<lambda>(cs, bd, j, stop). stop - j)") auto

declare window_loop.simps [simp del]

text \<open>The result is the return value, the cells, and the contents of \<^verbatim>\<open>index\<close> and \<^verbatim>\<open>valid_bit\<close> after the
  call, \<open>None\<close> when they are not written.\<close>

fun frame_loop ::
  "string \<Rightarrow> nat \<Rightarrow> nat \<Rightarrow> memory_a3 \<Rightarrow> int \<times> (int list \<times> int list) option \<times> memory_a3" where
  "frame_loop pid i 0 m = (1, None, m)"
| "frame_loop pid i (Suc n) m =
     (if window_loop (mcells m) (border m) i (i + 3) = i + 3
      then (0, Some ([int i, int i + 1, int i + 2], [0, 0, 0]),
            m\<lparr>mcells := (mcells m)[i := (pid, snd (mcells m ! i)), i + 1 := (pid, snd (mcells m ! (i + 1))),
                                  i + 2 := (pid, snd (mcells m ! (i + 2)))]\<rparr>)
      else frame_loop pid (Suc i) n m)"

definition frame_alloc :: "string \<Rightarrow> memory_a3 \<Rightarrow> int \<times> (int list \<times> int list) option \<times> memory_a3" where
  "frame_alloc pid m = frame_loop pid 0 (border m) m"

text \<open>Stores a line; the third result is the new value of \<^verbatim>\<open>*valid_bit\<close>.\<close>

definition mem_set_value_at :: "int \<Rightarrow> string \<Rightarrow> string \<Rightarrow> memory_a3 \<Rightarrow> (int \<times> memory_a3) option" where
  "mem_set_value_at pos pid value_in m =
     (if in_mem pos m then Some (1, m\<lparr>mcells := (mcells m)[nat pos := (pid, value_in)]\<rparr>) else None)"

definition mem_get_value_at :: "int \<Rightarrow> memory_a3 \<Rightarrow> string option" where
  "mem_get_value_at pos m = (if in_mem pos m then Some (snd (mcells m ! nat pos)) else None)"

definition mem_set_value_a3 :: "string \<Rightarrow> string \<Rightarrow> memory_a3 \<Rightarrow> memory_a3" where
  "mem_set_value_a3 var_in value_in m =
     (case find_named (border m) var_in (mcells m) of
        Some i \<Rightarrow> m\<lparr>mcells := (mcells m)[i := (fst (mcells m ! i), value_in)]\<rparr>
      | None \<Rightarrow>
          (case find_named (border m) ''none'' (mcells m) of
             Some i \<Rightarrow> m\<lparr>mcells := (mcells m)[i := (var_in, value_in)]\<rparr>
           | None \<Rightarrow> m))"

definition mem_get_value_a3 :: "string \<Rightarrow> char \<Rightarrow> memory_a3 \<Rightarrow> string" where
  "mem_get_value_a3 var_in caller m =
     (case find_named (border m) var_in (mcells m) of
        Some i \<Rightarrow> snd (mcells m ! i)
      | None \<Rightarrow> if caller = CHR ''p'' then ''Variable does not exist'' else '''')"

fun free_run :: "int \<Rightarrow> nat \<Rightarrow> memory_a3 \<Rightarrow> memory_a3 option" where
  "free_run i 0 m = Some m"
| "free_run i (Suc n) m = do { m \<leftarrow> mem_free_at i m; free_run (i + 1) n m }"

definition reset_var_zone :: "memory_a3 \<Rightarrow> memory_a3 option" where
  "reset_var_zone m = free_run (int (border m)) (length (mcells m) - border m) m"

definition clear_frame :: "int \<Rightarrow> memory_a3 \<Rightarrow> memory_a3 option" where
  "clear_frame start_pos m = free_run start_pos 3 m"

definition printShellMemory_a3 :: "memory_a3 \<Rightarrow> console \<Rightarrow> console" where
  "printShellMemory_a3 m out =
     (let used = filter (\<lambda>i. fst (mcells m ! i) \<noteq> ''none'') [0..<length (mcells m)];
          total = length (mcells m)
      in out @ map (\<lambda>i. Print (''line '' @ dec i @ '': key: '' @ fst (mcells m ! i) @ [CHR 0x09, CHR 0x09]
                          @ ''value: '' @ snd (mcells m ! i))) used
             @ [Print (dec total @ '' lines in total, '' @ dec (length used) @ '' lines in use, ''
                  @ dec (total - length used) @ '' lines free'')])"

subsection \<open>Processes of the third shell: a3/pcb.c\<close>

record page =
  index :: "int list"
  valid_bit :: "int list"
  page_index :: int
  page_pid :: int

record pcb_a3 =
  pid_a3 :: int
  lines_a3 :: int
  program_counter :: "int list"
  page_table :: "page list"
  page_table_size :: int
  source_file :: stream

text \<open>A newline counts unless it follows a newline (or is the first character).\<close>

fun count_newlines :: "char \<Rightarrow> string \<Rightarrow> int" where
  "count_newlines lst [] = 0"
| "count_newlines lst (c # s) = (if c = newline \<and> lst \<noteq> newline then 1 else 0) + count_newlines c s"

definition count_lines :: "string option \<Rightarrow> int" where
  "count_lines script = (case script of None \<Rightarrow> - 1 | Some s \<Rightarrow> count_newlines newline s + 1)"

definition PAGE_table_size :: "int \<Rightarrow> int" where
  "PAGE_table_size lns = (if lns smod 3 = 0 then lns sdiv 3 else lns sdiv 3 + 1)"

definition PAGE_init :: "int \<Rightarrow> int \<Rightarrow> page" where
  "PAGE_init ppid idx = \<lparr>index = [1000, 1000, 1000], valid_bit = [0, 0, 0], page_index = idx, page_pid = ppid\<rparr>"

text \<open>Reading the lines of one page into its frame, from line \<open>j\<close> on.\<close>

fun page_lines ::
  "nat \<Rightarrow> nat \<Rightarrow> string \<Rightarrow> page \<Rightarrow> stream \<Rightarrow> memory_a3 \<Rightarrow> (page \<times> stream \<times> memory_a3) option" where
  "page_lines j 0 pid pg fp m = Some (pg, fp, m)"
| "page_lines j (Suc n) pid pg fp m =
     (case fgets 999 fp of
        (Some line, fp) \<Rightarrow>
          do { (v, m) \<leftarrow> mem_set_value_at (index pg ! j) pid line m;
               page_lines (Suc j) n pid (pg\<lparr>valid_bit := (valid_bit pg)[j := v]\<rparr>) fp m }
      | (None, fp) \<Rightarrow> Some (pg, fp, m))"

text \<open>One page: allocate a frame (\<open>False\<close> when there is none) and read its lines.\<close>

definition fill_page ::
  "string \<Rightarrow> page \<Rightarrow> stream \<Rightarrow> memory_a3 \<Rightarrow> (bool \<times> page \<times> stream \<times> memory_a3) option" where
  "fill_page pid pg fp m =
     (case frame_alloc pid m of
        (r, w, m) \<Rightarrow>
          if r = 1 then Some (False, pg, fp, m)
          else case w of
                 None \<Rightarrow> None
               | Some (idx, v) \<Rightarrow>
                   do { (pg, fp, m) \<leftarrow> page_lines 0 3 pid (pg\<lparr>index := idx, valid_bit := v\<rparr>) fp m;
                        Some (True, pg, fp, m) })"

fun init_pages ::
  "nat \<Rightarrow> nat \<Rightarrow> pcb_a3 \<Rightarrow> memory_a3 \<Rightarrow> console \<Rightarrow> (pcb_a3 outcome \<times> memory_a3 \<times> console) option" where
  "init_pages i 0 p m out = Some (Done p, m, out)"
| "init_pages i (Suc n) p m out =
     (if i < length (page_table p)
      then do { (ok, pg, fp, m) \<leftarrow> fill_page (dec_int (pid_a3 p)) (page_table p ! i) (source_file p) m;
                if ok
                then init_pages (Suc i) n (p\<lparr>page_table := (page_table p)[i := pg], source_file := fp\<rparr>) m out
                else Some (Exit 99, m, printShellMemory_a3 m out @ [Print ''frame_alloc failed'']) }
      else None)"

text \<open>\<open>script\<close> is the text of the file, \<open>None\<close> when it cannot be opened: then the page table is built
  before the test, and the program exits.\<close>

definition PCB_init ::
  "int \<Rightarrow> string \<Rightarrow> string option \<Rightarrow> memory_a3 \<Rightarrow> console \<Rightarrow> (pcb_a3 outcome \<times> memory_a3 \<times> console) option" where
  "PCB_init PID name script m out =
     (let n = PAGE_table_size (count_lines script)
      in case script of
           None \<Rightarrow> Some (Exit 99, m, out @ [Print (''File not found: '' @ name)])
         | Some s \<Rightarrow>
             let p = \<lparr>pid_a3 = PID, lines_a3 = count_lines script, program_counter = replicate (nat n) 0,
                      page_table = map (\<lambda>i. PAGE_init PID (int i)) [0..<nat n], page_table_size = n,
                      source_file = \<lparr>rest = s, eof = False\<rparr>\<rparr>
             in init_pages 0 (nat (if 2 > n then n else 2)) p m out)"

definition load_PAGE :: "pcb_a3 \<Rightarrow> nat \<Rightarrow> memory_a3 \<Rightarrow> (int \<times> pcb_a3 \<times> memory_a3) option" where
  "load_PAGE p pi m =
     (if pi < length (page_table p)
      then do { (ok, pg, fp, m) \<leftarrow> fill_page (dec_int (pid_a3 p)) (page_table p ! pi) (source_file p) m;
                if ok then Some (0, p\<lparr>page_table := (page_table p)[pi := pg], source_file := fp\<rparr>, m)
                else Some (1, p, m) }
      else None)"

fun clear_page :: "int list \<Rightarrow> memory_a3 \<Rightarrow> memory_a3 option" where
  "clear_page [] m = Some m"
| "clear_page (i # is) m = do { m \<leftarrow> clear_frame i m; clear_page is m }"

fun clear_pages :: "page list \<Rightarrow> memory_a3 \<Rightarrow> memory_a3 option" where
  "clear_pages [] m = Some m"
| "clear_pages (pg # pgs) m = do { m \<leftarrow> clear_page (index pg) m; clear_pages pgs m }"

definition free_PCB :: "pcb_a3 \<Rightarrow> memory_a3 \<Rightarrow> memory_a3 option" where
  "free_PCB p m = clear_pages (page_table p) m"

fun evict_lines :: "nat \<Rightarrow> nat \<Rightarrow> page \<Rightarrow> memory_a3 \<Rightarrow> console \<Rightarrow> (page \<times> memory_a3 \<times> console) option" where
  "evict_lines i 0 pg m out = Some (pg, m, out)"
| "evict_lines i (Suc n) pg m out =
     do { v \<leftarrow> mem_get_value_at (index pg ! i) m;
          m \<leftarrow> mem_free_at (index pg ! i) m;
          evict_lines (Suc i) n (pg\<lparr>index := (index pg)[i := 0], valid_bit := (valid_bit pg)[i := 0]\<rparr>) m
            (out @ [Print v]) }"

definition PAGE_evict :: "pcb_a3 \<Rightarrow> nat \<Rightarrow> memory_a3 \<Rightarrow> console \<Rightarrow> (pcb_a3 \<times> memory_a3 \<times> console) option" where
  "PAGE_evict p pi m out =
     (if pi < length (page_table p)
      then do { (pg, m, out) \<leftarrow> evict_lines 0 3 (page_table p ! pi) m
                                (out @ [Print ''Page fault! Victim page contents:'']);
                Some (p\<lparr>page_table := (page_table p)[pi := pg]\<rparr>, m, out @ [Print ''End of victim page contents.'']) }
      else None)"

definition PCB_equal :: "pcb_a3 \<Rightarrow> pcb_a3 \<Rightarrow> bool" where
  "PCB_equal a b \<longleftrightarrow> pid_a3 a = pid_a3 b"

definition PAGE_equal :: "page \<Rightarrow> page \<Rightarrow> bool" where
  "PAGE_equal a b \<longleftrightarrow> index a ! 0 = index b ! 0"

definition PCB_done :: "pcb_a3 \<Rightarrow> bool" where
  "PCB_done p \<longleftrightarrow> (\<forall>i < nat (page_table_size p). program_counter p ! i = 3)"

subsection \<open>Variables\<close>

lemma mem_set_value_a1_eq: "mem_set_value_a1 = set_named 0"
  by (intro ext) (simp add: mem_set_value_a1_def set_named_def)

lemma mem_get_value_a1_eq: "mem_get_value_a1 s cs = get_named 0 cs s"
  by (simp add: mem_get_value_a1_def get_named_def split: option.split)

lemma mem_set_value_a3_eq:
  "mcells (mem_set_value_a3 s v m) = set_named (border m) s v (mcells m)"
  "border (mem_set_value_a3 s v m) = border m"
  by (simp_all add: mem_set_value_a3_def set_named_def split: option.split)

definition look_a3 :: "memory_a3 \<Rightarrow> string \<Rightarrow> string option" where
  "look_a3 m s = get_named (border m) (mcells m) s"

lemma mem_get_value_a3_eq:
  "mem_get_value_a3 s c m = (case look_a3 m s of Some v \<Rightarrow> v
     | None \<Rightarrow> if c = CHR ''p'' then ''Variable does not exist'' else '''')"
  by (simp add: mem_get_value_a3_def look_a3_def get_named_def split: option.split)

interpretation a1_vars: var_store "wf_named 0" "\<lambda>cs s. mem_get_value_a1 s cs" "room_named 0"
  mem_set_value_a1 "''none''"
  unfolding mem_get_value_a1_eq mem_set_value_a1_eq by (rule named.var_store_axioms)

interpretation a3_vars: var_store "\<lambda>m. wf_named (border m) (mcells m)" look_a3
  "\<lambda>s m. room_named (border m) s (mcells m)" mem_set_value_a3 "''none''"
  by unfold_locales (simp_all add: look_a3_def mem_set_value_a3_eq set_named_ok get_named_room)

subsection \<open>Frames\<close>

definition run_free :: "memory_a3 \<Rightarrow> nat \<Rightarrow> bool" where
  "run_free m i \<longleftrightarrow> i + 3 \<le> border m \<and> (\<forall>j. i \<le> j \<and> j < i + 3 \<longrightarrow> fst (mcells m ! j) = ''none'')"

lemma window_loop_full:
  "j \<le> stop \<Longrightarrow> window_loop cs bd j stop = stop \<longleftrightarrow>
     (\<forall>k. j \<le> k \<and> k < stop \<longrightarrow> k < bd \<and> fst (cs ! k) = ''none'')"
proof (induction cs bd j stop rule: window_loop.induct)
  case (1 cs bd j stop)
  show ?case
  proof (cases "j < stop \<and> j < bd \<and> fst (cs ! j) = ''none''")
    case True
    then have "window_loop cs bd j stop = stop \<longleftrightarrow>
        (\<forall>k. Suc j \<le> k \<and> k < stop \<longrightarrow> k < bd \<and> fst (cs ! k) = ''none'')"
      using 1 by (subst window_loop.simps) simp
    then show ?thesis using True by (metis Suc_leD Suc_le_eq le_neq_implies_less)
  next
    case False
    then have "window_loop cs bd j stop = j" by (subst window_loop.simps) auto
    then show ?thesis using False "1.prems" by (auto intro: le_neq_implies_less)
  qed
qed

lemma window_run_free: "window_loop (mcells m) (border m) i (i + 3) = i + 3 \<longleftrightarrow> run_free m i"
proof -
  have "window_loop (mcells m) (border m) i (i + 3) = i + 3 \<longleftrightarrow>
      (\<forall>k. i \<le> k \<and> k < i + 3 \<longrightarrow> k < border m \<and> fst (mcells m ! k) = ''none'')"
    by (rule window_loop_full) simp
  also have "\<dots> \<longleftrightarrow> run_free m i"
    unfolding run_free_def by (auto dest: spec [of _ "i + 2"])
  finally show ?thesis .
qed

text \<open>The cells of a frame given to a process.\<close>

definition marked :: "string \<Rightarrow> nat \<Rightarrow> memory_a3 \<Rightarrow> memory_a3" where
  "marked pid i m = m\<lparr>mcells := (mcells m)[i := (pid, snd (mcells m ! i)), i + 1 := (pid, snd (mcells m ! (i + 1))),
                                         i + 2 := (pid, snd (mcells m ! (i + 2)))]\<rparr>"

lemma frame_loop_ok:
  "frame_loop pid i n m = (case find (run_free m) [i..<i + n] of
     None \<Rightarrow> (1, None, m)
   | Some k \<Rightarrow> (0, Some ([int k, int k + 1, int k + 2], [0, 0, 0]), marked pid k m))"
proof (induction n arbitrary: i)
  case (Suc n)
  have "[i..<i + Suc n] = i # [Suc i..<Suc i + n]" by (simp add: upt_conv_Cons del: upt_Suc)
  then show ?case using Suc by (simp add: window_run_free marked_def del: upt_Suc)
qed simp

lemma free_run_length: "free_run i n m = Some m' \<Longrightarrow> length (mcells m') = length (mcells m)"
  by (induction n arbitrary: i m) (auto simp: mem_free_at_def split: bind_splits if_splits)

lemma clear_page_length: "clear_page is m = Some m' \<Longrightarrow> length (mcells m') = length (mcells m)"
  by (induction "is" arbitrary: m) (auto simp: clear_frame_def dest: free_run_length split: bind_splits)

subsection \<open>Properties\<close>

text \<open>In the first shell a variable that is set is read back, and every other variable keeps its value, as
  long as the array has a cell for it.\<close>

theorem a1_variable_set_get:
  assumes "wf_named 0 cs" and "s \<noteq> ''none''" and "room_named 0 s cs"
  shows "mem_get_value_a1 s (mem_set_value_a1 s v cs) = Some v \<and>
    (\<forall>t. t \<noteq> s \<longrightarrow> t \<noteq> ''none'' \<longrightarrow> mem_get_value_a1 t (mem_set_value_a1 s v cs) = mem_get_value_a1 t cs) \<and>
    wf_named 0 (mem_set_value_a1 s v cs)"
  using a1_vars.look_put_same [OF assms] a1_vars.look_put_other [OF assms] a1_vars.put_ok [OF assms] by blast

lemma wf_named_fresh: "wf_named b (mem_init_a1 cs)"
  by (auto simp: wf_named_def mem_init_a1_def)

lemma room_named_fresh: "b < length cs \<Longrightarrow> room_named b s (mem_init_a1 cs)"
  by (auto simp: room_named_def mem_init_a1_def intro!: exI [of _ b])

theorem a1_variable_set_get_witness:
  "mem_get_value_a1 ''x'' (mem_set_value_a1 ''x'' ''5'' (mem_init_a1 (replicate 1000 ('''', '''')))) = Some ''5''"
  using a1_variable_set_get [OF wf_named_fresh _ room_named_fresh, of "''x''" "replicate 1000 ('''', '''')" "''5''"]
  by simp

text \<open>In the third shell a variable that is set is read back whoever asks for it, every other variable
  keeps its value, and the cells of the frame store are not touched.\<close>

theorem a3_variable_set_get:
  assumes "wf_named (border m) (mcells m)" and "s \<noteq> ''none''" and "room_named (border m) s (mcells m)"
  shows "mem_get_value_a3 s c (mem_set_value_a3 s v m) = v \<and>
    (\<forall>t. t \<noteq> s \<longrightarrow> t \<noteq> ''none'' \<longrightarrow> mem_get_value_a3 t c (mem_set_value_a3 s v m) = mem_get_value_a3 t c m) \<and>
    (\<forall>i < border m. mcells (mem_set_value_a3 s v m) ! i = mcells m ! i)"
  using a3_vars.look_put_same [OF assms] a3_vars.look_put_other [OF assms]
  by (simp add: mem_get_value_a3_eq mem_set_value_a3_eq set_named_below)

definition sample_mem_a3 :: memory_a3 where
  "sample_mem_a3 = \<lparr>mcells = mem_init_a1 (replicate 11 ('''', '''')), border = 9\<rparr>"

theorem a3_variable_set_get_witness:
  "mem_get_value_a3 ''x'' CHR ''p'' (mem_set_value_a3 ''x'' ''5'' sample_mem_a3) = ''5''"
  using a3_variable_set_get [of sample_mem_a3 "''x''" "CHR ''p''" "''5''"]
    wf_named_fresh room_named_fresh [of 9 "replicate 11 ('''', '''')" "''x''"]
  by (simp add: sample_mem_a3_def)

text \<open>C24: \<^verbatim>\<open>frame_alloc\<close> gives a process the first three consecutive free cells of the frame store, reports their
  indices, marks exactly these cells with the process and clears the valid bits; it fails, changing
  nothing, exactly when there is no such run.\<close>

theorem frame_alloc_first_run:
  assumes "border m \<le> length (mcells m)"
  shows "(\<exists>i m'. frame_alloc pid m = (0, Some ([int i, int i + 1, int i + 2], [0, 0, 0]), m') \<and>
      run_free m i \<and> (\<forall>k < i. \<not> run_free m k) \<and>
      (\<forall>j < length (mcells m). mcells m' ! j = (if i \<le> j \<and> j < i + 3 then (pid, snd (mcells m ! j)) else mcells m ! j))) \<or>
    (frame_alloc pid m = (1, None, m) \<and> (\<forall>k. \<not> run_free m k))"
proof (cases "find (run_free m) [0..<border m]")
  case None
  then have "\<not> run_free m k" for k
    by (cases "k < border m") (auto simp: find_None_iff run_free_def)
  then show ?thesis using None by (simp add: frame_alloc_def frame_loop_ok)
next
  case (Some i)
  then have i: "run_free m i" "\<forall>k < i. \<not> run_free m k" by (auto simp: find_Some_iff)
  then have "i + 3 \<le> length (mcells m)" using assms by (simp add: run_free_def)
  then have "\<forall>j < length (mcells m). mcells (marked pid i m) ! j =
      (if i \<le> j \<and> j < i + 3 then (pid, snd (mcells m ! j)) else mcells m ! j)"
    by (auto simp: marked_def nth_list_update)
  then show ?thesis
    using Some i by (intro disjI1 exI [of _ i] exI [of _ "marked pid i m"]) (simp add: frame_alloc_def frame_loop_ok)
qed

theorem frame_alloc_first_run_witness:
  "\<exists>i m'. frame_alloc ''7'' sample_mem_a3 = (0, Some ([int i, int i + 1, int i + 2], [0, 0, 0]), m')"
proof -
  have "border sample_mem_a3 \<le> length (mcells sample_mem_a3)" by (simp add: sample_mem_a3_def mem_init_a1_def)
  moreover have "run_free sample_mem_a3 0"
    by (auto simp: run_free_def sample_mem_a3_def mem_init_a1_def nth_map)
  ultimately show ?thesis using frame_alloc_first_run [of sample_mem_a3 "''7''"] by blast
qed

text \<open>A page that was never loaded keeps the index 1000 of \<^verbatim>\<open>PAGE_init\<close>, and \<^verbatim>\<open>free_PCB\<close> clears three cells from
  that index: on a memory of less than 1003 cells this writes outside the array.\<close>

theorem free_PCB_unloaded_page:
  assumes "pg \<in> set (page_table p)" and "index pg = index (PAGE_init a b)" and "length (mcells m) < 1003"
  shows "free_PCB p m = None"
proof -
  have stuck: "clear_page (index pg) m' = None" if "length (mcells m') < 1003" for m'
  proof -
    have "free_run 1000 3 m' = None"
      using that by (auto simp: numeral_3_eq_3 mem_free_at_def in_mem_def)
    then show ?thesis using assms(2) by (simp add: PAGE_init_def clear_frame_def)
  qed
  have "clear_pages pgs m' = None" if "pg \<in> set pgs" "length (mcells m') < 1003" for pgs m'
    using that
  proof (induction pgs arbitrary: m')
    case (Cons q qs)
    show ?case
    proof (cases "clear_page (index q) m'")
      case (Some m1)
      then show ?thesis using Cons stuck [of m'] clear_page_length [OF Some] by auto
    qed simp
  qed simp
  then show ?thesis using assms(1,3) by (simp add: free_PCB_def)
qed

theorem free_PCB_unloaded_page_witness:
  "free_PCB \<lparr>pid_a3 = 1, lines_a3 = 9, program_counter = [3, 3, 3], page_table = [PAGE_init 1 2],
     page_table_size = 1, source_file = \<lparr>rest = '''', eof = True\<rparr>\<rparr> sample_mem_a3 = None"
  by (rule free_PCB_unloaded_page [of "PAGE_init 1 2" _ 1 2]) (simp_all add: sample_mem_a3_def mem_init_a1_def)

end
