(* ===== verification/A1_Shell.thy ===== *)
theory A1_Shell
  imports Shell_Host Shell_Memory
begin

text \<open>
  The first shell: \<^verbatim>\<open>a1/shell.c\<close> and \<^verbatim>\<open>a1/interpreter.c\<close>. A line is cut into words, the words are
  interpreted, and some commands (\<^verbatim>\<open>run\<close>, \<^verbatim>\<open>if\<close>) parse further lines. This recursion need not end: \<open>parseInput_a1\<close>
  has a bound on its depth, and \<open>None\<close> is the answer when the bound is reached, as it is for undefined
  behaviour. The functions of the interpreter take the function that parses a line as an argument.

  The state is the array of variables, the text written to the standard output, the host and the
  standard input. \<^verbatim>\<open>interpreter\<close> has no \<^verbatim>\<open>return\<close> at the end of the \<^verbatim>\<open>if\<close> command: its value there is
  whatever the register holds, the parameter \<open>noret\<close>.
\<close>

record 'h shell_a1 =
  a1_mem :: memory_a1
  a1_out :: string
  a1_host :: 'h
  a1_in :: stream

type_synonym 'h reply_a1 = "(int outcome \<times> 'h shell_a1) option"
type_synonym 'h parser_a1 = "string \<Rightarrow> 'h shell_a1 \<Rightarrow> 'h reply_a1"

definition puts_a1 :: "string \<Rightarrow> 'h shell_a1 \<Rightarrow> 'h shell_a1" where
  "puts_a1 t s = s\<lparr>a1_out := a1_out s @ line_of t\<rparr>"

subsection \<open>Error messages: interpreter.c\<close>

definition badcommand :: "'h shell_a1 \<Rightarrow> 'h reply_a1" where
  "badcommand s = Some (Done 1, puts_a1 ''Unknown Command'' s)"

definition badcommandFileDoesNotExist :: "'h shell_a1 \<Rightarrow> 'h reply_a1" where
  "badcommandFileDoesNotExist s = Some (Done 3, puts_a1 ''Bad command: File not found'' s)"

definition badcommandSet :: "'h shell_a1 \<Rightarrow> 'h reply_a1" where
  "badcommandSet s = Some (Done 4, puts_a1 ''Bad command: set'' s)"

definition badcommandCD :: "'h shell_a1 \<Rightarrow> 'h reply_a1" where
  "badcommandCD s = Some (Done 5, puts_a1 ''Bad command: my_cd'' s)"

definition badcommandCat :: "'h shell_a1 \<Rightarrow> 'h reply_a1" where
  "badcommandCat s = Some (Done 6, puts_a1 ''Bad command: my_cat'' s)"

definition badcommandWC :: "'h shell_a1 \<Rightarrow> 'h reply_a1" where
  "badcommandWC s = Some (Done 7, puts_a1 ''Bad command: my_wc'' s)"

definition badcommandEmptyif :: "'h shell_a1 \<Rightarrow> 'h reply_a1" where
  "badcommandEmptyif s = Some (Done 6, puts_a1 ''Empty if clause'' s)"

definition badcommandIf :: "'h shell_a1 \<Rightarrow> 'h reply_a1" where
  "badcommandIf s = Some (Done 6, puts_a1 ''Bad command: if'' s)"

subsection \<open>Commands: interpreter.c\<close>

definition tab :: char where
  "tab = CHR 0x09"

definition help_string_a1 :: string where
  "help_string_a1 =
     ''COMMAND'' @ replicate 3 tab @ ''DESCRIPTION'' @ newline #
     '' help'' @ replicate 3 tab @ ''Displays all the commands'' @ newline #
     '' quit'' @ replicate 3 tab @ ''Exits / terminates the shell with '' @
       [CHR 0xE2, CHR 0x80, CHR 0x9C] @ ''Bye!'' @ [CHR 0xE2, CHR 0x80, CHR 0x9D] @ newline #
     '' set VAR STRING'' @ replicate 2 tab @ ''Assigns a value to shell memory'' @ newline #
     '' print VAR'' @ replicate 2 tab @ ''Displays the STRING assigned to VAR'' @ newline #
     '' run SCRIPT.TXT'' @ replicate 2 tab @ ''Executes the file SCRIPT.TXT'' @ newline # '' ''"

definition help_a1 :: "'h shell_a1 \<Rightarrow> 'h reply_a1" where
  "help_a1 s = Some (Done 0, puts_a1 help_string_a1 s)"

definition quit_a1 :: "'h shell_a1 \<Rightarrow> 'h reply_a1" where
  "quit_a1 s = Some (Exit 0, puts_a1 ''Bye!'' s)"

text \<open>The buffer of \<^verbatim>\<open>set\<close> receives \<^verbatim>\<open>var=value\<close> and is not used.\<close>

definition set_a1 :: "string \<Rightarrow> string \<Rightarrow> 'h shell_a1 \<Rightarrow> 'h reply_a1" where
  "set_a1 vr v s =
     (if length vr + 1 + length v < 1000
      then Some (Done 0, s\<lparr>a1_mem := mem_set_value_a1 vr v (a1_mem s)\<rparr>) else None)"

definition print_a1 :: "string \<Rightarrow> 'h shell_a1 \<Rightarrow> 'h reply_a1" where
  "print_a1 vr s =
     Some (Done 0, puts_a1 (case mem_get_value_a1 vr (a1_mem s) of None \<Rightarrow> [newline] | Some v \<Rightarrow> v) s)"

text \<open>The loop of \<^verbatim>\<open>run\<close>, from the point where a line is in the buffer; a call of \<^verbatim>\<open>fgets\<close> that reads nothing
  leaves the buffer as \<^verbatim>\<open>memset\<close> cleared it.\<close>

lemma fgets_progress:
  assumes "fgets n fp = (l, fp')" and "\<not> eof fp" and "1 < n"
  shows "length (rest fp') < length (rest fp) \<or> eof fp' \<and> length (rest fp') \<le> length (rest fp)"
proof -
  have "length (snd (take_line k t)) \<le> length t - (if k = 0 then 0 else 1)" for k t
    by (induction k t rule: take_line.induct) (auto split: prod.splits if_splits)
  from this [of "n - 1" "rest fp"] show ?thesis
    using assms by (cases "rest fp") (auto simp: fgets_def Let_def split: if_splits prod.splits)
qed

function script_loop :: "'h parser_a1 \<Rightarrow> string \<Rightarrow> stream \<Rightarrow> 'h shell_a1 \<Rightarrow> 'h reply_a1" where
  "script_loop parse ln p s =
     do { (r, s) \<leftarrow> parse ln s;
          case r of
            Exit c \<Rightarrow> Some (Exit c, s)
          | Done errCode \<Rightarrow>
              if eof p then Some (Done errCode, s)
              else let (l, p) = fgets 999 p in script_loop parse (case l of None \<Rightarrow> [] | Some l \<Rightarrow> l) p s }"
  by pat_completeness auto
termination
proof (relation "measure (\<lambda>(parse, ln, p, s). 2 * length (rest p) + (if eof p then 0 else 1))", goal_cases)
  case 1
  then show ?case by simp
next
  case (2 parse ln p s rs r s' errCode lp l p')
  then show ?case using fgets_progress [of 999 p l p'] by (auto split: if_splits)
qed

declare script_loop.simps [simp del]

definition run_a1 :: "'h host \<Rightarrow> 'h parser_a1 \<Rightarrow> string \<Rightarrow> 'h shell_a1 \<Rightarrow> 'h reply_a1" where
  "run_a1 ops parse script s =
     (case h_read ops script (a1_host s) of
        None \<Rightarrow> badcommandFileDoesNotExist s
      | Some t \<Rightarrow>
          (case fgets 999 \<lparr>rest = t, eof = False\<rparr> of
             (None, p) \<Rightarrow> None
           | (Some l, p) \<Rightarrow> script_loop parse l p s))"

definition echo_a1 :: "string \<Rightarrow> 'h shell_a1 \<Rightarrow> 'h reply_a1" where
  "echo_a1 vr s =
     (if vr \<noteq> [] \<and> hd vr = CHR ''$'' then print_a1 (tl vr) s else Some (Done 0, puts_a1 vr s))"

definition my_ls_a1 :: "'h host \<Rightarrow> 'h shell_a1 \<Rightarrow> 'h reply_a1" where
  "my_ls_a1 ops s =
     (let (st, t, h) = h_system ops ''ls'' (a1_host s)
      in Some (Done st, s\<lparr>a1_out := a1_out s @ t, a1_host := h\<rparr>))"

definition my_mkdir_a1 :: "'h host \<Rightarrow> string \<Rightarrow> 'h shell_a1 \<Rightarrow> 'h reply_a1" where
  "my_mkdir_a1 ops dirname s = (let (st, h) = h_mkdir ops dirname (a1_host s) in Some (Done st, s\<lparr>a1_host := h\<rparr>))"

text \<open>A file that cannot be opened is a null pointer, which \<^verbatim>\<open>fclose\<close> must not be given.\<close>

definition my_touch_a1 :: "'h host \<Rightarrow> string \<Rightarrow> 'h shell_a1 \<Rightarrow> 'h reply_a1" where
  "my_touch_a1 ops filename s = do { h \<leftarrow> h_write ops filename [] (a1_host s); Some (Done 0, s\<lparr>a1_host := h\<rparr>) }"

definition my_cd_a1 :: "'h host \<Rightarrow> string \<Rightarrow> 'h shell_a1 \<Rightarrow> 'h reply_a1" where
  "my_cd_a1 ops dirname s =
     (let (st, h) = h_chdir ops dirname (a1_host s); s = s\<lparr>a1_host := h\<rparr>
      in if st = 0 then Some (Done 0, s) else badcommandCD s)"

definition my_cat_a1 :: "'h host \<Rightarrow> string \<Rightarrow> 'h shell_a1 \<Rightarrow> 'h reply_a1" where
  "my_cat_a1 ops filename s =
     (case h_read ops filename (a1_host s) of
        None \<Rightarrow> badcommandCat s
      | Some t \<Rightarrow> Some (Done 0, s\<lparr>a1_out := a1_out s @ t\<rparr>))"

fun wc_loop :: "string \<Rightarrow> nat \<Rightarrow> nat \<Rightarrow> nat \<Rightarrow> bool \<Rightarrow> nat \<times> nat \<times> nat" where
  "wc_loop [] ls ws cs inWord = (ls, ws, cs)"
| "wc_loop (c # t) ls ws cs inWord =
     (let ls = (if c = newline then ls + 1 else ls); cs = cs + 1
      in if c = blank \<or> c = tab \<or> c = newline then wc_loop t ls ws cs False
         else if \<not> inWord then wc_loop t ls (ws + 1) cs True
         else wc_loop t ls ws cs inWord)"

text \<open>The counters are of type \<^verbatim>\<open>int\<close>; none is above the number of characters.\<close>

definition my_wc_a1 :: "'h host \<Rightarrow> string \<Rightarrow> 'h shell_a1 \<Rightarrow> 'h reply_a1" where
  "my_wc_a1 ops filename s =
     (case h_read ops filename (a1_host s) of
        None \<Rightarrow> badcommandWC s
      | Some t \<Rightarrow>
          if length t < 2 ^ 31
          then let (ls, ws, cs) = wc_loop t 0 0 0 False
               in Some (Done 0, puts_a1 (''Lines: '' @ dec ls @ newline # ''Words: '' @ dec ws @ newline #
                                         ''Characters: '' @ dec cs) s)
          else None)"

subsection \<open>The conditional\<close>

text \<open>An identifier is the word itself, or the value of a variable when it starts with a dollar sign.\<close>

definition value_a1 :: "string \<Rightarrow> 'h shell_a1 \<Rightarrow> string option" where
  "value_a1 identifier s =
     (if identifier \<noteq> [] \<and> hd identifier = CHR ''$'' then mem_get_value_a1 (tl identifier) (a1_mem s)
      else Some identifier)"

definition if_a1 :: "int \<Rightarrow> 'h parser_a1 \<Rightarrow> string list \<Rightarrow> 'h shell_a1 \<Rightarrow> 'h reply_a1" where
  "if_a1 noret parse ws s =
     do { w5 \<leftarrow> arg ws 5;
          let cmp = ws ! 2;
          if w5 = ''fi'' then badcommandEmptyif s
          else if cmp \<noteq> ''=='' \<and> cmp \<noteq> ''!='' then badcommandIf s
          else case value_a1 (ws ! 1) s of None \<Rightarrow> badcommandIf s | Some id1 \<Rightarrow>
            case value_a1 (ws ! 3) s of None \<Rightarrow> badcommandIf s | Some id2 \<Rightarrow>
              (let condition = (id1 = id2 \<and> cmp = ''=='' \<or> id1 \<noteq> id2 \<and> cmp = ''!='')
               in case find (\<lambda>i. ws ! i = ''else'') [5..<length ws] of
                    None \<Rightarrow> badcommandIf s
                  | Some e \<Rightarrow>
                      do { command \<leftarrow> (if condition then joined_args 800 ws 5 e
                                     else joined_args 800 ws (e + 1) (length ws - 1));
                           (r, s) \<leftarrow> parse command s;
                           Some (case r of Done x \<Rightarrow> Done noret | Exit c \<Rightarrow> Exit c, s) }) }"

subsection \<open>Dispatch and parsing\<close>

definition MAX_ARGS_SIZE :: nat where
  "MAX_ARGS_SIZE = 3"

definition interpreter_a1 :: "'h host \<Rightarrow> int \<Rightarrow> 'h parser_a1 \<Rightarrow> string list \<Rightarrow> 'h shell_a1 \<Rightarrow> 'h reply_a1" where
  "interpreter_a1 ops noret parse ws s =
     (let n = length ws
      in if n < 1 then badcommand s
         else if n > MAX_ARGS_SIZE \<and> ws ! 0 \<noteq> ''set'' \<and> ws ! 0 \<noteq> ''if'' then badcommand s
         else
           let ws = map strip ws; c = ws ! 0
           in if c = ''help'' then (if n \<noteq> 1 then badcommand s else help_a1 s)
              else if c = ''quit'' then (if n \<noteq> 1 then badcommand s else quit_a1 s)
              else if c = ''set'' then
                (if n < 3 \<or> n > 7 then badcommandSet s
                 else do { v \<leftarrow> joined_args 800 ws 2 n; set_a1 (ws ! 1) v s })
              else if c = ''print'' then (if n \<noteq> 2 then badcommand s else print_a1 (ws ! 1) s)
              else if c = ''run'' then (if n \<noteq> 2 then badcommand s else run_a1 ops parse (ws ! 1) s)
              else if c = ''echo'' then (if n > 2 then badcommand s else do { w \<leftarrow> arg ws 1; echo_a1 w s })
              else if c = ''my_ls'' then (if n > 1 then badcommand s else my_ls_a1 ops s)
              else if c = ''my_mkdir'' then (if n \<noteq> 2 then badcommand s else my_mkdir_a1 ops (ws ! 1) s)
              else if c = ''my_touch'' then (if n \<noteq> 2 then badcommand s else my_touch_a1 ops (ws ! 1) s)
              else if c = ''my_cd'' then (if n \<noteq> 2 then badcommandCD s else my_cd_a1 ops (ws ! 1) s)
              else if c = ''my_cat'' then (if n \<noteq> 2 then badcommandCat s else my_cat_a1 ops (ws ! 1) s)
              else if c = ''if'' then if_a1 noret parse ws s
              else if c = ''my_wc'' then (if n \<noteq> 2 then badcommand s else my_wc_a1 ops (ws ! 1) s)
              else badcommand s)"

text \<open>The loop of \<^verbatim>\<open>parseInput\<close> that cuts a line into words: a word ends at a blank, a semicolon, a newline or the
  end of the string, and the character that ends it is skipped. \<open>w\<close> words were found before; a word must fit \<^verbatim>\<open>tmp[200]\<close>
  and the words \<^verbatim>\<open>words[100]\<close>.\<close>

definition in_word_a1 :: "char \<Rightarrow> bool" where
  "in_word_a1 c \<longleftrightarrow> c \<noteq> CHR '';'' \<and> c \<noteq> newline \<and> c \<noteq> blank"

function words_loop_a1 :: "nat \<Rightarrow> string \<Rightarrow> string list option" where
  "words_loop_a1 w ui =
     (if ui = [] \<or> hd ui = newline then Some []
      else let tmp = takeWhile in_word_a1 ui; r = dropWhile in_word_a1 ui
           in if 200 \<le> length tmp \<or> 100 \<le> w then None
              else if r = [] then Some [tmp]
              else do { ws \<leftarrow> words_loop_a1 (w + 1) (tl r); Some (tmp # ws) })"
  by pat_completeness auto
termination
proof (relation "measure (\<lambda>(w, ui). length ui)", goal_cases)
  case (2 w ui tmp r)
  then show ?case using length_dropWhile_le [of in_word_a1 ui] by (cases ui) auto
qed simp

declare words_loop_a1.simps [simp del]

definition words_a1 :: "string \<Rightarrow> string list option" where
  "words_a1 ui = words_loop_a1 0 (dropWhile (\<lambda>c. c = blank) (take 1000 (c_str ui)))"

fun parseInput_a1 :: "'h host \<Rightarrow> int \<Rightarrow> nat \<Rightarrow> 'h parser_a1" where
  "parseInput_a1 ops noret 0 ui s = None"
| "parseInput_a1 ops noret (Suc n) ui s =
     do { ws \<leftarrow> words_a1 ui; interpreter_a1 ops noret (parseInput_a1 ops noret n) ws s }"

subsection \<open>The command loop: shell.c\<close>

text \<open>\<^verbatim>\<open>main\<close> up to the loop, and one round of the loop. At the end of the input the terminal is opened in its place; a
  line that was not read is empty.\<close>

definition main_init_a1 :: "'h shell_a1 \<Rightarrow> 'h reply_a1" where
  "main_init_a1 s = do { (r, s) \<leftarrow> help_a1 (puts_a1 ''Shell v1.0'' s); Some (r, s\<lparr>a1_mem := mem_init_a1 (a1_mem s)\<rparr>) }"

definition main_round_a1 :: "'h host \<Rightarrow> int \<Rightarrow> nat \<Rightarrow> 'h shell_a1 \<Rightarrow> 'h reply_a1" where
  "main_round_a1 ops noret n s =
     (let s = (if h_isatty ops (a1_host s) then s\<lparr>a1_out := a1_out s @ ''$ ''\<rparr> else s);
          (l, p) = fgets 999 (a1_in s); s = s\<lparr>a1_in := p\<rparr>
      in do { s \<leftarrow> (if eof p then do { (p, h) \<leftarrow> h_tty ops (a1_host s); Some (s\<lparr>a1_in := p, a1_host := h\<rparr>) } else Some s);
              (r, s) \<leftarrow> parseInput_a1 ops noret n (case l of None \<Rightarrow> [] | Some l \<Rightarrow> l) s;
              Some (case r of Done e \<Rightarrow> if e = -1 then Exit 99 else Done e | Exit c \<Rightarrow> Exit c, s) })"

fun main_loop_a1 :: "'h host \<Rightarrow> int \<Rightarrow> nat \<Rightarrow> nat \<Rightarrow> 'h shell_a1 \<Rightarrow> 'h reply_a1" where
  "main_loop_a1 ops noret n 0 s = Some (Done 0, s)"
| "main_loop_a1 ops noret n (Suc k) s =
     do { (r, s) \<leftarrow> main_round_a1 ops noret n s;
          case r of Exit c \<Rightarrow> Some (Exit c, s) | Done e \<Rightarrow> main_loop_a1 ops noret n k s }"

subsection \<open>Words and lines\<close>

definition line_ok :: "string list \<Rightarrow> bool" where
  "line_ok ws \<longleftrightarrow> ws \<noteq> [] \<and> (\<forall>w \<in> set ws. plain w \<and> length w < 200) \<and> length ws \<le> 100 \<and> length (cmd_line ws) < 1000"

lemma takeWhile_word:
  assumes "plain w" and "x = [] \<or> \<not> in_word_a1 (hd x)"
  shows "takeWhile in_word_a1 (w @ x) = w" "dropWhile in_word_a1 (w @ x) = x"
  using plain_prefix [where P = in_word_a1, OF assms(1) _ assms(2)] by (simp_all add: plain_char_def in_word_a1_def)

lemma words_loop_a1_plain:
  assumes "\<forall>v \<in> set (w # ws). plain v \<and> length v < 200" and "k + length ws < 100" and "e = [] \<or> e = [newline]"
  shows "words_loop_a1 k (w @ spaced ws @ e) = Some (w # ws)"
  using assms
proof (induction ws arbitrary: w k)
  case Nil
  have x: "e = [] \<or> \<not> in_word_a1 (hd e)" using Nil.prems(3) by (auto simp: in_word_a1_def)
  have "w \<noteq> []" "hd w \<noteq> newline" using Nil.prems(1) by (cases w; auto simp: plain_def plain_char_def)+
  then show ?case
    using Nil.prems takeWhile_word [of w e, OF _ x]
    by (subst words_loop_a1.simps) (auto simp: words_loop_a1.simps [of _ "[]"])
next
  case (Cons v ws)
  let ?x = "spaced (v # ws) @ e"
  have x: "?x = [] \<or> \<not> in_word_a1 (hd ?x)" by (simp add: in_word_a1_def)
  have "w \<noteq> []" "hd w \<noteq> newline" using Cons.prems(1) by (cases w; auto simp: plain_def plain_char_def)+
  then show ?case
    using Cons.prems takeWhile_word [of w ?x, OF _ x] Cons.IH [of v "Suc k"]
    by (subst words_loop_a1.simps) auto
qed

lemma words_a1_line:
  assumes "line_ok ws" and "e = [] \<or> e = [newline]"
  shows "words_a1 (cmd_line ws @ e) = Some ws"
proof -
  obtain w us where ws: "ws = w # us" using assms(1) by (cases ws) (auto simp: line_ok_def)
  have pl: "\<forall>v \<in> set (w # us). plain v \<and> length v < 200" "length us < 100" "length (cmd_line ws @ e) \<le> 1000"
    using assms by (auto simp: line_ok_def ws)
  have "nul \<notin> set (cmd_line ws @ e)"
    using pl(1) assms(2) spaced_no_nul [of us] plain_no_nul [of w] by (auto simp: cmd_line_def ws char_defs)
  then have "take 1000 (c_str (cmd_line ws @ e)) = cmd_line ws @ e" using pl(3) by simp
  moreover have "dropWhile (\<lambda>c. c = blank) (cmd_line ws @ e) = cmd_line ws @ e"
    using pl(1) by (cases w) (auto simp: cmd_line_def ws plain_def plain_char_def)
  ultimately show ?thesis
    using words_loop_a1_plain [OF pl(1), of 0 e] pl(2) assms(2) by (simp add: words_a1_def cmd_line_def ws)
qed

lemma words_a1_Nil: "words_a1 [] = Some []"
  by (simp add: words_a1_def c_str_def words_loop_a1.simps)

lemma parse_line:
  assumes "line_ok ws"
  shows "parseInput_a1 ops noret (Suc n) (cmd_line ws) s = interpreter_a1 ops noret (parseInput_a1 ops noret n) ws s"
    and "parseInput_a1 ops noret (Suc n) (cmd_line ws @ [newline]) s =
      interpreter_a1 ops noret (parseInput_a1 ops noret n) ws s"
  using words_a1_line [OF assms, of "[]"] words_a1_line [OF assms, of "[newline]"] by simp_all

lemma line_ok_strip [simp]: "line_ok ws \<Longrightarrow> map strip ws = ws"
  by (simp add: line_ok_def)

lemma parse_empty: "parseInput_a1 ops noret (Suc n) [] s = badcommand s"
  by (simp add: words_a1_Nil interpreter_a1_def)

text \<open>A bound that is enough stays enough when it grows.\<close>

lemma bind_mono_Some:
  "Option.bind x f = Some r \<Longrightarrow> (\<And>y. x = Some y \<Longrightarrow> f y = Some r \<Longrightarrow> g y = Some r) \<Longrightarrow> Option.bind x g = Some r"
  by (cases x) auto

lemma if_mono_Some:
  "(if c then x else y) = Some r \<Longrightarrow> (c \<Longrightarrow> x = Some r \<Longrightarrow> x' = Some r) \<Longrightarrow>
   (\<not> c \<Longrightarrow> y = Some r \<Longrightarrow> y' = Some r) \<Longrightarrow> (if c then x' else y') = Some r"
  by (simp split: if_splits)

definition extends :: "'h parser_a1 \<Rightarrow> 'h parser_a1 \<Rightarrow> bool" where
  "extends q p \<longleftrightarrow> (\<forall>ui s r. p ui s = Some r \<longrightarrow> q ui s = Some r)"

lemma extendsD: "extends q p \<Longrightarrow> p ui s = Some r \<Longrightarrow> q ui s = Some r"
  unfolding extends_def by blast

lemma script_loop_mono: "script_loop parse ln p s = Some r \<Longrightarrow> extends q parse \<Longrightarrow> script_loop q ln p s = Some r"
proof (induction parse ln p s rule: script_loop.induct)
  case (1 parse ln p s)
  obtain y s' where y: "parse ln s = Some (y, s')"
    using 1(2) by (subst (asm) script_loop.simps) (auto split: bind_splits)
  note q = extendsD [OF 1(3) y]
  show ?case
  proof (cases y)
    case (Done e)
    obtain l p' where f: "fgets 999 p = (l, p')" by fastforce
    show ?thesis
      using 1(2) y q Done f 1(1) [OF y refl Done _ f [symmetric] refl] 1(3)
      by (subst script_loop.simps, subst (asm) script_loop.simps) (auto split: if_splits)
  next
    case (Exit c)
    then show ?thesis using 1(2) y q by (subst script_loop.simps, subst (asm) script_loop.simps) auto
  qed
qed

lemma interpreter_a1_mono:
  assumes "interpreter_a1 ops noret parse ws s = Some r" and q: "extends q parse"
  shows "interpreter_a1 ops noret q ws s = Some r"
proof -
  have run: "run_a1 ops parse f s = Some r \<Longrightarrow> run_a1 ops q f s = Some r" for f
    by (auto simp: run_a1_def split: option.splits prod.splits intro: script_loop_mono [OF _ q])
  have sub: "Option.bind (parse c s) f = Some r \<Longrightarrow> Option.bind (q c s) f = Some r" for c f
    using extendsD [OF q] by (cases "parse c s") auto
  have ifs: "if_a1 noret parse us s = Some r \<Longrightarrow> if_a1 noret q us s = Some r" for us
    unfolding if_a1_def Let_def
    by (erule bind_mono_Some)
      (auto split: if_splits option.splits elim!: bind_mono_Some intro: sub)
  show ?thesis
    using assms(1) unfolding interpreter_a1_def Let_def
    by (elim if_mono_Some run ifs)
qed

lemma parseInput_a1_extends: "n \<le> m \<Longrightarrow> extends (parseInput_a1 ops noret m) (parseInput_a1 ops noret n)"
proof (induction n arbitrary: m)
  case 0
  then show ?case by (simp add: extends_def)
next
  case (Suc n)
  then obtain k where m: "m = Suc k" "n \<le> k" by (cases m) auto
  show ?case
    unfolding extends_def
  proof (intro allI impI)
    fix ui s r assume "parseInput_a1 ops noret (Suc n) ui s = Some r"
    then show "parseInput_a1 ops noret m ui s = Some r"
      unfolding m(1) parseInput_a1.simps by (rule bind_mono_Some) (rule interpreter_a1_mono [OF _ Suc.IH [OF m(2)]])
  qed
qed

subsection \<open>Commands\<close>

lemma interpret_set:
  assumes "length ws = length (v # vs) + 2" and "ws = ''set'' # x # v # vs" and "\<forall>w \<in> set ws. plain w"
    and "length vs < 5" and "length (v @ spaced vs) < 800" and "length x < 200"
  shows "interpreter_a1 ops noret parse ws s = Some (Done 0, s\<lparr>a1_mem := mem_set_value_a1 x (v @ spaced vs) (a1_mem s)\<rparr>)"
proof -
  have "joined_args 800 ws 2 (length ws) = Some (v @ spaced vs)"
    using joined_args_range [of 2 "length ws" ws 800] assms(2,5) by simp
  then show ?thesis
    using assms by (simp add: interpreter_a1_def Let_def set_a1_def MAX_ARGS_SIZE_def)
qed

lemma interpret_echo:
  assumes "plain w"
  shows "interpreter_a1 ops noret parse [''echo'', w] s =
    Some (Done 0, puts_a1 (case value_a1 w s of None \<Rightarrow> [newline] | Some v \<Rightarrow> v) s)"
  using assms by (simp add: interpreter_a1_def Let_def MAX_ARGS_SIZE_def echo_a1_def print_a1_def value_a1_def
      strip_def [of "''echo''"] newline_def arg_def)

lemma interpret_run:
  "plain f \<Longrightarrow> interpreter_a1 ops noret parse [''run'', f] s = run_a1 ops parse f s"
  by (simp add: interpreter_a1_def Let_def MAX_ARGS_SIZE_def strip_def [of "''run''"] newline_def)

lemma interpret_if:
  assumes "ws = [''if'', a, cmp, b, ''then''] @ xs @ ''else'' # ys @ [''fi'']" and "\<forall>w \<in> set ws. plain w"
    and "xs \<noteq> []" and "ys \<noteq> []" and "hd xs \<noteq> ''fi''" and "''else'' \<notin> set xs"
    and "cmp = ''=='' \<or> cmp = ''!=''" and "value_a1 a s = Some u" and "value_a1 b s = Some v"
    and zs: "zs = (if (u = v) = (cmp = ''=='') then xs else ys)" and "length (cmd_line zs) < 800"
  shows "interpreter_a1 ops noret parse ws s =
    map_option (map_prod (case_outcome (\<lambda>x. Done noret) Exit) id) (parse (cmd_line zs) s)"
proof -
  let ?e = "5 + length xs"
  have len: "length ws = 7 + length xs + length ys" by (simp add: assms(1))
  have nth: "ws ! 1 = a" "ws ! 2 = cmp" "ws ! 3 = b" "ws ! 0 = ''if''" "ws ! 5 = hd xs"
    using assms(3) by (simp_all add: assms(1) nth_append hd_conv_nth)
  have else1: "ws ! ?e = ''else''" by (simp add: assms(1) nth_append)
  have in_xs: "ws ! i \<noteq> ''else''" if "5 \<le> i" "i < ?e" for i
  proof -
    from that(1) obtain k where k: "i = 5 + k" using le_Suc_ex by blast
    then have "ws ! i = xs ! k" using that(2) by (simp add: assms(1) nth_append)
    then show ?thesis using assms(6) that(2) k by (metis nth_mem nat_add_left_cancel_less)
  qed
  have e: "find (\<lambda>i. ws ! i = ''else'') [5..<length ws] = Some ?e"
    unfolding find_Some_iff using else1 in_xs by (intro exI [of _ "length xs"]) (auto simp: len)
  have "joined_args 800 ws 5 ?e = Some (cmd_line xs)" if "zs = xs"
  proof -
    have "take (length xs - 1) (drop 6 ws) = tl xs" using assms(3) by (cases xs) (auto simp: assms(1))
    then show ?thesis
      using joined_args_range [of 5 ?e ws 800] assms(3,11) that by (simp add: nth len cmd_line_def)
  qed
  moreover have "joined_args 800 ws (?e + 1) (length ws - 1) = Some (cmd_line ys)" if "zs = ys"
  proof -
    have "ws = ([''if'', a, cmp, b, ''then''] @ xs @ [''else'']) @ ys @ [''fi'']" by (simp add: assms(1))
    moreover have "length ([''if'', a, cmp, b, ''then''] @ xs @ [''else'']) = Suc ?e" by simp
    ultimately have d: "drop (Suc ?e) ws = ys @ [''fi'']" by (metis append_eq_conv_conj)
    have n: "ws ! Suc ?e = hd ys"
      using hd_drop_conv_nth [of "Suc ?e" ws] assms(4) len unfolding d by (simp add: hd_append)
    have "drop (Suc (Suc ?e)) ws = tl ys @ [''fi'']"
      using arg_cong [OF d, of tl] tl_append2 [OF assms(4)] by (simp only: tl_drop drop_Suc [symmetric])
    then have "take (length ys - 1) (drop (Suc (Suc ?e)) ws) = tl ys" by simp
    then show ?thesis
      using joined_args_range [of "?e + 1" "length ws - 1" ws 800] assms(4,11) that n by (simp add: len cmd_line_def)
  qed
  ultimately have cmd: "(if u = v \<and> cmp = ''=='' \<or> u \<noteq> v \<and> cmp = ''!='' then joined_args 800 ws 5 ?e
      else joined_args 800 ws (?e + 1) (length ws - 1)) = Some (cmd_line zs)"
    using assms(7) zs by auto
  have "interpreter_a1 ops noret parse ws s = if_a1 noret parse ws s"
    using assms(2) len nth(4) by (simp add: interpreter_a1_def Let_def)
  also have "\<dots> = do { (r, s) \<leftarrow> parse (cmd_line zs) s; Some (case r of Done x \<Rightarrow> Done noret | Exit c \<Rightarrow> Exit c, s) }"
    unfolding if_a1_def Let_def arg_def nth e option.case assms(8,9) cmd using assms(5,7) len by auto
  finally show ?thesis by (cases "parse (cmd_line zs) s") (auto split: outcome.splits)
qed

subsection \<open>Scripts\<close>

text \<open>Running lines one after the other, up to an exit; \<open>e\<close> is the code of the line before.\<close>

fun each_line :: "'h parser_a1 \<Rightarrow> int \<Rightarrow> string list \<Rightarrow> 'h shell_a1 \<Rightarrow> 'h reply_a1" where
  "each_line parse e [] s = Some (Done e, s)"
| "each_line parse e (l # ls) s =
     do { (r, s) \<leftarrow> parse l s; case r of Exit c \<Rightarrow> Some (Exit c, s) | Done e \<Rightarrow> each_line parse e ls s }"

text \<open>The text of a file as its lines and what follows the last newline.\<close>

definition script_text :: "string list \<Rightarrow> string \<Rightarrow> string \<Rightarrow> bool" where
  "script_text ls t f \<longleftrightarrow> f = concat ls @ t \<and> (\<forall>l \<in> set ls. prog_line 999 l) \<and> newline \<notin> set t \<and> length t < 998"

lemma script_loop_eof: "script_loop parse l \<lparr>rest = r, eof = True\<rparr> s = parse l s"
  by (subst script_loop.simps) (auto split: outcome.splits bind_splits)

lemma script_loop_lines:
  assumes "\<forall>l \<in> set ls. prog_line 999 l" and "newline \<notin> set t" and "length t < 998"
  shows "script_loop parse l \<lparr>rest = concat ls @ t, eof = False\<rparr> s = each_line parse e (l # ls @ [t]) s"
  using assms(1)
proof (induction ls arbitrary: l s e)
  case Nil
  have "fgets 999 \<lparr>rest = t, eof = False\<rparr> = (if t = [] then None else Some t, \<lparr>rest = [], eof = True\<rparr>)"
    using fgets_rest [of t 999 False] fgets_end assms(2,3) by simp
  then show ?case
    by (subst script_loop.simps) (auto simp: script_loop_eof split: outcome.splits bind_splits)
next
  case (Cons k ls)
  have f: "fgets 999 \<lparr>rest = k @ concat ls @ t, eof = False\<rparr> = (Some k, \<lparr>rest = concat ls @ t, eof = False\<rparr>)"
    using Cons.prems by (intro fgets_line) simp
  have IH: "script_loop parse k \<lparr>rest = concat ls @ t, eof = False\<rparr> s' = each_line parse e' (k # ls @ [t]) s'" for s' e'
    using Cons by simp
  show ?case
    by (subst script_loop.simps) (auto simp: f IH simp del: each_line.simps(2) simp: each_line.simps(2) [of _ _ l]
        split: outcome.splits bind_splits)
qed

lemma run_script:
  assumes "h_read ops f (a1_host s) = Some x" and "script_text ls t x" and "x \<noteq> []"
  shows "run_a1 ops parse f s = each_line parse 0 (ls @ [t]) s"
proof (cases ls)
  case Nil
  then show ?thesis
    using assms fgets_rest [of t 999 False]
    by (auto simp: run_a1_def script_text_def script_loop_eof split: outcome.splits bind_splits)
next
  case (Cons l ks)
  then have "fgets 999 \<lparr>rest = x, eof = False\<rparr> = (Some l, \<lparr>rest = concat ks @ t, eof = False\<rparr>)"
    using assms(2) fgets_line [of 999 l "concat ks @ t" False] by (simp add: script_text_def)
  then show ?thesis
    using assms Cons script_loop_lines [of ks t parse l s 0] by (simp add: run_a1_def script_text_def)
qed

subsection \<open>Counting words\<close>

definition white :: "char \<Rightarrow> bool" where
  "white c \<longleftrightarrow> c = blank \<or> c = tab \<or> c = newline"

text \<open>The positions where a word starts: a character that is not white space, at the start or after white space.\<close>

definition word_starts :: "string \<Rightarrow> nat set" where
  "word_starts t = {i. i < length t \<and> \<not> white (t ! i) \<and> (i = 0 \<or> white (t ! (i - 1)))}"

lemma word_starts_snoc:
  "word_starts (t @ [c]) = word_starts t \<union> (if \<not> white c \<and> (t = [] \<or> white (last t)) then {length t} else {})"
  by (cases t rule: rev_cases) (auto simp: word_starts_def nth_append less_Suc_eq)

lemma wc_loop_append:
  "wc_loop (t @ u) a b c w = (let (a', b', c') = wc_loop t a b c w
     in wc_loop u a' b' c' (if t = [] then w else \<not> white (last t)))"
proof (induction t arbitrary: a b c w)
  case (Cons x t)
  then show ?case by (auto simp: Let_def white_def split: prod.splits)
qed simp

lemma wc_loop_counts:
  "wc_loop t 0 0 0 False = (count_list t newline, card (word_starts t), length t)"
proof (induction t rule: rev_induct)
  case Nil
  then show ?case by (simp add: word_starts_def)
next
  case (snoc c t)
  have "finite (word_starts t)" "length t \<notin> word_starts t" by (auto simp: word_starts_def)
  then show ?case
    by (auto simp: wc_loop_append snoc word_starts_snoc Let_def white_def)
qed

subsection \<open>What every line keeps\<close>

text \<open>Whatever is typed, no variable gets a second cell, the array keeps its size, and only \<^verbatim>\<open>quit\<close> ends the program.\<close>

definition mem_ok :: "nat \<Rightarrow> 'h shell_a1 \<Rightarrow> bool" where
  "mem_ok k s \<longleftrightarrow> wf_named 0 (a1_mem s) \<and> length (a1_mem s) = k"

definition keeps :: "nat \<Rightarrow> 'h parser_a1 \<Rightarrow> bool" where
  "keeps k p \<longleftrightarrow> (\<forall>ui s r s'. p ui s = Some (r, s') \<longrightarrow> mem_ok k s \<longrightarrow> mem_ok k s' \<and> (\<forall>c. r = Exit c \<longrightarrow> c = 0))"

lemma mem_ok_io [simp]:
  "mem_ok k (s\<lparr>a1_out := t\<rparr>) = mem_ok k s" "mem_ok k (s\<lparr>a1_in := p\<rparr>) = mem_ok k s"
  "mem_ok k (s\<lparr>a1_host := h\<rparr>) = mem_ok k s"
  by (simp_all add: mem_ok_def)

lemma keepsD:
  "keeps k p \<Longrightarrow> p ui s = Some (r, s') \<Longrightarrow> mem_ok k s \<Longrightarrow> mem_ok k s' \<and> (\<forall>c. r = Exit c \<longrightarrow> c = 0)"
  unfolding keeps_def by blast

lemma script_loop_keeps: "script_loop parse ln p s = Some (r, s') \<Longrightarrow> keeps k parse \<Longrightarrow> mem_ok k s \<Longrightarrow>
    mem_ok k s' \<and> (\<forall>c. r = Exit c \<longrightarrow> c = 0)"
proof (induction parse ln p s rule: script_loop.induct)
  case (1 parse ln p s)
  obtain y s1 where y: "parse ln s = Some (y, s1)"
    using 1(2) by (subst (asm) script_loop.simps) (auto split: bind_splits)
  note s1 = keepsD [OF 1(3) y 1(4)]
  show ?case
  proof (cases y)
    case (Done e)
    obtain l p' where f: "fgets 999 p = (l, p')" by fastforce
    show ?thesis
      using 1(2) [unfolded script_loop.simps [of parse ln p s]] y Done f 1(1) [OF y refl Done _ f [symmetric] refl] 1(3) s1
      by (auto split: if_splits)
  next
    case (Exit c)
    then show ?thesis using 1(2) y s1 by (subst (asm) script_loop.simps) auto
  qed
qed

lemma if_cases_Some:
  "(if c then x else y) = Some r \<Longrightarrow> (x = Some r \<Longrightarrow> Q) \<Longrightarrow> (y = Some r \<Longrightarrow> Q) \<Longrightarrow> Q"
  by (simp split: if_splits)

lemmas messages_a1 = badcommand_def badcommandFileDoesNotExist_def badcommandSet_def badcommandCD_def
  badcommandCat_def badcommandWC_def badcommandEmptyif_def badcommandIf_def

lemmas simple_a1 = messages_a1 help_a1_def quit_a1_def print_a1_def echo_a1_def my_ls_a1_def my_mkdir_a1_def
  my_touch_a1_def my_cd_a1_def my_cat_a1_def my_wc_a1_def puts_a1_def

lemma interpreter_a1_keeps:
  assumes "interpreter_a1 ops noret parse ws s = Some (r, s')" and k: "keeps k parse" and s: "mem_ok k s"
  shows "mem_ok k s' \<and> (\<forall>c. r = Exit c \<longrightarrow> c = 0)" (is ?P)
proof -
  have same: ?P if "a1_mem s' = a1_mem s" "\<forall>c. r = Exit c \<longrightarrow> c = 0" using that s by (simp add: mem_ok_def)
  have set: "Option.bind x (\<lambda>v. set_a1 y v s) = Some (r, s') \<Longrightarrow> ?P" for x y
    using s wf_set_named by (auto simp: set_a1_def mem_ok_def mem_set_value_a1_eq split: bind_splits if_splits)
  have echo: "Option.bind x (\<lambda>w. echo_a1 w s) = Some (r, s') \<Longrightarrow> ?P" for x
    by (rule same) (auto simp: simple_a1 split: bind_splits if_splits)
  have run: "run_a1 ops parse f s = Some (r, s') \<Longrightarrow> ?P" for f
    using script_loop_keeps [OF _ k s] same by (auto simp: run_a1_def simple_a1 split: option.splits prod.splits)
  have ifs: "if_a1 noret parse us s = Some (r, s') \<Longrightarrow> ?P" for us
    using keepsD [OF k _ s] same
    by (auto simp: if_a1_def messages_a1 puts_a1_def Let_def split: bind_splits option.splits if_splits outcome.splits)
  have msg: "badcommand s = Some (r, s') \<Longrightarrow> ?P" "badcommandSet s = Some (r, s') \<Longrightarrow> ?P" "badcommandCD s = Some (r, s') \<Longrightarrow> ?P"
    "badcommandCat s = Some (r, s') \<Longrightarrow> ?P" "help_a1 s = Some (r, s') \<Longrightarrow> ?P" "quit_a1 s = Some (r, s') \<Longrightarrow> ?P"
    "print_a1 x s = Some (r, s') \<Longrightarrow> ?P" for x
    using same by (auto simp: simple_a1)
  have host: "my_ls_a1 ops s = Some (r, s') \<Longrightarrow> ?P" "my_mkdir_a1 ops x s = Some (r, s') \<Longrightarrow> ?P"
    "my_touch_a1 ops x s = Some (r, s') \<Longrightarrow> ?P" "my_cd_a1 ops x s = Some (r, s') \<Longrightarrow> ?P"
    "my_cat_a1 ops x s = Some (r, s') \<Longrightarrow> ?P" "my_wc_a1 ops x s = Some (r, s') \<Longrightarrow> ?P" for x
    using same by (auto simp: simple_a1 Let_def split: prod.splits option.splits bind_splits if_splits)
  show ?thesis
    using assms(1) unfolding interpreter_a1_def Let_def
    by (elim if_cases_Some) (rule set echo run ifs msg host; assumption)+
qed

lemma parseInput_a1_keeps: "keeps k (parseInput_a1 ops noret n)"
proof (induction n)
  case 0
  then show ?case by (simp add: keeps_def)
next
  case (Suc n)
  have "mem_ok k s' \<and> (\<forall>c. r = Exit c \<longrightarrow> c = 0)"
    if "parseInput_a1 ops noret (Suc n) ui s = Some (r, s')" "mem_ok k s" for ui s r s'
    using that interpreter_a1_keeps [OF _ Suc] by (auto split: bind_splits)
  then show ?case unfolding keeps_def by blast
qed

text \<open>The shell as a machine: a step is one round of the command loop that does not end the program.\<close>

inductive shell_step_a1 :: "'h host \<Rightarrow> int \<Rightarrow> 'h shell_a1 \<Rightarrow> 'h shell_a1 \<Rightarrow> bool" for ops noret where
  round: "main_round_a1 ops noret n s = Some (Done e, s') \<Longrightarrow> shell_step_a1 ops noret s s'"

inductive_cases shell_step_a1E: "shell_step_a1 ops noret s s'"

lemma main_round_a1_keeps:
  assumes "main_round_a1 ops noret n s = Some (r, s')" and "mem_ok k s"
  shows "mem_ok k s' \<and> (\<forall>c. r = Exit c \<longrightarrow> c \<in> {0, 99})"
  using assms unfolding main_round_a1_def Let_def
  by (auto split: bind_splits prod.splits if_splits outcome.splits dest!: keepsD [OF parseInput_a1_keeps [of k]])

lemma reachable_mem_ok: "(shell_step_a1 ops noret)\<^sup>*\<^sup>* s s' \<Longrightarrow> mem_ok k s \<Longrightarrow> mem_ok k s'"
  by (induction rule: rtranclp_induct) (auto elim!: shell_step_a1E dest: main_round_a1_keeps)

subsection \<open>Properties\<close>

declare parseInput_a1.simps(2) [simp del]

lemma plain_literals:
  "plain ''set''" "plain ''echo''" "plain ''run''" "plain ''if''" "plain ''then''" "plain ''else''" "plain ''fi''"
  "plain ''my_mkdir''" "plain ''my_wc''"
  by (simp_all add: plain_def plain_char_def char_defs)

lemma line_ok_two:
  assumes "plain c" and "plain w" and "length c < 200" and "length w < 200"
  shows "line_ok [c, w]"
  using assms by (simp add: line_ok_def cmd_line_def)

lemma plain_dollar: "plain x \<Longrightarrow> plain (CHR ''$'' # x)"
  by (auto simp: plain_def plain_char_def char_defs)

definition sample_shell :: "(string \<rightharpoonup> string) \<Rightarrow> string \<Rightarrow> (string \<rightharpoonup> string) shell_a1" where
  "sample_shell fs t = \<lparr>a1_mem = [(''none'', ''none''), (''none'', ''none'')], a1_out = [], a1_host = fs, a1_in = \<lparr>rest = t, eof = False\<rparr>\<rparr>"

text \<open>A variable set in the first shell, with a value of up to five words, is what \<^verbatim>\<open>echo\<close> then prints, with the words
  separated by one blank; the other variables keep their values.\<close>

theorem a1_set_then_echo:
  assumes "line_ok (''set'' # x # v # vs)" and "length vs < 5" and "length (v @ spaced vs) < 800" and "length x < 199" and "x \<noteq> ''none''"
    and "wf_named 0 (a1_mem s)" and "room_named 0 x (a1_mem s)"
  shows "\<exists>s1 s2. parseInput_a1 ops noret (Suc n) (cmd_line (''set'' # x # v # vs)) s = Some (Done 0, s1) \<and>
    parseInput_a1 ops noret (Suc m) (cmd_line [''echo'', CHR ''$'' # x]) s1 = Some (Done 0, s2) \<and>
    a1_out s2 = a1_out s @ line_of (v @ spaced vs) \<and>
    (\<forall>y. y \<noteq> x \<and> y \<noteq> ''none'' \<longrightarrow> mem_get_value_a1 y (a1_mem s2) = mem_get_value_a1 y (a1_mem s))"
proof -
  let ?s1 = "s\<lparr>a1_mem := mem_set_value_a1 x (v @ spaced vs) (a1_mem s)\<rparr>"
  have pl: "plain x" "\<forall>w \<in> set (''set'' # x # v # vs). plain w" using assms(1) by (auto simp: line_ok_def)
  have "parseInput_a1 ops noret (Suc n) (cmd_line (''set'' # x # v # vs)) s = Some (Done 0, ?s1)"
    using assms(2-4) by (simp add: parse_line(1) [OF assms(1)] interpret_set [OF _ refl pl(2)])
  moreover have "line_ok [''echo'', CHR ''$'' # x]"
    using line_ok_two [OF plain_literals(2) plain_dollar [OF pl(1)]] assms(4) by simp
  then have "parseInput_a1 ops noret (Suc m) (cmd_line [''echo'', CHR ''$'' # x]) ?s1 = Some (Done 0, puts_a1 (v @ spaced vs) ?s1)"
    using set_named_ok(2) [OF assms(6,5,7)]
    by (simp add: parse_line(1) interpret_echo [OF plain_dollar [OF pl(1)]] value_a1_def mem_get_value_a1_eq mem_set_value_a1_eq)
  ultimately show ?thesis
    using set_named_ok(3) [OF assms(6,5,7)] by (auto simp: puts_a1_def mem_get_value_a1_eq mem_set_value_a1_eq)
qed

theorem a1_set_then_echo_witness:
  "\<exists>s1 s2. parseInput_a1 files_only 0 1 ''set x a b'' (sample_shell Map.empty []) = Some (Done 0, s1) \<and>
     parseInput_a1 files_only 0 1 ''echo $x'' s1 = Some (Done 0, s2) \<and> a1_out s2 = ''a b'' @ [newline]"
proof -
  have "line_ok [''set'', ''x'', ''a'', ''b'']"
    by (simp add: line_ok_def cmd_line_def plain_def plain_char_def char_defs)
  moreover have "wf_named 0 (a1_mem (sample_shell Map.empty []))" "room_named 0 ''x'' (a1_mem (sample_shell Map.empty []))"
    by (auto simp: sample_shell_def wf_named_def room_named_def less_Suc_eq)
  ultimately show ?thesis
    using a1_set_then_echo [of "''x''" "''a''" "[''b'']" "sample_shell Map.empty []" files_only 0 0 0]
    by (auto simp: cmd_line_def line_of_def sample_shell_def blank_def)
qed

text \<open>C13: The conditional runs exactly one of its two commands, the one that the comparison of the two values selects, as if it had
  been typed; the values are words, or those of variables.\<close>

theorem a1_if_chooses_branch:
  assumes "ws = [''if'', a, cmp, b, ''then''] @ xs @ ''else'' # ys @ [''fi'']" and "line_ok ws"
    and "xs \<noteq> []" and "ys \<noteq> []" and "hd xs \<noteq> ''fi''" and "''else'' \<notin> set xs" and "cmp = ''=='' \<or> cmp = ''!=''"
    and "value_a1 a s = Some u" and "value_a1 b s = Some v" and "length (cmd_line xs) < 800" and "length (cmd_line ys) < 800"
  shows "parseInput_a1 ops noret (Suc n) (cmd_line ws) s =
    map_option (map_prod (case_outcome (\<lambda>e. Done noret) Exit) id)
      (parseInput_a1 ops noret n (cmd_line (if (u = v) = (cmp = ''=='') then xs else ys)) s)"
proof -
  have "\<forall>w \<in> set ws. plain w" using assms(2) by (simp add: line_ok_def)
  then show ?thesis
    using assms(10,11) by (simp add: parse_line(1) [OF assms(2)] interpret_if [OF assms(1) _ assms(3-9) refl])
qed

theorem a1_if_chooses_branch_witness:
  "\<exists>s'. parseInput_a1 files_only 7 2 ''if a == a then echo y else echo n fi'' (sample_shell Map.empty []) = Some (Done 7, s') \<and>
     a1_out s' = ''y'' @ [newline]"
proof -
  let ?ws = "[''if'', ''a'', ''=='', ''a'', ''then''] @ [''echo'', ''y''] @ ''else'' # [''echo'', ''n''] @ [''fi'']"
  have "line_ok ?ws" "line_ok [''echo'', ''y'']"
    by (simp_all add: line_ok_def cmd_line_def plain_def plain_char_def char_defs)
  moreover have "plain ''y''" by (simp add: plain_def plain_char_def char_defs)
  ultimately show ?thesis
    using parse_line(1) [of "[''echo'', ''y'']" files_only 7 0 "sample_shell Map.empty []"] a1_if_chooses_branch [of ?ws "''a''" "''==''" "''a''" "[''echo'', ''y'']" "[''echo'', ''n'']" "sample_shell Map.empty []"
        "''a''" "''a''" files_only 7 1]
    by (simp add: interpret_echo [of "''y''"] value_a1_def cmd_line_def blank_def puts_a1_def line_of_def sample_shell_def numeral_2_eq_2)
qed

text \<open>C14: \<^verbatim>\<open>run\<close> executes the lines of a script in order, up to an exit, and then, as one more line, what follows the last newline. When
  that is nothing, as in every script that ends with a newline, the line is empty: an error message is printed and the
  result is 1.\<close>

theorem a1_run_executes_lines:
  assumes "plain f" and "length f < 200" and "h_read ops f (a1_host s) = Some x" and "script_text ls t x" and "x \<noteq> []"
  shows "parseInput_a1 ops noret (Suc n) (cmd_line [''run'', f]) s = each_line (parseInput_a1 ops noret n) 0 (ls @ [t]) s \<and>
    parseInput_a1 ops noret (Suc m) [] s' = Some (Done 1, puts_a1 ''Unknown Command'' s')"
  using assms(2) run_script [OF assms(3-5)]
  by (simp add: parse_line(1) [OF line_ok_two [OF plain_literals(3) assms(1)]] interpret_run [OF assms(1)] parse_empty badcommand_def)

theorem a1_run_executes_lines_witness:
  "\<exists>s'. parseInput_a1 files_only 0 2 ''run f'' (sample_shell [''f'' \<mapsto> ''echo a'' @ [newline]] []) = Some (Done 1, s') \<and>
     a1_out s' = ''a'' @ newline # ''Unknown Command'' @ [newline]"
proof -
  let ?s = "sample_shell [''f'' \<mapsto> ''echo a'' @ [newline]] []"
  have p: "plain ''f''" "plain ''a''" "line_ok [''echo'', ''a'']"
    by (simp_all add: line_ok_def cmd_line_def plain_def plain_char_def char_defs)
  have "script_text [''echo a'' @ [newline]] [] (''echo a'' @ [newline])"
    by (simp add: script_text_def prog_line_def newline_def)
  moreover have "h_read files_only ''f'' (a1_host ?s) = Some (''echo a'' @ [newline])" by (simp add: files_only_def sample_shell_def)
  ultimately show ?thesis
    using a1_run_executes_lines [OF p(1), of files_only ?s "''echo a'' @ [newline]" "[''echo a'' @ [newline]]" "[]" 0 1 0]
      parse_line(2) [OF p(3), of files_only 0 0 ?s]
    by (simp add: interpret_echo [OF p(2)] parse_empty cmd_line_def blank_def value_a1_def puts_a1_def line_of_def badcommand_def sample_shell_def numeral_2_eq_2)
qed

text \<open>A script whose first line runs the script itself never returns, whatever else is in it: no bound on the depth is enough.\<close>

theorem a1_run_self_diverges:
  assumes "plain f" and "length f < 200" and "h_read ops f (a1_host s) = Some (cmd_line [''run'', f] @ newline # x)"
  shows "parseInput_a1 ops noret n (cmd_line [''run'', f]) s = None"
proof (induction n)
  case (Suc n)
  note ok = line_ok_two [OF plain_literals(3) assms(1)]
  let ?l = "cmd_line [''run'', f] @ [newline]"
  have "newline \<notin> set (cmd_line [''run'', f])"
    using assms(1) by (auto simp: cmd_line_def plain_def plain_char_def char_defs)
  then have "prog_line 999 ?l" using assms(2) by (simp add: prog_line_def cmd_line_def)
  then have g: "fgets 999 \<lparr>rest = cmd_line [''run'', f] @ newline # x, eof = False\<rparr> = (Some ?l, \<lparr>rest = x, eof = False\<rparr>)"
    using fgets_line [of 999 ?l x False] by simp
  have "parseInput_a1 ops noret n ?l s = None"
    using Suc assms(2) by (cases n) (simp_all add: parse_line [OF ok])
  then have "script_loop (parseInput_a1 ops noret n) ?l \<lparr>rest = x, eof = False\<rparr> s = None" by (subst script_loop.simps) simp
  then show ?case
    using assms(2,3) g by (simp add: parse_line(1) [OF ok] interpret_run [OF assms(1)] run_a1_def)
qed simp

theorem a1_run_self_diverges_witness:
  "parseInput_a1 files_only 0 9 ''run f'' (sample_shell [''f'' \<mapsto> ''run f'' @ [newline]] []) = None"
  using a1_run_self_diverges [of "''f''" files_only "sample_shell [''f'' \<mapsto> ''run f'' @ [newline]] []" "[]" 0 9]
  by (simp add: cmd_line_def plain_def plain_char_def char_defs files_only_def sample_shell_def)

text \<open>C28: \<^verbatim>\<open>my_wc\<close> prints the number of newlines, of words and of characters of a file; a word starts at a character that is
  not white space and has none, or white space, before it.\<close>

theorem a1_wc_counts:
  assumes "plain f" and "length f < 200" and "h_read ops f (a1_host s) = Some t" and "length t < 2 ^ 31"
  shows "parseInput_a1 ops noret (Suc n) (cmd_line [''my_wc'', f]) s =
    Some (Done 0, puts_a1 (''Lines: '' @ dec (count_list t newline) @ newline # ''Words: '' @ dec (card (word_starts t)) @ newline #
      ''Characters: '' @ dec (length t)) s)"
  using assms
  by (simp add: parse_line(1) [OF line_ok_two [OF plain_literals(9) assms(1)]] interpreter_a1_def Let_def MAX_ARGS_SIZE_def plain_literals(9) my_wc_a1_def wc_loop_counts)

theorem a1_wc_counts_witness:
  "\<exists>s'. parseInput_a1 files_only 0 1 ''my_wc f'' (sample_shell [''f'' \<mapsto> ''a b''] []) = Some (Done 0, s') \<and>
     a1_out s' = ''Lines: 0'' @ newline # ''Words: 2'' @ newline # ''Characters: 3'' @ [newline]"
proof -
  have c: "char_of (48 :: nat) = CHR ''0''" "char_of (50 :: nat) = CHR ''2''" "char_of (51 :: nat) = CHR ''3''"
    by (simp_all add: char_of_def bit_0)
  have "word_starts ''a b'' = {0, 2}"
    by (auto simp: word_starts_def white_def char_defs tab_def less_Suc_eq numeral_3_eq_3 numeral_2_eq_2)
  then show ?thesis
    using a1_wc_counts [of "''f''" files_only "sample_shell [''f'' \<mapsto> ''a b''] []" "''a b''" 0 0]
    by (simp add: cmd_line_def plain_def plain_char_def char_defs files_only_def sample_shell_def puts_a1_def line_of_def dec.simps c)
qed

text \<open>C25: In every state that the shell can reach by reading lines, whatever they are, the array of variables has its size and no
  name has two cells, and the program ends only with the status 0 of \<^verbatim>\<open>quit\<close> or 99.\<close>

theorem a1_reachable_wf:
  assumes "(shell_step_a1 ops noret)\<^sup>*\<^sup>* s0 s" and "wf_named 0 (a1_mem s0)"
  shows "wf_named 0 (a1_mem s) \<and> length (a1_mem s) = length (a1_mem s0) \<and>
    (\<forall>n c s'. main_round_a1 ops noret n s = Some (Exit c, s') \<longrightarrow> c \<in> {0, 99})"
proof -
  have "mem_ok (length (a1_mem s0)) s" using reachable_mem_ok [OF assms(1)] assms(2) by (simp add: mem_ok_def)
  then show ?thesis using main_round_a1_keeps by (fastforce simp: mem_ok_def)
qed

theorem a1_reachable_wf_witness:
  "\<exists>s. (shell_step_a1 files_only 0)\<^sup>*\<^sup>* (sample_shell Map.empty [newline]) s \<and> a1_out s = ''Unknown Command'' @ [newline] \<and> wf_named 0 (a1_mem s)"
proof -
  let ?s = "sample_shell Map.empty [newline]"
  have "prog_line 999 [newline]" by (simp add: prog_line_def)
  then have g: "fgets 999 (a1_in ?s) = (Some [newline], \<lparr>rest = [], eof = False\<rparr>)"
    using fgets_line [of 999 "[newline]" "[]" False] by (simp add: sample_shell_def)
  have "words_a1 [newline] = Some []" by (simp add: words_a1_def c_str_def char_defs words_loop_a1.simps)
  then have "main_round_a1 files_only 0 1 ?s = Some (Done 1, puts_a1 ''Unknown Command'' (?s\<lparr>a1_in := \<lparr>rest = [], eof = False\<rparr>\<rparr>))"
    using g by (simp add: main_round_a1_def parseInput_a1.simps files_only_def interpreter_a1_def badcommand_def)
  then have "shell_step_a1 files_only 0 ?s (puts_a1 ''Unknown Command'' (?s\<lparr>a1_in := \<lparr>rest = [], eof = False\<rparr>\<rparr>))"
    by (rule round)
  then have r: "(shell_step_a1 files_only 0)\<^sup>*\<^sup>* ?s (puts_a1 ''Unknown Command'' (?s\<lparr>a1_in := \<lparr>rest = [], eof = False\<rparr>\<rparr>))" by blast
  have "wf_named 0 (a1_mem ?s)" by (auto simp: sample_shell_def wf_named_def less_Suc_eq)
  from a1_reachable_wf [OF r this] r show ?thesis
    by (intro exI [of _ "puts_a1 ''Unknown Command'' (?s\<lparr>a1_in := \<lparr>rest = [], eof = False\<rparr>\<rparr>)"])
      (simp add: puts_a1_def line_of_def sample_shell_def)
qed

text \<open>A directory that cannot be made ends the shell: \<^verbatim>\<open>my_mkdir\<close> returns the \<^verbatim>\<open>-1\<close> of \<^verbatim>\<open>mkdir\<close>, which the command loop takes for
  a fatal error.\<close>

theorem a1_mkdir_failure_exits:
  assumes "a1_in s = \<lparr>rest = cmd_line [''my_mkdir'', d] @ newline # x, eof = False\<rparr>" and "plain d" and "length d < 200"
    and "h_mkdir ops d (a1_host s) = (-1, h)" and "\<not> h_isatty ops (a1_host s)"
  shows "main_round_a1 ops noret (Suc n) s = Some (Exit 99, s\<lparr>a1_in := \<lparr>rest = x, eof = False\<rparr>, a1_host := h\<rparr>)"
proof -
  let ?l = "cmd_line [''my_mkdir'', d] @ [newline]"
  have "newline \<notin> set (cmd_line [''my_mkdir'', d])"
    using assms(2) by (auto simp: cmd_line_def plain_def plain_char_def char_defs)
  then have "prog_line 999 ?l" using assms(3) by (simp add: prog_line_def cmd_line_def)
  then have "fgets 999 (a1_in s) = (Some ?l, \<lparr>rest = x, eof = False\<rparr>)"
    using fgets_line [of 999 ?l x False] assms(1) by simp
  moreover have "interpreter_a1 ops noret parse [''my_mkdir'', d] s' = my_mkdir_a1 ops d s'" for parse and s' :: "'a shell_a1"
    using assms(2) by (simp add: interpreter_a1_def Let_def MAX_ARGS_SIZE_def strip_def [of "''my_mkdir''"] newline_def)
  ultimately show ?thesis
    using assms(3-5)
    by (simp add: parse_line(2) [OF line_ok_two [OF plain_literals(8) assms(2)]] main_round_a1_def my_mkdir_a1_def)
qed

theorem a1_mkdir_failure_exits_witness:
  "\<exists>s'. main_round_a1 files_only 0 1 (sample_shell Map.empty (''my_mkdir d'' @ [newline])) = Some (Exit 99, s')"
  using a1_mkdir_failure_exits [of "sample_shell Map.empty (''my_mkdir d'' @ [newline])" "''d''" "[]" files_only Map.empty 0 0]
  by (simp add: sample_shell_def cmd_line_def blank_def plain_def plain_char_def char_defs files_only_def)

end
