(* ===== verification/A2_Queue.thy ===== *)
theory A2_Queue
  imports Prelude
begin

text \<open>
  Process control blocks and the ready queue of the second shell (\<^verbatim>\<open>a2/pcb.c\<close>, \<^verbatim>\<open>a2/ready_queue.c\<close>).

  The queue is a singly linked list on the heap. A \<^verbatim>\<open>QueueNode *\<close> and a \<^verbatim>\<open>PCB *\<close> are addresses, the
  heap maps an address to the object stored there, and an address without an object (never
  allocated, or freed) makes an access undefined (\<^term>\<open>None\<close>). The loops that follow \<^verbatim>\<open>next\<close> pointers
  are recursive in the option type, so that a loop on a cyclic list would also be \<^term>\<open>None\<close>.
  \<open>lseg\<close> relates a segment of the heap to the list of its nodes, and the lemmas show that each
  function is the corresponding operation on that list.
\<close>

type_synonym ptr = nat

subsection \<open>Process control blocks: pcb.c\<close>

definition MAX_PAGES :: nat where
  "MAX_PAGES = 10"

record pcb =
  priority :: bool
  currentPage :: int
  pid :: int
  PC :: int
  pcb_start :: int
  pcb_end :: int
  job_length_score :: int
  pageCounter :: int
  currentLine :: int
  pcb_filename :: "string option"
  pagetable :: "bool list"
  pcb_file :: "ptr option"

definition generatePID :: "int \<Rightarrow> int \<times> int" where
  "generatePID pid_counter = (pid_counter, pid_counter + 1)"

text \<open>\<^verbatim>\<open>job_length_score\<close> is computed from the start and end that were just set to 0. The result is
  the block and the next value of \<^verbatim>\<open>pid_counter\<close>.\<close>

definition makePCB :: "int \<Rightarrow> pcb \<times> int" where
  "makePCB pid_counter =
     (let (p, c) = generatePID pid_counter
      in (\<lparr>priority = False, currentPage = 1, pid = p, PC = 0, pcb_start = 0, pcb_end = 0,
           job_length_score = 1 + 0 - 0, pageCounter = 0, currentLine = 0, pcb_filename = None,
           pagetable = replicate MAX_PAGES False, pcb_file = None\<rparr>, c))"

subsection \<open>Nodes on the heap\<close>

record queue_node =
  node_pcb :: ptr
  node_next :: "ptr option"

type_synonym node_heap = "ptr \<rightharpoonup> queue_node"

record ready_queue =
  qhead :: "ptr option"
  nodes :: node_heap
  pcbs :: "ptr \<rightharpoonup> pcb"

definition set_next :: "ptr \<Rightarrow> ptr option \<Rightarrow> node_heap \<Rightarrow> node_heap option" where
  "set_next p v m = map_option (\<lambda>n. m(p \<mapsto> n\<lparr>node_next := v\<rparr>)) (m p)"

definition MAX_INT :: int where
  "MAX_INT = 2147483646"

subsection \<open>Operations: ready_queue.c\<close>

partial_function (option) destroy_loop :: "node_heap \<Rightarrow> ptr \<Rightarrow> node_heap option" where
  "destroy_loop m cur =
     do { n \<leftarrow> m cur;
          case node_next n of
            Some tmp \<Rightarrow> destroy_loop (m(cur := None)) tmp
          | None \<Rightarrow> Some (m(cur := None)) }"

definition ready_queue_destroy :: "ready_queue \<Rightarrow> ready_queue option" where
  "ready_queue_destroy q =
     (case qhead q of
        None \<Rightarrow> Some q
      | Some cur \<Rightarrow> do { m \<leftarrow> destroy_loop (nodes q) cur; Some (q\<lparr>nodes := m\<rparr>) })"

partial_function (option) tail_loop :: "node_heap \<Rightarrow> ptr \<Rightarrow> ptr option" where
  "tail_loop m cur =
     do { n \<leftarrow> m cur;
          case node_next n of None \<Rightarrow> Some cur | Some nxt \<Rightarrow> tail_loop m nxt }"

definition ready_queue_add_to_tail :: "ptr \<Rightarrow> ready_queue \<Rightarrow> ready_queue option" where
  "ready_queue_add_to_tail node q =
     (case qhead q of
        None \<Rightarrow> do { m \<leftarrow> set_next node None (nodes q); Some (q\<lparr>qhead := Some node, nodes := m\<rparr>) }
      | Some h \<Rightarrow>
          do { cur \<leftarrow> tail_loop (nodes q) h;
               m \<leftarrow> set_next cur (Some node) (nodes q);
               m \<leftarrow> set_next node None m;
               Some (q\<lparr>nodes := m\<rparr>) })"

definition ready_queue_add_to_head :: "ptr \<Rightarrow> ready_queue \<Rightarrow> ready_queue option" where
  "ready_queue_add_to_head node q =
     (case qhead q of
        None \<Rightarrow> do { m \<leftarrow> set_next node None (nodes q); Some (q\<lparr>qhead := Some node, nodes := m\<rparr>) }
      | Some h \<Rightarrow> do { m \<leftarrow> set_next node (Some h) (nodes q); Some (q\<lparr>qhead := Some node, nodes := m\<rparr>) })"

definition terminate_process :: "ptr \<Rightarrow> ready_queue \<Rightarrow> ready_queue option" where
  "terminate_process node q =
     (if node \<in> dom (nodes q) then Some (q\<lparr>nodes := (nodes q)(node := None)\<rparr>) else None)"

definition is_ready_empty :: "ready_queue \<Rightarrow> bool" where
  "is_ready_empty q \<longleftrightarrow> qhead q = None"

definition ready_queue_pop_head :: "ready_queue \<Rightarrow> (ptr option \<times> ready_queue) option" where
  "ready_queue_pop_head q =
     (case qhead q of
        None \<Rightarrow> Some (None, q)
      | Some h \<Rightarrow> do { n \<leftarrow> nodes q h; Some (Some h, q\<lparr>qhead := node_next n\<rparr>) })"

partial_function (option) decrement_loop ::
  "node_heap \<Rightarrow> ptr option \<Rightarrow> (ptr \<rightharpoonup> pcb) \<Rightarrow> (ptr \<rightharpoonup> pcb) option" where
  "decrement_loop m cur ps =
     (case cur of
        None \<Rightarrow> Some ps
      | Some c \<Rightarrow>
          do { n \<leftarrow> m c;
               b \<leftarrow> ps (node_pcb n);
               decrement_loop m (node_next n)
                 (if job_length_score b > 0
                  then ps(node_pcb n \<mapsto> b\<lparr>job_length_score := job_length_score b - 1\<rparr>) else ps) })"

definition ready_queue_decrement_job_length_score :: "ready_queue \<Rightarrow> ready_queue option" where
  "ready_queue_decrement_job_length_score q =
     do { ps \<leftarrow> decrement_loop (nodes q) (qhead q) (pcbs q); Some (q\<lparr>pcbs := ps\<rparr>) }"

text \<open>\<^verbatim>\<open>while (cur != NULL && cur->next != toSwap) cur = cur->next\<close>\<close>

partial_function (option) before_loop :: "node_heap \<Rightarrow> ptr \<Rightarrow> ptr option \<Rightarrow> ptr option option" where
  "before_loop m toSwap cur =
     (case cur of
        None \<Rightarrow> Some None
      | Some c \<Rightarrow>
          do { n \<leftarrow> m c;
               if node_next n = Some toSwap then Some (Some c) else before_loop m toSwap (node_next n) })"

text \<open>\<^verbatim>\<open>cur\<close> is the head before the first \<^verbatim>\<open>if\<close> moves it.\<close>

definition ready_queue_swap_with_next :: "ptr \<Rightarrow> ready_queue \<Rightarrow> ready_queue option" where
  "ready_queue_swap_with_next toSwap q =
     do { q' \<leftarrow> (if qhead q = Some toSwap
                then do { h \<leftarrow> nodes q toSwap;
                          nxt \<leftarrow> node_next h;
                          n \<leftarrow> nodes q nxt;
                          m \<leftarrow> set_next toSwap (node_next n) (nodes q);
                          m \<leftarrow> set_next nxt (Some toSwap) m;
                          Some (q\<lparr>qhead := Some nxt, nodes := m\<rparr>) }
                else Some q);
          prev \<leftarrow> before_loop (nodes q') toSwap (qhead q);
          case prev of
            None \<Rightarrow> Some q'
          | Some cur \<Rightarrow>
              do { t \<leftarrow> nodes q' toSwap;
                   nxt \<leftarrow> node_next t;
                   n \<leftarrow> nodes q' nxt;
                   m \<leftarrow> set_next cur (Some nxt) (nodes q');
                   m \<leftarrow> set_next nxt (Some toSwap) m;
                   m \<leftarrow> set_next toSwap (node_next n) m;
                   Some (q'\<lparr>nodes := m\<rparr>) } }"

definition swap_order :: "pcb \<Rightarrow> pcb \<Rightarrow> bool" where
  "swap_order cur nxt =
     (if priority cur \<and> priority nxt then job_length_score cur > job_length_score nxt
      else if priority cur \<and> \<not> priority nxt then False
      else if \<not> priority cur \<and> priority nxt then True
      else job_length_score cur > job_length_score nxt)"

definition swap_needed :: "ptr \<Rightarrow> ready_queue \<Rightarrow> bool option" where
  "swap_needed cur q =
     do { c \<leftarrow> nodes q cur;
          case node_next c of
            None \<Rightarrow> Some False
          | Some nxt \<Rightarrow>
              do { n \<leftarrow> nodes q nxt;
                   a \<leftarrow> pcbs q (node_pcb c);
                   b \<leftarrow> pcbs q (node_pcb n);
                   Some (swap_order a b) } }"

partial_function (option) sort_inner ::
  "ptr \<Rightarrow> bool \<Rightarrow> ready_queue \<Rightarrow> (ptr \<times> bool \<times> ready_queue) option" where
  "sort_inner cur in_order q =
     do { c \<leftarrow> nodes q cur;
          case node_next c of
            None \<Rightarrow> Some (cur, in_order, q)
          | Some nxt \<Rightarrow>
              do { sw \<leftarrow> swap_needed cur q;
                   if sw then do { q \<leftarrow> ready_queue_swap_with_next cur q; sort_inner cur False q }
                   else sort_inner nxt in_order q } }"

partial_function (option) sort_outer :: "ptr \<Rightarrow> bool \<Rightarrow> ready_queue \<Rightarrow> ready_queue option" where
  "sort_outer cur in_order q =
     (if \<not> in_order then do { (cur, in_order, q) \<leftarrow> sort_inner cur True q; sort_outer cur in_order q }
      else Some q)"

definition sort_ready_queue :: "ready_queue \<Rightarrow> ready_queue option" where
  "sort_ready_queue q = (case qhead q of None \<Rightarrow> Some q | Some cur \<Rightarrow> sort_outer cur False q)"

definition ready_queue_pop_shortest_job :: "ready_queue \<Rightarrow> (ptr option \<times> ready_queue) option" where
  "ready_queue_pop_shortest_job q = do { q \<leftarrow> sort_ready_queue q; ready_queue_pop_head q }"

partial_function (option) shortest_loop ::
  "node_heap \<Rightarrow> (ptr \<rightharpoonup> pcb) \<Rightarrow> ptr option \<Rightarrow> int \<Rightarrow> int option" where
  "shortest_loop m ps cur shortest =
     (case cur of
        None \<Rightarrow> Some shortest
      | Some c \<Rightarrow>
          do { n \<leftarrow> m c;
               b \<leftarrow> ps (node_pcb n);
               shortest_loop m ps (node_next n)
                 (if job_length_score b < shortest then job_length_score b else shortest) })"

definition ready_queue_get_shortest_job_score :: "ready_queue \<Rightarrow> int option" where
  "ready_queue_get_shortest_job_score q = shortest_loop (nodes q) (pcbs q) (qhead q) MAX_INT"

text \<open>The node before the first later node with the given score, or the last node.\<close>

partial_function (option) promote_loop ::
  "node_heap \<Rightarrow> (ptr \<rightharpoonup> pcb) \<Rightarrow> int \<Rightarrow> ptr \<Rightarrow> ptr option" where
  "promote_loop m ps score cur =
     do { c \<leftarrow> m cur;
          case node_next c of
            None \<Rightarrow> Some cur
          | Some nxt \<Rightarrow>
              do { n \<leftarrow> m nxt;
                   b \<leftarrow> ps (node_pcb n);
                   if job_length_score b = score then Some cur else promote_loop m ps score nxt } }"

text \<open>\<^verbatim>\<open>head\<close> is read before it is tested: an empty queue is undefined behaviour.\<close>

definition ready_queue_promote :: "int \<Rightarrow> ready_queue \<Rightarrow> ready_queue option" where
  "ready_queue_promote score q =
     do { h \<leftarrow> qhead q;
          n \<leftarrow> nodes q h;
          b \<leftarrow> pcbs q (node_pcb n);
          if job_length_score b = score then Some q
          else do { cur \<leftarrow> promote_loop (nodes q) (pcbs q) score h;
                    c \<leftarrow> nodes q cur;
                    case node_next c of
                      None \<Rightarrow> Some q
                    | Some nxt \<Rightarrow>
                        do { n \<leftarrow> nodes q nxt;
                             m \<leftarrow> set_next cur (node_next n) (nodes q);
                             m \<leftarrow> set_next nxt (Some h) m;
                             Some (q\<lparr>qhead := Some nxt, nodes := m\<rparr>) } } }"

partial_function (option) print_loop ::
  "node_heap \<Rightarrow> (ptr \<rightharpoonup> pcb) \<Rightarrow> ptr option \<Rightarrow> console \<Rightarrow> console option" where
  "print_loop m ps cur out =
     (case cur of
        None \<Rightarrow> Some out
      | Some c \<Rightarrow>
          do { n \<leftarrow> m c;
               b \<leftarrow> ps (node_pcb n);
               print_loop m ps (node_next n)
                 (out @ [Print (CHR 0x09 # ''PID: '' @ dec_int (pid b) @ '', length: '' @
                    dec_int (job_length_score b) @ '', priority: '' @
                    (if priority b then ''1'' else ''0''))]) })"

definition print_ready_queue :: "ready_queue \<Rightarrow> console \<Rightarrow> console option" where
  "print_ready_queue q out =
     (case qhead q of
        None \<Rightarrow> Some (out @ [Print ''ready queue is empty''])
      | Some h \<Rightarrow> print_loop (nodes q) (pcbs q) (Some h) (out @ [Print ''Ready queue: '']))"

subsection \<open>Segments of the heap as lists\<close>

fun lseg :: "node_heap \<Rightarrow> ptr option \<Rightarrow> ptr list \<Rightarrow> ptr option \<Rightarrow> bool" where
  "lseg m p [] r \<longleftrightarrow> p = r"
| "lseg m p (x # xs) r \<longleftrightarrow> p = Some x \<and> (\<exists>n. m x = Some n \<and> lseg m (node_next n) xs r)"

lemma lseg_append: "lseg m p (xs @ ys) r \<longleftrightarrow> (\<exists>t. lseg m p xs t \<and> lseg m t ys r)"
  by (induction xs arbitrary: p) auto

lemma lseg_frame: "x \<notin> set xs \<Longrightarrow> lseg (m(x := v)) p xs r = lseg m p xs r"
  by (induction xs arbitrary: p) auto

lemma lseg_dom: "lseg m p xs r \<Longrightarrow> x \<in> set xs \<Longrightarrow> x \<in> dom m"
  by (induction xs arbitrary: p) auto

lemma lseg_last: "lseg m p xs r \<Longrightarrow> xs \<noteq> [] \<Longrightarrow> \<exists>n. m (last xs) = Some n \<and> node_next n = r"
  by (cases xs rule: rev_cases) (auto simp: lseg_append)

lemma set_next_Some [simp]: "m p = Some n \<Longrightarrow> set_next p v m = Some (m(p \<mapsto> n\<lparr>node_next := v\<rparr>))"
  by (simp add: set_next_def)

text \<open>\<open>rq q xs\<close>: the nodes of the queue are \<open>xs\<close>, in order, and each has its process control block.\<close>

definition block_at :: "ready_queue \<Rightarrow> ptr \<Rightarrow> ptr option" where
  "block_at q x = map_option node_pcb (nodes q x)"

definition rq :: "ready_queue \<Rightarrow> ptr list \<Rightarrow> bool" where
  "rq q xs \<longleftrightarrow> lseg (nodes q) (qhead q) xs None \<and> distinct xs \<and>
     (\<forall>x \<in> set xs. \<exists>b \<in> dom (pcbs q). block_at q x = Some b)"

definition pcb_of :: "ready_queue \<Rightarrow> ptr \<Rightarrow> pcb" where
  "pcb_of q x = the (pcbs q (the (block_at q x)))"

text \<open>Only links change: every node keeps its process control block.\<close>

definition same_blocks :: "ready_queue \<Rightarrow> ready_queue \<Rightarrow> bool" where
  "same_blocks q q' \<longleftrightarrow> pcbs q' = pcbs q \<and> block_at q' = block_at q"

lemma same_blocks_refl: "same_blocks q q"
  by (simp add: same_blocks_def)

lemma same_blocks_trans: "same_blocks q q1 \<Longrightarrow> same_blocks q1 q2 \<Longrightarrow> same_blocks q q2"
  by (simp add: same_blocks_def)

lemma same_blocks_link:
  assumes "nodes q p = Some n"
  shows "same_blocks q (q\<lparr>nodes := (nodes q)(p \<mapsto> n\<lparr>node_next := v\<rparr>)\<rparr>)"
  using assms by (auto simp: same_blocks_def block_at_def fun_eq_iff)

lemma same_blocks_head: "same_blocks q (q\<lparr>qhead := h\<rparr>)"
  by (auto simp: same_blocks_def block_at_def fun_eq_iff)

lemma rq_relink:
  assumes "rq q xs" and "same_blocks q q'" and "lseg (nodes q') (qhead q') ys None"
    and "distinct ys" and "set ys = set xs"
  shows "rq q' ys"
  using assms by (simp add: rq_def same_blocks_def)

lemma pcb_of_same_blocks: "same_blocks q q' \<Longrightarrow> pcb_of q' x = pcb_of q x"
  by (simp add: same_blocks_def pcb_of_def)

lemma rq_node:
  assumes "rq q xs" and "x \<in> set xs"
  obtains n where "nodes q x = Some n" "pcbs q (node_pcb n) = Some (pcb_of q x)"
  using assms by (auto simp: rq_def block_at_def pcb_of_def)

subsection \<open>Following the links\<close>

lemma tail_loop_last: "lseg m (Some x) (x # xs) None \<Longrightarrow> tail_loop m x = Some (last (x # xs))"
proof (induction xs arbitrary: x)
  case Nil
  then show ?case by (subst tail_loop.simps) auto
next
  case (Cons y ys)
  then obtain n where "m x = Some n" "node_next n = Some y" "lseg m (Some y) (y # ys) None" by auto
  then show ?case using Cons.IH [of y] by (subst tail_loop.simps) simp
qed

lemma before_loop_none:
  "lseg m p ys None \<Longrightarrow> c \<notin> set (tl ys) \<Longrightarrow> before_loop m c p = Some None"
proof (induction ys arbitrary: p)
  case Nil
  then show ?case by (subst before_loop.simps) simp
next
  case (Cons y ys)
  then obtain n where n: "p = Some y" "m y = Some n" "lseg m (node_next n) ys None" by auto
  have "node_next n \<noteq> Some c" using n(3) Cons.prems(2) by (cases ys) auto
  moreover have "before_loop m c (node_next n) = Some None"
    using Cons.prems(2) n(3) by (intro Cons.IH) (auto intro: list.set_sel(2))
  ultimately show ?case using n by (subst before_loop.simps) simp
qed

lemma before_loop_some:
  "lseg m p (xs @ a # c # ys) r \<Longrightarrow> c \<notin> set (xs @ [a]) \<Longrightarrow> before_loop m c p = Some (Some a)"
proof (induction xs arbitrary: p)
  case Nil
  then show ?case by (subst before_loop.simps) auto
next
  case (Cons x xs)
  then obtain n where n: "p = Some x" "m x = Some n" "lseg m (node_next n) (xs @ a # c # ys) r" by auto
  have "before_loop m c (node_next n) = Some (Some a)" using Cons n(3) by simp
  moreover have "node_next n \<noteq> Some c" using n(3) Cons.prems(2) by (cases xs) auto
  ultimately show ?case using n by (subst before_loop.simps) simp
qed

text \<open>Swapping two neighbours.\<close>

lemma swap_with_next_ok:
  assumes q: "rq q (as @ c # d # bs)"
  shows "\<exists>q'. ready_queue_swap_with_next c q = Some q' \<and> rq q' (as @ d # c # bs) \<and> same_blocks q q'"
proof (cases as rule: rev_cases)
  case Nil
  obtain nc nd where n: "nodes q c = Some nc" "nodes q d = Some nd" "qhead q = Some c"
    "node_next nc = Some d" "lseg (nodes q) (node_next nd) bs None"
    using q Nil by (auto simp: rq_def)
  have d: "distinct (c # d # bs)" using q Nil by (simp add: rq_def)
  let ?m = "(nodes q)(c \<mapsto> nc\<lparr>node_next := node_next nd\<rparr>, d \<mapsto> nd\<lparr>node_next := Some c\<rparr>)"
  let ?q = "q\<lparr>qhead := Some d, nodes := ?m\<rparr>"
  have l: "lseg ?m (Some c) (c # bs) None" using n d by (auto simp: lseg_frame)
  have "before_loop ?m c (Some c) = Some None" using d by (intro before_loop_none [OF l]) simp
  then have "ready_queue_swap_with_next c q = Some ?q"
    using n d by (auto simp: ready_queue_swap_with_next_def)
  moreover have "same_blocks q ?q"
    using n d by (auto simp: same_blocks_def block_at_def fun_eq_iff)
  moreover have "rq ?q (as @ d # c # bs)"
    using l d Nil n by (intro rq_relink [OF q \<open>same_blocks q ?q\<close>]) auto
  ultimately show ?thesis by blast
next
  case (snoc xs a)
  have d: "distinct (xs @ a # c # d # bs)" using q snoc by (simp add: rq_def)
  have l: "lseg (nodes q) (qhead q) (xs @ a # c # d # bs) None" using q snoc by (simp add: rq_def)
  then obtain na nc nd where n: "nodes q a = Some na" "nodes q c = Some nc" "nodes q d = Some nd"
    "node_next na = Some c" "node_next nc = Some d" "lseg (nodes q) (node_next nd) bs None"
    and pre: "lseg (nodes q) (qhead q) xs (Some a)"
    by (auto simp: lseg_append)
  let ?m = "(nodes q)(a \<mapsto> na\<lparr>node_next := Some d\<rparr>, d \<mapsto> nd\<lparr>node_next := Some c\<rparr>,
              c \<mapsto> nc\<lparr>node_next := node_next nd\<rparr>)"
  let ?q = "q\<lparr>nodes := ?m\<rparr>"
  have "qhead q \<noteq> Some c" using l d by (cases xs) auto
  moreover have "before_loop (nodes q) c (qhead q) = Some (Some a)"
    using l d by (intro before_loop_some) auto
  ultimately have "ready_queue_swap_with_next c q = Some ?q"
    using n d by (auto simp: ready_queue_swap_with_next_def)
  moreover have "same_blocks q ?q"
    using n d by (auto simp: same_blocks_def block_at_def fun_eq_iff)
  moreover have "lseg ?m (qhead q) (xs @ a # d # c # bs) None"
    using pre n d by (auto simp: lseg_append lseg_frame)
  then have "rq ?q (as @ d # c # bs)"
    using d snoc by (intro rq_relink [OF q \<open>same_blocks q ?q\<close>]) auto
  ultimately show ?thesis by blast
qed

subsection \<open>Adding and removing\<close>

text \<open>A node outside the queue that is ready to be added.\<close>

definition loose :: "ready_queue \<Rightarrow> ptr \<Rightarrow> bool" where
  "loose q x \<longleftrightarrow> (\<exists>b \<in> dom (pcbs q). block_at q x = Some b)"

lemma loose_same_blocks: "same_blocks q q' \<Longrightarrow> loose q' x = loose q x"
  by (simp add: loose_def same_blocks_def)

lemma add_to_tail_ok:
  assumes q: "rq q xs" and x: "x \<notin> set xs" "loose q x"
  shows "\<exists>q'. ready_queue_add_to_tail x q = Some q' \<and> rq q' (xs @ [x]) \<and> same_blocks q q'"
proof (cases xs rule: rev_cases)
  case Nil
  obtain n where n: "nodes q x = Some n" using x(2) by (auto simp: loose_def block_at_def)
  let ?q = "q\<lparr>qhead := Some x, nodes := (nodes q)(x \<mapsto> n\<lparr>node_next := None\<rparr>)\<rparr>"
  have b: "same_blocks q ?q" using n by (auto simp: same_blocks_def block_at_def fun_eq_iff)
  then have "rq ?q (xs @ [x])"
    using x(2) n Nil by (auto simp: rq_def loose_def same_blocks_def)
  then show ?thesis
    using b q n Nil by (auto simp: ready_queue_add_to_tail_def rq_def)
next
  case (snoc ys y)
  obtain n where n: "nodes q x = Some n" using x(2) by (auto simp: loose_def block_at_def)
  have l: "lseg (nodes q) (qhead q) (ys @ [y]) None" and d: "distinct (ys @ [y])"
    using q snoc by (simp_all add: rq_def)
  then obtain h hs where h: "ys @ [y] = h # hs" "qhead q = Some h" by (cases ys) auto
  then have t: "tail_loop (nodes q) h = Some y"
    using l tail_loop_last [of "nodes q" h hs] by (metis last_snoc)
  obtain ny where ny: "nodes q y = Some ny" "node_next ny = None"
    and pre: "lseg (nodes q) (qhead q) ys (Some y)"
    using l by (auto simp: lseg_append)
  let ?m = "(nodes q)(y \<mapsto> ny\<lparr>node_next := Some x\<rparr>, x \<mapsto> n\<lparr>node_next := None\<rparr>)"
  let ?q = "q\<lparr>nodes := ?m\<rparr>"
  have "x \<noteq> y" using x(1) snoc by auto
  have b: "same_blocks q ?q" using n ny by (auto simp: same_blocks_def block_at_def fun_eq_iff)
  have "lseg ?m (qhead q) (ys @ [y, x]) None"
    using pre d x(1) snoc \<open>x \<noteq> y\<close> by (auto simp: lseg_append lseg_frame)
  then have "rq ?q (xs @ [x])"
    using q x b snoc by (auto simp: rq_def loose_def same_blocks_def)
  then show ?thesis
    using b h t n ny \<open>x \<noteq> y\<close> by (auto simp: ready_queue_add_to_tail_def)
qed

lemma add_to_head_ok:
  assumes q: "rq q xs" and x: "x \<notin> set xs" "loose q x"
  shows "\<exists>q'. ready_queue_add_to_head x q = Some q' \<and> rq q' (x # xs) \<and> same_blocks q q'"
proof -
  obtain n where n: "nodes q x = Some n" using x(2) by (auto simp: loose_def block_at_def)
  let ?q = "q\<lparr>qhead := Some x, nodes := (nodes q)(x \<mapsto> n\<lparr>node_next := qhead q\<rparr>)\<rparr>"
  have b: "same_blocks q ?q" using n by (auto simp: same_blocks_def block_at_def fun_eq_iff)
  have "lseg (nodes ?q) (qhead q) xs None" using q x(1) by (simp add: rq_def lseg_frame)
  then have "rq ?q (x # xs)"
    using q x b by (auto simp: rq_def loose_def same_blocks_def)
  then show ?thesis
    using b n by (auto simp: ready_queue_add_to_head_def split: option.split)
qed

lemma pop_head_ok:
  assumes "rq q (x # xs)"
  shows "\<exists>q'. ready_queue_pop_head q = Some (Some x, q') \<and> rq q' xs \<and> same_blocks q q' \<and> loose q' x"
proof -
  obtain n where n: "nodes q x = Some n" "qhead q = Some x" "lseg (nodes q) (node_next n) xs None"
    using assms by (auto simp: rq_def)
  let ?q = "q\<lparr>qhead := node_next n\<rparr>"
  have b: "same_blocks q ?q" by (rule same_blocks_head)
  have "rq ?q xs" "loose ?q x"
    using assms n b by (auto simp: rq_def same_blocks_def loose_def)
  then show ?thesis
    using n b by (auto simp: ready_queue_pop_head_def)
qed

lemma rq_empty: "rq q xs \<Longrightarrow> is_ready_empty q \<longleftrightarrow> xs = []"
  by (cases xs) (auto simp: rq_def is_ready_empty_def)

lemma pop_head_empty: "rq q [] \<Longrightarrow> ready_queue_pop_head q = Some (None, q)"
  by (simp add: rq_def ready_queue_pop_head_def)

subsection \<open>Sorting\<close>

text \<open>One pass of bubble sort, on lists.\<close>

fun bubble :: "('a \<Rightarrow> 'a \<Rightarrow> bool) \<Rightarrow> 'a list \<Rightarrow> 'a list" where
  "bubble f (x # y # ys) = (if f x y then y # bubble f (x # ys) else x # bubble f (y # ys))"
| "bubble f xs = xs"

lemma set_bubble [simp]: "set (bubble f xs) = set xs"
  by (induction f xs rule: bubble.induct) auto

lemma distinct_bubble [simp]: "distinct (bubble f xs) = distinct xs"
  by (induction f xs rule: bubble.induct) auto

lemma length_bubble [simp]: "length (bubble f xs) = length xs"
  by (induction f xs rule: bubble.induct) auto

lemma bubble_eq_Nil [simp]: "bubble f xs = [] \<longleftrightarrow> xs = []"
  by (metis length_0_conv length_bubble)

definition node_order :: "ready_queue \<Rightarrow> ptr \<Rightarrow> ptr \<Rightarrow> bool" where
  "node_order q x y = swap_order (pcb_of q x) (pcb_of q y)"

lemma node_order_same_blocks: "same_blocks q q' \<Longrightarrow> node_order q' = node_order q"
  by (simp add: node_order_def fun_eq_iff pcb_of_same_blocks)

lemma swap_needed_ok:
  assumes "rq q (as @ x # y # bs)"
  shows "swap_needed x q = Some (node_order q x y)"
proof -
  obtain nx ny where "nodes q x = Some nx" "pcbs q (node_pcb nx) = Some (pcb_of q x)"
    "nodes q y = Some ny" "pcbs q (node_pcb ny) = Some (pcb_of q y)"
    using rq_node [OF assms, of x] rq_node [OF assms, of y] by (metis in_set_conv_decomp list.set_intros(1)
        set_append UnI2 list.set_intros(2))
  moreover have "node_next nx = Some y"
    using assms calculation(1) by (auto simp: rq_def lseg_append)
  ultimately show ?thesis by (simp add: swap_needed_def node_order_def)
qed

lemma sort_inner_ok:
  assumes "rq q (as @ c # bs)"
  shows "\<exists>s' q'. sort_inner c s q = Some (last (bubble (node_order q) (c # bs)), s', q') \<and>
    rq q' (as @ bubble (node_order q) (c # bs)) \<and> same_blocks q q'"
  using assms
proof (induction bs arbitrary: as c s q)
  case Nil
  then obtain n where "nodes q c = Some n" "node_next n = None" by (auto simp: rq_def lseg_append)
  then show ?case using Nil by (subst sort_inner.simps) (simp add: same_blocks_refl)
next
  case (Cons d bs)
  obtain n where n: "nodes q c = Some n" "node_next n = Some d"
    using Cons.prems by (auto simp: rq_def lseg_append)
  note sw = swap_needed_ok [OF Cons.prems]
  show ?case
  proof (cases "node_order q c d")
    case True
    obtain q1 where q1: "ready_queue_swap_with_next c q = Some q1" "rq q1 ((as @ [d]) @ c # bs)"
      "same_blocks q q1"
      using swap_with_next_ok [OF Cons.prems] by auto
    note o = node_order_same_blocks [OF q1(3)]
    obtain s' q' where "sort_inner c False q1 = Some (last (bubble (node_order q) (c # bs)), s', q')"
      "rq q' ((as @ [d]) @ bubble (node_order q) (c # bs))" "same_blocks q1 q'"
      using Cons.IH [OF q1(2), of False] unfolding o by blast
    then show ?thesis
      using n sw True q1 same_blocks_trans [OF q1(3)] by (subst sort_inner.simps) auto
  next
    case False
    obtain s' q' where "sort_inner d s q = Some (last (bubble (node_order q) (d # bs)), s', q')"
      "rq q' ((as @ [c]) @ bubble (node_order q) (d # bs))" "same_blocks q q'"
      using Cons.IH [of q "as @ [c]" d s] Cons.prems by auto
    then show ?thesis
      using n sw False by (subst sort_inner.simps) auto
  qed
qed

text \<open>\<^verbatim>\<open>cur\<close> is not reset between rounds, so the queue is sorted by one pass only.\<close>

lemma sort_ready_queue_ok:
  assumes "rq q xs"
  shows "\<exists>q'. sort_ready_queue q = Some q' \<and> rq q' (bubble (node_order q) xs) \<and> same_blocks q q'"
proof (cases xs)
  case Nil
  then show ?thesis
    using assms by (simp add: sort_ready_queue_def rq_def same_blocks_refl)
next
  case (Cons x ys)
  let ?b = "bubble (node_order q) xs"
  obtain s1 q1 where q1: "sort_inner x True q = Some (last ?b, s1, q1)" "rq q1 ?b" "same_blocks q q1"
    using sort_inner_ok [of q "[]" x ys True] assms Cons by auto
  obtain n where "nodes q1 (last ?b) = Some n" "node_next n = None"
    using lseg_last [of "nodes q1" "qhead q1" ?b None] q1(2) Cons by (auto simp: rq_def)
  then have "sort_inner (last ?b) True q1 = Some (last ?b, True, q1)"
    by (subst sort_inner.simps) simp
  then have "sort_outer (last ?b) s1 q1 = Some q1"
    by (cases s1; subst sort_outer.simps) (simp_all, subst sort_outer.simps, simp)
  then have "sort_ready_queue q = Some q1"
    using q1(1) assms Cons by (simp add: sort_ready_queue_def rq_def) (subst sort_outer.simps, simp)
  then show ?thesis using q1 by blast
qed

lemma swap_order_key:
  "swap_order a b \<longleftrightarrow> (if priority a = priority b then job_length_score b < job_length_score a else priority b)"
  by (auto simp: swap_order_def)

lemma node_order_trans:
  "\<not> node_order q x y \<Longrightarrow> \<not> node_order q y z \<Longrightarrow> \<not> node_order q x z"
  by (auto simp: node_order_def swap_order_key split: if_splits)

lemma node_order_asym: "node_order q x y \<Longrightarrow> \<not> node_order q y x"
  by (auto simp: node_order_def swap_order_key split: if_splits)

text \<open>A pass moves a greatest element to the end.\<close>

lemma bubble_last:
  "x \<in> set xs \<Longrightarrow> \<not> node_order q x (last (bubble (node_order q) xs))"
proof (induction "node_order q" xs arbitrary: x rule: bubble.induct)
  case (1 a b ys)
  let ?f = "node_order q" and ?l = "last (bubble (node_order q) (a # b # ys))"
  show ?case
  proof (cases "?f a b")
    case True
    then have l: "?l = last (bubble ?f (a # ys))" by simp
    have "\<not> ?f z ?l" if "z \<in> set (a # ys)" for z unfolding l using 1(1) [OF True that] .
    moreover have "\<not> ?f b ?l"
      using node_order_trans [OF node_order_asym [OF True]] calculation [of a] by simp
    ultimately show ?thesis using 1(3) by auto
  next
    case False
    then have l: "?l = last (bubble ?f (b # ys))" by simp
    have "\<not> ?f z ?l" if "z \<in> set (b # ys)" for z unfolding l using 1(2) [OF False that] .
    moreover have "\<not> ?f a ?l" using node_order_trans [OF False] calculation [of b] by simp
    ultimately show ?thesis using 1(3) by auto
  qed
qed (auto simp: node_order_def swap_order_def)

subsection \<open>Scores\<close>

abbreviation score_of :: "ready_queue \<Rightarrow> ptr \<Rightarrow> int" where
  "score_of q x \<equiv> job_length_score (pcb_of q x)"

text \<open>What the loops read at a node of a segment.\<close>

definition readable :: "ready_queue \<Rightarrow> ptr \<Rightarrow> bool" where
  "readable q x \<longleftrightarrow> (\<exists>n. nodes q x = Some n \<and> pcbs q (node_pcb n) = Some (pcb_of q x))"

lemma rq_readable: "rq q xs \<Longrightarrow> x \<in> set xs \<Longrightarrow> readable q x"
  by (metis readable_def rq_node)

lemma shortest_loop_ok:
  assumes "lseg (nodes q) p xs None" and "\<forall>x \<in> set xs. readable q x"
  shows "shortest_loop (nodes q) (pcbs q) p v = Some (fold (\<lambda>x. min (score_of q x)) xs v)"
  using assms
proof (induction xs arbitrary: p v)
  case Nil
  then show ?case by (subst shortest_loop.simps) simp
next
  case (Cons x xs)
  then obtain n where "p = Some x" "nodes q x = Some n" "pcbs q (node_pcb n) = Some (pcb_of q x)"
    "lseg (nodes q) (node_next n) xs None"
    by (auto simp: readable_def)
  then show ?case using Cons by (subst shortest_loop.simps) (simp add: if_less_min)
qed

lemma fold_min: "fold (\<lambda>x. min (f x)) xs v = Min (insert v (f ` set xs))" for f :: "'a \<Rightarrow> int"
proof (induction xs arbitrary: v)
  case (Cons x xs)
  have "Min (insert (min (f x) v) (f ` set xs)) = Min (insert v (insert (f x) (f ` set xs)))"
    by (cases "xs = []") (simp_all add: min.commute min.left_commute)
  then show ?case using Cons by simp
qed simp

lemma get_shortest_ok:
  "rq q xs \<Longrightarrow> ready_queue_get_shortest_job_score q = Some (Min (insert MAX_INT (score_of q ` set xs)))"
  using shortest_loop_ok [of q "qhead q" xs MAX_INT] rq_readable [of q xs]
  by (simp add: ready_queue_get_shortest_job_score_def rq_def fold_min)

text \<open>Promotion moves the first node with the given score to the front.\<close>

definition promoted :: "('a \<Rightarrow> bool) \<Rightarrow> 'a list \<Rightarrow> 'a list" where
  "promoted P xs = (case dropWhile (\<lambda>x. \<not> P x) xs of
     [] \<Rightarrow> xs | y # ys \<Rightarrow> y # takeWhile (\<lambda>x. \<not> P x) xs @ ys)"

lemma promote_loop_ok:
  assumes "lseg (nodes q) (Some c) (c # us @ vs) None" and "\<forall>x \<in> set (c # us @ vs). readable q x"
    and "\<forall>u \<in> set us. score_of q u \<noteq> s" and "vs \<noteq> [] \<longrightarrow> score_of q (hd vs) = s"
  shows "promote_loop (nodes q) (pcbs q) s c = Some (last (c # us))"
  using assms
proof (induction us arbitrary: c)
  case Nil
  show ?case
  proof (cases vs)
    case Nil': Nil
    then show ?thesis using Nil by (subst promote_loop.simps) auto
  next
    case (Cons y ys)
    then obtain nc ny where "nodes q c = Some nc" "node_next nc = Some y" "nodes q y = Some ny"
      "pcbs q (node_pcb ny) = Some (pcb_of q y)"
      using Nil by (auto simp: readable_def)
    then show ?thesis using Nil Cons by (subst promote_loop.simps) simp
  qed
next
  case (Cons u us)
  obtain nc nu where "nodes q c = Some nc" "node_next nc = Some u" "nodes q u = Some nu"
    "pcbs q (node_pcb nu) = Some (pcb_of q u)" "lseg (nodes q) (Some u) (u # us @ vs) None"
    using Cons.prems(1,2) by (auto simp: readable_def)
  then show ?case using Cons by (subst promote_loop.simps) simp
qed

lemma move_to_front:
  assumes q: "rq q (bs @ c # y # ys)" and h: "qhead q = Some h"
    and m: "nodes q c = Some nc" "nodes q y = Some ny"
  defines "q' \<equiv> q\<lparr>qhead := Some y,
      nodes := (nodes q)(c \<mapsto> nc\<lparr>node_next := node_next ny\<rparr>, y \<mapsto> ny\<lparr>node_next := Some h\<rparr>)\<rparr>"
  shows "rq q' (y # bs @ c # ys)" "same_blocks q q'"
proof -
  have d: "distinct (bs @ c # y # ys)" and l: "lseg (nodes q) (Some h) bs (Some c)"
    "lseg (nodes q) (node_next ny) ys None"
    using q h m by (auto simp: rq_def lseg_append)
  show b: "same_blocks q q'" using m by (auto simp: q'_def same_blocks_def block_at_def fun_eq_iff)
  have "lseg (nodes q') (Some y) (y # bs @ c # ys) None"
    using l d by (auto simp: q'_def lseg_append lseg_frame)
  then show "rq q' (y # bs @ c # ys)"
    using d by (intro rq_relink [OF q b]) (auto simp: q'_def)
qed

lemma promote_ok:
  assumes q: "rq q xs" and ne: "xs \<noteq> []"
  shows "\<exists>q'. ready_queue_promote s q = Some q' \<and> rq q' (promoted (\<lambda>x. score_of q x = s) xs) \<and> same_blocks q q'"
proof -
  obtain h t where h: "xs = h # t" using ne by (cases xs) auto
  obtain n where n: "qhead q = Some h" "nodes q h = Some n" "pcbs q (node_pcb n) = Some (pcb_of q h)"
    using q h rq_readable [OF q, of h] by (auto simp: rq_def readable_def)
  show ?thesis
  proof (cases "score_of q h = s")
    case True
    then show ?thesis using q n h by (simp add: ready_queue_promote_def promoted_def same_blocks_refl)
  next
    case False
    let ?P = "\<lambda>x. score_of q x = s"
    let ?us = "takeWhile (\<lambda>x. \<not> ?P x) t" and ?vs = "dropWhile (\<lambda>x. \<not> ?P x) t"
    have l: "lseg (nodes q) (Some h) (h # ?us @ ?vs) None" using q h n by (simp add: rq_def)
    have "promote_loop (nodes q) (pcbs q) s h = Some (last (h # ?us))"
    proof (rule promote_loop_ok [OF l])
      show "\<forall>x \<in> set (h # ?us @ ?vs). readable q x" using rq_readable [OF q] h by simp
      show "\<forall>u \<in> set ?us. score_of q u \<noteq> s" by (auto dest: set_takeWhileD)
      show "?vs \<noteq> [] \<longrightarrow> score_of q (hd ?vs) = s" using hd_dropWhile [of "\<lambda>x. \<not> ?P x" t] by blast
    qed
    then have pr: "ready_queue_promote s q =
        do { c \<leftarrow> nodes q (last (h # ?us));
             case node_next c of None \<Rightarrow> Some q
             | Some nxt \<Rightarrow> do { n \<leftarrow> nodes q nxt; m \<leftarrow> set_next (last (h # ?us)) (node_next n) (nodes q);
                 m \<leftarrow> set_next nxt (Some h) m; Some (q\<lparr>qhead := Some nxt, nodes := m\<rparr>) } }"
      using n False by (simp add: ready_queue_promote_def del: last.simps)
    show ?thesis
    proof (cases ?vs)
      case Nil
      then obtain c where "nodes q (last (h # ?us)) = Some c" "node_next c = None"
        using lseg_last [OF l list.simps(3)] unfolding Nil append_Nil2 by blast
      moreover have e: "dropWhile (\<lambda>x. \<not> ?P x) xs = []" using h False Nil by simp
      have "promoted ?P xs = xs" unfolding promoted_def e by simp
      ultimately show ?thesis using pr q by (simp add: same_blocks_refl del: last.simps)
    next
      case (Cons y ys)
      let ?c = "last (h # ?us)" and ?bs = "butlast (h # ?us)"
      have split: "h # ?us = ?bs @ [?c]" by (simp only: append_butlast_last_id list.distinct not_False_eq_True)
      have tt: "xs = ?bs @ ?c # y # ys"
        using h Cons split takeWhile_dropWhile_id [of "\<lambda>x. \<not> ?P x" t]
        by (metis append_Cons append_Nil append_assoc)
      then have q2: "rq q (?bs @ ?c # y # ys)" using q by simp
      then obtain nc ny where m: "nodes q ?c = Some nc" "node_next nc = Some y" "nodes q y = Some ny"
        by (auto simp: lseg_append rq_def simp del: last.simps butlast.simps)
      note mv = move_to_front [OF q2 n(1) m(1,3)]
      have cy: "?c \<noteq> y" using q2 by (auto simp: rq_def simp del: last.simps butlast.simps)
      have "promoted ?P xs = y # h # ?us @ ys" using h False Cons by (simp add: promoted_def)
      moreover have "h # ?us @ ys = ?bs @ ?c # ys"
        using arg_cong [OF split, of "\<lambda>z. z @ ys"] by (simp only: append_assoc append_Cons append_Nil)
      ultimately have pe: "promoted ?P xs = y # ?bs @ ?c # ys" by (simp only:)
      have "ready_queue_promote s q = Some (q\<lparr>qhead := Some y,
          nodes := (nodes q)(?c \<mapsto> nc\<lparr>node_next := node_next ny\<rparr>, y \<mapsto> ny\<lparr>node_next := Some h\<rparr>)\<rparr>)"
        unfolding pr using m cy by (simp del: last.simps butlast.simps)
      then show ?thesis unfolding pe using mv by blast
    qed
  qed
qed

text \<open>Aging: every waiting job with a positive score loses one.\<close>

definition aged :: "pcb \<Rightarrow> pcb" where
  "aged b = (if job_length_score b > 0 then b\<lparr>job_length_score := job_length_score b - 1\<rparr> else b)"

lemma decrement_loop_ok:
  assumes "lseg (nodes q) p xs None" and "distinct (map (block_at q) xs)"
    and "\<forall>x \<in> set xs. \<exists>b \<in> dom ps. block_at q x = Some b"
  shows "\<exists>ps'. decrement_loop (nodes q) p ps = Some ps' \<and> dom ps' = dom ps \<and>
    (\<forall>b. ps' b = (if Some b \<in> block_at q ` set xs then map_option aged (ps b) else ps b))"
  using assms
proof (induction xs arbitrary: p ps)
  case Nil
  then show ?case by (subst decrement_loop.simps) simp
next
  case (Cons x xs)
  obtain n b where n: "p = Some x" "nodes q x = Some n" "lseg (nodes q) (node_next n) xs None"
    "ps (node_pcb n) = Some b" and bx: "block_at q x = Some (node_pcb n)"
    using Cons.prems(1,3) by (auto simp: block_at_def)
  let ?ps = "ps(node_pcb n \<mapsto> aged b)"
  have dom: "dom ?ps = dom ps" using n(4) by auto
  have pr: "distinct (map (block_at q) xs)" "\<forall>x \<in> set xs. \<exists>b \<in> dom ?ps. block_at q x = Some b"
    using Cons.prems(2,3) unfolding dom by simp_all
  have "?ps = (if job_length_score b > 0
      then ps(node_pcb n \<mapsto> b\<lparr>job_length_score := job_length_score b - 1\<rparr>) else ps)"
    using n(4) by (auto simp: aged_def)
  then have step: "decrement_loop (nodes q) p ps = decrement_loop (nodes q) (node_next n) ?ps"
    using n by (subst decrement_loop.simps) simp
  obtain ps' where "decrement_loop (nodes q) (node_next n) ?ps = Some ps'" "dom ps' = dom ?ps"
    "\<forall>b. ps' b = (if Some b \<in> block_at q ` set xs then map_option aged (?ps b) else ?ps b)"
    using Cons.IH [OF n(3) pr] by blast
  moreover have "Some (node_pcb n) \<notin> block_at q ` set xs" using Cons.prems(2) bx by auto
  ultimately show ?case using step dom bx n(4) by auto
qed

lemma decrement_ok:
  assumes q: "rq q xs" and d: "distinct (map (block_at q) xs)"
  shows "\<exists>q'. ready_queue_decrement_job_length_score q = Some q' \<and> rq q' xs \<and>
    (\<forall>x \<in> set xs. pcb_of q' x = aged (pcb_of q x))"
proof -
  obtain ps where ps: "decrement_loop (nodes q) (qhead q) (pcbs q) = Some ps" "dom ps = dom (pcbs q)"
    "\<forall>b. ps b = (if Some b \<in> block_at q ` set xs then map_option aged (pcbs q b) else pcbs q b)"
    using decrement_loop_ok [of q "qhead q" xs "pcbs q"] q d by (auto simp: rq_def)
  let ?q = "q\<lparr>pcbs := ps\<rparr>"
  have b: "block_at ?q = block_at q" by (simp add: block_at_def fun_eq_iff)
  have "rq ?q xs" using q ps(2) by (simp add: rq_def b)
  moreover have "pcb_of ?q x = aged (pcb_of q x)" if x: "x \<in> set xs" for x
  proof -
    obtain c v where "block_at q x = Some c" "pcbs q c = Some v" using q x by (auto simp: rq_def)
    moreover have "Some c \<in> block_at q ` set xs" using x calculation(1) by (metis imageI)
    ultimately show ?thesis using ps(3) by (simp add: pcb_of_def b)
  qed
  ultimately show ?thesis using ps(1) by (auto simp: ready_queue_decrement_job_length_score_def)
qed

subsection \<open>The interface the schedulers use\<close>

text \<open>\<open>holds q xs\<close>: the queue contains \<open>xs\<close> in this order; \<open>avail q x\<close>: \<open>x\<close> is a job that can be queued.
  Popping takes the first job and leaves it available; adding at the tail appends; neither
  touches what is available.\<close>

locale job_queue =
  fixes holds :: "'q \<Rightarrow> 'n list \<Rightarrow> bool"
    and avail :: "'q \<Rightarrow> 'n \<Rightarrow> bool"
    and is_empty :: "'q \<Rightarrow> bool"
    and pop :: "'q \<Rightarrow> ('n option \<times> 'q) option"
    and push_tail :: "'n \<Rightarrow> 'q \<Rightarrow> 'q option"
    and push_head :: "'n \<Rightarrow> 'q \<Rightarrow> 'q option"
  assumes empty_iff: "holds q xs \<Longrightarrow> is_empty q \<longleftrightarrow> xs = []"
    and holds_distinct: "holds q xs \<Longrightarrow> distinct xs"
    and pop_none: "holds q [] \<Longrightarrow> pop q = Some (None, q)"
    and pop_some: "holds q (x # xs) \<Longrightarrow>
      \<exists>q'. pop q = Some (Some x, q') \<and> holds q' xs \<and> avail q' x \<and> (\<forall>y. avail q' y = avail q y)"
    and push_tail_ok: "holds q xs \<Longrightarrow> x \<notin> set xs \<Longrightarrow> avail q x \<Longrightarrow>
      \<exists>q'. push_tail x q = Some q' \<and> holds q' (xs @ [x]) \<and> (\<forall>y. avail q' y = avail q y)"
    and push_head_ok: "holds q xs \<Longrightarrow> x \<notin> set xs \<Longrightarrow> avail q x \<Longrightarrow>
      \<exists>q'. push_head x q = Some q' \<and> holds q' (x # xs) \<and> (\<forall>y. avail q' y = avail q y)"
begin

text \<open>A job that is popped and not finished goes to the end: one turn rotates the queue.\<close>

lemma turn_rotates:
  assumes "holds q (x # xs)"
  shows "\<exists>q1 q2. pop q = Some (Some x, q1) \<and> push_tail x q1 = Some q2 \<and> holds q2 (xs @ [x])"
proof -
  obtain q1 where q1: "pop q = Some (Some x, q1)" "holds q1 xs" "avail q1 x"
    using pop_some [OF assms] by blast
  moreover have "x \<notin> set xs" using holds_distinct [OF assms] by simp
  ultimately show ?thesis using push_tail_ok [of q1 xs x] by blast
qed

text \<open>A job that is pushed back to the head is the next one popped.\<close>

lemma push_head_pop:
  assumes "holds q xs" and "x \<notin> set xs" and "avail q x"
  shows "\<exists>q1 q2. push_head x q = Some q1 \<and> pop q1 = Some (Some x, q2) \<and> holds q2 xs"
proof -
  obtain q1 where "push_head x q = Some q1" "holds q1 (x # xs)"
    using push_head_ok [OF assms] by blast
  then show ?thesis using pop_some [of q1 x xs] by blast
qed

end

interpretation rq: job_queue rq loose is_ready_empty ready_queue_pop_head ready_queue_add_to_tail
  ready_queue_add_to_head
proof
  fix q xs assume "rq q xs"
  then show "is_ready_empty q \<longleftrightarrow> xs = []" "distinct xs" by (simp add: rq_empty, simp add: rq_def)
next
  fix q assume "rq q []"
  then show "ready_queue_pop_head q = Some (None, q)" by (rule pop_head_empty)
next
  fix q x xs assume "rq q (x # xs)"
  then show "\<exists>q'. ready_queue_pop_head q = Some (Some x, q') \<and> rq q' xs \<and> loose q' x \<and>
      (\<forall>y. loose q' y = loose q y)"
    using pop_head_ok [of q x xs] loose_same_blocks by blast
next
  fix q xs x assume "rq q xs" "x \<notin> set xs" "loose q x"
  then show "\<exists>q'. ready_queue_add_to_tail x q = Some q' \<and> rq q' (xs @ [x]) \<and> (\<forall>y. loose q' y = loose q y)"
    "\<exists>q'. ready_queue_add_to_head x q = Some q' \<and> rq q' (x # xs) \<and> (\<forall>y. loose q' y = loose q y)"
    using add_to_tail_ok [of q xs x] add_to_head_ok [of q xs x] loose_same_blocks by blast+
qed

subsection \<open>Properties\<close>

text \<open>Three jobs of lengths 3, 2 and 1, in this order, and a fourth node outside the queue.\<close>

definition sample_pcb :: "int \<Rightarrow> pcb" where
  "sample_pcb n = (fst (makePCB n))\<lparr>job_length_score := n\<rparr>"

definition sample_queue :: ready_queue where
  "sample_queue = \<lparr>qhead = Some 0,
     nodes = [0 \<mapsto> \<lparr>node_pcb = 10, node_next = Some 1\<rparr>, 1 \<mapsto> \<lparr>node_pcb = 11, node_next = Some 2\<rparr>,
              2 \<mapsto> \<lparr>node_pcb = 12, node_next = None\<rparr>, 3 \<mapsto> \<lparr>node_pcb = 13, node_next = None\<rparr>],
     pcbs = [10 \<mapsto> sample_pcb 3, 11 \<mapsto> sample_pcb 2, 12 \<mapsto> sample_pcb 1, 13 \<mapsto> sample_pcb 9]\<rparr>"

lemma sample_queue_facts:
  "rq sample_queue [0, 1, 2]" "loose sample_queue 3" "distinct (map (block_at sample_queue) [0, 1, 2])"
  "pcb_of sample_queue 0 = sample_pcb 3" "pcb_of sample_queue 1 = sample_pcb 2"
  "pcb_of sample_queue (Suc 0) = sample_pcb 2" "pcb_of sample_queue 2 = sample_pcb 1"
  by (simp_all add: sample_queue_def rq_def loose_def block_at_def pcb_of_def)

lemma sample_pcb_facts: "job_length_score (sample_pcb n) = n" "priority (sample_pcb n) = False"
  by (simp_all add: sample_pcb_def makePCB_def generatePID_def)

text \<open>C17: The ready queue is first-in first-out: a node added at the tail of a queue that holds \<open>xs\<close>, empty or not, makes
  it hold \<open>xs\<close> followed by the node, and popping takes the first node and leaves the others; popping an empty queue gives a
  null pointer. The links on the heap stay a well-formed list, every node keeps its process control block, and the node that
  was popped can be queued again.\<close>

theorem ready_queue_fifo:
  assumes "rq q xs" and "y \<notin> set xs" and "loose q y"
  shows "\<exists>q1 q2. ready_queue_add_to_tail y q = Some q1 \<and> rq q1 (xs @ [y]) \<and>
    ready_queue_pop_head q1 = Some (Some (hd (xs @ [y])), q2) \<and> rq q2 (tl (xs @ [y])) \<and>
    same_blocks q q2 \<and> loose q2 (hd (xs @ [y])) \<and> (xs = [] \<longrightarrow> ready_queue_pop_head q = Some (None, q) \<and> ready_queue_pop_head q2 = Some (None, q2))"
proof -
  obtain q1 where q1: "ready_queue_add_to_tail y q = Some q1" "rq q1 (xs @ [y])" "same_blocks q q1"
    using add_to_tail_ok [OF assms] by auto
  have "rq q1 (hd (xs @ [y]) # tl (xs @ [y]))" using q1(2) by (cases xs) simp_all
  then obtain q2 where q2: "ready_queue_pop_head q1 = Some (Some (hd (xs @ [y])), q2)" "rq q2 (tl (xs @ [y]))" "same_blocks q1 q2"
    "loose q2 (hd (xs @ [y]))"
    using pop_head_ok by blast
  have "ready_queue_pop_head q = Some (None, q) \<and> ready_queue_pop_head q2 = Some (None, q2)" if "xs = []"
    using that assms(1) q2(2) pop_head_empty by simp
  then show ?thesis using q1 q2 same_blocks_trans by blast
qed

theorem ready_queue_fifo_witness:
  "(\<exists>q1 q2. ready_queue_add_to_tail 3 sample_queue = Some q1 \<and>
      ready_queue_pop_head q1 = Some (Some 0, q2) \<and> rq q2 [1, 2, 3]) \<and>
   (\<exists>q1 q2. ready_queue_add_to_tail 3 (sample_queue\<lparr>qhead := None\<rparr>) = Some q1 \<and>
      ready_queue_pop_head q1 = Some (Some 3, q2) \<and> rq q2 [])"
proof
  show "\<exists>q1 q2. ready_queue_add_to_tail 3 sample_queue = Some q1 \<and> ready_queue_pop_head q1 = Some (Some 0, q2) \<and> rq q2 [1, 2, 3]"
    using ready_queue_fifo [of sample_queue "[0, 1, 2]" 3] sample_queue_facts by auto
  have "rq (sample_queue\<lparr>qhead := None\<rparr>) []" "loose (sample_queue\<lparr>qhead := None\<rparr>) 3"
    by (simp_all add: sample_queue_def rq_def loose_def block_at_def)
  then show "\<exists>q1 q2. ready_queue_add_to_tail 3 (sample_queue\<lparr>qhead := None\<rparr>) = Some q1 \<and>
      ready_queue_pop_head q1 = Some (Some 3, q2) \<and> rq q2 []"
    using ready_queue_fifo [of "sample_queue\<lparr>qhead := None\<rparr>" "[]" 3] by auto
qed

text \<open>C22: \<^verbatim>\<open>sort_ready_queue\<close> always returns; it rearranges the queue by one pass of bubble sort, so that the
  queue keeps its nodes and a greatest one (in the order by priority, then by score) is last.\<close>

theorem sort_ready_queue_one_pass:
  assumes "rq q xs"
  shows "\<exists>q' ys. sort_ready_queue q = Some q' \<and> rq q' ys \<and> ys = bubble (node_order q) xs \<and>
    same_blocks q q' \<and> set ys = set xs \<and> length ys = length xs \<and>
    (\<forall>x \<in> set xs. \<not> swap_order (pcb_of q x) (pcb_of q (last ys)))"
  using sort_ready_queue_ok [OF assms] bubble_last [of _ xs q]
  by (auto simp: node_order_def)

theorem sort_ready_queue_one_pass_witness:
  "\<exists>q'. sort_ready_queue sample_queue = Some q' \<and> rq q' [1, 2, 0]"
  using sort_ready_queue_one_pass [OF sample_queue_facts(1)]
  by (auto simp: node_order_def swap_order_def sample_queue_facts sample_pcb_facts)

text \<open>Because the sort is a single pass, \<^verbatim>\<open>ready_queue_pop_shortest_job\<close> returns the smaller of the first
  two jobs, whatever comes after them.\<close>

theorem pop_shortest_job_compares_two:
  assumes "rq q (x # y # xs)"
  shows "\<exists>q'. ready_queue_pop_shortest_job q =
    Some (Some (if swap_order (pcb_of q x) (pcb_of q y) then y else x), q')"
proof -
  let ?z = "if swap_order (pcb_of q x) (pcb_of q y) then y else x"
  obtain q1 where q1: "sort_ready_queue q = Some q1" "rq q1 (bubble (node_order q) (x # y # xs))"
    using sort_ready_queue_ok [OF assms] by blast
  have "\<exists>zs. bubble (node_order q) (x # y # xs) = ?z # zs" by (simp add: node_order_def)
  then obtain zs where zs: "bubble (node_order q) (x # y # xs) = ?z # zs" by blast
  obtain q2 where "ready_queue_pop_head q1 = Some (Some ?z, q2)"
    using q1(2) pop_head_ok [of q1 ?z zs] unfolding zs by blast
  then show ?thesis
    using q1(1) by (simp add: ready_queue_pop_shortest_job_def)
qed

theorem pop_shortest_job_compares_two_witness:
  "(\<exists>q'. ready_queue_pop_shortest_job sample_queue = Some (Some 1, q')) \<and>
   score_of sample_queue 2 < score_of sample_queue 1"
  using pop_shortest_job_compares_two [OF sample_queue_facts(1)]
  by (auto simp: swap_order_def sample_queue_facts sample_pcb_facts)

text \<open>C23: Promoting the shortest score: on a non-empty queue, \<^verbatim>\<open>ready_queue_promote\<close> of the score that
  \<^verbatim>\<open>ready_queue_get_shortest_job_score\<close> reports brings the first of the jobs of least score to the head and keeps the
  others in order behind it. (No score is above the largest \<^verbatim>\<open>int\<close>.)\<close>

theorem promote_shortest_to_head:
  assumes "rq q xs" and "xs \<noteq> []" and "\<forall>x \<in> set xs. score_of q x \<le> MAX_INT"
  shows "\<exists>s q' zs y us. ready_queue_get_shortest_job_score q = Some s \<and> ready_queue_promote s q = Some q' \<and>
    xs = zs @ y # us \<and> rq q' (y # zs @ us) \<and> score_of q y = s \<and> (\<forall>x \<in> set xs. s \<le> score_of q x) \<and>
    (\<forall>z \<in> set zs. s < score_of q z) \<and> same_blocks q q'"
proof -
  let ?s = "Min (insert MAX_INT (score_of q ` set xs))" and ?P = "\<lambda>x. score_of q x = Min (insert MAX_INT (score_of q ` set xs))"
  have "Min (score_of q ` set xs) \<le> MAX_INT"
    using assms(2,3) by (cases xs) (auto simp: Min_le_iff)
  then have "?s = Min (score_of q ` set xs)"
    using assms(2) by (simp add: min_absorb2)
  then have "?s \<in> score_of q ` set xs" using assms(2) Min_in [of "score_of q ` set xs"] by simp
  then obtain z where z: "z \<in> set xs" "?P z" by auto
  then obtain y us where y: "dropWhile (\<lambda>x. \<not> ?P x) xs = y # us"
    by (metis (mono_tags, lifting) dropWhile_eq_Nil_conv list.exhaust)
  let ?zs = "takeWhile (\<lambda>x. \<not> ?P x) xs"
  have "?P y" using hd_dropWhile [of "\<lambda>x. \<not> ?P x" xs] y by (metis list.distinct(1) list.sel(1))
  have split: "xs = ?zs @ y # us"
    using takeWhile_dropWhile_id [of "\<lambda>x. \<not> ?P x" xs] y by metis
  have least: "?s \<le> score_of q x" if "x \<in> set xs" for x using that by (intro Min_le) auto
  have "?s < score_of q x" if "x \<in> set ?zs" for x
    using least [of x] set_takeWhileD [OF that] by (simp only: less_le) metis
  moreover have "promoted ?P xs = y # ?zs @ us" using y by (simp add: promoted_def)
  ultimately show ?thesis
    using promote_ok [OF assms(1,2), of ?s] get_shortest_ok [OF assms(1)] \<open>?P y\<close> split least by fastforce
qed

theorem promote_shortest_to_head_witness:
  "\<exists>q' y ys. ready_queue_get_shortest_job_score sample_queue = Some 1 \<and>
     ready_queue_promote 1 sample_queue = Some q' \<and> rq q' (y # ys) \<and> score_of sample_queue y = 1"
proof -
  have "\<forall>x \<in> set [0, 1, 2]. score_of sample_queue x \<le> MAX_INT"
    by (simp add: sample_queue_facts sample_pcb_facts MAX_INT_def)
  moreover have "ready_queue_get_shortest_job_score sample_queue = Some 1"
    using get_shortest_ok [OF sample_queue_facts(1)] by (simp add: sample_queue_facts sample_pcb_facts MAX_INT_def)
  ultimately show ?thesis
    using promote_shortest_to_head [OF sample_queue_facts(1)] by fastforce
qed

text \<open>\<^verbatim>\<open>ready_queue_decrement_job_length_score\<close> takes one off every positive score in the queue and
  leaves the order of the queue alone.\<close>

theorem decrement_ages_every_job:
  assumes "rq q xs" and "distinct (map (block_at q) xs)"
  shows "\<exists>q'. ready_queue_decrement_job_length_score q = Some q' \<and> rq q' xs \<and>
    (\<forall>x \<in> set xs. score_of q' x = (if score_of q x > 0 then score_of q x - 1 else score_of q x))"
  using decrement_ok [OF assms] by (auto simp: aged_def)

theorem decrement_ages_every_job_witness:
  "\<exists>q'. ready_queue_decrement_job_length_score sample_queue = Some q' \<and> score_of q' 0 = 2"
  using decrement_ages_every_job [OF sample_queue_facts(1,3)]
  by (auto simp: sample_queue_facts sample_pcb_facts)

end
