(* ===== verification/A2_Memory.thy ===== *)
theory A2_Memory
  imports A2_Queue Var_Store Text_Stream
begin

text \<open>
  The memory of the second shell (\<^verbatim>\<open>a2/shellmemory.c\<close>): a frame store for pages of programs, followed
  by a store of variables, with LRU or FIFO replacement of frames.

  The two sizes are the constants of the build (\<^verbatim>\<open>-D FRAME_STORE_SIZE\<close>, \<^verbatim>\<open>-D VAR_STORE_SIZE\<close>); the record
  keeps the first as \<open>threshold\<close> and the length of the array is their sum. A string in the array is
  either the literal \<^verbatim>\<open>"none"\<close> or a copy on the heap: \<^verbatim>\<open>free\<close> of a literal is undefined. The access
  counter is an \<^verbatim>\<open>int\<close> that must not overflow. A stream (\<^verbatim>\<open>FILE *\<close>) is the text not yet read and the
  end-of-file flag, which \<^verbatim>\<open>fgets\<close> sets when it runs into the end of the text; \<open>files\<close> maps the names
  that \<^verbatim>\<open>fopen\<close> can open to their text.
\<close>

subsection \<open>State\<close>

datatype cstr = Lit (chars: string) | Dup (chars: string)

datatype PagePolicy = FIFO | LRU

record memory_struct =
  var :: cstr
  val :: cstr
  age :: int
  accessed :: int

record shellmemory =
  cells :: "memory_struct list"
  threshold :: nat
  access_time :: int
  current_policy :: PagePolicy

definition FRAME_SIZE :: nat where
  "FRAME_SIZE = 3"

abbreviation none_str :: string where
  "none_str \<equiv> ''none''"

definition free_str :: "cstr \<Rightarrow> unit option" where
  "free_str c = (case c of Dup _ \<Rightarrow> Some () | Lit _ \<Rightarrow> None)"

definition set_memory_policy :: "PagePolicy \<Rightarrow> shellmemory \<Rightarrow> shellmemory" where
  "set_memory_policy p m = m\<lparr>current_policy := p\<rparr>"

definition tick :: "shellmemory \<Rightarrow> shellmemory option" where
  "tick m = (if access_time m < 2 ^ 31 - 1 then Some (m\<lparr>access_time := access_time m + 1\<rparr>) else None)"

abbreviation upd_cell :: "nat \<Rightarrow> (memory_struct \<Rightarrow> memory_struct) \<Rightarrow> shellmemory \<Rightarrow> shellmemory" where
  "upd_cell i f m \<equiv> m\<lparr>cells := (cells m)[i := f (cells m ! i)]\<rparr>"

subsection \<open>Helper functions\<close>

text \<open>\<^verbatim>\<open>match\<close> compares \<open>model\<close> with \<open>vr\<close> character by character, up to the length of \<open>vr\<close>; it may read
  the terminator of \<open>model\<close> and not what follows it.\<close>

definition match :: "string \<Rightarrow> string \<Rightarrow> nat option" where
  "match model vr =
     (if length vr \<le> length model + 1
      then Some (if length (filter (\<lambda>i. (model @ [CHR 0x00]) ! i = vr ! i) [0..<length vr]) = length vr
                 then 1 else 0)
      else None)"

definition extract_value :: "string \<Rightarrow> string option" where
  "extract_value model =
     (let v = drop 1 (dropWhile (\<lambda>c. c \<noteq> CHR ''='') model)
      in if length v < 1000 then Some v else None)"

subsection \<open>Variables\<close>

definition mem_init :: "shellmemory \<Rightarrow> shellmemory" where
  "mem_init m = m\<lparr>cells := map (\<lambda>c. c\<lparr>var := Lit none_str, val := Lit none_str, accessed := 0, age := 0\<rparr>)
                            (cells m)\<rparr>"

definition mem_init_variable :: "shellmemory \<Rightarrow> shellmemory" where
  "mem_init_variable m =
     m\<lparr>cells := take (threshold m) (cells m) @
         map (\<lambda>c. c\<lparr>var := Lit none_str, val := Lit none_str\<rparr>) (drop (threshold m) (cells m))\<rparr>"

text \<open>The first cell from \<open>i\<close> on whose name is \<open>s\<close>: the loops over the array with an early return.\<close>

definition find_var :: "string \<Rightarrow> nat \<Rightarrow> shellmemory \<Rightarrow> nat option" where
  "find_var s i m = find (\<lambda>k. chars (var (cells m ! k)) = s) [i..<length (cells m)]"

definition mem_set_value :: "string \<Rightarrow> string \<Rightarrow> shellmemory \<Rightarrow> shellmemory" where
  "mem_set_value var_in value_in m =
     (case find_var var_in (threshold m) m of
        Some i \<Rightarrow> upd_cell i (\<lambda>c. c\<lparr>val := Dup value_in\<rparr>) m
      | None \<Rightarrow>
          (case find_var none_str (threshold m) m of
             Some i \<Rightarrow> upd_cell i (\<lambda>c. c\<lparr>var := Dup var_in, val := Dup value_in\<rparr>) m
           | None \<Rightarrow> m))"

definition mem_get_value :: "string \<Rightarrow> shellmemory \<Rightarrow> (string option \<times> shellmemory) option" where
  "mem_get_value var_in m =
     (case find_var var_in (threshold m) m of
        Some i \<Rightarrow> do { m \<leftarrow> tick m;
                      Some (Some (chars (val (cells m ! i))), upd_cell i (\<lambda>c. c\<lparr>accessed := access_time m\<rparr>) m) }
      | None \<Rightarrow> Some (None, m))"

subsection \<open>Frames\<close>

text \<open>The loop of \<^verbatim>\<open>mem_free_lines_between\<close> from \<open>i\<close>, \<open>n\<close> lines left.\<close>

fun free_loop :: "nat \<Rightarrow> nat \<Rightarrow> shellmemory \<Rightarrow> shellmemory option" where
  "free_loop i 0 m = Some m"
| "free_loop i (Suc n) m =
     (if i < length (cells m)
      then do { free_str (var (cells m ! i));
                free_str (val (cells m ! i));
                m \<leftarrow> tick m;
                free_loop (Suc i) n
                  (upd_cell i (\<lambda>c. c\<lparr>var := Lit none_str, val := Lit none_str,
                                   accessed := access_time m, age := access_time m\<rparr>) m) }
      else Some m)"

definition mem_free_lines_between :: "int \<Rightarrow> int \<Rightarrow> shellmemory \<Rightarrow> shellmemory option" where
  "mem_free_lines_between start stop m =
     (if stop < start then Some m
      else if start < 0 then None
      else free_loop (nat start) (nat (stop - start + 1)) m)"

definition printShellMemory :: "shellmemory \<Rightarrow> console \<Rightarrow> console" where
  "printShellMemory m out =
     (let used = filter (\<lambda>i. chars (var (cells m ! i)) \<noteq> none_str) [0..<length (cells m)];
          total = length (cells m)
      in out @ map (\<lambda>i. Print (''line '' @ dec i @ '': key: '' @ chars (var (cells m ! i)) @ [CHR 0x09, CHR 0x09]
                          @ ''value: '' @ chars (val (cells m ! i)))) used
             @ [Print (dec total @ '' lines in total, '' @ dec (length used) @ '' lines in use, ''
                  @ dec (total - length used) @ '' lines free'')])"

definition is_none :: "nat \<Rightarrow> shellmemory \<Rightarrow> bool option" where
  "is_none i m = (if i < length (cells m) then Some (chars (var (cells m ! i)) = none_str) else None)"

text \<open>The three tests are joined by \<^verbatim>\<open>&&\<close>: a later one is evaluated only if the earlier ones hold.\<close>

definition frame_free :: "nat \<Rightarrow> shellmemory \<Rightarrow> bool option" where
  "frame_free i m =
     do { a \<leftarrow> is_none i m;
          if \<not> a then Some False
          else do { b \<leftarrow> is_none (i + 1) m;
                    if \<not> b then Some False else is_none (i + 2) m } }"

function slot_loop :: "nat \<Rightarrow> shellmemory \<Rightarrow> int option" where
  "slot_loop start_index m =
     (if start_index < threshold m
      then do { f \<leftarrow> frame_free start_index m;
                if f then Some (int start_index) else slot_loop (start_index + FRAME_SIZE) m }
      else Some (- 1))"
  by pat_completeness auto
termination
  by (relation "measure (\<lambda>(i, m). threshold m - i)") (auto simp: FRAME_SIZE_def)

declare slot_loop.simps [simp del]

definition find_available_slot :: "shellmemory \<Rightarrow> int option" where
  "find_available_slot m = slot_loop 0 m"

text \<open>The indices \<^verbatim>\<open>0, 3, 6, ...\<close> below the threshold, and the loop that keeps the first least
  value below 9999.\<close>

definition frame_starts :: "shellmemory \<Rightarrow> nat list" where
  "frame_starts m = map (\<lambda>k. FRAME_SIZE * k) [0..<(threshold m + FRAME_SIZE - 1) div FRAME_SIZE]"

fun oldest_loop :: "(nat \<Rightarrow> int) \<Rightarrow> nat list \<Rightarrow> int \<Rightarrow> int \<Rightarrow> int" where
  "oldest_loop stamp [] idx t = idx"
| "oldest_loop stamp (i # is) idx t =
     (if stamp i < t then oldest_loop stamp is (int i) (stamp i) else oldest_loop stamp is idx t)"

definition find_lru_slot :: "shellmemory \<Rightarrow> int" where
  "find_lru_slot m = oldest_loop (\<lambda>i. accessed (cells m ! i)) (frame_starts m) (- 1) 9999"

definition find_fifo_slot :: "shellmemory \<Rightarrow> int" where
  "find_fifo_slot m = oldest_loop (\<lambda>i. age (cells m ! i)) (frame_starts m) (- 1) 9999"

definition find_replacement_slot :: "shellmemory \<Rightarrow> int" where
  "find_replacement_slot m = (if current_policy m = LRU then find_lru_slot m else find_fifo_slot m)"

subsection \<open>Loading programs\<close>

text \<open>Storing one line of a program.\<close>

definition store_line :: "string \<Rightarrow> string \<Rightarrow> nat \<Rightarrow> shellmemory \<Rightarrow> shellmemory option" where
  "store_line filename line i m =
     (if i < length (cells m)
      then do { m \<leftarrow> tick m;
                Some (upd_cell i (\<lambda>c. c\<lparr>var := Dup filename, val := Dup line, accessed := access_time m,
                                      age := access_time m\<rparr>) m) }
      else None)"

definition mark_page :: "pcb \<Rightarrow> pcb option" where
  "mark_page p =
     (if 0 \<le> pageCounter p \<and> nat (pageCounter p) < length (pagetable p)
      then Some (p\<lparr>pagetable := (pagetable p)[nat (pageCounter p) := True], pageCounter := pageCounter p + 1\<rparr>)
      else None)"

text \<open>The inner \<^verbatim>\<open>for\<close> loop of \<^verbatim>\<open>load_file\<close>: \<open>k\<close> is the number of iterations left, \<open>fi\<close> is
  \<^verbatim>\<open>frame_index\<close>, \<open>ll\<close> is \<^verbatim>\<open>lines_loaded\<close>, \<open>go\<close> is \<^verbatim>\<open>load_next_page\<close>.\<close>

fun load_page ::
  "nat \<Rightarrow> string \<Rightarrow> stream \<Rightarrow> pcb \<Rightarrow> nat \<Rightarrow> nat \<Rightarrow> bool \<Rightarrow> shellmemory \<Rightarrow>
   (stream \<times> pcb \<times> nat \<times> nat \<times> bool \<times> shellmemory) option" where
  "load_page 0 filename fp p fi ll go m = Some (fp, p, fi, ll, go, m)"
| "load_page (Suc k) filename fp p fi ll go m =
     (if ll < FRAME_SIZE * 2
      then if eof fp then Some (fp, p\<lparr>pcb_end := int fi - 1\<rparr>, fi, ll, go, m)
           else case fgets 100 fp of
                  (None, fp) \<Rightarrow> load_page k filename fp p fi ll go m
                | (Some line, fp) \<Rightarrow>
                    do { m \<leftarrow> store_line filename line fi m;
                         let fi = fi + 1; let ll = ll + 1;
                         if ll mod FRAME_SIZE = 0 \<or> eof fp
                         then do { p \<leftarrow> mark_page p;
                                   load_page k filename fp p fi ll (if pageCounter p = 2 then False else go) m }
                         else load_page k filename fp p fi ll go m }
      else Some (fp, p, fi, ll, go, m))"

text \<open>The outer loop reads at least one line per round or ends; the fuel is the number of rounds.
  \<^verbatim>\<open>THRESHOLD - 2\<close> is converted to \<^verbatim>\<open>size_t\<close>.\<close>

fun load_pages ::
  "nat \<Rightarrow> string \<Rightarrow> stream \<Rightarrow> pcb \<Rightarrow> nat \<Rightarrow> nat \<Rightarrow> bool \<Rightarrow> shellmemory \<Rightarrow> (int \<times> pcb \<times> nat \<times> shellmemory) option" where
  "load_pages 0 filename fp p fi ll go m = None"
| "load_pages (Suc n) filename fp p fi ll go m =
     (if \<not> eof fp \<and> go \<and> fi < sz_diff (threshold m) 2
      then do { (fp, p, fi, ll, go, m) \<leftarrow> load_page FRAME_SIZE filename fp p fi ll go m;
                if fi > threshold m then Some (21, p, fi, m)
                else load_pages n filename fp p fi ll go m }
      else Some (0, p, fi, m))"

definition load_file ::
  "nat \<Rightarrow> ptr \<Rightarrow> stream \<Rightarrow> pcb \<Rightarrow> string \<Rightarrow> shellmemory \<Rightarrow> (int \<times> pcb \<times> shellmemory) option" where
  "load_file fuel fileptr fp p filename m =
     do { slot \<leftarrow> find_available_slot m;
          if slot = - 1 then Some (21, p, m)
          else do { let p = p\<lparr>pcb_start := slot, PC := slot, pcb_filename := Some filename, pcb_file := Some fileptr\<rparr>;
                    (err, p, fi, m) \<leftarrow> load_pages fuel filename fp p (nat slot) 0 True m;
                    Some (err, p\<lparr>pcb_end := int fi - 1\<rparr>, m) } }"

text \<open>Skipping the lines already loaded: \<open>True\<close> when the end of the file is reached.\<close>

fun skip_lines :: "nat \<Rightarrow> stream \<Rightarrow> bool \<times> stream" where
  "skip_lines 0 fp = (eof fp, fp)"
| "skip_lines (Suc n) fp =
     (let (l, fp) = fgets 100 fp in if eof fp then (True, fp) else skip_lines n fp)"

fun load_frame_loop ::
  "nat \<Rightarrow> string \<Rightarrow> stream \<Rightarrow> pcb \<Rightarrow> nat \<Rightarrow> shellmemory \<Rightarrow> (pcb \<times> nat \<times> shellmemory) option" where
  "load_frame_loop 0 filename fp p fi m = Some (p, fi, m)"
| "load_frame_loop (Suc k) filename fp p fi m =
     (if eof fp then Some (p\<lparr>pcb_end := int fi - 1\<rparr>, fi, m)
      else case fgets 100 fp of
             (None, fp) \<Rightarrow> load_frame_loop k filename fp p fi m
           | (Some line, fp) \<Rightarrow>
               do { m \<leftarrow> store_line filename line fi m; load_frame_loop k filename fp p (fi + 1) m })"

definition load_frame ::
  "(string \<rightharpoonup> string) \<Rightarrow> pcb \<Rightarrow> shellmemory \<Rightarrow> (int \<times> pcb \<times> shellmemory) option" where
  "load_frame files p m =
     do { filename \<leftarrow> pcb_filename p;
          contents \<leftarrow> files filename;
          let (ended, fp) = skip_lines (nat (pageCounter p * int FRAME_SIZE)) \<lparr>rest = contents, eof = False\<rparr>;
          if ended then Some (- 2, p, m)
          else do { slot \<leftarrow> find_available_slot m;
                    if slot = - 1 then Some (- 1, p, m)
                    else do { let p = p\<lparr>pcb_start := slot, PC := slot\<rparr>;
                              (p, fi, m) \<leftarrow> load_frame_loop FRAME_SIZE filename fp p (nat slot) m;
                              p \<leftarrow> mark_page p;
                              Some (0, p\<lparr>pcb_end := int fi - 1\<rparr>, m) } } }"

text \<open>A victim slot of -1 makes \<^verbatim>\<open>frame_index\<close> the largest \<^verbatim>\<open>size_t\<close> and the array is read out of
  bounds.\<close>

definition remove_frame ::
  "(string \<rightharpoonup> string) \<Rightarrow> pcb \<Rightarrow> shellmemory \<Rightarrow> console \<Rightarrow> (int \<times> pcb \<times> shellmemory \<times> console) option" where
  "remove_frame files p m out =
     do { filename \<leftarrow> pcb_filename p;
          case files filename of
            None \<Rightarrow> Some (- 1, p, m, out)
          | Some _ \<Rightarrow>
              let slot = find_replacement_slot m;
                  p = p\<lparr>pcb_start := slot, PC := slot\<rparr>;
                  out = out @ [Print ''Page fault! Victim page contents:'']
              in if slot < 0 \<or> length (cells m) < nat slot + FRAME_SIZE then None
                 else do { let out = out @ map (\<lambda>i. Print (chars (val (cells m ! (nat slot + i))))) [0..<FRAME_SIZE];
                           m \<leftarrow> mem_free_lines_between slot (slot + int FRAME_SIZE - 1) m;
                           let out = out @ [Print ''End of victim page contents.''];
                           Some (0, p\<lparr>pagetable := (pagetable p)[0 := False]\<rparr>, m, out) } }"

definition mem_get_value_at_line :: "int \<Rightarrow> shellmemory \<Rightarrow> (string option \<times> shellmemory) option" where
  "mem_get_value_at_line index m =
     (if index < 0 \<or> index > int (length (cells m)) then Some (None, m)
      else if nat index < length (cells m)
      then do { m \<leftarrow> tick m;
                let m = upd_cell (nat index) (\<lambda>c. c\<lparr>accessed := access_time m\<rparr>) m;
                Some (Some (chars (val (cells m ! nat index))), m) }
      else None)"

definition free_used :: "cstr \<Rightarrow> unit option" where
  "free_used c = (if chars c \<noteq> none_str then free_str c else Some ())"

fun free_cells :: "memory_struct list \<Rightarrow> memory_struct list option" where
  "free_cells [] = Some []"
| "free_cells (c # cs) =
     do { free_used (var c);
          free_used (val c);
          cs \<leftarrow> free_cells cs;
          Some (c\<lparr>var := Lit none_str, val := Lit none_str\<rparr> # cs) }"

definition free_shell_memory :: "shellmemory \<Rightarrow> shellmemory option" where
  "free_shell_memory m = do { cs \<leftarrow> free_cells (cells m); Some (m\<lparr>cells := cs\<rparr>) }"

subsection \<open>Variables as a map\<close>

text \<open>The array as names and values; what a reader of a variable gets.\<close>

definition named_cells :: "shellmemory \<Rightarrow> vcell list" where
  "named_cells m = map (\<lambda>c. (chars (var c), chars (val c))) (cells m)"

definition var_of :: "shellmemory \<Rightarrow> string \<Rightarrow> string option" where
  "var_of m = get_named (threshold m) (named_cells m)"

definition wf_vars :: "shellmemory \<Rightarrow> bool" where
  "wf_vars m \<longleftrightarrow> wf_named (threshold m) (named_cells m)"

definition room_for :: "string \<Rightarrow> shellmemory \<Rightarrow> bool" where
  "room_for s m \<longleftrightarrow> room_named (threshold m) s (named_cells m)"

lemma length_named_cells [simp]: "length (named_cells m) = length (cells m)"
  by (simp add: named_cells_def)

lemma find_var_named: "find_var s i m = find_named i s (named_cells m)"
  unfolding find_var_def find_named_def
  by (rule find_cong) (auto simp: named_cells_def)

lemma mem_set_value_frame:
  "threshold (mem_set_value s v m) = threshold m" "length (cells (mem_set_value s v m)) = length (cells m)"
  "access_time (mem_set_value s v m) = access_time m"
  "i < threshold m \<Longrightarrow> cells (mem_set_value s v m) ! i = cells m ! i"
  by (auto simp: mem_set_value_def find_var_named find_named_Some split: option.splits)

text \<open>The array operation refines the operation on names and values.\<close>

lemma named_cells_upd:
  "named_cells (m\<lparr>cells := (cells m)[k := c]\<rparr>) = (named_cells m)[k := (chars (var c), chars (val c))]"
  by (simp add: named_cells_def map_update)

lemma mem_set_value_named: "named_cells (mem_set_value s v m) = set_named (threshold m) s v (named_cells m)"
proof (cases "find_named (threshold m) s (named_cells m)")
  case (Some k)
  then have "k < length (cells m)" by (simp add: find_named_Some)
  then have "fst (named_cells m ! k) = chars (var (cells m ! k))" by (simp add: named_cells_def)
  then show ?thesis using Some by (simp add: mem_set_value_def set_named_def find_var_named named_cells_upd)
next
  case None
  then show ?thesis
    by (simp add: mem_set_value_def set_named_def find_var_named named_cells_upd split: option.split)
qed

interpretation a2_vars: var_store wf_vars var_of room_for mem_set_value none_str
  by unfold_locales
    (simp_all add: wf_vars_def var_of_def room_for_def mem_set_value_frame mem_set_value_named
      named.put_ok named.look_put_same named.look_put_other named.look_room)

lemma mem_get_value_ok:
  assumes "access_time m < 2 ^ 31 - 1"
  shows "\<exists>m'. mem_get_value s m = Some (var_of m s, m') \<and> (\<forall>t. var_of m' t = var_of m t)"
proof (cases "find_var s (threshold m) m")
  case None
  then show ?thesis by (simp add: mem_get_value_def var_of_def get_named_def find_var_named)
next
  case (Some i)
  let ?m = "upd_cell i (\<lambda>c. c\<lparr>accessed := access_time m + 1\<rparr>) (m\<lparr>access_time := access_time m + 1\<rparr>)"
  have i: "i < length (cells m)" using Some by (simp add: find_var_named find_named_Some)
  have "named_cells ?m = named_cells m" using i by (simp add: named_cells_def map_update list_update_same_conv)
  then have "var_of ?m t = var_of m t" for t by (simp add: var_of_def)
  moreover have "var_of m s = Some (chars (val (cells m ! i)))"
    using Some i by (simp add: var_of_def get_named_def find_var_named named_cells_def)
  ultimately show ?thesis using Some assms by (auto simp: mem_get_value_def tick_def)
qed

subsection \<open>Frames\<close>

definition frame_is_free :: "shellmemory \<Rightarrow> nat \<Rightarrow> bool" where
  "frame_is_free m f \<longleftrightarrow> (\<forall>j < FRAME_SIZE. chars (var (cells m ! (f + j))) = none_str)"

definition wf_frames :: "shellmemory \<Rightarrow> bool" where
  "wf_frames m \<longleftrightarrow> FRAME_SIZE dvd threshold m \<and> threshold m \<le> length (cells m)"

definition is_frame :: "shellmemory \<Rightarrow> nat \<Rightarrow> bool" where
  "is_frame m f \<longleftrightarrow> FRAME_SIZE dvd f \<and> f < threshold m"

lemma is_frame_bound: "wf_frames m \<Longrightarrow> is_frame m f \<Longrightarrow> f + FRAME_SIZE \<le> threshold m"
  by (auto simp: wf_frames_def is_frame_def FRAME_SIZE_def dvd_def)

lemma frame_free_ok:
  assumes "f + FRAME_SIZE \<le> length (cells m)"
  shows "frame_free f m = Some (frame_is_free m f)"
proof -
  have "frame_is_free m f \<longleftrightarrow> chars (var (cells m ! f)) = none_str \<and>
      chars (var (cells m ! (f + 1))) = none_str \<and> chars (var (cells m ! (f + 2))) = none_str"
    by (simp add: frame_is_free_def FRAME_SIZE_def numeral_3_eq_3 numeral_2_eq_2 All_less_Suc conj_ac)
  then show ?thesis
    using assms by (simp add: frame_free_def is_none_def FRAME_SIZE_def)
qed

text \<open>The search for a free frame finds the first one.\<close>

lemma slot_loop_ok:
  assumes "wf_frames m" and "FRAME_SIZE dvd i"
  shows "(\<exists>f. slot_loop i m = Some (int f) \<and> i \<le> f \<and> is_frame m f \<and> frame_is_free m f \<and>
      (\<forall>g. is_frame m g \<and> i \<le> g \<and> g < f \<longrightarrow> \<not> frame_is_free m g)) \<or>
    (slot_loop i m = Some (- 1) \<and> (\<forall>g. is_frame m g \<and> i \<le> g \<longrightarrow> \<not> frame_is_free m g))"
  using assms
proof (induction i m rule: slot_loop.induct)
  case (1 i m)
  show ?case
  proof (cases "i < threshold m")
    case False
    then show ?thesis by (subst slot_loop.simps) (auto simp: is_frame_def)
  next
    case True
    have fr: "is_frame m i" using True "1.prems"(2) by (simp add: is_frame_def)
    have "frame_free i m = Some (frame_is_free m i)"
      using is_frame_bound [OF "1.prems"(1) fr] "1.prems"(1) by (intro frame_free_ok) (simp add: wf_frames_def)
    then have step: "slot_loop i m = (if frame_is_free m i then Some (int i) else slot_loop (i + FRAME_SIZE) m)"
      using True by (subst slot_loop.simps) simp
    have gap: "is_frame m g \<and> i \<le> g \<longleftrightarrow> g = i \<or> is_frame m g \<and> i + FRAME_SIZE \<le> g" for g
      using fr "1.prems"(2) unfolding is_frame_def FRAME_SIZE_def by presburger
    show ?thesis
    proof (cases "frame_is_free m i")
      case free: True
      then show ?thesis using step fr by auto
    next
      case busy: False
      have IH: "(\<exists>f. slot_loop (i + FRAME_SIZE) m = Some (int f) \<and> i + FRAME_SIZE \<le> f \<and> is_frame m f \<and>
            frame_is_free m f \<and> (\<forall>g. is_frame m g \<and> i + FRAME_SIZE \<le> g \<and> g < f \<longrightarrow> \<not> frame_is_free m g)) \<or>
          (slot_loop (i + FRAME_SIZE) m = Some (- 1) \<and>
            (\<forall>g. is_frame m g \<and> i + FRAME_SIZE \<le> g \<longrightarrow> \<not> frame_is_free m g))"
        using "1.prems" busy True \<open>frame_free i m = Some (frame_is_free m i)\<close>
        by (intro "1.IH" [of "False"]) simp_all
      then show ?thesis
        using step busy gap by (metis (no_types, lifting) add_leD1)
    qed
  qed
qed

text \<open>The search for the oldest frame.\<close>

lemma oldest_loop_ok:
  "(oldest_loop stamp is idx t = idx \<and> (\<forall>i \<in> set is. t \<le> stamp i)) \<or>
   (\<exists>i \<in> set is. oldest_loop stamp is idx t = int i \<and> stamp i < t \<and> (\<forall>j \<in> set is. stamp i \<le> stamp j))"
proof (induction "is" arbitrary: idx t)
  case (Cons a as)
  show ?case
  proof (cases "stamp a < t")
    case True
    then show ?thesis using Cons.IH [of "int a" "stamp a"] by fastforce
  next
    case False
    then show ?thesis using Cons.IH [of idx t] by fastforce
  qed
qed simp

lemma set_frame_starts: "wf_frames m \<Longrightarrow> set (frame_starts m) = {f. is_frame m f}"
  by (auto simp: frame_starts_def is_frame_def wf_frames_def FRAME_SIZE_def dvd_def)

text \<open>Freeing a run of cells that hold strings of the heap.\<close>

definition on_heap :: "memory_struct \<Rightarrow> bool" where
  "on_heap c \<longleftrightarrow> free_str (var c) = Some () \<and> free_str (val c) = Some ()"

lemma free_str_cases: "free_str c = Some () \<or> free_str c = None"
  by (cases c) (simp_all add: free_str_def)

lemma free_loop_ok:
  assumes "i + n \<le> length (cells m)" and "\<forall>j < n. on_heap (cells m ! (i + j))"
    and "access_time m + int n < 2 ^ 31"
  shows "\<exists>m'. free_loop i n m = Some m' \<and> length (cells m') = length (cells m) \<and>
    threshold m' = threshold m \<and>
    (\<forall>j. j < i \<or> i + n \<le> j \<longrightarrow> cells m' ! j = cells m ! j) \<and>
    (\<forall>j. i \<le> j \<and> j < i + n \<longrightarrow> var (cells m' ! j) = Lit none_str \<and> val (cells m' ! j) = Lit none_str)"
  using assms
proof (induction n arbitrary: i m)
  case 0
  then show ?case by auto
next
  case (Suc n)
  let ?m = "m\<lparr>access_time := access_time m + 1\<rparr>"
  let ?m1 = "upd_cell i (\<lambda>c. c\<lparr>var := Lit none_str, val := Lit none_str, accessed := access_time ?m,
    age := access_time ?m\<rparr>) ?m"
  have h: "on_heap (cells m ! i)" using Suc.prems(2) by (metis add_0_right zero_less_Suc)
  then have step: "free_loop i (Suc n) m = free_loop (Suc i) n ?m1"
    using Suc.prems(1,3) by (simp add: tick_def on_heap_def)
  have later: "\<forall>j < n. on_heap (cells ?m1 ! (Suc i + j))"
  proof (intro allI impI)
    fix j assume "j < n"
    then show "on_heap (cells ?m1 ! (Suc i + j))" using Suc.prems(2) [rule_format, of "Suc j"] by simp
  qed
  obtain m' where m': "free_loop (Suc i) n ?m1 = Some m'" "length (cells m') = length (cells ?m1)"
    "threshold m' = threshold ?m1" "\<forall>j. j < Suc i \<or> Suc i + n \<le> j \<longrightarrow> cells m' ! j = cells ?m1 ! j"
    "\<forall>j. Suc i \<le> j \<and> j < Suc i + n \<longrightarrow> var (cells m' ! j) = Lit none_str \<and> val (cells m' ! j) = Lit none_str"
    using Suc.IH [of "Suc i" ?m1] Suc.prems(1,3) later by auto
  have "cells m' ! i = cells ?m1 ! i" using m'(4) by simp
  then have "var (cells m' ! i) = Lit none_str" "val (cells m' ! i) = Lit none_str"
    using Suc.prems(1) by simp_all
  then show ?case
    unfolding step using m' by (auto simp: Suc_le_eq nat_less_le [of i] simp del: free_loop.simps)
qed

lemma free_loop_literal:
  assumes "i \<le> j" and "j < i + n" and "j < length (cells m)" and "\<not> on_heap (cells m ! j)"
  shows "free_loop i n m = None"
  using assms
proof (induction n arbitrary: i m)
  case (Suc n)
  show ?case
  proof (cases "j = i \<or> \<not> on_heap (cells m ! i)")
    case True
    then have "\<not> on_heap (cells m ! i)" using Suc.prems(4) by auto
    then show ?thesis
      using Suc.prems(1,3) free_str_cases [of "var (cells m ! i)"] free_str_cases [of "val (cells m ! i)"]
      by (auto simp: on_heap_def)
  next
    case False
    then have "free_loop (Suc i) n m' = None" if "cells m' = (cells m)[i := w]" for w m'
      using Suc.prems that by (intro Suc.IH) auto
    then show ?thesis using False Suc.prems(1,3) by (auto simp: tick_def on_heap_def)
  qed
qed simp

subsection \<open>Reading lines\<close>

lemma skip_lines_ok:
  assumes "\<forall>l \<in> set ls. prog_line 100 l" and "n \<le> length ls"
  shows "skip_lines n \<lparr>rest = concat ls, eof = False\<rparr> = (False, \<lparr>rest = concat (drop n ls), eof = False\<rparr>)"
  using assms
proof (induction n arbitrary: ls)
  case (Suc n)
  then obtain l ls' where "ls = l # ls'" by (cases ls) auto
  then show ?case using Suc by (simp add: fgets_line)
qed simp

lemma load_frame_loop_ok:
  assumes "\<forall>l \<in> set ls. prog_line 100 l" and "fi + k \<le> length (cells m)" and "access_time m + int k < 2 ^ 31"
  shows "\<exists>p' m'. load_frame_loop k f \<lparr>rest = concat ls, eof = False\<rparr> p fi m =
      Some (p', fi + min k (length ls), m') \<and> (\<forall>e. p'\<lparr>pcb_end := e\<rparr> = p\<lparr>pcb_end := e\<rparr>) \<and>
    length (cells m') = length (cells m) \<and> threshold m' = threshold m \<and>
    (\<forall>j < min k (length ls). var (cells m' ! (fi + j)) = Dup f \<and> val (cells m' ! (fi + j)) = Dup (ls ! j)) \<and>
    (\<forall>j. j < fi \<or> fi + min k (length ls) \<le> j \<longrightarrow> cells m' ! j = cells m ! j)"
  using assms
proof (induction k arbitrary: ls fi m)
  case 0
  then show ?case by simp
next
  case (Suc k)
  show ?case
  proof (cases ls)
    case Nil
    have "load_frame_loop k f \<lparr>rest = [], eof = True\<rparr> p fi m = Some (p, fi, m) \<or>
        load_frame_loop k f \<lparr>rest = [], eof = True\<rparr> p fi m = Some (p\<lparr>pcb_end := int fi - 1\<rparr>, fi, m)"
      by (cases k) simp_all
    then show ?thesis using Nil by (auto simp: fgets_def)
  next
    case (Cons l ls')
    let ?m = "m\<lparr>access_time := access_time m + 1\<rparr>"
    let ?m1 = "upd_cell fi (\<lambda>c. c\<lparr>var := Dup f, val := Dup l, accessed := access_time ?m, age := access_time ?m\<rparr>) ?m"
    have "fgets 100 \<lparr>rest = concat ls, eof = False\<rparr> = (Some l, \<lparr>rest = concat ls', eof = False\<rparr>)"
      using Suc.prems(1) Cons by (simp add: fgets_line)
    moreover have "store_line f l fi m = Some ?m1"
      using Suc.prems(2,3) by (simp add: store_line_def tick_def)
    ultimately have step: "load_frame_loop (Suc k) f \<lparr>rest = concat ls, eof = False\<rparr> p fi m =
        load_frame_loop k f \<lparr>rest = concat ls', eof = False\<rparr> p (Suc fi) ?m1"
      by simp
    obtain p' m' where IH: "load_frame_loop k f \<lparr>rest = concat ls', eof = False\<rparr> p (Suc fi) ?m1 =
        Some (p', Suc fi + min k (length ls'), m')" "\<forall>e. p'\<lparr>pcb_end := e\<rparr> = p\<lparr>pcb_end := e\<rparr>"
      "length (cells m') = length (cells ?m1)" "threshold m' = threshold ?m1"
      "\<forall>j < min k (length ls'). var (cells m' ! (Suc fi + j)) = Dup f \<and> val (cells m' ! (Suc fi + j)) = Dup (ls' ! j)"
      "\<forall>j. j < Suc fi \<or> Suc fi + min k (length ls') \<le> j \<longrightarrow> cells m' ! j = cells ?m1 ! j"
      using Suc.IH [of ls' "Suc fi" ?m1] Suc.prems Cons by auto
    have here: "cells m' ! fi = cells ?m1 ! fi" using IH(6) by simp
    have "var (cells m' ! (fi + j)) = Dup f \<and> val (cells m' ! (fi + j)) = Dup (ls ! j)"
      if "j < min (Suc k) (length ls)" for j
      using that IH(5) [rule_format, of "j - 1"] here Suc.prems(2) Cons by (cases j) auto
    then show ?thesis
      unfolding step using IH Cons by auto
  qed
qed

subsection \<open>Properties\<close>

text \<open>Two frames and two variables.\<close>

definition free_cell :: memory_struct where
  "free_cell = \<lparr>var = Lit none_str, val = Lit none_str, age = 0, accessed = 0\<rparr>"

definition line_cell :: "string \<Rightarrow> string \<Rightarrow> int \<Rightarrow> memory_struct" where
  "line_cell f l k = \<lparr>var = Dup f, val = Dup l, age = k, accessed = k\<rparr>"

definition sample_mem :: "memory_struct list \<Rightarrow> shellmemory" where
  "sample_mem fs = \<lparr>cells = fs @ [free_cell, free_cell], threshold = 6, access_time = 9, current_policy = LRU\<rparr>"

lemma sample_mem_facts:
  assumes "length fs = 6"
  shows "wf_frames (sample_mem fs)" "wf_vars (sample_mem fs)" "room_for s (sample_mem fs)"
    "access_time (sample_mem fs) = 9"
proof -
  let ?m = "sample_mem fs"
  have c: "cells ?m ! i = free_cell" if "6 \<le> i" "i < 8" for i
  proof -
    have "i = 6 \<or> i = 7" using that by linarith
    then show ?thesis using assms by (auto simp: sample_mem_def nth_append)
  qed
  show "wf_frames ?m" "access_time ?m = 9" using assms by (simp_all add: wf_frames_def sample_mem_def FRAME_SIZE_def)
  have l: "threshold ?m = 6" "length (cells ?m) = 8" using assms by (simp_all add: sample_mem_def)
  have n: "named_cells ?m ! i = (none_str, none_str)" if "6 \<le> i" "i < 8" for i
    using c [OF that] that l by (simp add: named_cells_def free_cell_def)
  show "wf_vars ?m" unfolding wf_vars_def wf_named_def l length_named_cells by (auto simp: n)
  show "room_for s ?m" unfolding room_for_def room_named_def l length_named_cells
    using n [of 6] by (intro exI [of _ 6]) simp
qed

definition sample_full :: shellmemory where
  "sample_full = sample_mem [line_cell ''p'' ''a'' 4, line_cell ''p'' ''b'' 5, line_cell ''p'' ''c'' 6,
     line_cell ''q'' ''d'' 1, line_cell ''q'' ''e'' 2, line_cell ''q'' ''f'' 3]"

definition sample_half :: shellmemory where
  "sample_half = sample_mem [line_cell ''p'' ''a'' 4, line_cell ''p'' ''b'' 5, line_cell ''p'' ''c'' 6,
     line_cell ''q'' ''d'' 1, free_cell, free_cell]"

definition sample_empty :: shellmemory where
  "sample_empty = sample_mem (replicate 6 free_cell)"

definition sample_proc :: pcb where
  "sample_proc = (fst (makePCB 1))\<lparr>pcb_filename := Some ''p'', pageCounter := 1\<rparr>"

text \<open>\<^verbatim>\<open>mem_set_value\<close> stores a variable so that \<^verbatim>\<open>mem_get_value\<close> returns it, keeps every other variable,
  and touches no cell of the frame store.\<close>

theorem a2_variable_set_get:
  assumes "wf_vars m" and "s \<noteq> none_str" and "room_for s m" and "access_time m < 2 ^ 31 - 1"
  shows "(\<exists>m'. mem_get_value s (mem_set_value s v m) = Some (Some v, m')) \<and>
    (\<forall>t. t \<noteq> s \<longrightarrow> t \<noteq> none_str \<longrightarrow> var_of (mem_set_value s v m) t = var_of m t) \<and>
    (\<forall>i < threshold m. cells (mem_set_value s v m) ! i = cells m ! i)"
proof -
  have "access_time (mem_set_value s v m) < 2 ^ 31 - 1" using assms(4) by (simp add: mem_set_value_frame)
  from mem_get_value_ok [OF this, of s] show ?thesis
    using a2_vars.look_put_same [OF assms(1-3)] a2_vars.look_put_other [OF assms(1-3)]
    by (auto simp: mem_set_value_frame)
qed

theorem a2_variable_set_get_witness:
  "\<exists>m'. mem_get_value ''x'' (mem_set_value ''x'' ''5'' sample_empty) = Some (Some ''5'', m')"
proof -
  have "length (replicate 6 free_cell) = 6" by simp
  from sample_mem_facts [OF this] show ?thesis
    using a2_variable_set_get [of sample_empty "''x''" "''5''"] by (auto simp: sample_empty_def)
qed

text \<open>\<^verbatim>\<open>find_available_slot\<close> returns the first frame whose three lines are all free, and -1 exactly when
  there is none.\<close>

theorem find_available_slot_first_free:
  assumes "wf_frames m"
  shows "(\<exists>f. find_available_slot m = Some (int f) \<and> is_frame m f \<and> frame_is_free m f \<and>
      (\<forall>g. is_frame m g \<and> g < f \<longrightarrow> \<not> frame_is_free m g)) \<or>
    (find_available_slot m = Some (- 1) \<and> (\<forall>g. is_frame m g \<longrightarrow> \<not> frame_is_free m g))"
  using slot_loop_ok [OF assms, of 0] by (simp add: find_available_slot_def)

theorem find_available_slot_first_free_witness:
  "find_available_slot sample_full = Some (- 1) \<or> (\<exists>f. is_frame sample_full f \<and> frame_is_free sample_full f)"
  using find_available_slot_first_free [of sample_full] sample_mem_facts(1)
  by (auto simp: sample_full_def)

text \<open>The victim that \<^verbatim>\<open>find_replacement_slot\<close> chooses is the frame whose first line has the least access
  time (LRU) or the least age (FIFO); there is a victim only if some stamp is below 9999.\<close>

theorem find_replacement_slot_oldest:
  assumes "wf_frames m"
  shows "let stamp = (\<lambda>f. if current_policy m = LRU then accessed (cells m ! f) else age (cells m ! f))
    in (find_replacement_slot m = - 1 \<and> (\<forall>f. is_frame m f \<longrightarrow> 9999 \<le> stamp f)) \<or>
       (\<exists>f. find_replacement_slot m = int f \<and> is_frame m f \<and> stamp f < 9999 \<and>
          (\<forall>g. is_frame m g \<longrightarrow> stamp f \<le> stamp g))"
  using oldest_loop_ok [of "\<lambda>i. accessed (cells m ! i)" "frame_starts m" "- 1" 9999]
    oldest_loop_ok [of "\<lambda>i. age (cells m ! i)" "frame_starts m" "- 1" 9999]
  unfolding set_frame_starts [OF assms]
  by (auto simp: Let_def find_replacement_slot_def find_lru_slot_def find_fifo_slot_def)

theorem find_replacement_slot_oldest_witness:
  "\<exists>f. find_replacement_slot sample_full = int f \<or> find_replacement_slot sample_full = - 1"
  using find_replacement_slot_oldest [of sample_full] sample_mem_facts(1)
  by (auto simp: sample_full_def Let_def)

text \<open>When the victim frame is completely filled, \<^verbatim>\<open>remove_frame\<close> frees its three lines and nothing else,
  so that a free frame is available afterwards.\<close>

theorem remove_frame_frees_victim:
  assumes "wf_frames m" and "pcb_filename p = Some name" and "files name \<noteq> None"
    and "find_replacement_slot m = int f" and "is_frame m f"
    and "\<forall>j < FRAME_SIZE. on_heap (cells m ! (f + j))" and "access_time m + 3 < 2 ^ 31"
  shows "\<exists>p' m' out'. remove_frame files p m out = Some (0, p', m', out') \<and> frame_is_free m' f \<and>
    (\<forall>j. j < f \<or> f + FRAME_SIZE \<le> j \<longrightarrow> cells m' ! j = cells m ! j) \<and>
    find_available_slot m' \<noteq> Some (- 1)"
proof -
  have b: "f + FRAME_SIZE \<le> length (cells m)"
    using is_frame_bound [OF assms(1,5)] assms(1) by (simp add: wf_frames_def)
  obtain m' where m': "free_loop f FRAME_SIZE m = Some m'" "length (cells m') = length (cells m)"
    "threshold m' = threshold m" "\<forall>j. j < f \<or> f + FRAME_SIZE \<le> j \<longrightarrow> cells m' ! j = cells m ! j"
    "\<forall>j. f \<le> j \<and> j < f + FRAME_SIZE \<longrightarrow> var (cells m' ! j) = Lit none_str \<and> val (cells m' ! j) = Lit none_str"
    using free_loop_ok [OF b assms(6)] assms(7) by (auto simp: FRAME_SIZE_def)
  have "mem_free_lines_between (int f) (int f + int FRAME_SIZE - 1) m = Some m'"
    using m'(1) by (simp add: mem_free_lines_between_def FRAME_SIZE_def nat_add_distrib)
  then have "\<exists>p' out'. remove_frame files p m out = Some (0, p', m', out')"
    using assms(2-4) b by (auto simp: remove_frame_def Let_def)
  moreover have free: "frame_is_free m' f" using m'(5) by (simp add: frame_is_free_def)
  moreover have "wf_frames m'" "is_frame m' f" using assms(1,5) m'(2,3) by (simp_all add: wf_frames_def is_frame_def)
  then have "find_available_slot m' \<noteq> Some (- 1)"
    using slot_loop_ok [of m' 0] free by (auto simp: find_available_slot_def)
  ultimately show ?thesis using m'(4) by blast
qed

theorem remove_frame_frees_victim_witness:
  "\<exists>p' m' out'. remove_frame [''p'' \<mapsto> ''''] sample_proc sample_full [] = Some (0, p', m', out') \<and>
     frame_is_free m' 3"
proof -
  have "find_replacement_slot sample_full = int 3" by code_simp
  moreover have "\<forall>j < FRAME_SIZE. on_heap (cells sample_full ! (3 + j))" by code_simp
  moreover have "is_frame sample_full 3" by code_simp
  moreover have "wf_frames sample_full" by (simp add: sample_full_def sample_mem_facts)
  moreover have "access_time sample_full = 9" by (simp add: sample_full_def sample_mem_facts)
  ultimately show ?thesis
    using remove_frame_frees_victim [of sample_full sample_proc "''p''" "[''p'' \<mapsto> '''']" 3 "[]"]
    by (auto simp: sample_proc_def)
qed

text \<open>\<^verbatim>\<open>remove_frame\<close> has undefined behaviour when no frame has a stamp below 9999 (it reads the array at
  index -1), and when a line of the victim frame is unused (it frees the literal \<^verbatim>\<open>"none"\<close>).\<close>

theorem remove_frame_undefined:
  assumes "pcb_filename p = Some name" and "files name \<noteq> None"
    and "find_replacement_slot m = - 1 \<or>
      (\<exists>f j. find_replacement_slot m = int f \<and> j < FRAME_SIZE \<and> f + FRAME_SIZE \<le> length (cells m) \<and>
         \<not> on_heap (cells m ! (f + j)))"
  shows "remove_frame files p m out = None"
  using assms(3)
proof
  assume "find_replacement_slot m = - 1"
  then show ?thesis using assms(1,2) by (auto simp: remove_frame_def Let_def)
next
  assume "\<exists>f j. find_replacement_slot m = int f \<and> j < FRAME_SIZE \<and> f + FRAME_SIZE \<le> length (cells m) \<and>
    \<not> on_heap (cells m ! (f + j))"
  then obtain f j where f: "find_replacement_slot m = int f" "j < FRAME_SIZE"
    "f + FRAME_SIZE \<le> length (cells m)" "\<not> on_heap (cells m ! (f + j))" by blast
  then have "free_loop f FRAME_SIZE m = None"
    by (intro free_loop_literal [of f "f + j"]) auto
  then have "mem_free_lines_between (int f) (int f + int FRAME_SIZE - 1) m = None"
    by (simp add: mem_free_lines_between_def FRAME_SIZE_def nat_add_distrib)
  then show ?thesis using assms(1,2) f by (auto simp: remove_frame_def Let_def)
qed

theorem remove_frame_undefined_witness:
  "remove_frame [''p'' \<mapsto> ''''] sample_proc sample_half [] = None"
proof -
  have "find_replacement_slot sample_half = int 3" by code_simp
  moreover have "\<not> on_heap (cells sample_half ! (3 + 1))" by code_simp
  moreover have "3 + FRAME_SIZE \<le> length (cells sample_half)" "1 < FRAME_SIZE"
    by (simp_all add: sample_half_def sample_mem_def FRAME_SIZE_def)
  ultimately have "\<exists>f j. find_replacement_slot sample_half = int f \<and> j < FRAME_SIZE \<and>
      f + FRAME_SIZE \<le> length (cells sample_half) \<and> \<not> on_heap (cells sample_half ! (f + j))"
    by blast
  then show ?thesis
    using remove_frame_undefined [of sample_proc "''p''" "[''p'' \<mapsto> '''']" sample_half "[]"]
    by (simp add: sample_proc_def)
qed

text \<open>C10: \<^verbatim>\<open>load_frame\<close> of a program whose file consists of lines that fit the buffer, in a memory with a free frame, loads the
  next page: the lines that follow the pages already counted go to the first frame whose cells are all free, no
  other cell changes, and the page is entered in the page table. (The page table has room, the file has the
  lines of the pages counted, and the clock does not overflow.)\<close>

theorem load_frame_loads_next_page:
  assumes "wf_frames m" and "pcb_filename p = Some name" and "files name = Some (concat ls)"
    and "\<forall>l \<in> set ls. prog_line 100 l" and "pageCounter p = int c" and "c < length (pagetable p)"
    and "\<exists>g. is_frame m g \<and> frame_is_free m g" and "3 * c \<le> length ls" and "access_time m + 3 < 2 ^ 31"
  shows "\<exists>f p' m'. load_frame files p m = Some (0, p', m') \<and>
    is_frame m f \<and> frame_is_free m f \<and> (\<forall>g < f. is_frame m g \<longrightarrow> \<not> frame_is_free m g) \<and> PC p' = int f \<and> pageCounter p' = int c + 1 \<and> pagetable p' = (pagetable p)[c := True] \<and>
    (\<forall>j < min 3 (length ls - 3 * c). var (cells m' ! (f + j)) = Dup name \<and>
       val (cells m' ! (f + j)) = Dup (ls ! (3 * c + j))) \<and>
    (\<forall>j. j < f \<or> f + min 3 (length ls - 3 * c) \<le> j \<longrightarrow> cells m' ! j = cells m ! j)"
proof -
  obtain f where f0: "find_available_slot m = Some (int f)" "is_frame m f" "frame_is_free m f"
    "\<forall>g < f. is_frame m g \<longrightarrow> \<not> frame_is_free m g"
    using slot_loop_ok [OF assms(1), of 0] assms(7) by (auto simp: find_available_slot_def)
  have b: "f + 3 \<le> length (cells m)"
    using is_frame_bound [OF assms(1) f0(2)] assms(1) by (simp add: wf_frames_def FRAME_SIZE_def)
  have n: "nat (pageCounter p * int FRAME_SIZE) = 3 * c" using assms(5) by (simp add: FRAME_SIZE_def)
  have sk: "skip_lines (3 * c) \<lparr>rest = concat ls, eof = False\<rparr> =
      (False, \<lparr>rest = concat (drop (3 * c) ls), eof = False\<rparr>)"
    using assms(4,8) by (rule skip_lines_ok)
  let ?p = "p\<lparr>pcb_start := int f, PC := int f\<rparr>" and ?ls = "drop (3 * c) ls"
  have pl: "\<forall>l \<in> set ?ls. prog_line 100 l" using assms(4) by (meson in_set_dropD)
  obtain p1 m' where l: "load_frame_loop 3 name \<lparr>rest = concat ?ls, eof = False\<rparr> ?p f m =
      Some (p1, f + min 3 (length ?ls), m')" "\<forall>e. p1\<lparr>pcb_end := e\<rparr> = ?p\<lparr>pcb_end := e\<rparr>"
    "\<forall>j < min 3 (length ?ls). var (cells m' ! (f + j)) = Dup name \<and> val (cells m' ! (f + j)) = Dup (?ls ! j)"
    "\<forall>j. j < f \<or> f + min 3 (length ?ls) \<le> j \<longrightarrow> cells m' ! j = cells m ! j"
    using load_frame_loop_ok [OF pl b, of name ?p] assms(9) by auto
  have "p1 = p1\<lparr>pcb_end := pcb_end p1\<rparr>" by simp
  then have p1: "p1 = ?p\<lparr>pcb_end := pcb_end p1\<rparr>" using l(2) by metis
  have f: "pageCounter p1 = int c" "pagetable p1 = pagetable p" "PC p1 = int f"
    using assms(5) by (subst p1, simp)+
  then have "mark_page p1 = Some (p1\<lparr>pagetable := (pagetable p)[c := True], pageCounter := int c + 1\<rparr>)"
    using assms(6) by (simp add: mark_page_def)
  then have "load_frame files p m = Some (0, p1\<lparr>pagetable := (pagetable p)[c := True],
      pageCounter := int c + 1, pcb_end := int (f + min 3 (length ?ls)) - 1\<rparr>, m')"
    using l(1) assms(2,3) f0(1) sk n by (simp add: load_frame_def FRAME_SIZE_def)
  then show ?thesis using l(3,4) f f0(2-4) by (intro exI [of _ f]) auto
qed

theorem load_frame_loads_next_page_witness:
  "\<exists>f p' m'. load_frame [''p'' \<mapsto> concat [[newline], [newline], [newline], ''x'' @ [newline]]]
      sample_proc sample_empty = Some (0, p', m') \<and> f = 0 \<and> PC p' = int f \<and> val (cells m' ! f) = Dup (''x'' @ [newline])"
proof -
  let ?ls = "[[newline], [newline], [newline], ''x'' @ [newline]]"
  have s: "is_frame sample_empty 0" "frame_is_free sample_empty 0" by code_simp+
  then have e: "\<exists>g. is_frame sample_empty g \<and> frame_is_free sample_empty g" by blast
  have w: "wf_frames sample_empty" "access_time sample_empty = 9"
    by (simp_all add: sample_empty_def sample_mem_facts)
  have l: "\<forall>l \<in> set ?ls. prog_line 100 l" by (auto simp: prog_line_def newline_def)
  have p: "pcb_filename sample_proc = Some ''p''" "pageCounter sample_proc = int 1" "1 < length (pagetable sample_proc)"
    by (simp_all add: sample_proc_def makePCB_def generatePID_def MAX_PAGES_def)
  have ft: "[''p'' \<mapsto> concat ?ls] ''p'' = Some (concat ?ls)" by simp
  from load_frame_loads_next_page [where files = "[''p'' \<mapsto> concat ?ls]" and ls = ?ls, OF w(1) p(1) ft l p(2,3) e] obtain f p' m' where
    r: "load_frame [''p'' \<mapsto> concat ?ls] sample_proc sample_empty = Some (0, p', m')" "\<forall>g < f. is_frame sample_empty g \<longrightarrow> \<not> frame_is_free sample_empty g"
      "PC p' = int f" "\<forall>j < min 3 (length ?ls - 3 * 1). val (cells m' ! (f + j)) = Dup (?ls ! (3 * 1 + j))"
    using w(2) by auto
  have "f = 0" using r(2) s by (cases f) auto
  then show ?thesis using r by (intro exI [of _ f] exI [of _ p'] exI [of _ m']) auto
qed

text \<open>\<^verbatim>\<open>load_file\<close> looks for one free frame and stores two pages from there on, so it can overwrite a frame
  that belongs to another program: here the second frame holds program \<^verbatim>\<open>q\<close> before the call and lines of
  program \<^verbatim>\<open>p\<close> after it.\<close>

theorem load_file_overwrites_next_frame:
  "let m = sample_mem [free_cell, free_cell, free_cell, line_cell ''q'' ''d'' 1, line_cell ''q'' ''e'' 2,
             line_cell ''q'' ''f'' 3];
       fp = \<lparr>rest = concat (replicate 6 (''x'' @ [newline])), eof = False\<rparr>
   in map_option (\<lambda>(err, p, m'). (err, var (cells m ! 3), var (cells m' ! 3)))
        (load_file 4 0 fp (fst (makePCB 1)) ''p'' m) = Some (0, Dup ''q'', Dup ''p'')"
  by code_simp

end
