(* ===== verification/Round_Robin.thy ===== *)
theory Round_Robin
  imports Prelude
begin

text \<open>
  What a round robin scheduler promises: the order in which it runs the lines of several programs, and
  the contract under which its loop ends with that order. The schedulers of the second kernel
  (\<^verbatim>\<open>A2_Kernel\<close>) and of the third (\<^verbatim>\<open>A3_Kernel\<close>) provide the contract.
\<close>

text \<open>\<open>q\<close> lines of the first program, which then goes to the end of the queue. A program with fewer lines ends within its
  turn.\<close>

function interleave :: "nat \<Rightarrow> 'a list list \<Rightarrow> 'a list" where
  "interleave q [] = []"
| "interleave q (xs # xss) =
     (if length xs < q then xs @ interleave q xss
      else if q = 0 then [] else take q xs @ interleave q (xss @ [drop q xs]))"
  by pat_completeness auto
termination
  by (relation "measure (\<lambda>(q, xss). sum_list (map (\<lambda>xs. length xs + 1) xss))") auto

declare interleave.simps(2) [simp del]

lemma interleave_concat: "\<forall>xs \<in> set xss. length xs < q \<Longrightarrow> interleave q xss = concat xss"
  by (induction xss) (simp_all add: interleave.simps)

lemma interleave_map: "interleave q (map (map f) xss) = map f (interleave q xss)"
  by (induction q xss rule: interleave.induct) (simp_all add: interleave.simps take_map drop_map)

text \<open>The state after a call that returned.\<close>

definition ended :: "('x outcome \<times> 's) option \<Rightarrow> 's option" where
  "ended r = (case r of Some (Done x, s) \<Rightarrow> Some s | _ \<Rightarrow> None)"

lemma ended_simps [simp]: "ended (Some (Done x, s)) = Some s" "ended (Some (Exit c, s)) = None" "ended None = None"
  by (simp_all add: ended_def)

lemma ended_Some: "ended r = Some s \<longleftrightarrow> (\<exists>x. r = Some (Done x, s))"
  by (auto simp: ended_def split: option.split outcome.split)

text \<open>\<open>ok s jobs\<close>: the queue of the state \<open>s\<close> holds the programs \<open>jobs\<close>, each with the lines it has still to run. A turn
  runs the program at the head; a line \<open>x\<close> adds \<open>item x\<close> to the output.\<close>

locale round_robin =
  fixes ok :: "'s \<Rightarrow> ('j \<times> 'a list) list \<Rightarrow> bool" and printed :: "'s \<Rightarrow> 'e list" and item :: "'a \<Rightarrow> 'e"
    and quantum :: nat and stop :: "'s \<Rightarrow> bool" and turn :: "'s \<Rightarrow> 's option" and loop :: "'s \<Rightarrow> 's option"
  assumes quantum_pos: "0 < quantum"
    and loop_law: "ok s jobs \<Longrightarrow> loop s = (if stop s then Some s else turn s \<bind> loop)"
    and stop_law: "ok s jobs \<Longrightarrow> stop s \<Longrightarrow> \<forall>j \<in> set jobs. snd j = []"
    and empty_law: "ok s [] \<Longrightarrow> stop s"
    and turn_law: "ok s ((j, xs) # jobs) \<Longrightarrow> \<not> stop s \<Longrightarrow>
      \<exists>s'. turn s = Some s' \<and> ok s' (if length xs < quantum then jobs else jobs @ [(j, drop quantum xs)]) \<and>
        printed s' = printed s @ map item (take quantum xs)"
begin

lemma finishes:
  assumes "ok s jobs"
  shows "\<exists>s' jobs'. loop s = Some s' \<and> ok s' jobs' \<and> stop s' \<and>
    printed s' = printed s @ map item (interleave quantum (map snd jobs))"
  using assms
proof (induction "sum_list (map (\<lambda>j. length (snd j) + 1) jobs)" arbitrary: s jobs rule: less_induct)
  case less
  show ?case
  proof (cases "stop s")
    case True
    then have "\<forall>xs \<in> set (map snd jobs). xs = []" using stop_law [OF less.prems] by auto
    then have "interleave quantum (map snd jobs) = []"
      using interleave_concat [of "map snd jobs" quantum] quantum_pos by fastforce
    then show ?thesis using loop_law [OF less.prems] True less.prems by auto
  next
    case False
    then obtain j xs js where jobs: "jobs = (j, xs) # js" using empty_law less.prems by (cases jobs) auto
    let ?next = "if length xs < quantum then js else js @ [(j, drop quantum xs)]"
    obtain s1 where s1: "turn s = Some s1" "ok s1 ?next" "printed s1 = printed s @ map item (take quantum xs)"
      using turn_law [OF less.prems [unfolded jobs] False] by blast
    have "sum_list (map (\<lambda>j. length (snd j) + 1) ?next) < sum_list (map (\<lambda>j. length (snd j) + 1) jobs)"
      using jobs quantum_pos by auto
    from less.hyps [OF this s1(2)] show ?thesis
      using loop_law [OF less.prems] s1(1,3) False jobs quantum_pos
      by (auto simp: interleave.simps split: if_splits)
  qed
qed

end

end
