(* ===== verification/A2_Kernel.thy ===== *)
theory A2_Kernel
  imports Shell_Host A2_Memory Round_Robin
begin

text \<open>
  The kernel of the second shell (\<^verbatim>\<open>a2/kernel.c\<close>) with the two functions of \<^verbatim>\<open>a2/shell.c\<close> it calls: making a process
  from a script, running a process for a number of lines, and the schedulers. The state joins the ready queue, the
  shell memory, the host and the global variables of the kernel. The function that parses a line, \<^verbatim>\<open>parseInput\<close>, is
  an argument; a scheduler takes the function that runs a process. A loop that does not end is \<open>None\<close>.
\<close>

record 'h a2_state =
  a2_queue :: ready_queue
  a2_mem :: shellmemory
  a2_out :: console
  a2_pid :: int
  a2_brk :: ptr
  active :: bool
  in_background :: bool
  a2_host :: 'h
  a2_in :: stream
  a2_store :: string

type_synonym 'h reply_a2 = "(int outcome \<times> 'h a2_state) option"
type_synonym 'h parser_a2 = "string \<Rightarrow> 'h a2_state \<Rightarrow> 'h reply_a2"

definition say :: "string \<Rightarrow> 'h a2_state \<Rightarrow> 'h a2_state" where
  "say t s = s\<lparr>a2_out := a2_out s @ [Print t]\<rparr>"

subsection \<open>The backing store: shell.c\<close>

text \<open>\<^verbatim>\<open>readdir\<close> also gives the entries \<^verbatim>\<open>.\<close> and \<^verbatim>\<open>..\<close>\<close>

definition count_files_backing :: "'h host \<Rightarrow> 'h a2_state \<Rightarrow> int \<times> 'h a2_state" where
  "count_files_backing ops s =
     (case h_list ops ''backing_store'' (a2_host s) of
        None \<Rightarrow> (- 1, say ''Error opening current directory'' s)
      | Some names \<Rightarrow> (int (length names) - 2, s))"

text \<open>The character read is kept in a \<^verbatim>\<open>char\<close>: a byte 255 is taken for the end of the file. Messages of \<^verbatim>\<open>perror\<close> go to the
  error stream and are not modelled.\<close>

definition copyScript :: "'h host \<Rightarrow> string \<Rightarrow> 'h a2_state \<Rightarrow> int \<times> 'h a2_state" where
  "copyScript ops filename s =
     (case h_read ops filename (a2_host s) of
        None \<Rightarrow> (1, s)
      | Some t \<Rightarrow>
          let (count, s) = count_files_backing ops s
          in case h_write ops (''backing_store/prog'' @ dec_int count) (takeWhile (\<lambda>c. c \<noteq> CHR 0xFF) t) (a2_host s) of
               None \<Rightarrow> (1, s)
             | Some h \<Rightarrow> (0, s\<lparr>a2_host := h\<rparr>))"

subsection \<open>Processes: kernel.c\<close>

definition FILE_DOES_NOT_EXIST :: int where "FILE_DOES_NOT_EXIST = 1"
definition FILE_ERROR :: int where "FILE_ERROR = 2"
definition SCHEDULING_ERROR :: int where "SCHEDULING_ERROR = 5"

text \<open>\<^verbatim>\<open>malloc\<close> of a process control block and of a node of the queue.\<close>

definition new_block :: "pcb \<Rightarrow> 'h a2_state \<Rightarrow> ptr \<times> 'h a2_state" where
  "new_block p s =
     (a2_brk s, s\<lparr>a2_brk := a2_brk s + 1, a2_queue := (a2_queue s)\<lparr>pcbs := (pcbs (a2_queue s))(a2_brk s \<mapsto> p)\<rparr>\<rparr>)"

definition new_node :: "ptr \<Rightarrow> 'h a2_state \<Rightarrow> ptr \<times> 'h a2_state" where
  "new_node b s =
     (a2_brk s, s\<lparr>a2_brk := a2_brk s + 1,
        a2_queue := (a2_queue s)\<lparr>nodes := (nodes (a2_queue s))(a2_brk s \<mapsto> \<lparr>node_pcb = b, node_next = None\<rparr>)\<rparr>\<rparr>)"

definition process_initialize :: "'h host \<Rightarrow> string \<Rightarrow> 'h a2_state \<Rightarrow> (int \<times> 'h a2_state) option" where
  "process_initialize ops filename s =
     (if h_read ops filename (a2_host s) = None then Some (FILE_DOES_NOT_EXIST, s)
      else
        let (count, s) = count_files_backing ops s; (err, s) = copyScript ops filename s
        in if err \<noteq> 0 then Some (FILE_ERROR, s)
           else
             let newFilename = ''prog'' @ dec_int count; backing = ''backing_store/'' @ newFilename
             in if length backing + 1 > length filename + length ''backing_store/'' + 1 then None
                else do { t \<leftarrow> h_read ops backing (a2_host s);
                          let (p, c) = makePCB (a2_pid s); let s = s\<lparr>a2_pid := c\<rparr>;
                          (e, p, m) \<leftarrow> load_file (length t + 2) (a2_brk s) \<lparr>rest = t, eof = False\<rparr> p backing (a2_mem s);
                          let (b, s) = new_block p (s\<lparr>a2_mem := m, a2_brk := a2_brk s + 1\<rparr>);
                          if e \<noteq> 0 then Some (FILE_ERROR, s)
                          else do { let (n, s) = new_node b s;
                                    q \<leftarrow> ready_queue_add_to_tail n (a2_queue s);
                                    Some (0, s\<lparr>a2_queue := q\<rparr>) } })"

subsection \<open>Running a process: kernel.c\<close>

definition host_files :: "'h host \<Rightarrow> 'h a2_state \<Rightarrow> string \<rightharpoonup> string" where
  "host_files ops s f = h_read ops f (a2_host s)"

definition get_pcb :: "ptr \<Rightarrow> 'h a2_state \<Rightarrow> pcb option" where
  "get_pcb b s = pcbs (a2_queue s) b"

definition put_pcb :: "ptr \<Rightarrow> pcb \<Rightarrow> 'h a2_state \<Rightarrow> 'h a2_state" where
  "put_pcb b p s = s\<lparr>a2_queue := (a2_queue s)\<lparr>pcbs := (pcbs (a2_queue s))(b \<mapsto> p)\<rparr>\<rparr>"

definition finish :: "ptr \<Rightarrow> 'h a2_state \<Rightarrow> (bool option outcome \<times> 'h a2_state) option" where
  "finish node s =
     do { q \<leftarrow> terminate_process node (a2_queue s);
          Some (Done (Some True), s\<lparr>in_background := False, a2_queue := q\<rparr>) }"

text \<open>The branch of a page fault: the process ends when the program has no more lines, otherwise a page is loaded, in the
  place of another one when there is no free frame, and the turn is over.\<close>

definition page_fault :: "'h host \<Rightarrow> ptr \<Rightarrow> ptr \<Rightarrow> pcb \<Rightarrow> 'h a2_state \<Rightarrow> (bool option outcome \<times> 'h a2_state) option" where
  "page_fault ops node b p s =
     do { (e, p, m) \<leftarrow> load_frame (host_files ops s) p (a2_mem s);
          let s = put_pcb b p (s\<lparr>a2_mem := m\<rparr>);
          if e = - 2 then finish node s
          else if e = - 1
          then do { (e, p, m, o1) \<leftarrow> remove_frame (host_files ops s) p (a2_mem s) (a2_out s);
                    (e, p, m) \<leftarrow> load_frame (host_files ops s) p m;
                    Some (Done (Some False), put_pcb b p (s\<lparr>a2_mem := m, a2_out := o1\<rparr>)) }
          else Some (Done (Some False), s) }"

text \<open>One round of the loop of \<^verbatim>\<open>execute_process\<close>: \<open>Some r\<close> is a return with \<open>r\<close>.\<close>

definition execute_line :: "'h host \<Rightarrow> 'h parser_a2 \<Rightarrow> ptr \<Rightarrow> ptr \<Rightarrow> 'h a2_state \<Rightarrow> (bool option outcome \<times> 'h a2_state) option" where
  "execute_line ops parse node b s =
     do { p \<leftarrow> get_pcb b s;
          if currentPage p > pageCounter p then page_fault ops node b p s
          else do { (l, m) \<leftarrow> mem_get_value_at_line (PC p) (a2_mem s);
                    let s = put_pcb b (p\<lparr>PC := PC p + 1, priority := False\<rparr>) (s\<lparr>a2_mem := m, in_background := True\<rparr>);
                    ln \<leftarrow> l;
                    if ln = none_str then finish node s
                    else do { (r, s) \<leftarrow> parse ln s;
                              case r of
                                Exit c \<Rightarrow> Some (Exit c, s)
                              | Done x \<Rightarrow>
                                  do { p \<leftarrow> get_pcb b s;
                                       let p = (if currentLine p = 2 then p\<lparr>currentPage := currentPage p + 1, currentLine := 0\<rparr>
                                                else p\<lparr>currentLine := currentLine p + 1\<rparr>);
                                       Some (Done None, put_pcb b p (s\<lparr>in_background := False\<rparr>)) } } } }"

function execute_loop ::
  "'h host \<Rightarrow> 'h parser_a2 \<Rightarrow> ptr \<Rightarrow> ptr \<Rightarrow> int \<Rightarrow> int \<Rightarrow> 'h a2_state \<Rightarrow> (bool outcome \<times> 'h a2_state) option" where
  "execute_loop ops parse node b i quanta s =
     (if i < quanta
      then do { (r, s) \<leftarrow> execute_line ops parse node b s;
                case r of
                  Exit c \<Rightarrow> Some (Exit c, s)
                | Done (Some x) \<Rightarrow> Some (Done x, s)
                | Done None \<Rightarrow> execute_loop ops parse node b (i + 1) quanta s }
      else Some (Done False, s))"
  by pat_completeness auto
termination
  by (relation "measure (\<lambda>(ops, parse, node, b, i, quanta, s). nat (quanta - i))") auto

declare execute_loop.simps [simp del]

definition execute_process ::
  "'h host \<Rightarrow> 'h parser_a2 \<Rightarrow> ptr \<Rightarrow> int \<Rightarrow> 'h a2_state \<Rightarrow> (bool outcome \<times> 'h a2_state) option" where
  "execute_process ops parse node quanta s =
     do { n \<leftarrow> nodes (a2_queue s) node; execute_loop ops parse node (node_pcb n) 0 quanta s }"

subsection \<open>Schedulers: kernel.c\<close>

type_synonym 'h runner = "ptr \<Rightarrow> int \<Rightarrow> 'h a2_state \<Rightarrow> (bool outcome \<times> 'h a2_state) option"

text \<open>Operations of the queue in the state.\<close>

definition on_queue :: "(ready_queue \<Rightarrow> ready_queue option) \<Rightarrow> 'h a2_state \<Rightarrow> 'h a2_state option" where
  "on_queue f s = do { q \<leftarrow> f (a2_queue s); Some (s\<lparr>a2_queue := q\<rparr>) }"

definition pop_with :: "(ready_queue \<Rightarrow> (ptr option \<times> ready_queue) option) \<Rightarrow> 'h a2_state \<Rightarrow> (ptr \<times> 'h a2_state) option" where
  "pop_with f s = do { (x, q) \<leftarrow> f (a2_queue s); cur \<leftarrow> x; Some (cur, s\<lparr>a2_queue := q\<rparr>) }"

text \<open>Runs \<open>cur\<close> and, when it has not ended, puts it back with \<open>back\<close>. \<open>Exit\<close> ends the loop.\<close>

definition turn ::
  "'h runner \<Rightarrow> (ptr \<Rightarrow> ready_queue \<Rightarrow> ready_queue option) \<Rightarrow> ptr \<Rightarrow> int \<Rightarrow> 'h a2_state \<Rightarrow> (unit outcome \<times> 'h a2_state) option" where
  "turn run back cur quanta s =
     do { (r, s) \<leftarrow> run cur quanta s;
          case r of
            Exit c \<Rightarrow> Some (Exit c, s)
          | Done True \<Rightarrow> Some (Done (), s)
          | Done False \<Rightarrow> do { s \<leftarrow> on_queue (back cur) s; Some (Done (), s) } }"

text \<open>The loop that all schedulers have: with nothing in the queue it ends, unless \<^verbatim>\<open>active\<close> makes it go on for ever.\<close>

partial_function (option) sched_loop ::
  "('h a2_state \<Rightarrow> (unit outcome \<times> 'h a2_state) option) \<Rightarrow> 'h a2_state \<Rightarrow> (unit outcome \<times> 'h a2_state) option" where
  "sched_loop body s =
     (if is_ready_empty (a2_queue s) then if active s then sched_loop body s else Some (Done (), s)
      else do { (r, s) \<leftarrow> body s; case r of Exit c \<Rightarrow> Some (Exit c, s) | Done x \<Rightarrow> sched_loop body s })"

definition scheduler_FCFS :: "'h runner \<Rightarrow> 'h a2_state \<Rightarrow> (unit outcome \<times> 'h a2_state) option" where
  "scheduler_FCFS run =
     sched_loop (\<lambda>s. do { (cur, s) \<leftarrow> pop_with ready_queue_pop_head s; turn run ready_queue_add_to_tail cur MAX_INT s })"

text \<open>A process that has not ended is not put back.\<close>

definition scheduler_SJF :: "'h runner \<Rightarrow> 'h a2_state \<Rightarrow> (unit outcome \<times> 'h a2_state) option" where
  "scheduler_SJF run =
     sched_loop (\<lambda>s. do { (cur, s) \<leftarrow> pop_with ready_queue_pop_shortest_job s; turn run (\<lambda>x. Some) cur MAX_INT s })"

definition scheduler_AGING_alternative :: "'h runner \<Rightarrow> 'h a2_state \<Rightarrow> (unit outcome \<times> 'h a2_state) option" where
  "scheduler_AGING_alternative run =
     sched_loop (\<lambda>s. do { (cur, s) \<leftarrow> pop_with ready_queue_pop_shortest_job s;
                         s \<leftarrow> on_queue ready_queue_decrement_job_length_score s;
                         turn run ready_queue_add_to_head cur 1 s })"

definition scheduler_AGING :: "'h runner \<Rightarrow> 'h a2_state \<Rightarrow> (unit outcome \<times> 'h a2_state) option" where
  "scheduler_AGING run s =
     do { s \<leftarrow> on_queue sort_ready_queue s;
          sched_loop (\<lambda>s. do { (cur, s) \<leftarrow> pop_with ready_queue_pop_head s;
                              shortest \<leftarrow> ready_queue_get_shortest_job_score (a2_queue s);
                              n \<leftarrow> nodes (a2_queue s) cur;
                              p \<leftarrow> get_pcb (node_pcb n) s;
                              (cur, s) \<leftarrow> (if shortest < job_length_score p
                                          then do { s \<leftarrow> on_queue (ready_queue_promote shortest) s;
                                                    s \<leftarrow> on_queue (ready_queue_add_to_tail cur) s;
                                                    pop_with ready_queue_pop_head s }
                                          else Some (cur, s));
                              s \<leftarrow> on_queue ready_queue_decrement_job_length_score s;
                              turn run ready_queue_add_to_head cur 1 s }) s }"

definition scheduler_RR :: "'h runner \<Rightarrow> int \<Rightarrow> 'h a2_state \<Rightarrow> (unit outcome \<times> 'h a2_state) option" where
  "scheduler_RR run quanta =
     sched_loop (\<lambda>s. do { (cur, s) \<leftarrow> pop_with ready_queue_pop_head s; turn run ready_queue_add_to_tail cur quanta s })"

definition schedule_by_policy :: "'h runner \<Rightarrow> string \<Rightarrow> 'h a2_state \<Rightarrow> 'h reply_a2" where
  "schedule_by_policy run policy s =
     (if policy \<notin> {''FCFS'', ''SJF'', ''RR'', ''AGING'', ''RR30''} then Some (Done SCHEDULING_ERROR, s)
      else if active s then Some (Done 0, s)
      else if in_background s then Some (Done 0, s)
      else do { (r, s) \<leftarrow> (if policy = ''FCFS'' then scheduler_FCFS run s
                           else if policy = ''SJF'' then scheduler_SJF run s
                           else if policy = ''RR'' then scheduler_RR run 2 s
                           else if policy = ''AGING'' then scheduler_AGING run s
                           else scheduler_RR run 30 s);
                Some (case r of Done x \<Rightarrow> Done 0 | Exit c \<Rightarrow> Exit c, s) })"

subsection \<open>Processes whose pages are in memory\<close>

text \<open>A program whose lines print something and do nothing else: each line comes with the text it prints.\<close>

definition quiet :: "'h parser_a2 \<Rightarrow> string \<times> string \<Rightarrow> bool" where
  "quiet parse lt \<longleftrightarrow>
     fst lt \<noteq> none_str \<and> (\<forall>s. in_background s \<longrightarrow> (\<exists>e. parse (fst lt) s = Some (Done e, say (snd lt) s)))"

definition line_at :: "shellmemory \<Rightarrow> int \<Rightarrow> string option" where
  "line_at m i = (if 0 \<le> i \<and> nat i < length (cells m) then Some (chars (val (cells m ! nat i))) else None)"

text \<open>The process has \<open>lts\<close> still to run: the lines are in memory from the program counter on, a free cell follows them, and
  their pages are loaded.\<close>

definition resident :: "'h a2_state \<Rightarrow> pcb \<Rightarrow> (string \<times> string) list \<Rightarrow> bool" where
  "resident s p lts \<longleftrightarrow>
     (\<forall>i < length lts. line_at (a2_mem s) (PC p + int i) = Some (fst (lts ! i))) \<and>
     line_at (a2_mem s) (PC p + int (length lts)) = Some none_str \<and>
     0 \<le> currentLine p \<and> currentLine p \<le> 2 \<and>
     3 * (currentPage p - 1) + currentLine p + int (length lts) < 3 * pageCounter p"

lemma resident_no_fault: "resident s p lts \<Longrightarrow> currentPage p \<le> pageCounter p"
  by (auto simp: resident_def)

definition step_pcb :: "pcb \<Rightarrow> pcb" where
  "step_pcb p =
     (let p = p\<lparr>PC := PC p + 1, priority := False\<rparr>
      in if currentLine p = 2 then p\<lparr>currentPage := currentPage p + 1, currentLine := 0\<rparr>
         else p\<lparr>currentLine := currentLine p + 1\<rparr>)"

lemma step_pcb_fields:
  "PC (step_pcb p) = PC p + 1" "pageCounter (step_pcb p) = pageCounter p"
  "3 * (currentPage (step_pcb p) - 1) + currentLine (step_pcb p) = 3 * (currentPage p - 1) + currentLine p + 1"
  "0 \<le> currentLine p \<Longrightarrow> currentLine p \<le> 2 \<Longrightarrow> 0 \<le> currentLine (step_pcb p) \<and> currentLine (step_pcb p) \<le> 2"
  by (auto simp: step_pcb_def Let_def)

text \<open>What a turn leaves alone: the lines in memory, the links of the queue and the other processes.\<close>

definition same_rest :: "ptr \<Rightarrow> 'h a2_state \<Rightarrow> 'h a2_state \<Rightarrow> bool" where
  "same_rest b s s' \<longleftrightarrow>
     line_at (a2_mem s') = line_at (a2_mem s) \<and> active s' = active s \<and> in_background s' = False \<and>
     qhead (a2_queue s') = qhead (a2_queue s) \<and>
     (\<forall>c. c \<noteq> b \<longrightarrow> get_pcb c s' = get_pcb c s) \<and> (\<exists>p. get_pcb b s' = Some p)"

definition ticks :: "nat \<Rightarrow> 'h a2_state \<Rightarrow> 'h a2_state \<Rightarrow> bool" where
  "ticks k s s' \<longleftrightarrow> access_time (a2_mem s') = access_time (a2_mem s) + int k"

lemma same_rest_trans: "same_rest b s s1 \<Longrightarrow> same_rest b s1 s2 \<Longrightarrow> same_rest b s s2"
  by (auto simp: same_rest_def)

lemma resident_cong: "line_at (a2_mem s') = line_at (a2_mem s) \<Longrightarrow> resident s' p lts = resident s p lts"
  by (simp add: resident_def)

lemma get_line:
  assumes "line_at m i = Some l" and "access_time m < 2 ^ 31 - 1"
  shows "\<exists>m'. mem_get_value_at_line i m = Some (Some l, m') \<and> line_at m' = line_at m \<and> access_time m' = access_time m + 1"
proof -
  have i: "0 \<le> i" "nat i < length (cells m)" "l = chars (val (cells m ! nat i))"
    using assms(1) by (auto simp: line_at_def split: if_splits)
  have "line_at (upd_cell (nat i) (\<lambda>c. c\<lparr>accessed := a\<rparr>) (m\<lparr>access_time := t\<rparr>)) = line_at m" for a t
    using i(2) by (auto simp: line_at_def fun_eq_iff nth_update_if)
  then show ?thesis
    using i assms(2) by (auto simp: mem_get_value_at_line_def tick_def Let_def)
qed

lemma get_put_pcb [simp]: "get_pcb c (put_pcb b p s) = (if c = b then Some p else get_pcb c s)"
  by (simp add: get_pcb_def put_pcb_def)

lemma put_pcb_fields [simp]:
  "a2_mem (put_pcb b p s) = a2_mem s" "a2_out (put_pcb b p s) = a2_out s" "active (put_pcb b p s) = active s"
  "in_background (put_pcb b p s) = in_background s" "qhead (a2_queue (put_pcb b p s)) = qhead (a2_queue s)"
  "nodes (a2_queue (put_pcb b p s)) = nodes (a2_queue s)"
  by (simp_all add: put_pcb_def)

lemma say_fields [simp]:
  "a2_mem (say t s) = a2_mem s" "a2_out (say t s) = a2_out s @ [Print t]" "active (say t s) = active s"
  "in_background (say t s) = in_background s" "a2_queue (say t s) = a2_queue s" "get_pcb c (say t s) = get_pcb c s"
  by (simp_all add: say_def get_pcb_def)

lemma get_pcb_other [simp]:
  "get_pcb c (s\<lparr>a2_mem := m\<rparr>) = get_pcb c s" "get_pcb c (s\<lparr>in_background := f\<rparr>) = get_pcb c s"
  by (simp_all add: get_pcb_def)

lemma execute_line_quiet:
  assumes "get_pcb b s = Some p" and "resident s p (lt # lts)" and "quiet parse lt" and "access_time (a2_mem s) < 2 ^ 31 - 1"
  shows "\<exists>s'. execute_line ops parse node b s = Some (Done None, s') \<and> same_rest b s s' \<and> ticks 1 s s' \<and>
    nodes (a2_queue s') = nodes (a2_queue s) \<and> a2_out s' = a2_out s @ [Print (snd lt)] \<and>
    get_pcb b s' = Some (step_pcb p) \<and> resident s' (step_pcb p) lts"
proof -
  let ?p = "p\<lparr>PC := PC p + 1, priority := False\<rparr>"
  have l: "line_at (a2_mem s) (PC p) = Some (fst lt)" using assms(2) by (force simp: resident_def)
  obtain m where m: "mem_get_value_at_line (PC p) (a2_mem s) = Some (Some (fst lt), m)" "line_at m = line_at (a2_mem s)"
    "access_time m = access_time (a2_mem s) + 1" using get_line [OF l assms(4)] by blast
  let ?s = "put_pcb b ?p (s\<lparr>a2_mem := m, in_background := True\<rparr>)"
  have bg: "in_background ?s" by simp
  obtain e where e: "parse (fst lt) ?s = Some (Done e, say (snd lt) ?s)" "fst lt \<noteq> none_str"
    using assms(3) bg unfolding quiet_def by blast
  let ?s' = "put_pcb b (step_pcb p) (say (snd lt) ?s\<lparr>in_background := False\<rparr>)"
  have "execute_line ops parse node b s = Some (Done None, ?s')"
    using resident_no_fault [OF assms(2)] e m(1) assms(1) by (simp add: execute_line_def step_pcb_def Let_def)
  moreover have "same_rest b s ?s'" "ticks 1 s ?s'" using m by (simp_all add: same_rest_def ticks_def)
  moreover have "resident s (step_pcb p) lts"
  proof -
    have "line_at (a2_mem s) (PC p + 1 + int i) = Some (fst (lts ! i))" if "i < length lts" for i
      using assms(2) that by (auto simp: resident_def add.assoc dest!: spec [of _ "Suc i"])
    moreover have "line_at (a2_mem s) (PC p + 1 + int (length lts)) = Some none_str"
      using assms(2) by (simp add: resident_def add.assoc)
    moreover have "0 \<le> currentLine p" "currentLine p \<le> 2"
      "3 * (currentPage p - 1) + currentLine p + int (length (lt # lts)) < 3 * pageCounter p"
      using assms(2) unfolding resident_def by blast+
    moreover from this(1,2) have "0 \<le> currentLine (step_pcb p)" "currentLine (step_pcb p) \<le> 2"
      using step_pcb_fields(4) [of p] by blast+
    moreover from calculation(5) have "3 * (currentPage (step_pcb p) - 1) + currentLine (step_pcb p) + int (length lts) < 3 * pageCounter p"
      unfolding step_pcb_fields(3) by simp
    ultimately show ?thesis unfolding resident_def step_pcb_fields(1,2) by blast
  qed
  then have "resident ?s' (step_pcb p) lts" using m resident_cong [of ?s' s] by simp
  ultimately show ?thesis by (intro exI [of _ ?s']) simp
qed

lemma execute_line_end:
  assumes "get_pcb b s = Some p" and "resident s p []" and "access_time (a2_mem s) < 2 ^ 31 - 1" and "nodes (a2_queue s) node \<noteq> None"
  shows "\<exists>s'. execute_line ops parse node b s = Some (Done (Some True), s') \<and> same_rest b s s' \<and> ticks 1 s s' \<and>
    nodes (a2_queue s') = (nodes (a2_queue s))(node := None) \<and> a2_out s' = a2_out s"
proof -
  have l: "line_at (a2_mem s) (PC p) = Some none_str" using assms(2) by (simp add: resident_def)
  obtain m where m: "mem_get_value_at_line (PC p) (a2_mem s) = Some (Some none_str, m)" "line_at m = line_at (a2_mem s)"
    "access_time m = access_time (a2_mem s) + 1" using get_line [OF l assms(3)] by blast
  let ?s = "put_pcb b (p\<lparr>PC := PC p + 1, priority := False\<rparr>) (s\<lparr>a2_mem := m, in_background := True\<rparr>)"
  let ?s' = "?s\<lparr>in_background := False, a2_queue := (a2_queue ?s)\<lparr>nodes := (nodes (a2_queue s))(node := None)\<rparr>\<rparr>"
  have "execute_line ops parse node b s = Some (Done (Some True), ?s')"
    using resident_no_fault [OF assms(2)] m(1) assms(1,4)
    by (auto simp: execute_line_def Let_def finish_def terminate_process_def)
  moreover have "same_rest b s ?s'" "ticks 1 s ?s'"
    using m by (simp_all add: same_rest_def ticks_def) (simp add: get_pcb_def put_pcb_def)
  ultimately show ?thesis by (intro exI [of _ ?s']) simp
qed

lemma same_rest_refl: "\<not> in_background s \<Longrightarrow> get_pcb b s = Some p \<Longrightarrow> same_rest b s s"
  by (simp add: same_rest_def)

text \<open>A turn of \<open>k\<close> lines: the process ends in it when it has fewer lines left, otherwise it has \<open>k\<close> lines less.\<close>

definition turn_result ::
  "ptr \<Rightarrow> ptr \<Rightarrow> nat \<Rightarrow> (string \<times> string) list \<Rightarrow> 'h a2_state \<Rightarrow> 'h a2_state \<Rightarrow> bool" where
  "turn_result node b k lts s s' \<longleftrightarrow>
     same_rest b s s' \<and> access_time (a2_mem s') \<le> access_time (a2_mem s) + int (min k (length lts + 1)) \<and>
     a2_out s' = a2_out s @ map (\<lambda>lt. Print (snd lt)) (take k lts) \<and>
     nodes (a2_queue s') = (if length lts < k then (nodes (a2_queue s))(node := None) else nodes (a2_queue s)) \<and>
     (k \<le> length lts \<longrightarrow> (\<exists>p. get_pcb b s' = Some p \<and> resident s' p (drop k lts)))"

lemma execute_loop_quiet:
  assumes "get_pcb b s = Some p" and "resident s p lts" and "\<forall>lt \<in> set lts. quiet parse lt" and "\<not> in_background s"
    and "access_time (a2_mem s) + int (length lts) < 2 ^ 31 - 1" and "nodes (a2_queue s) node \<noteq> None" and "quanta = i + int k"
  shows "\<exists>s'. execute_loop ops parse node b i quanta s = Some (Done (length lts < k), s') \<and> turn_result node b k lts s s'"
  using assms
proof (induction k arbitrary: s p lts i)
  case 0
  then show ?case using same_rest_refl [of s b p] by (subst execute_loop.simps) (simp add: turn_result_def)
next
  case (Suc k)
  have i: "i < quanta" using Suc.prems(7) by simp
  show ?case
  proof (cases lts)
    case Nil
    obtain s' where s': "execute_line ops parse node b s = Some (Done (Some True), s')" "same_rest b s s'" "ticks 1 s s'"
      "nodes (a2_queue s') = (nodes (a2_queue s))(node := None)" "a2_out s' = a2_out s"
      using execute_line_end [OF Suc.prems(1), of node ops parse] Suc.prems Nil by auto
    then show ?thesis using i Nil by (subst execute_loop.simps) (simp add: turn_result_def ticks_def)
  next
    case (Cons lt rst)
    obtain s1 where s1: "execute_line ops parse node b s = Some (Done None, s1)" "same_rest b s s1" "ticks 1 s s1"
      "nodes (a2_queue s1) = nodes (a2_queue s)" "a2_out s1 = a2_out s @ [Print (snd lt)]"
      "get_pcb b s1 = Some (step_pcb p)" "resident s1 (step_pcb p) rst"
      using execute_line_quiet [OF Suc.prems(1), of lt rst parse ops node] Suc.prems Cons by auto
    have "\<exists>s'. execute_loop ops parse node b (i + 1) quanta s1 = Some (Done (length rst < k), s') \<and> turn_result node b k rst s1 s'"
      using Suc.prems s1 Cons by (intro Suc.IH [OF s1(6,7)]) (auto simp: same_rest_def ticks_def)
    then obtain s' where s': "execute_loop ops parse node b (i + 1) quanta s1 = Some (Done (length rst < k), s')"
      "turn_result node b k rst s1 s'" by blast
    have "turn_result node b (Suc k) lts s s'"
      using s'(2) s1 same_rest_trans [OF s1(2), of s'] unfolding turn_result_def ticks_def Cons by auto
    then show ?thesis using s1(1) s'(1) i Cons by (subst execute_loop.simps) auto
  qed
qed

subsection \<open>Round robin\<close>

type_synonym job = "ptr \<times> (string \<times> string) list"

definition work :: "job list \<Rightarrow> nat" where
  "work jobs = sum_list (map (\<lambda>j. length (snd j) + 1) jobs)"

text \<open>The job with its node, its process and its lines in memory.\<close>

definition job_ok :: "'h parser_a2 \<Rightarrow> 'h a2_state \<Rightarrow> job \<Rightarrow> bool" where
  "job_ok parse s j \<longleftrightarrow>
     (\<exists>b p. block_at (a2_queue s) (fst j) = Some b \<and> get_pcb b s = Some p \<and> resident s p (snd j)) \<and>
     (\<forall>lt \<in> set (snd j). quiet parse lt)"

definition jobs_ok :: "'h parser_a2 \<Rightarrow> 'h a2_state \<Rightarrow> job list \<Rightarrow> bool" where
  "jobs_ok parse s jobs \<longleftrightarrow>
     rq (a2_queue s) (map fst jobs) \<and> distinct (map (block_at (a2_queue s)) (map fst jobs)) \<and>
     \<not> active s \<and> \<not> in_background s \<and> (\<forall>j \<in> set jobs. job_ok parse s j) \<and>
     access_time (a2_mem s) + int (work jobs) < 2 ^ 31 - 1"

lemma rq_keep:
  assumes "rq q xs" and "qhead q' = qhead q" and "nodes q' = nodes q \<or> nodes q' = (nodes q)(x := None)" and "x \<notin> set xs"
    and "dom (pcbs q) \<subseteq> dom (pcbs q')"
  shows "rq q' xs" "y \<in> set xs \<Longrightarrow> block_at q' y = block_at q y"
proof -
  show b: "block_at q' y = block_at q y" if "y \<in> set xs" for y
    using assms(3,4) that by (auto simp: block_at_def)
  have "lseg (nodes q') (qhead q') xs None"
    using assms(1-4) lseg_frame [of x xs "nodes q" None] by (auto simp: rq_def)
  then show "rq q' xs"
    using assms(1,5) b unfolding rq_def by (metis subsetD)
qed

lemma job_ok_keep:
  assumes "job_ok parse s j" and "block_at (a2_queue s') (fst j) = block_at (a2_queue s) (fst j)"
    and "line_at (a2_mem s') = line_at (a2_mem s)"
    and "\<And>c. block_at (a2_queue s) (fst j) = Some c \<Longrightarrow> get_pcb c s' = get_pcb c s"
  shows "job_ok parse s' j"
  using assms resident_cong [OF assms(3)] unfolding job_ok_def by metis

lemma pop_head_state:
  assumes "rq (a2_queue s) (x # xs)"
  shows "\<exists>q. pop_with ready_queue_pop_head s = Some (x, s\<lparr>a2_queue := q\<rparr>) \<and> rq q xs \<and> same_blocks (a2_queue s) q \<and> loose q x"
  using pop_head_ok [OF assms] by (auto simp: pop_with_def)

text \<open>The head of the queue is popped and runs.\<close>

lemma run_head:
  assumes "jobs_ok parse s ((x, lts) # jobs)"
  shows "\<exists>q s1 b s2. pop_with ready_queue_pop_head s = Some (x, s1) \<and> s1 = s\<lparr>a2_queue := q\<rparr> \<and>
    same_blocks (a2_queue s) q \<and> rq q (map fst jobs) \<and> block_at (a2_queue s) x = Some b \<and>
    execute_process ops parse x (int k) s1 = Some (Done (length lts < k), s2) \<and> turn_result x b k lts s1 s2"
proof -
  have q: "rq (a2_queue s) (x # map fst jobs)" "\<not> in_background s" "job_ok parse s (x, lts)"
    "access_time (a2_mem s) + int (length lts) < 2 ^ 31 - 1"
    using assms by (auto simp: jobs_ok_def work_def)
  obtain b p where b: "block_at (a2_queue s) x = Some b" "get_pcb b s = Some p" "resident s p lts" "\<forall>lt \<in> set lts. quiet parse lt"
    using q(3) by (auto simp: job_ok_def)
  obtain q1 where q1: "pop_with ready_queue_pop_head s = Some (x, s\<lparr>a2_queue := q1\<rparr>)" "rq q1 (map fst jobs)" "same_blocks (a2_queue s) q1"
    using pop_head_state [OF q(1)] by blast
  let ?s1 = "s\<lparr>a2_queue := q1\<rparr>"
  have "block_at q1 x = Some b" using b(1) q1(3) by (simp add: same_blocks_def)
  then obtain n where n: "nodes q1 x = Some n" "node_pcb n = b" by (auto simp: block_at_def)
  have "get_pcb b ?s1 = Some p" using b(2) q1(3) by (simp add: get_pcb_def same_blocks_def)
  then obtain s2 where "execute_loop ops parse x b 0 (int k) ?s1 = Some (Done (length lts < k), s2)" "turn_result x b k lts ?s1 s2"
    using execute_loop_quiet [of b ?s1 p lts parse x "int k" 0 k ops] b(3,4) q(2,4) n(1) resident_cong [of ?s1 s] by auto
  then show ?thesis using q1 b(1) n by (intro exI [of _ q1] exI [of _ ?s1] exI [of _ b] exI [of _ s2]) (simp add: execute_process_def)
qed

text \<open>The other jobs are as they were.\<close>

lemma others_kept:
  assumes "jobs_ok parse s ((x, lts) # jobs)" and s1: "s1 = s\<lparr>a2_queue := q1\<rparr>" "same_blocks (a2_queue s) q1"
    and "rq q1 (map fst jobs)" and b: "block_at (a2_queue s) x = Some b" and tr: "turn_result x b k lts s1 s2"
  shows "rq (a2_queue s2) (map fst jobs)" "\<And>y. y \<in> fst ` set jobs \<Longrightarrow> block_at (a2_queue s2) y = block_at (a2_queue s) y"
    "\<And>j. j \<in> set jobs \<Longrightarrow> job_ok parse s2 j" "distinct (map (block_at (a2_queue s2)) (map fst jobs))"
proof -
  have q: "x \<notin> set (map fst jobs)" "distinct (map (block_at (a2_queue s)) (x # map fst jobs))" "\<forall>j \<in> set jobs. job_ok parse s j"
    using assms(1) by (auto simp: jobs_ok_def rq_def)
  have blk: "block_at (a2_queue s1) = block_at (a2_queue s)" "get_pcb c s1 = get_pcb c s" "a2_mem s1 = a2_mem s" for c
    using s1 by (simp_all add: same_blocks_def get_pcb_def)
  note tr = tr [unfolded turn_result_def same_rest_def]
  have "dom (pcbs (a2_queue s1)) \<subseteq> dom (pcbs (a2_queue s2))"
  proof
    fix c assume "c \<in> dom (pcbs (a2_queue s1))"
    then show "c \<in> dom (pcbs (a2_queue s2))" using tr by (cases "c = b") (auto simp: get_pcb_def dom_def)
  qed
  moreover have "nodes (a2_queue s2) = nodes (a2_queue s1) \<or> nodes (a2_queue s2) = (nodes (a2_queue s1))(x := None)"
    using tr by (auto split: if_splits)
  moreover have "qhead (a2_queue s2) = qhead (a2_queue s1)" using tr by blast
  ultimately show "rq (a2_queue s2) (map fst jobs)"
    and blk2: "\<And>y. y \<in> fst ` set jobs \<Longrightarrow> block_at (a2_queue s2) y = block_at (a2_queue s) y"
    using rq_keep [OF assms(4) _ _ q(1)] blk(1) s1(1) by auto
  show "job_ok parse s2 j" if "j \<in> set jobs" for j
  proof (rule job_ok_keep)
    show "job_ok parse s j" "block_at (a2_queue s2) (fst j) = block_at (a2_queue s) (fst j)"
      "line_at (a2_mem s2) = line_at (a2_mem s)" using q(3) blk2 that tr blk(3) by auto
    fix c assume "block_at (a2_queue s) (fst j) = Some c"
    then have "c \<noteq> b" using q(2) b that by (auto simp: image_iff)
    then show "get_pcb c s2 = get_pcb c s" using tr blk(2) by auto
  qed
  show "distinct (map (block_at (a2_queue s2)) (map fst jobs))"
    using q(2) blk2 by (simp cong: map_cong)
qed

text \<open>One turn of round robin on jobs that are in memory.\<close>

lemma rr_turn:
  assumes ok: "jobs_ok parse s ((x, lts) # jobs)" and k: "0 < k"
  shows "\<exists>s'. pop_with ready_queue_pop_head s \<bind> (\<lambda>(cur, s). turn (execute_process ops parse) ready_queue_add_to_tail cur (int k) s)
      = Some (Done (), s') \<and>
    jobs_ok parse s' (if length lts < k then jobs else jobs @ [(x, drop k lts)]) \<and>
    a2_out s' = a2_out s @ map (\<lambda>lt. Print (snd lt)) (take k lts)"
proof -
  obtain q1 s1 b s2 where pop: "pop_with ready_queue_pop_head s = Some (x, s1)" and s1: "s1 = s\<lparr>a2_queue := q1\<rparr>"
    "same_blocks (a2_queue s) q1" "rq q1 (map fst jobs)" and b: "block_at (a2_queue s) x = Some b"
    and run: "execute_process ops parse x (int k) s1 = Some (Done (length lts < k), s2)" and tr: "turn_result x b k lts s1 s2"
    using run_head [OF ok] by blast
  note kept = others_kept [OF ok s1 b tr]
  note tr = tr [unfolded turn_result_def same_rest_def]
  have q: "\<not> active s1" "access_time (a2_mem s1) + int (length lts + 1 + work jobs) < 2 ^ 31 - 1" "a2_out s1 = a2_out s"
    using ok by (simp_all add: jobs_ok_def work_def s1(1))
  show ?thesis
  proof (cases "length lts < k")
    case True
    then have "jobs_ok parse s2 jobs" using kept tr q by (auto simp: jobs_ok_def)
    then show ?thesis using True tr pop run q(3) by (simp add: turn_def)
  next
    case False
    obtain p2 where p2: "get_pcb b s2 = Some p2" "resident s2 p2 (drop k lts)" using tr False by auto
    have "block_at (a2_queue s1) x = Some b" using b s1(1,2) by (simp add: same_blocks_def)
    then have bx: "block_at (a2_queue s2) x = Some b" using tr False by (simp add: block_at_def)
    then have "loose (a2_queue s2) x" using p2(1) by (auto simp: loose_def get_pcb_def)
    moreover have "x \<notin> set (map fst jobs)" "x \<notin> fst ` set jobs" using ok by (auto simp: jobs_ok_def rq_def)
    ultimately obtain q3 where q3: "ready_queue_add_to_tail x (a2_queue s2) = Some q3" "rq q3 (map fst jobs @ [x])" "same_blocks (a2_queue s2) q3"
      using add_to_tail_ok [OF kept(1)] by blast
    let ?s3 = "s2\<lparr>a2_queue := q3\<rparr>"
    have blk3: "block_at q3 = block_at (a2_queue s2)" "get_pcb c ?s3 = get_pcb c s2" for c
      using q3(3) by (simp_all add: same_blocks_def get_pcb_def)
    have "job_ok parse ?s3 (x, drop k lts)"
      using bx blk3 p2 ok resident_cong [of ?s3 s2] by (auto simp: jobs_ok_def job_ok_def dest: in_set_dropD)
    moreover have "job_ok parse ?s3 j" if "j \<in> set jobs" for j
      by (rule job_ok_keep [OF kept(3) [OF that]]) (simp_all add: blk3)
    moreover have "distinct (map (block_at (a2_queue s)) (x # map fst jobs))" using ok by (simp add: jobs_ok_def)
    then have "distinct (map (block_at q3) (map fst jobs @ [x]))"
      using kept(2,4) b bx unfolding blk3(1) by (simp add: image_comp [symmetric] cong: image_cong)
    moreover have "access_time (a2_mem ?s3) + int (work (jobs @ [(x, drop k lts)])) < 2 ^ 31 - 1"
      using tr q(2) False by (simp add: work_def)
    ultimately have "jobs_ok parse ?s3 (jobs @ [(x, drop k lts)])" using q3(2) q(1) tr by (auto simp: jobs_ok_def)
    then show ?thesis
      using False tr q3(1) pop run q(3) by (simp add: turn_def on_queue_def)
  qed
qed

abbreviation rr_body :: "'h host \<Rightarrow> 'h parser_a2 \<Rightarrow> nat \<Rightarrow> 'h a2_state \<Rightarrow> (unit outcome \<times> 'h a2_state) option" where
  "rr_body ops parse k \<equiv>
     \<lambda>s. pop_with ready_queue_pop_head s \<bind> (\<lambda>(cur, s). turn (execute_process ops parse) ready_queue_add_to_tail cur (int k) s)"

interpretation a2_rr: round_robin "jobs_ok parse" a2_out "\<lambda>lt. Print (snd lt)" "Suc k" "\<lambda>s. is_ready_empty (a2_queue s)"
  "\<lambda>s. ended (rr_body ops parse (Suc k) s)" "\<lambda>s. ended (sched_loop (rr_body ops parse (Suc k)) s)" for ops parse k
proof
  fix s :: "'a a2_state" and jobs :: "job list"
  assume ok: "jobs_ok parse s jobs"
  let ?body = "rr_body ops parse (Suc k)"
  have "\<not> active s" using ok by (simp add: jobs_ok_def)
  then show "ended (sched_loop ?body s) = (if is_ready_empty (a2_queue s) then Some s else ended (?body s) \<bind> (\<lambda>s. ended (sched_loop ?body s)))"
    by (subst sched_loop.simps) (auto simp: ended_def split: bind_splits option.split outcome.splits)
  show "\<forall>j \<in> set jobs. snd j = []" if "is_ready_empty (a2_queue s)"
    using ok that rq_empty [of "a2_queue s" "map fst jobs"] by (auto simp: jobs_ok_def)
next
  fix s :: "'a a2_state" assume "jobs_ok parse s []"
  then show "is_ready_empty (a2_queue s)" using rq_empty [of "a2_queue s" "[]"] by (simp add: jobs_ok_def)
next
  fix s :: "'a a2_state" and j xs and jobs :: "job list"
  assume "jobs_ok parse s ((j, xs) # jobs)"
  then show "\<exists>s'. ended (rr_body ops parse (Suc k) s) = Some s' \<and>
      jobs_ok parse s' (if length xs < Suc k then jobs else jobs @ [(j, drop (Suc k) xs)]) \<and>
      a2_out s' = a2_out s @ map (\<lambda>lt. Print (snd lt)) (take (Suc k) xs)"
    using rr_turn [of parse s j xs jobs "Suc k" ops] by (auto simp: ended_Some)
qed simp

lemma sched_loop_rr:
  assumes "jobs_ok parse s jobs" and "0 < k"
  shows "\<exists>s'. scheduler_RR (execute_process ops parse) (int k) s = Some (Done (), s') \<and> is_ready_empty (a2_queue s') \<and>
    \<not> in_background s' \<and> a2_out s' = a2_out s @ map Print (interleave k (map (\<lambda>j. map snd (snd j)) jobs))"
proof -
  obtain n where "k = Suc n" using assms(2) by (cases k) auto
  moreover have "map Print (interleave k (map (\<lambda>j. map snd (snd j)) jobs)) = map (\<lambda>lt. Print (snd lt)) (interleave k (map snd jobs))"
    using interleave_map [of k snd "map snd jobs"] by (simp add: comp_def)
  ultimately show ?thesis
    using a2_rr.finishes [OF assms(1), of ops n] by (auto simp: ended_Some scheduler_RR_def jobs_ok_def)
qed

end
