(* ===== verification/A2_Shell.thy ===== *)
theory A2_Shell
  imports A2_Kernel
begin

text \<open>
  The second shell: \<^verbatim>\<open>a2/interpreter.c\<close> and the rest of \<^verbatim>\<open>a2/shell.c\<close>. A line holds several commands
  separated by semicolons. The commands \<^verbatim>\<open>run\<close> and \<^verbatim>\<open>exec\<close> start the schedulers of \<^verbatim>\<open>A2_Kernel\<close>, whose processes
  parse their lines again; \<open>parseInput_a2\<close> has a bound on the depth of this recursion.

  The array of words is not cleared between the commands of a line, so a command with too few words sees the words of
  the command before it: the model keeps the array, with \<open>None\<close> for a null pointer. \<^verbatim>\<open>exec\<close> has no \<^verbatim>\<open>return\<close> at its end;
  its value there is the parameter \<open>c_noret\<close>. \<open>c_depth\<close> bounds the nesting of the host's directories.
\<close>

type_synonym words = "string option list"

record 'h config =
  c_ops :: "'h host"
  c_noret :: int
  c_depth :: nat

subsection \<open>Errors: interpreter.c\<close>

definition TOO_MANY_TOKENS :: int where "TOO_MANY_TOKENS = 6"
definition TOO_FEW_TOKENS :: int where "TOO_FEW_TOKENS = 7"
definition BAD_COMMAND :: int where "BAD_COMMAND = 9"
definition ERROR_CD :: int where "ERROR_CD = 10"
definition ERROR_MKDIR :: int where "ERROR_MKDIR = 11"

definition error_msgs :: "string list" where
  "error_msgs =
     [''no error'', ''file does not exist'', ''file could not be loaded'', ''no space left in shell memory'',
      ''ready queue is full'', ''scheduling policy error'', ''too many tokens'', ''too few tokens'',
      ''non-alphanumeric token'', ''unknown name'', ''cd'', ''mkdir'', ''unknown policy'']"

definition handle_error :: "int \<Rightarrow> 'h a2_state \<Rightarrow> 'h reply_a2" where
  "handle_error e s =
     (if 0 \<le> e \<and> nat e < length error_msgs
      then Some (Done e, say (''Bad command: '' @ error_msgs ! nat e) s) else None)"

subsection \<open>Removing the backing store: interpreter.c\<close>

text \<open>The depth of the directories is bounded by \<open>n\<close>. The names are those that the directory has when it is opened.\<close>

fun remove_entries ::
  "(string \<Rightarrow> 'h \<Rightarrow> (int \<times> 'h) option) \<Rightarrow> 'h host \<Rightarrow> string \<Rightarrow> string list \<Rightarrow> 'h \<Rightarrow> (int \<times> 'h) option" where
  "remove_entries rec ops path [] h = Some (0, h)"
| "remove_entries rec ops path (nm # names) h =
     (if nm = ''.'' \<or> nm = ''..'' then remove_entries rec ops path names h
      else do { (r2, h) \<leftarrow> (case h_isdir ops (path @ CHR ''/'' # nm) h of
                              None \<Rightarrow> Some (- 1, h)
                            | Some True \<Rightarrow> rec (path @ CHR ''/'' # nm) h
                            | Some False \<Rightarrow> Some (h_unlink ops (path @ CHR ''/'' # nm) h));
                if r2 = 0 then remove_entries rec ops path names h else Some (r2, h) })"

fun remove_directory :: "'h host \<Rightarrow> nat \<Rightarrow> string \<Rightarrow> 'h \<Rightarrow> (int \<times> 'h) option" where
  "remove_directory ops 0 path h = None"
| "remove_directory ops (Suc n) path h =
     do { (r, h) \<leftarrow> (case h_list ops path h of
                       None \<Rightarrow> Some (- 1, h)
                     | Some names \<Rightarrow> remove_entries (remove_directory ops n) ops path names h);
          Some (if r = 0 then h_rmdir ops path h else (r, h)) }"

subsection \<open>Commands: interpreter.c\<close>

definition help_a2 :: "'h a2_state \<Rightarrow> 'h reply_a2" where
  "help_a2 s =
     (let tab = CHR 0x09
      in Some (Done 0, say (''COMMAND'' @ replicate 3 tab @ ''DESCRIPTION'' @ newline #
           '' help'' @ replicate 3 tab @ ''Displays all the commands'' @ newline #
           '' quit'' @ replicate 3 tab @ ''Exits / terminates the shell with '' @
             [CHR 0xE2, CHR 0x80, CHR 0x9C] @ ''Bye!'' @ [CHR 0xE2, CHR 0x80, CHR 0x9D] @ newline #
           '' set VAR STRING'' @ replicate 2 tab @ ''Assigns a value to shell memory'' @ newline #
           '' print VAR'' @ replicate 2 tab @ ''Displays the STRING assigned to VAR'' @ newline #
           '' run SCRIPT.TXT'' @ replicate 2 tab @ ''Executes the file SCRIPT.TXT'' @ newline # '' '') s))"

definition get_backing_store_path :: "'h a2_state \<Rightarrow> string" where
  "get_backing_store_path s = a2_store s"

definition quit_a2 :: "nat \<Rightarrow> 'h host \<Rightarrow> 'h a2_state \<Rightarrow> 'h reply_a2" where
  "quit_a2 depth ops s =
     do { let s = say ''Bye!'' s;
          q \<leftarrow> ready_queue_destroy (a2_queue s);
          m \<leftarrow> free_shell_memory (a2_mem s);
          (r, h) \<leftarrow> remove_directory ops depth (get_backing_store_path s) (a2_host s);
          Some (Exit 0, s\<lparr>a2_queue := q, a2_mem := m, a2_host := h\<rparr>) }"

definition set_a2 :: "string \<Rightarrow> string \<Rightarrow> 'h a2_state \<Rightarrow> 'h reply_a2" where
  "set_a2 vr v s =
     (if length vr + 1 + length v < 1000 then Some (Done 0, s\<lparr>a2_mem := mem_set_value vr v (a2_mem s)\<rparr>) else None)"

definition print_a2 :: "string \<Rightarrow> 'h a2_state \<Rightarrow> 'h reply_a2" where
  "print_a2 vr s =
     do { (v, m) \<leftarrow> mem_get_value vr (a2_mem s);
          Some (Done 0, say (case v of None \<Rightarrow> [newline] | Some t \<Rightarrow> t) (s\<lparr>a2_mem := m\<rparr>)) }"

definition echo_a2 :: "string \<Rightarrow> 'h a2_state \<Rightarrow> 'h reply_a2" where
  "echo_a2 vr s = (if vr \<noteq> [] \<and> hd vr = CHR ''$'' then print_a2 (tl vr) s else Some (Done 0, say vr s))"

text \<open>\<^verbatim>\<open>system\<close>: what the command prints is one more piece of output.\<close>

definition sys_a2 :: "'h host \<Rightarrow> string \<Rightarrow> 'h a2_state \<Rightarrow> 'h reply_a2" where
  "sys_a2 ops command s =
     (let (st, t, h) = h_system ops command (a2_host s) in Some (Done st, say t (s\<lparr>a2_host := h\<rparr>)))"

definition my_ls_a2 :: "'h host \<Rightarrow> 'h a2_state \<Rightarrow> 'h reply_a2" where
  "my_ls_a2 ops = sys_a2 ops ''ls | sort''"

definition my_mkdir_a2 :: "'h host \<Rightarrow> string \<Rightarrow> 'h a2_state \<Rightarrow> 'h reply_a2" where
  "my_mkdir_a2 ops dirname s =
     (if dirname \<noteq> [] \<and> hd dirname = CHR ''$''
      then do { (v, m) \<leftarrow> mem_get_value (tl dirname) (a2_mem s);
                let s = s\<lparr>a2_mem := m\<rparr>;
                case v of
                  None \<Rightarrow> handle_error ERROR_MKDIR s
                | Some dir \<Rightarrow> if blank \<in> set dir then handle_error ERROR_MKDIR s else sys_a2 ops (''mkdir '' @ dir) s }
      else sys_a2 ops (''mkdir '' @ dirname) s)"

definition my_touch_a2 :: "'h host \<Rightarrow> string \<Rightarrow> 'h a2_state \<Rightarrow> 'h reply_a2" where
  "my_touch_a2 ops filename = sys_a2 ops (''touch '' @ filename)"

definition my_cd_a2 :: "'h host \<Rightarrow> string \<Rightarrow> 'h a2_state \<Rightarrow> 'h reply_a2" where
  "my_cd_a2 ops dirname s =
     (if h_isdir ops dirname (a2_host s) = Some True
      then let (e, h) = h_chdir ops dirname (a2_host s) in Some (Done e, s\<lparr>a2_host := h\<rparr>)
      else handle_error ERROR_CD s)"

definition run_a2 :: "'h config \<Rightarrow> 'h runner \<Rightarrow> string \<Rightarrow> 'h a2_state \<Rightarrow> 'h reply_a2" where
  "run_a2 cfg run script s =
     do { (errCode, s) \<leftarrow> process_initialize (c_ops cfg) script s;
          if errCode = 11 then handle_error errCode s
          else do { (r, s) \<leftarrow> schedule_by_policy run ''FCFS'' s;
                    Some (case r of Done x \<Rightarrow> Done errCode | Exit c \<Rightarrow> Exit c, s) } }"

text \<open>The scripts that are not null pointers, in order; the first that cannot be started ends the command.\<close>

fun start_all :: "'h config \<Rightarrow> string list \<Rightarrow> 'h a2_state \<Rightarrow> (int \<times> 'h a2_state) option" where
  "start_all cfg [] s = Some (0, s)"
| "start_all cfg (f # fs) s =
     do { (e, s) \<leftarrow> process_initialize (c_ops cfg) f s; if e \<noteq> 0 then Some (e, s) else start_all cfg fs s }"

definition exec_a2 :: "'h config \<Rightarrow> 'h runner \<Rightarrow> string list \<Rightarrow> 'h a2_state \<Rightarrow> 'h reply_a2" where
  "exec_a2 cfg run fnames s =
     do { (e, s) \<leftarrow> start_all cfg fnames s;
          if e \<noteq> 0 then handle_error e s
          else do { (r, s) \<leftarrow> schedule_by_policy run ''RR'' s;
                    case r of
                      Exit c \<Rightarrow> Some (Exit c, s)
                    | Done e \<Rightarrow> if e \<noteq> 0 then handle_error e s else Some (Done (c_noret cfg), s) } }"

definition resetmem :: "'h a2_state \<Rightarrow> 'h reply_a2" where
  "resetmem s = Some (Done 0, s\<lparr>a2_mem := mem_init_variable (a2_mem s)\<rparr>)"

definition set_page_policy :: "string \<Rightarrow> 'h a2_state \<Rightarrow> 'h reply_a2" where
  "set_page_policy policy s =
     (if policy = ''FIFO'' \<or> policy = ''LRU''
      then Some (Done 0, say (''Page replacement policy set to '' @ policy)
                  (s\<lparr>a2_mem := set_memory_policy (if policy = ''FIFO'' then FIFO else LRU) (a2_mem s)\<rparr>))
      else handle_error 12 s)"

subsection \<open>Dispatch: interpreter.c\<close>

definition MAX_ARGS_SIZE_a2 :: nat where
  "MAX_ARGS_SIZE_a2 = 7"

text \<open>The words after the call: the first \<open>w\<close> are cut at a carriage return or a newline.\<close>

definition stripped :: "nat \<Rightarrow> words \<Rightarrow> words" where
  "stripped w ws =
     (if w < 1 \<or> MAX_ARGS_SIZE_a2 < w then ws else map (map_option strip) (take w ws) @ drop w ws)"

text \<open>The value of \<^verbatim>\<open>set\<close> is built in an array of just the length it needs, which is below 1400.\<close>

definition interpreter_a2 :: "'h config \<Rightarrow> 'h runner \<Rightarrow> words \<Rightarrow> nat \<Rightarrow> 'h a2_state \<Rightarrow> 'h reply_a2" where
  "interpreter_a2 cfg run ws w s =
     (if w < 1 then handle_error TOO_FEW_TOKENS s
      else if w > MAX_ARGS_SIZE_a2 then handle_error TOO_MANY_TOKENS s
      else do {
        let ops = c_ops cfg; let ws = stripped w ws;
        args \<leftarrow> those (take w ws);
        let c = args ! 0;
        if c = ''help'' then (if w > 1 then handle_error TOO_MANY_TOKENS s else help_a2 s)
        else if c = ''quit'' \<or> c = ''exit'' then
          (if w > 1 then handle_error TOO_MANY_TOKENS s else quit_a2 (c_depth cfg) ops s)
        else if c = ''set'' then
          (if w < 3 then handle_error TOO_FEW_TOKENS s
           else do { v \<leftarrow> joined_args 1400 args 2 w; set_a2 (args ! 1) v s })
        else if c = ''print'' then
          (if w < 2 then handle_error TOO_FEW_TOKENS s else if w > 2 then handle_error TOO_MANY_TOKENS s
           else do { x \<leftarrow> ws ! 1; print_a2 x s })
        else if c = ''run'' then
          (if w < 2 then handle_error TOO_FEW_TOKENS s else if w > 2 then handle_error TOO_MANY_TOKENS s
           else do { x \<leftarrow> ws ! 1; run_a2 cfg run x s })
        else if c = ''echo'' then
          (if w > 2 then handle_error TOO_MANY_TOKENS s else do { x \<leftarrow> ws ! 1; echo_a2 x s })
        else if c = ''my_ls'' then (if w > 1 then handle_error TOO_MANY_TOKENS s else my_ls_a2 ops s)
        else if c = ''my_mkdir'' then
          (if w > 2 then handle_error TOO_MANY_TOKENS s else do { x \<leftarrow> ws ! 1; my_mkdir_a2 ops x s })
        else if c = ''my_touch'' then
          (if w > 2 then handle_error TOO_MANY_TOKENS s else do { x \<leftarrow> ws ! 1; my_touch_a2 ops x s })
        else if c = ''my_cd'' then
          (if w > 2 then handle_error TOO_MANY_TOKENS s else do { x \<leftarrow> ws ! 1; my_cd_a2 ops x s })
        else if c = ''exec'' then
          (if w \<le> 1 then handle_error TOO_FEW_TOKENS s
           else if w > 5 then handle_error TOO_MANY_TOKENS s
           else if w = 5 then handle_error BAD_COMMAND s
           else exec_a2 cfg run (tl args) s)
        else if c = ''resetmem'' then (if w \<noteq> 1 then handle_error TOO_MANY_TOKENS s else resetmem s)
        else if c = ''pagepolicy'' then
          (if w < 2 then handle_error TOO_FEW_TOKENS s else if w > 2 then handle_error TOO_MANY_TOKENS s
           else do { x \<leftarrow> ws ! 1; set_page_policy x s })
        else handle_error BAD_COMMAND s })"

subsection \<open>Parsing: shell.c\<close>

definition in_word_a2 :: "char \<Rightarrow> bool" where
  "in_word_a2 c \<longleftrightarrow> c \<noteq> CHR '';'' \<and> c \<noteq> newline \<and> c \<noteq> blank"

text \<open>The main loop, from the characters that are left. With no word before a semicolon the index does not move, and the loop
  goes round for ever.\<close>

partial_function (option) parse_loop ::
  "(words \<Rightarrow> nat \<Rightarrow> 'h a2_state \<Rightarrow> 'h reply_a2) \<Rightarrow> string \<Rightarrow> words \<Rightarrow> nat \<Rightarrow> 'h a2_state \<Rightarrow> 'h reply_a2" where
  "parse_loop interp ui ws w s =
     (if ui = [] \<or> hd ui = newline then interp ws w s
      else let ui = dropWhile (\<lambda>c. c = blank) ui
           in if ui = [] then interp ws w s
              else let tmp = takeWhile in_word_a2 ui; r = dropWhile in_word_a2 ui
                   in if 200 \<le> length tmp then None
                      else if tmp = [] then parse_loop interp ui ws w s
                      else if 100 \<le> w then None
                      else let ws = ws[w := Some tmp]
                           in if r \<noteq> [] \<and> hd r = CHR '';''
                              then do { (e, s) \<leftarrow> interp ws (w + 1) s;
                                        case e of
                                          Exit c \<Rightarrow> Some (Exit c, s)
                                        | Done errorCode \<Rightarrow>
                                            if errorCode = - 1 then Some (Done errorCode, s)
                                            else parse_loop interp (dropWhile (\<lambda>c. c = blank) (tl r))
                                                   (stripped (w + 1) ws) 0 s }
                              else parse_loop interp (tl r) ws (w + 1) s)"

text \<open>The tests of the index against 1000 always hold: a line is at most 998 characters long.\<close>

definition parse_with ::
  "(words \<Rightarrow> nat \<Rightarrow> 'h a2_state \<Rightarrow> 'h reply_a2) \<Rightarrow> string \<Rightarrow> 'h a2_state \<Rightarrow> 'h reply_a2" where
  "parse_with interp ui s =
     (if length (c_str ui) < 1000
      then parse_loop interp (dropWhile (\<lambda>c. c = blank) (c_str ui)) (replicate 100 None) 0 s else None)"

fun parseInput_a2 :: "'h config \<Rightarrow> nat \<Rightarrow> 'h parser_a2" where
  "parseInput_a2 cfg 0 ui s = None"
| "parseInput_a2 cfg (Suc n) ui s =
     parse_with (interpreter_a2 cfg (execute_process (c_ops cfg) (parseInput_a2 cfg n))) ui s"

subsection \<open>The command loop: shell.c\<close>

text \<open>\<^verbatim>\<open>main\<close> up to the loop, and one round of it. \<^verbatim>\<open>vsize\<close> is the size of the variable store.\<close>

definition main_init_a2 :: "'h host \<Rightarrow> 'h a2_state \<Rightarrow> 'h reply_a2" where
  "main_init_a2 ops s =
     (let (st, t, h) = h_system ops ''rm -rf ./backing_store'' (a2_host s); s = say t (s\<lparr>a2_host := h\<rparr>);
          (st, h) = h_mkdir ops ''./backing_store/'' (a2_host s); s = s\<lparr>a2_host := h\<rparr>
      in case h_realpath ops ''./backing_store/'' (a2_host s) of
           None \<Rightarrow> Some (Exit 1, s)
         | Some path \<Rightarrow>
             let s = say (''Shell v2.0'' @ [newline]) (s\<lparr>a2_store := path\<rparr>);
                 m = a2_mem s;
                 s = say (''Frame Store Size = '' @ dec (threshold m) @ ''; Variable Store Size = '' @
                          dec (length (cells m) - threshold m)) s
             in Some (Done 0, s\<lparr>a2_mem := mem_init m\<rparr>))"

text \<open>The buffer is cleared only after a line that was parsed; a line that was not parsed is empty.\<close>

definition main_round_a2 :: "'h config \<Rightarrow> nat \<Rightarrow> 'h a2_state \<Rightarrow> 'h reply_a2" where
  "main_round_a2 cfg n s =
     (let ops = c_ops cfg; s = (if h_isatty ops (a2_host s) then say ''$ '' s else s);
          (l, p) = fgets 999 (a2_in s); s = s\<lparr>a2_in := p\<rparr>; ui = c_str (case l of None \<Rightarrow> [] | Some l \<Rightarrow> l)
      in do { s \<leftarrow> (if eof p then do { (p, h) \<leftarrow> h_tty ops (a2_host s); Some (s\<lparr>a2_in := p, a2_host := h\<rparr>) } else Some s);
              if ui = [] then Some (Done 0, s)
              else do { (r, s) \<leftarrow> parseInput_a2 cfg n ui s;
                        Some (case r of Done e \<Rightarrow> if e = - 1 then Exit 99 else Done e | Exit c \<Rightarrow> Exit c, s) } })"

subsection \<open>Lines of words\<close>

lemma in_word_plain: "plain_char c \<Longrightarrow> in_word_a2 c"
  by (simp add: plain_char_def in_word_a2_def)

text \<open>The array of words after \<open>vs\<close> were stored from index \<open>k\<close> on.\<close>

definition filled :: "nat \<Rightarrow> string list \<Rightarrow> words \<Rightarrow> words" where
  "filled k vs ws = take k ws @ map Some vs @ drop (k + length vs) ws"

lemma filled_Cons:
  assumes "k < length ws"
  shows "filled k (v # vs) ws = filled (Suc k) vs (ws[k := Some v])"
  using assms by (simp add: filled_def take_Suc_conv_app_nth)

lemma filled_Nil [simp]: "filled k [] ws = ws"
  by (simp add: filled_def)

text \<open>What follows a command that a semicolon ends.\<close>

definition next_command ::
  "(words \<Rightarrow> nat \<Rightarrow> 'h a2_state \<Rightarrow> 'h reply_a2) \<Rightarrow> string \<Rightarrow> words \<Rightarrow> int outcome \<times> 'h a2_state \<Rightarrow> 'h reply_a2" where
  "next_command interp x ws r =
     (case r of
        (Exit c, s) \<Rightarrow> Some (Exit c, s)
      | (Done errorCode, s) \<Rightarrow>
          if errorCode = - 1 then Some (Done errorCode, s) else parse_loop interp (dropWhile (\<lambda>c. c = blank) x) ws 0 s)"

lemma parse_loop_step:
  assumes "ui \<noteq> []" and "hd ui \<noteq> newline" and "dropWhile (\<lambda>c. c = blank) ui = u" and "u \<noteq> []"
    and "takeWhile in_word_a2 u = t" and "dropWhile in_word_a2 u = r" and "length t < 200" and "t \<noteq> []" and "k < 100"
  shows "parse_loop interp ui ws k s =
    (if r \<noteq> [] \<and> hd r = CHR '';''
     then interp (ws[k := Some t]) (k + 1) s \<bind> next_command interp (tl r) (stripped (k + 1) (ws[k := Some t]))
     else parse_loop interp (tl r) (ws[k := Some t]) (k + 1) s)"
  using assms by (subst parse_loop.simps) (simp add: Let_def next_command_def [abs_def] case_prod_unfold del: One_nat_def)

lemma parse_loop_word:
  assumes "plain v" and "length v < 200" and "k < 100" and "x = [] \<or> hd x \<in> {blank, newline, CHR '';''}"
  shows "parse_loop interp (v @ x) ws k s =
    (if x \<noteq> [] \<and> hd x = CHR '';''
     then interp (ws[k := Some v]) (k + 1) s \<bind> next_command interp (tl x) (stripped (k + 1) (ws[k := Some v]))
     else parse_loop interp (tl x) (ws[k := Some v]) (k + 1) s)"
proof -
  obtain c u where v: "v = c # u" "plain_char c" using assms(1) by (cases v) (auto simp: plain_def)
  have "x = [] \<or> \<not> in_word_a2 (hd x)" using assms(4) by (auto simp: in_word_a2_def)
  note pre = plain_prefix [where P = in_word_a2, OF assms(1) in_word_plain this]
  have u: "v @ x \<noteq> []" "hd (v @ x) \<noteq> newline" "v \<noteq> []" and d: "dropWhile (\<lambda>c. c = blank) (v @ x) = v @ x"
    using v by (auto simp: plain_char_def)
  show ?thesis by (rule parse_loop_step [OF u(1,2) d u(1) pre assms(2) u(3) assms(3)])
qed

lemma parse_loop_end: "parse_loop interp [] ws k s = interp ws k s"
  by (subst parse_loop.simps) simp

text \<open>The words up to the end of the line, or up to a semicolon.\<close>

lemma parse_words:
  assumes "\<forall>u \<in> set (v # vs). plain u \<and> length u < 200" and "k + length vs < 100" and "length ws = 100" and "e = [] \<or> e = [newline]"
  shows "parse_loop interp (v @ spaced vs @ e) ws k s = interp (filled k (v # vs) ws) (k + length (v # vs)) s"
  using assms(1-3)
proof (induction vs arbitrary: v k ws)
  case Nil
  then show ?case
    using assms(4) parse_loop_word [of v k e] by (auto simp: parse_loop_end filled_Cons char_defs)
next
  case (Cons u vs)
  have "parse_loop interp (v @ spaced (u # vs) @ e) ws k s = parse_loop interp (u @ spaced vs @ e) (ws[k := Some v]) (k + 1) s"
    using Cons.prems by (subst parse_loop_word) (auto simp: char_defs)
  also have "\<dots> = interp (filled (k + 1) (u # vs) (ws[k := Some v])) (k + 1 + length (u # vs)) s"
    using Cons.prems by (intro Cons.IH) auto
  finally show ?case using Cons.prems by (simp add: filled_Cons)
qed


text \<open>A semicolon with no word before it stops the loop from going on.\<close>

lemma parse_loop_stuck:
  assumes "parse_loop interp ui ws k s = Some y"
  shows "dropWhile (\<lambda>c. c = blank) ui = [] \<or> hd (dropWhile (\<lambda>c. c = blank) ui) \<noteq> CHR '';''"
proof (rule parse_loop.raw_induct [OF _ assms, where P = "\<lambda>interp ui ws k s y. dropWhile (\<lambda>c. c = blank) ui = [] \<or>
      hd (dropWhile (\<lambda>c. c = blank) ui) \<noteq> CHR '';''"], goal_cases)
  case (1 f interp ui ws k s y)
  define u where "u = dropWhile (\<lambda>c. c = blank) ui"
  show ?case
    unfolding u_def [symmetric]
  proof (rule ccontr)
    assume "\<not> (u = [] \<or> hd u \<noteq> CHR '';'')"
    then have u: "u \<noteq> []" "hd u = CHR '';''" by auto
    then have "takeWhile in_word_a2 u = []" by (cases u) (auto simp: in_word_a2_def)
    moreover have "ui \<noteq> []" "hd ui \<noteq> newline"
      using u unfolding u_def by (cases ui; auto simp: char_defs split: if_splits)+
    ultimately have "f interp u ws k s = Some y"
      using 1(2) u(1) unfolding u_def [symmetric] Let_def by simp
    moreover have "dropWhile (\<lambda>c. c = blank) u = u" unfolding u_def by (rule dropWhile_idem)
    ultimately show False using 1(1) [of interp u ws k s y] u by simp
  qed
qed

subsection \<open>How deep the recursion goes\<close>

text \<open>While a process runs, \<^verbatim>\<open>in_background\<close> is set and \<^verbatim>\<open>schedule_by_policy\<close> returns at once: the interpreter does not use the
  function that runs processes, and the flag stays set.\<close>

lemma schedule_in_background:
  "in_background s \<Longrightarrow> schedule_by_policy run policy s = schedule_by_policy run' policy s"
  "schedule_by_policy run policy s = Some (r, s') \<Longrightarrow> in_background s \<Longrightarrow> in_background s'"
  by (auto simp: schedule_by_policy_def split: if_splits)

lemma add_to_queue_bg [simp]:
  "in_background (s\<lparr>a2_queue := q\<rparr>) = in_background s" "in_background (snd (new_block p s)) = in_background s"
  "in_background (snd (new_node b s)) = in_background s"
  by (simp_all add: new_block_def new_node_def)

lemma count_files_bg: "count_files_backing ops s = (k, s') \<Longrightarrow> in_background s' = in_background s"
  by (auto simp: count_files_backing_def split: option.splits)

lemma copyScript_bg: "copyScript ops f s = (k, s') \<Longrightarrow> in_background s' = in_background s"
  by (auto simp: copyScript_def Let_def split: option.splits prod.splits dest: count_files_bg)

lemma process_initialize_bg:
  assumes "process_initialize ops f s = Some (e, s')"
  shows "in_background s' = in_background s"
proof -
  obtain k s1 where k: "count_files_backing ops s = (k, s1)" by fastforce
  obtain c s2 where c: "copyScript ops f s1 = (c, s2)" by fastforce
  show ?thesis
    using assms count_files_bg [OF k] copyScript_bg [OF c]
    by (auto simp: process_initialize_def k c Let_def new_block_def new_node_def split: if_splits bind_splits prod.splits)
qed

lemma start_all_bg: "start_all cfg fs s = Some (e, s') \<Longrightarrow> in_background s' = in_background s"
  by (induction fs arbitrary: s) (auto split: bind_splits if_splits dest!: process_initialize_bg)

lemma handle_error_bg: "handle_error e s = Some (r, s') \<Longrightarrow> in_background s' = in_background s"
  by (auto simp: handle_error_def split: if_splits)

lemma run_a2_bg:
  assumes "in_background s"
  shows "run_a2 cfg run f s = run_a2 cfg run' f s" "run_a2 cfg run f s = Some (r, s') \<Longrightarrow> in_background s'"
proof -
  have p: "in_background s1" if "process_initialize ops f s = Some (e, s1)" for ops e s1
    using process_initialize_bg [OF that] assms by simp
  then show "run_a2 cfg run f s = run_a2 cfg run' f s"
    unfolding run_a2_def by (intro Option.bind_cong) (auto simp: schedule_in_background(1) [of _ run _ run'])
  show "run_a2 cfg run f s = Some (r, s') \<Longrightarrow> in_background s'"
    unfolding run_a2_def
    by (auto split: bind_splits if_splits dest!: p handle_error_bg schedule_in_background(2))
qed

lemma exec_a2_bg:
  assumes "in_background s"
  shows "exec_a2 cfg run fs s = exec_a2 cfg run' fs s" "exec_a2 cfg run fs s = Some (r, s') \<Longrightarrow> in_background s'"
proof -
  have p: "in_background s1" if "start_all cfg fs s = Some (e, s1)" for e s1
    using start_all_bg [OF that] assms by simp
  then show "exec_a2 cfg run fs s = exec_a2 cfg run' fs s"
    unfolding exec_a2_def by (intro Option.bind_cong) (auto simp: schedule_in_background(1) [of _ run _ run'])
  show "exec_a2 cfg run fs s = Some (r, s') \<Longrightarrow> in_background s'"
    unfolding exec_a2_def
    by (auto split: bind_splits if_splits outcome.splits dest!: p handle_error_bg schedule_in_background(2))
qed

lemmas plain_a2 = help_a2_def set_a2_def print_a2_def echo_a2_def sys_a2_def my_ls_a2_def my_mkdir_a2_def my_touch_a2_def
  my_cd_a2_def resetmem_def set_page_policy_def handle_error_def quit_a2_def

lemma interpreter_a2_same:
  "in_background s \<Longrightarrow> interpreter_a2 cfg run ws w s = interpreter_a2 cfg run' ws w s"
  unfolding interpreter_a2_def Let_def
  by (intro if_cong refl Option.bind_cong) (auto simp: run_a2_bg(1) [of _ _ run _ run'] exec_a2_bg(1) [of _ _ run _ run'])

lemma interpreter_a2_keeps:
  assumes "interpreter_a2 cfg run ws w s = Some (r, s')" and s: "in_background s"
  shows "in_background s'"
proof -
  have msg: "handle_error e s = Some (r, s') \<Longrightarrow> in_background s'" for e using s handle_error_bg by blast
  have cmd: "help_a2 s = Some (r, s') \<Longrightarrow> in_background s'" "quit_a2 k ops s = Some (r, s') \<Longrightarrow> in_background s'"
    "set_a2 x v s = Some (r, s') \<Longrightarrow> in_background s'" "print_a2 x s = Some (r, s') \<Longrightarrow> in_background s'"
    "echo_a2 x s = Some (r, s') \<Longrightarrow> in_background s'" "my_ls_a2 ops s = Some (r, s') \<Longrightarrow> in_background s'"
    "my_mkdir_a2 ops x s = Some (r, s') \<Longrightarrow> in_background s'" "my_touch_a2 ops x s = Some (r, s') \<Longrightarrow> in_background s'"
    "my_cd_a2 ops x s = Some (r, s') \<Longrightarrow> in_background s'" "resetmem s = Some (r, s') \<Longrightarrow> in_background s'"
    "set_page_policy x s = Some (r, s') \<Longrightarrow> in_background s'" for x v ops k
    using s by (auto simp: plain_a2 Let_def split: bind_splits if_splits prod.splits option.splits)
  note run = run_a2_bg(2) [OF s, of cfg run _ r s'] exec_a2_bg(2) [OF s, of cfg run _ r s']
  show ?thesis
    using assms(1) unfolding interpreter_a2_def Let_def
    by (auto split: if_split_asm bind_splits elim: msg cmd run)
qed

lemma parse_loop_transfer:
  assumes "parse_loop f ui ws k s = Some y" and "in_background s"
    and "\<And>ws k s. in_background s \<Longrightarrow> g ws k s = f ws k s"
    and "\<And>ws k s r s'. in_background s \<Longrightarrow> f ws k s = Some (r, s') \<Longrightarrow> in_background s'"
  shows "parse_loop g ui ws k s = Some y"
proof -
  let ?P = "\<lambda>h ui ws k s y. h = f \<longrightarrow> in_background s \<longrightarrow> parse_loop g ui ws k s = Some y"
  have "?P f ui ws k s y"
  proof (rule parse_loop.raw_induct [OF _ assms(1), where P = ?P], goal_cases)
    case (1 p h ui ws k s y)
    show ?case
    proof (intro impI)
      assume h: "h = f" and bg: "in_background s"
      have IH: "p f ui ws k s = Some y \<Longrightarrow> in_background s \<Longrightarrow> parse_loop g ui ws k s = Some y" for ui ws k s y
        using 1(1) by blast
      note body = 1(2) [unfolded h Let_def]
      show "parse_loop g ui ws k s = Some y"
        using body bg assms(3)
        by (subst parse_loop.simps) (auto simp: Let_def split: if_split_asm bind_splits outcome.splits intro!: IH intro: assms(4))
    qed
  qed
  then show ?thesis using assms(2) by simp
qed

lemma parseInput_a2_background:
  assumes "in_background s"
  shows "parseInput_a2 cfg (Suc n) ui s = parseInput_a2 cfg (Suc m) ui s"
proof -
  let ?f = "\<lambda>n. interpreter_a2 cfg (execute_process (c_ops cfg) (parseInput_a2 cfg n))"
  have le: "parse_loop (?f m) u ws k s = Some y" if "parse_loop (?f n) u ws k s = Some y" for n m u ws k y
    by (rule parse_loop_transfer [OF that assms])
      (blast intro: interpreter_a2_same interpreter_a2_keeps)+
  have "parse_loop (?f n) u ws k s = parse_loop (?f m) u ws k s" for u ws k
    using le [of n u ws k _ m] le [of m u ws k _ n] by (metis option.exhaust)
  then show ?thesis by (simp add: parse_with_def)
qed

lemma execute_line_same:
  assumes "\<And>l s. in_background s \<Longrightarrow> p l s = q l s"
  shows "execute_line ops p node b s = execute_line ops q node b s"
  unfolding execute_line_def Let_def using assms by (intro Option.bind_cong refl if_cong) (auto intro!: Option.bind_cong)

lemma execute_process_same:
  assumes "\<And>l s. in_background s \<Longrightarrow> p l s = q l s"
  shows "execute_process ops p = execute_process ops q"
proof -
  have "execute_loop ops p node b i k s = execute_loop ops q node b i k s" for node b i k s
    using assms
  proof (induction ops p node b i k s rule: execute_loop.induct)
    case (1 ops p node b i k s)
    have same: "execute_line ops p node b s = execute_line ops q node b s" by (rule execute_line_same) (rule 1(2))
    show ?case
    proof (cases "i < k")
      case True
      then show ?thesis
        unfolding execute_loop.simps [of ops p node b i k s] execute_loop.simps [of ops q node b i k s] same
        using 1(1) [OF True _ refl _ _ 1(2)] by (auto simp: same intro!: Option.bind_cong split: outcome.splits option.splits)
    next
      case False
      then show ?thesis by (simp add: execute_loop.simps)
    qed
  qed
  then show ?thesis by (intro ext) (simp add: execute_process_def)
qed

subsection \<open>Commands and lines\<close>

definition line_ok_a2 :: "string list \<Rightarrow> bool" where
  "line_ok_a2 ws \<longleftrightarrow> ws \<noteq> [] \<and> (\<forall>w \<in> set ws. plain w \<and> length w < 200) \<and> length ws \<le> 100"

lemma parse_words_blank:
  assumes "\<forall>u \<in> set (v # vs). plain u \<and> length u < 200" and "k + length vs < 100"
  shows "parse_loop interp (v @ spaced vs @ blank # x) ws k s = parse_loop interp x (filled k (v # vs) (ws :: words)) (k + length (v # vs)) s
    \<or> length ws \<noteq> 100"
  using assms
proof (induction vs arbitrary: v k ws)
  case Nil
  then show ?case by (auto simp: parse_loop_word filled_Cons char_defs)
next
  case (Cons u vs)
  have "parse_loop interp (v @ spaced (u # vs) @ blank # x) ws k s =
      parse_loop interp (u @ spaced vs @ blank # x) (ws[k := Some v]) (k + 1) s"
    using Cons.prems by (subst parse_loop_word) (auto simp: char_defs)
  then show ?case using Cons.IH [of u "k + 1" "ws[k := Some v]"] Cons.prems by (auto simp: filled_Cons)
qed

lemma cmd_line_start:
  assumes "line_ok_a2 ws"
  shows "c_str (cmd_line ws @ x) = cmd_line ws @ c_str x" "dropWhile (\<lambda>c. c = blank) (cmd_line ws @ x) = cmd_line ws @ x"
proof -
  obtain w us where ws: "ws = w # us" using assms by (cases ws) (auto simp: line_ok_a2_def)
  have pl: "plain w" "\<forall>u \<in> set us. plain u" using assms by (auto simp: line_ok_a2_def ws)
  have "nul \<notin> set (cmd_line ws)"
    using plain_no_nul [OF pl(1)] spaced_no_nul [OF pl(2)] by (simp add: cmd_line_def ws)
  then show "c_str (cmd_line ws @ x) = cmd_line ws @ c_str x" by (auto simp: c_str_def takeWhile_append)
  show "dropWhile (\<lambda>c. c = blank) (cmd_line ws @ x) = cmd_line ws @ x"
    using pl(1) by (cases w) (auto simp: cmd_line_def ws plain_def plain_char_def)
qed

text \<open>The array when the words of a line are the first that are stored in it.\<close>

abbreviation arr :: "string list \<Rightarrow> words" where
  "arr ws \<equiv> filled 0 ws (replicate 100 None)"

lemma parse_line_a2:
  assumes "line_ok_a2 ws" and "length (cmd_line ws) < 999" and "e = [] \<or> e = [newline]"
  shows "parse_with interp (cmd_line ws @ e) s = interp (arr ws) (length ws) s"
proof -
  obtain w us where ws: "ws = w # us" using assms by (cases ws) (auto simp: line_ok_a2_def)
  have "c_str e = e" using assms(3) by (auto simp: c_str_def char_defs)
  then have c: "c_str (cmd_line ws @ e) = cmd_line ws @ e" using cmd_line_start(1) [OF assms(1)] by simp
  have "length (cmd_line ws @ e) < 1000" using assms(2,3) by auto
  then have "parse_with interp (cmd_line ws @ e) s = parse_loop interp (w @ spaced us @ e) (replicate 100 None) 0 s"
    unfolding parse_with_def c cmd_line_start(2) [OF assms(1)] by (simp add: ws cmd_line_def)
  also have "\<dots> = interp (filled 0 (w # us) (replicate 100 None)) (0 + length (w # us)) s"
    using assms(1,3) by (intro parse_words) (auto simp: line_ok_a2_def ws)
  finally show ?thesis by (simp add: ws)
qed

lemma take_filled: "take (length us) (filled 0 us ws) = map Some us"
  by (simp add: filled_def)

lemma those_map_Some: "those (map Some xs) = Some xs"
  by (induction xs) auto

lemma stripped_plain:
  assumes "\<forall>u \<in> set us. plain u"
  shows "stripped (length us) (filled 0 us ws) = filled 0 us ws"
  using assms by (auto simp: stripped_def take_filled comp_def filled_def intro!: map_idI [symmetric])


lemma interpret_echo_a2:
  assumes "plain w" and "hd w \<noteq> CHR ''$''"
  shows "interpreter_a2 cfg run (arr [''echo'', w]) 2 s = Some (Done 0, say w s)"
proof -
  have "plain ''echo''" by (simp add: plain_def plain_char_def char_defs)
  then have st: "stripped 2 (arr [''echo'', w]) = arr [''echo'', w]" using stripped_plain [of "[''echo'', w]"] assms(1) by (simp add: numeral_2_eq_2)
  have "those (take 2 (arr [''echo'', w])) = Some [''echo'', w]"
    using take_filled [of "[''echo'', w]"] those_map_Some [of "[''echo'', w]"] by (simp add: numeral_2_eq_2)
  then show ?thesis
    using assms(2) unfolding interpreter_a2_def st Let_def
    by (simp add: MAX_ARGS_SIZE_a2_def echo_a2_def filled_def)
qed

definition echo_line :: "string \<Rightarrow> string" where
  "echo_line w = cmd_line [''echo'', w] @ [newline]"

lemma echo_line_ok: "plain w \<Longrightarrow> length w < 200 \<Longrightarrow> line_ok_a2 [''echo'', w] \<and> length (cmd_line [''echo'', w]) < 999"
  by (simp add: line_ok_a2_def cmd_line_def plain_def plain_char_def char_defs)

lemma parse_echo:
  assumes "plain w" and "length w < 200" and "hd w \<noteq> CHR ''$''"
  shows "parseInput_a2 cfg (Suc n) (echo_line w) s = Some (Done 0, say w s)"
  using echo_line_ok [OF assms(1,2)]
  by (simp add: echo_line_def parse_line_a2 interpret_echo_a2 [OF assms(1,3), unfolded numeral_2_eq_2])

lemma echo_quiet:
  assumes "plain w" and "length w < 200" and "hd w \<noteq> CHR ''$''"
  shows "quiet (parseInput_a2 cfg (Suc n)) (echo_line w, w)"
  using parse_echo [OF assms] by (auto simp: quiet_def echo_line_def cmd_line_def)


subsection \<open>Properties\<close>

text \<open>C27: Two levels of parsing are always enough: a command line runs processes, whose lines are parsed while \<^verbatim>\<open>in_background\<close> is set and
  cannot start the scheduler again. No bound on the depth above two changes anything.\<close>

theorem a2_two_levels_suffice: "parseInput_a2 cfg (Suc (Suc n)) ui s = parseInput_a2 cfg 2 ui s"
proof -
  have "execute_process (c_ops cfg) (parseInput_a2 cfg (Suc n)) = execute_process (c_ops cfg) (parseInput_a2 cfg (Suc 0))"
    by (rule execute_process_same) (rule parseInput_a2_background)
  then show ?thesis by (simp add: numeral_2_eq_2)
qed

text \<open>C5: The schedulers run resident programs to their ends. Let no process be active, let the lines that each program in the queue has
  still to run be in memory from its program counter on, with a free cell behind them and their pages counted as loaded
  (so that no page fault occurs), let each line print a text and do nothing else, let each program have fewer than \<open>MAX_INT\<close> lines, and let the clock of the memory not overflow.
  Then the scheduler that \<^verbatim>\<open>exec\<close> starts with round robin returns 0 with an empty queue, and the output is that of the programs two
  lines at a time in turn. The one that \<^verbatim>\<open>run\<close> starts does so too, and runs them one after the other.\<close>

theorem a2_schedulers_finish_all:
  assumes "jobs_ok (parseInput_a2 cfg n) s jobs" and "\<forall>j \<in> set jobs. int (length (snd j)) < MAX_INT"
  shows "\<exists>s' s''. schedule_by_policy (execute_process (c_ops cfg) (parseInput_a2 cfg n)) ''RR'' s = Some (Done 0, s') \<and>
    is_ready_empty (a2_queue s') \<and> a2_out s' = a2_out s @ map Print (interleave 2 (map (\<lambda>j. map snd (snd j)) jobs)) \<and>
    schedule_by_policy (execute_process (c_ops cfg) (parseInput_a2 cfg n)) ''FCFS'' s = Some (Done 0, s'') \<and>
    is_ready_empty (a2_queue s'') \<and> a2_out s'' = a2_out s @ map Print (concat (map (\<lambda>j. map snd (snd j)) jobs))"
proof -
  let ?run = "execute_process (c_ops cfg) (parseInput_a2 cfg n)"
  have f: "\<not> active s" "\<not> in_background s" using assms(1) by (simp_all add: jobs_ok_def)
  have "interleave (nat MAX_INT) (map (\<lambda>j. map snd (snd j)) jobs) = concat (map (\<lambda>j. map snd (snd j)) jobs)"
    using assms(2) by (intro interleave_concat) (auto simp: MAX_INT_def)
  moreover have "scheduler_FCFS ?run = scheduler_RR ?run (int (nat MAX_INT))"
    by (simp add: scheduler_FCFS_def scheduler_RR_def MAX_INT_def)
  moreover have "0 < nat MAX_INT" by (simp add: MAX_INT_def)
  ultimately show ?thesis
    using sched_loop_rr [OF assms(1), of 2 "c_ops cfg"] sched_loop_rr [OF assms(1), of "nat MAX_INT" "c_ops cfg"] f
    by (auto simp: schedule_by_policy_def)
qed


text \<open>C29: A blank before a semicolon makes the shell hang: the loop of \<^verbatim>\<open>parseInput\<close> finds an empty word there and does not move on.\<close>

theorem a2_blank_semicolon_hangs:
  assumes "line_ok_a2 ws" and "length ws < 100"
  shows "parseInput_a2 cfg n (cmd_line ws @ blank # CHR '';'' # x) s = None"
proof (cases n)
  case (Suc m)
  let ?I = "interpreter_a2 cfg (execute_process (c_ops cfg) (parseInput_a2 cfg m))"
  obtain w us where ws: "ws = w # us" using assms by (cases ws) (auto simp: line_ok_a2_def)
  have "c_str (blank # CHR '';'' # x) = blank # CHR '';'' # c_str x" by (simp add: c_str_def char_defs)
  then have c: "c_str (cmd_line ws @ blank # CHR '';'' # x) = cmd_line ws @ blank # CHR '';'' # c_str x"
    using cmd_line_start(1) [OF assms(1)] by simp
  have "parse_loop ?I (CHR '';'' # c_str x) v k s = None" for v k
    using parse_loop_stuck [of ?I "CHR '';'' # c_str x" v k s] by (cases "parse_loop ?I (CHR '';'' # c_str x) v k s") (auto simp: char_defs)
  then have "parse_loop ?I (w @ spaced us @ blank # CHR '';'' # c_str x) (replicate 100 None) 0 s = None"
    using parse_words_blank [of w us 0 ?I "CHR '';'' # c_str x" "replicate 100 None" s] assms by (auto simp: line_ok_a2_def ws)
  then show ?thesis
    unfolding Suc parseInput_a2.simps parse_with_def c cmd_line_start(2) [OF assms(1)] by (simp add: ws cmd_line_def)
qed simp

text \<open>\<^verbatim>\<open>run\<close> of a script that does not exist prints no message: the code compares the error with 11, and the kernel returns 1. With an
  empty queue nothing happens at all.\<close>

theorem a2_run_missing_silent:
  assumes "h_read (c_ops cfg) f (a2_host s) = None" and "line_ok_a2 [''run'', f]" and "is_ready_empty (a2_queue s)" and "\<not> active s"
  shows "parseInput_a2 cfg (Suc n) (cmd_line [''run'', f]) s = Some (Done FILE_DOES_NOT_EXIST, s)"
proof -
  let ?run = "execute_process (c_ops cfg) (parseInput_a2 cfg n)"
  have "schedule_by_policy ?run ''FCFS'' s = Some (Done 0, s)"
    using assms(3,4) by (simp add: schedule_by_policy_def scheduler_FCFS_def sched_loop.simps [of _ s])
  then have run: "run_a2 cfg ?run f s = Some (Done FILE_DOES_NOT_EXIST, s)"
    using assms(1) by (simp add: run_a2_def process_initialize_def FILE_DOES_NOT_EXIST_def)
  have pl: "\<forall>w \<in> set [''run'', f]. plain w" "length (cmd_line [''run'', f]) < 999"
    using assms(2) by (auto simp: line_ok_a2_def cmd_line_def)
  have st: "stripped 2 (arr [''run'', f]) = arr [''run'', f]" using stripped_plain [OF pl(1)] by (simp add: numeral_2_eq_2)
  have "those (take 2 (arr [''run'', f])) = Some [''run'', f]"
    using take_filled [of "[''run'', f]"] those_map_Some [of "[''run'', f]"] by (simp add: numeral_2_eq_2)
  then have "interpreter_a2 cfg ?run (arr [''run'', f]) 2 s = run_a2 cfg ?run f s"
    unfolding interpreter_a2_def st Let_def by (simp add: MAX_ARGS_SIZE_a2_def filled_def)
  then show ?thesis
    using run by (simp add: parse_line_a2 [OF assms(2) pl(2), of "[]", simplified] numeral_2_eq_2)
qed

subsection \<open>Examples\<close>

definition sample_job :: "int \<Rightarrow> pcb" where
  "sample_job pc = (fst (makePCB pc))\<lparr>PC := pc, pageCounter := 1\<rparr>"

definition sample_a2 :: "(string \<rightharpoonup> string) a2_state" where
  "sample_a2 =
     \<lparr>a2_queue = \<lparr>qhead = Some 0, nodes = [0 \<mapsto> \<lparr>node_pcb = 10, node_next = Some 1\<rparr>, 1 \<mapsto> \<lparr>node_pcb = 11, node_next = None\<rparr>],
                 pcbs = [10 \<mapsto> sample_job 0, 11 \<mapsto> sample_job 3]\<rparr>,
      a2_mem = sample_mem [line_cell ''p'' (echo_line ''a'') 1, line_cell ''p'' (echo_line ''b'') 2, free_cell,
                           line_cell ''q'' (echo_line ''c'') 3, free_cell, free_cell],
      a2_out = [], a2_pid = 3, a2_brk = 12, active = False, in_background = False, a2_host = Map.empty,
      a2_in = \<lparr>rest = [], eof = False\<rparr>, a2_store = ''b''\<rparr>"

definition sample_cfg :: "(string \<rightharpoonup> string) config" where
  "sample_cfg = \<lparr>c_ops = files_only, c_noret = 0, c_depth = 1\<rparr>"

lemma sample_echo: "\<forall>w \<in> {''a'', ''b'', ''c''}. quiet (parseInput_a2 sample_cfg (Suc n)) (echo_line w, w)"
  by (intro ballI echo_quiet) (auto simp: plain_def plain_char_def char_defs)

lemma sample_jobs_ok:
  "jobs_ok (parseInput_a2 sample_cfg (Suc n)) sample_a2 [(0, [(echo_line ''a'', ''a''), (echo_line ''b'', ''b'')]), (1, [(echo_line ''c'', ''c'')])]"
  using sample_echo [of n]
  by (auto simp: jobs_ok_def sample_a2_def rq_def block_at_def job_ok_def get_pcb_def resident_def line_at_def sample_mem_def
      line_cell_def free_cell_def sample_job_def makePCB_def generatePID_def work_def less_Suc_eq numeral_2_eq_2 numeral_3_eq_3)

theorem a2_schedulers_finish_all_witness:
  "\<exists>s'. schedule_by_policy (execute_process files_only (parseInput_a2 sample_cfg 1)) ''FCFS'' sample_a2 = Some (Done 0, s') \<and>
     is_ready_empty (a2_queue s') \<and> a2_out s' = [Print ''a'', Print ''b'', Print ''c'']"
  using a2_schedulers_finish_all [OF sample_jobs_ok, of 0] by (simp add: MAX_INT_def sample_cfg_def) (auto simp: sample_a2_def)

lemma sample_lines:
  "line_ok_a2 [''echo'', ''a'']" "line_ok_a2 [''echo'', ''b'']" "line_ok_a2 [''run'', ''f'']"
  by (simp_all add: line_ok_a2_def plain_def plain_char_def char_defs)


theorem a2_blank_semicolon_hangs_witness: "parseInput_a2 sample_cfg 9 ''echo a ;echo b'' sample_a2 = None"
  using a2_blank_semicolon_hangs [OF sample_lines(1), of sample_cfg 9 "''echo b''" sample_a2]
  by (simp add: cmd_line_def blank_def del: parseInput_a2.simps)

theorem a2_run_missing_silent_witness:
  "parseInput_a2 sample_cfg 2 ''run f'' (sample_a2\<lparr>a2_queue := \<lparr>qhead = None, nodes = Map.empty, pcbs = Map.empty\<rparr>\<rparr>) =
     Some (Done 1, sample_a2\<lparr>a2_queue := \<lparr>qhead = None, nodes = Map.empty, pcbs = Map.empty\<rparr>\<rparr>)"
  using a2_run_missing_silent [OF _ sample_lines(3), of sample_cfg
      "sample_a2\<lparr>a2_queue := \<lparr>qhead = None, nodes = Map.empty, pcbs = Map.empty\<rparr>\<rparr>" 1]
  by (simp add: sample_cfg_def files_only_def sample_a2_def is_ready_empty_def cmd_line_def blank_def FILE_DOES_NOT_EXIST_def
      numeral_2_eq_2 del: parseInput_a2.simps)

end
