(* ===== verification/Deque.thy ===== *)
theory Deque
  imports Prelude
begin

text \<open>
  The contract of a double-ended queue: what pushing and popping at either end does to the list that a
  state represents. The doubly linked lists of the file system (\<^verbatim>\<open>Elem_List\<close>) and of the third kernel
  (\<^verbatim>\<open>Linked_List\<close>) provide it. \<open>can s xs ys\<close> says that a queue that holds \<open>xs\<close> can take the elements of \<open>ys\<close>,
  one after another.
\<close>

fun push_each :: "('a \<Rightarrow> 's \<Rightarrow> 's option) \<Rightarrow> 'a list \<Rightarrow> 's \<Rightarrow> 's option" where
  "push_each push [] s = Some s"
| "push_each push (x # xs) s = do { s \<leftarrow> push x s; push_each push xs s }"

fun pop_each :: "('s \<Rightarrow> ('a \<times> 's) option) \<Rightarrow> nat \<Rightarrow> 's \<Rightarrow> ('a list \<times> 's) option" where
  "pop_each pop 0 s = Some ([], s)"
| "pop_each pop (Suc n) s = do { (x, s) \<leftarrow> pop s; (xs, s) \<leftarrow> pop_each pop n s; Some (x # xs, s) }"

locale deque =
  fixes rep :: "'s \<Rightarrow> 'a list \<Rightarrow> bool" and can :: "'s \<Rightarrow> 'a list \<Rightarrow> 'a list \<Rightarrow> bool"
    and push_front :: "'a \<Rightarrow> 's \<Rightarrow> 's option" and push_back :: "'a \<Rightarrow> 's \<Rightarrow> 's option"
    and pop_front :: "'s \<Rightarrow> ('a \<times> 's) option" and pop_back :: "'s \<Rightarrow> ('a \<times> 's) option"
  assumes push_front_law: "rep s xs \<Longrightarrow> can s xs (x # ys) \<Longrightarrow>
      \<exists>s'. push_front x s = Some s' \<and> rep s' (x # xs) \<and> can s' (x # xs) ys"
    and push_back_law: "rep s xs \<Longrightarrow> can s xs (x # ys) \<Longrightarrow>
      \<exists>s'. push_back x s = Some s' \<and> rep s' (xs @ [x]) \<and> can s' (xs @ [x]) ys"
    and pop_front_law: "rep s (x # xs) \<Longrightarrow> \<exists>s'. pop_front s = Some (x, s') \<and> rep s' xs"
    and pop_back_law: "rep s (xs @ [x]) \<Longrightarrow> \<exists>s'. pop_back s = Some (x, s') \<and> rep s' xs"
begin

lemma push_back_each:
  assumes "rep s ys" and "can s ys xs"
  shows "\<exists>s'. push_each push_back xs s = Some s' \<and> rep s' (ys @ xs)"
  using assms
proof (induction xs arbitrary: s ys)
  case (Cons x xs)
  then show ?case using push_back_law [of s ys x xs] by fastforce
qed simp

lemma push_front_each:
  assumes "rep s ys" and "can s ys xs"
  shows "\<exists>s'. push_each push_front xs s = Some s' \<and> rep s' (rev xs @ ys)"
  using assms
proof (induction xs arbitrary: s ys)
  case (Cons x xs)
  then show ?case using push_front_law [of s ys x xs] by fastforce
qed simp

lemma pop_front_each:
  assumes "rep s (xs @ ys)"
  shows "\<exists>s'. pop_each pop_front (length xs) s = Some (xs, s') \<and> rep s' ys"
  using assms
proof (induction xs arbitrary: s)
  case (Cons x xs)
  then show ?case using pop_front_law [of s x "xs @ ys"] by fastforce
qed simp

lemma pop_back_each:
  assumes "rep s (ys @ rev xs)"
  shows "\<exists>s'. pop_each pop_back (length xs) s = Some (xs, s') \<and> rep s' ys"
  using assms
proof (induction xs arbitrary: s)
  case (Cons x xs)
  then show ?case using pop_back_law [of s "ys @ rev xs" x] by fastforce
qed simp

text \<open>From either end, what goes in at one end comes out at the other in the same order, and at the
  same end in the opposite order.\<close>

lemma in_order:
  assumes "rep s []" and "can s [] xs"
  shows "\<exists>s1 s2. push_each push_back xs s = Some s1 \<and> pop_each pop_front (length xs) s1 = Some (xs, s2) \<and> rep s2 []"
    and "\<exists>s1 s2. push_each push_back xs s = Some s1 \<and> pop_each pop_back (length xs) s1 = Some (rev xs, s2) \<and> rep s2 []"
    and "\<exists>s1 s2. push_each push_front xs s = Some s1 \<and> pop_each pop_back (length xs) s1 = Some (xs, s2) \<and> rep s2 []"
    and "\<exists>s1 s2. push_each push_front xs s = Some s1 \<and> pop_each pop_front (length xs) s1 = Some (rev xs, s2) \<and> rep s2 []"
proof -
  obtain s1 s2 where s1: "push_each push_back xs s = Some s1" "rep s1 xs"
    and s2: "push_each push_front xs s = Some s2" "rep s2 (rev xs)"
    using push_back_each [OF assms] push_front_each [OF assms] by auto
  show "\<exists>s1 s2. push_each push_back xs s = Some s1 \<and> pop_each pop_front (length xs) s1 = Some (xs, s2) \<and> rep s2 []"
    using pop_front_each [of s1 xs "[]"] s1 by auto
  show "\<exists>s1 s2. push_each push_back xs s = Some s1 \<and> pop_each pop_back (length xs) s1 = Some (rev xs, s2) \<and> rep s2 []"
    using pop_back_each [of s1 "[]" "rev xs"] s1 by auto
  show "\<exists>s1 s2. push_each push_front xs s = Some s1 \<and> pop_each pop_back (length xs) s1 = Some (xs, s2) \<and> rep s2 []"
    using pop_back_each [of s2 "[]" xs] s2 by auto
  show "\<exists>s1 s2. push_each push_front xs s = Some s1 \<and> pop_each pop_front (length xs) s1 = Some (rev xs, s2) \<and> rep s2 []"
    using pop_front_each [of s2 "rev xs" "[]"] s2 by auto
qed

end

end
