(* ===== verification/Elem_List.thy ===== *)
theory Elem_List
  imports Deque "HOL-Library.Multiset"
begin

text \<open>
  The intrusive doubly linked lists of \<^verbatim>\<open>a3/fs/list.c\<close>, at the level of their pointers. List elements
  are objects on a heap, found by their address; a list consists of the addresses of its two header
  elements. Reading or writing through a null or dangling pointer is undefined. The assertions of the
  code write to the console and do not stop it. The caller's comparison function is the
  argument \<open>lt\<close>, a function of the two elements it compares.

  Loops that follow links are partial functions: \<open>None\<close> if they never end. \<^verbatim>\<open>list_size\<close> counts in \<open>nat\<close>; a
  counter of \<^verbatim>\<open>size_t\<close> does not wrap because every element counted occupies memory of its own.

  The lemmas show that each operation is the operation on lists it is named after, and that
  \<^verbatim>\<open>list_sort\<close> sorts.
\<close>

type_synonym elem_ptr = "nat option"

record list_elem =
  e_prev :: elem_ptr
  e_next :: elem_ptr

record llist =
  lhead :: nat
  ltail :: nat

record lstate =
  elems :: "nat \<rightharpoonup> list_elem"
  lcon :: console

subsection \<open>Access through pointers\<close>

definition rd_prev :: "elem_ptr \<Rightarrow> lstate \<Rightarrow> elem_ptr option" where
  "rd_prev p s = do { a \<leftarrow> p; e \<leftarrow> elems s a; Some (e_prev e) }"

definition rd_next :: "elem_ptr \<Rightarrow> lstate \<Rightarrow> elem_ptr option" where
  "rd_next p s = do { a \<leftarrow> p; e \<leftarrow> elems s a; Some (e_next e) }"

definition wr_prev :: "elem_ptr \<Rightarrow> elem_ptr \<Rightarrow> lstate \<Rightarrow> lstate option" where
  "wr_prev p v s = do { a \<leftarrow> p; e \<leftarrow> elems s a; Some (s\<lparr>elems := (elems s)(a \<mapsto> e\<lparr>e_prev := v\<rparr>)\<rparr>) }"

definition wr_next :: "elem_ptr \<Rightarrow> elem_ptr \<Rightarrow> lstate \<Rightarrow> lstate option" where
  "wr_next p v s = do { a \<leftarrow> p; e \<leftarrow> elems s a; Some (s\<lparr>elems := (elems s)(a \<mapsto> e\<lparr>e_next := v\<rparr>)\<rparr>) }"

definition l_assert :: "bool \<Rightarrow> string \<Rightarrow> lstate \<Rightarrow> lstate" where
  "l_assert c fn s = s\<lparr>lcon := ASSERT c fn (lcon s)\<rparr>"

definition is_head :: "elem_ptr \<Rightarrow> lstate \<Rightarrow> bool option" where
  "is_head p s = (case p of None \<Rightarrow> Some False
     | Some a \<Rightarrow> do { e \<leftarrow> elems s a; Some (e_prev e = None \<and> e_next e \<noteq> None) })"

definition is_interior :: "elem_ptr \<Rightarrow> lstate \<Rightarrow> bool option" where
  "is_interior p s = (case p of None \<Rightarrow> Some False
     | Some a \<Rightarrow> do { e \<leftarrow> elems s a; Some (e_prev e \<noteq> None \<and> e_next e \<noteq> None) })"

definition is_tail :: "elem_ptr \<Rightarrow> lstate \<Rightarrow> bool option" where
  "is_tail p s = (case p of None \<Rightarrow> Some False
     | Some a \<Rightarrow> do { e \<leftarrow> elems s a; Some (e_prev e \<noteq> None \<and> e_next e = None) })"

subsection \<open>Traversal\<close>

definition llist_init :: "llist \<Rightarrow> lstate \<Rightarrow> lstate option" where
  "llist_init l s =
     do { s \<leftarrow> wr_prev (Some (lhead l)) None s;
          s \<leftarrow> wr_next (Some (lhead l)) (Some (ltail l)) s;
          s \<leftarrow> wr_prev (Some (ltail l)) (Some (lhead l)) s;
          wr_next (Some (ltail l)) None s }"

definition list_begin :: "llist \<Rightarrow> lstate \<Rightarrow> elem_ptr option" where
  "list_begin l s = rd_next (Some (lhead l)) s"

definition list_next :: "elem_ptr \<Rightarrow> lstate \<Rightarrow> (elem_ptr \<times> lstate) option" where
  "list_next p s =
     do { h \<leftarrow> is_head p s; i \<leftarrow> is_interior p s;
          let s = l_assert (h \<or> i) ''list_next'' s;
          n \<leftarrow> rd_next p s;
          Some (n, s) }"

definition list_end :: "llist \<Rightarrow> elem_ptr" where
  "list_end l = Some (ltail l)"

definition list_rbegin :: "llist \<Rightarrow> lstate \<Rightarrow> elem_ptr option" where
  "list_rbegin l s = rd_prev (Some (ltail l)) s"

definition list_prev :: "elem_ptr \<Rightarrow> lstate \<Rightarrow> (elem_ptr \<times> lstate) option" where
  "list_prev p s =
     do { i \<leftarrow> is_interior p s; t \<leftarrow> is_tail p s;
          let s = l_assert (i \<or> t) ''list_prev'' s;
          n \<leftarrow> rd_prev p s;
          Some (n, s) }"

definition list_rend :: "llist \<Rightarrow> elem_ptr" where
  "list_rend l = Some (lhead l)"

definition list_head :: "llist \<Rightarrow> elem_ptr" where
  "list_head l = Some (lhead l)"

definition list_tail :: "llist \<Rightarrow> elem_ptr" where
  "list_tail l = Some (ltail l)"

definition list_empty :: "llist \<Rightarrow> lstate \<Rightarrow> bool option" where
  "list_empty l s = do { b \<leftarrow> list_begin l s; Some (b = list_end l) }"

partial_function (option) size_loop :: "llist \<Rightarrow> elem_ptr \<Rightarrow> nat \<Rightarrow> lstate \<Rightarrow> (nat \<times> lstate) option" where
  "size_loop l e cnt s =
     (if e = list_end l then Some (cnt, s)
      else do { (n, s) \<leftarrow> list_next e s; size_loop l n (cnt + 1) s })"

definition list_size :: "llist \<Rightarrow> lstate \<Rightarrow> (nat \<times> lstate) option" where
  "list_size l s = do { b \<leftarrow> list_begin l s; size_loop l b 0 s }"

subsection \<open>Insertion and removal\<close>

definition list_insert :: "elem_ptr \<Rightarrow> elem_ptr \<Rightarrow> lstate \<Rightarrow> lstate option" where
  "list_insert before elem s =
     do { i \<leftarrow> is_interior before s; t \<leftarrow> is_tail before s;
          let s = l_assert (i \<or> t) ''list_insert'' s;
          let s = l_assert (elem \<noteq> None) ''list_insert'' s;
          p \<leftarrow> rd_prev before s;
          s \<leftarrow> wr_prev elem p s;
          s \<leftarrow> wr_next elem before s;
          p \<leftarrow> rd_prev before s;
          s \<leftarrow> wr_next p elem s;
          wr_prev before elem s }"

definition list_splice :: "elem_ptr \<Rightarrow> elem_ptr \<Rightarrow> elem_ptr \<Rightarrow> lstate \<Rightarrow> lstate option" where
  "list_splice before first lst s =
     do { i \<leftarrow> is_interior before s; t \<leftarrow> is_tail before s;
          let s = l_assert (i \<or> t) ''list_splice'' s;
          if first = lst then Some s
          else do {
            (lst, s) \<leftarrow> list_prev lst s;
            i \<leftarrow> is_interior first s;
            let s = l_assert i ''list_splice'' s;
            i \<leftarrow> is_interior lst s;
            let s = l_assert i ''list_splice'' s;
            p \<leftarrow> rd_prev first s; n \<leftarrow> rd_next lst s;
            s \<leftarrow> wr_next p n s;
            n \<leftarrow> rd_next lst s; p \<leftarrow> rd_prev first s;
            s \<leftarrow> wr_prev n p s;
            p \<leftarrow> rd_prev before s;
            s \<leftarrow> wr_prev first p s;
            s \<leftarrow> wr_next lst before s;
            p \<leftarrow> rd_prev before s;
            s \<leftarrow> wr_next p first s;
            wr_prev before lst s } }"

definition list_push_front :: "llist \<Rightarrow> elem_ptr \<Rightarrow> lstate \<Rightarrow> lstate option" where
  "list_push_front l elem s = do { b \<leftarrow> list_begin l s; list_insert b elem s }"

definition list_push_back :: "llist \<Rightarrow> elem_ptr \<Rightarrow> lstate \<Rightarrow> lstate option" where
  "list_push_back l elem s = list_insert (list_end l) elem s"

definition list_remove :: "elem_ptr \<Rightarrow> lstate \<Rightarrow> (elem_ptr \<times> lstate) option" where
  "list_remove elem s =
     do { i \<leftarrow> is_interior elem s;
          let s = l_assert i ''list_remove'' s;
          p \<leftarrow> rd_prev elem s; n \<leftarrow> rd_next elem s;
          s \<leftarrow> wr_next p n s;
          n \<leftarrow> rd_next elem s; p \<leftarrow> rd_prev elem s;
          s \<leftarrow> wr_prev n p s;
          n \<leftarrow> rd_next elem s;
          Some (n, s) }"

definition list_front :: "llist \<Rightarrow> lstate \<Rightarrow> (elem_ptr \<times> lstate) option" where
  "list_front l s =
     do { e \<leftarrow> list_empty l s;
          let s = l_assert (\<not> e) ''list_front'' s;
          n \<leftarrow> rd_next (Some (lhead l)) s;
          Some (n, s) }"

definition list_back :: "llist \<Rightarrow> lstate \<Rightarrow> (elem_ptr \<times> lstate) option" where
  "list_back l s =
     do { e \<leftarrow> list_empty l s;
          let s = l_assert (\<not> e) ''list_back'' s;
          p \<leftarrow> rd_prev (Some (ltail l)) s;
          Some (p, s) }"

definition list_pop_front :: "llist \<Rightarrow> lstate \<Rightarrow> (elem_ptr \<times> lstate) option" where
  "list_pop_front l s =
     do { (front, s) \<leftarrow> list_front l s; (n, s) \<leftarrow> list_remove front s; Some (front, s) }"

definition list_pop_back :: "llist \<Rightarrow> lstate \<Rightarrow> (elem_ptr \<times> lstate) option" where
  "list_pop_back l s =
     do { (back, s) \<leftarrow> list_back l s; (n, s) \<leftarrow> list_remove back s; Some (back, s) }"

subsection \<open>Reversal\<close>

text \<open>\<^verbatim>\<open>swap(&e->prev, &e->next)\<close>; the other two swaps exchange links of different elements.\<close>

definition swap_links :: "elem_ptr \<Rightarrow> lstate \<Rightarrow> lstate option" where
  "swap_links e s =
     do { t \<leftarrow> rd_prev e s; n \<leftarrow> rd_next e s; s \<leftarrow> wr_prev e n s; wr_next e t s }"

partial_function (option) reverse_loop :: "llist \<Rightarrow> elem_ptr \<Rightarrow> lstate \<Rightarrow> lstate option" where
  "reverse_loop l e s =
     (if e = list_end l then Some s
      else do { s \<leftarrow> swap_links e s; p \<leftarrow> rd_prev e s; reverse_loop l p s })"

definition list_reverse :: "llist \<Rightarrow> lstate \<Rightarrow> lstate option" where
  "list_reverse l s =
     do { e \<leftarrow> list_empty l s;
          if e then Some s
          else do {
            b \<leftarrow> list_begin l s;
            s \<leftarrow> reverse_loop l b s;
            let h = Some (lhead l); let t = Some (ltail l);
            a \<leftarrow> rd_next h s; z \<leftarrow> rd_prev t s;
            s \<leftarrow> wr_next h z s;
            s \<leftarrow> wr_prev t a s;
            f \<leftarrow> rd_next h s; g \<leftarrow> rd_prev t s;
            x \<leftarrow> rd_prev f s; y \<leftarrow> rd_next g s;
            s \<leftarrow> wr_prev f y s;
            wr_next g x s } }"

subsection \<open>Order\<close>

type_synonym less_func = "nat \<Rightarrow> nat \<Rightarrow> bool"

definition call_less :: "less_func \<Rightarrow> elem_ptr \<Rightarrow> elem_ptr \<Rightarrow> bool option" where
  "call_less lt a b = do { x \<leftarrow> a; y \<leftarrow> b; Some (lt x y) }"

partial_function (option) sorted_loop ::
    "elem_ptr \<Rightarrow> elem_ptr \<Rightarrow> less_func \<Rightarrow> lstate \<Rightarrow> (bool \<times> lstate) option" where
  "sorted_loop a b lt s =
     do { (a, s) \<leftarrow> list_next a s;
          if a = b then Some (True, s)
          else do { (p, s) \<leftarrow> list_prev a s;
                    c \<leftarrow> call_less lt a p;
                    if c then Some (False, s) else sorted_loop a b lt s } }"

definition is_sorted :: "elem_ptr \<Rightarrow> elem_ptr \<Rightarrow> less_func \<Rightarrow> lstate \<Rightarrow> (bool \<times> lstate) option" where
  "is_sorted a b lt s = (if a \<noteq> b then sorted_loop a b lt s else Some (True, s))"

partial_function (option) run_loop ::
    "elem_ptr \<Rightarrow> elem_ptr \<Rightarrow> less_func \<Rightarrow> lstate \<Rightarrow> (elem_ptr \<times> lstate) option" where
  "run_loop a b lt s =
     do { (a, s) \<leftarrow> list_next a s;
          if a = b then Some (a, s)
          else do { (p, s) \<leftarrow> list_prev a s;
                    c \<leftarrow> call_less lt a p;
                    if \<not> c then run_loop a b lt s else Some (a, s) } }"

definition find_end_of_run ::
    "elem_ptr \<Rightarrow> elem_ptr \<Rightarrow> less_func \<Rightarrow> lstate \<Rightarrow> (elem_ptr \<times> lstate) option" where
  "find_end_of_run a b lt s =
     do { let s = l_assert (a \<noteq> None) ''find_end_of_run'' s;
          let s = l_assert (b \<noteq> None) ''find_end_of_run'' s;
          let s = l_assert (a \<noteq> b) ''find_end_of_run'' s;
          run_loop a b lt s }"

partial_function (option) merge_loop ::
    "elem_ptr \<Rightarrow> elem_ptr \<Rightarrow> elem_ptr \<Rightarrow> less_func \<Rightarrow> lstate \<Rightarrow> lstate option" where
  "merge_loop a0 a1b0 b1 lt s =
     (if a0 \<noteq> a1b0 \<and> a1b0 \<noteq> b1
      then do { c \<leftarrow> call_less lt a1b0 a0;
                if \<not> c
                then do { (a0, s) \<leftarrow> list_next a0 s; merge_loop a0 a1b0 b1 lt s }
                else do { (a1b0, s) \<leftarrow> list_next a1b0 s;
                          (p, s) \<leftarrow> list_prev a1b0 s;
                          s \<leftarrow> list_splice a0 p a1b0 s;
                          merge_loop a0 a1b0 b1 lt s } }
      else Some s)"

definition inplace_merge :: "elem_ptr \<Rightarrow> elem_ptr \<Rightarrow> elem_ptr \<Rightarrow> less_func \<Rightarrow> lstate \<Rightarrow> lstate option" where
  "inplace_merge a0 a1b0 b1 lt s =
     do { let s = l_assert (a0 \<noteq> None) ''inplace_merge'' s;
          let s = l_assert (a1b0 \<noteq> None) ''inplace_merge'' s;
          let s = l_assert (b1 \<noteq> None) ''inplace_merge'' s;
          (c, s) \<leftarrow> is_sorted a0 a1b0 lt s;
          let s = l_assert c ''inplace_merge'' s;
          (c, s) \<leftarrow> is_sorted a1b0 b1 lt s;
          let s = l_assert c ''inplace_merge'' s;
          merge_loop a0 a1b0 b1 lt s }"

text \<open>One pass over the list: the loop of \<^verbatim>\<open>list_sort\<close> over pairs of runs, with the number of output
  runs.\<close>

partial_function (option) pass_loop ::
    "llist \<Rightarrow> elem_ptr \<Rightarrow> less_func \<Rightarrow> nat \<Rightarrow> lstate \<Rightarrow> (nat \<times> lstate) option" where
  "pass_loop l a0 lt cnt s =
     (if a0 \<noteq> list_end l
      then do { (a1b0, s) \<leftarrow> find_end_of_run a0 (list_end l) lt s;
                if a1b0 = list_end l then Some (cnt + 1, s)
                else do { (b1, s) \<leftarrow> find_end_of_run a1b0 (list_end l) lt s;
                          s \<leftarrow> inplace_merge a0 a1b0 b1 lt s;
                          pass_loop l b1 lt (cnt + 1) s } }
      else Some (cnt, s))"

partial_function (option) sort_loop :: "llist \<Rightarrow> less_func \<Rightarrow> lstate \<Rightarrow> lstate option" where
  "sort_loop l lt s =
     do { a0 \<leftarrow> list_begin l s;
          (cnt, s) \<leftarrow> pass_loop l a0 lt 0 s;
          if cnt > 1 then sort_loop l lt s else Some s }"

definition list_sort :: "llist \<Rightarrow> less_func \<Rightarrow> lstate \<Rightarrow> lstate option" where
  "list_sort l lt s =
     do { s \<leftarrow> sort_loop l lt s;
          b \<leftarrow> list_begin l s;
          (c, s) \<leftarrow> is_sorted b (list_end l) lt s;
          Some (l_assert c ''list_sort'' s) }"

partial_function (option) ordered_loop ::
    "llist \<Rightarrow> elem_ptr \<Rightarrow> elem_ptr \<Rightarrow> less_func \<Rightarrow> lstate \<Rightarrow> (elem_ptr \<times> lstate) option" where
  "ordered_loop l elem e lt s =
     (if e = list_end l then Some (e, s)
      else do { c \<leftarrow> call_less lt elem e;
                if c then Some (e, s)
                else do { (e, s) \<leftarrow> list_next e s; ordered_loop l elem e lt s } })"

definition list_insert_ordered :: "llist \<Rightarrow> elem_ptr \<Rightarrow> less_func \<Rightarrow> lstate \<Rightarrow> lstate option" where
  "list_insert_ordered l elem lt s =
     do { let s = l_assert (elem \<noteq> None) ''list_insert_ordered'' s;
          b \<leftarrow> list_begin l s;
          (e, s) \<leftarrow> ordered_loop l elem b lt s;
          list_insert e elem s }"

partial_function (option) unique_loop ::
    "llist \<Rightarrow> llist option \<Rightarrow> elem_ptr \<Rightarrow> less_func \<Rightarrow> lstate \<Rightarrow> lstate option" where
  "unique_loop l duplicates elem lt s =
     do { (nxt, s) \<leftarrow> list_next elem s;
          if nxt = list_end l then Some s
          else do { c \<leftarrow> call_less lt elem nxt;
                    d \<leftarrow> call_less lt nxt elem;
                    if \<not> c \<and> \<not> d
                    then do { (n, s) \<leftarrow> list_remove nxt s;
                              s \<leftarrow> (case duplicates of None \<Rightarrow> Some s | Some dl \<Rightarrow> list_push_back dl nxt s);
                              unique_loop l duplicates elem lt s }
                    else unique_loop l duplicates nxt lt s } }"

definition list_unique :: "llist \<Rightarrow> llist option \<Rightarrow> less_func \<Rightarrow> lstate \<Rightarrow> lstate option" where
  "list_unique l duplicates lt s =
     do { e \<leftarrow> list_empty l s;
          if e then Some s
          else do { b \<leftarrow> list_begin l s; unique_loop l duplicates b lt s } }"

partial_function (option) best_loop ::
    "llist \<Rightarrow> (nat \<Rightarrow> nat \<Rightarrow> bool) \<Rightarrow> elem_ptr \<Rightarrow> elem_ptr \<Rightarrow> lstate \<Rightarrow> (elem_ptr \<times> lstate) option" where
  "best_loop l better best e s =
     (if e = list_end l then Some (best, s)
      else do { c \<leftarrow> call_less better best e;
                (n, s) \<leftarrow> list_next e s;
                best_loop l better (if c then e else best) n s })"

definition list_max :: "llist \<Rightarrow> less_func \<Rightarrow> lstate \<Rightarrow> (elem_ptr \<times> lstate) option" where
  "list_max l lt s =
     do { mx \<leftarrow> list_begin l s;
          if mx \<noteq> list_end l
          then do { (e, s) \<leftarrow> list_next mx s; best_loop l lt mx e s }
          else Some (mx, s) }"

definition list_min :: "llist \<Rightarrow> less_func \<Rightarrow> lstate \<Rightarrow> (elem_ptr \<times> lstate) option" where
  "list_min l lt s =
     do { mn \<leftarrow> list_begin l s;
          if mn \<noteq> list_end l
          then do { (e, s) \<leftarrow> list_next mn s; best_loop l (\<lambda>mn e. lt e mn) mn e s }
          else Some (mn, s) }"

subsection \<open>The list a chain of elements represents\<close>

definition nxt :: "lstate \<Rightarrow> nat \<Rightarrow> elem_ptr" where
  "nxt s a = Option.bind (elems s a) e_next"

definition prv :: "lstate \<Rightarrow> nat \<Rightarrow> elem_ptr" where
  "prv s a = Option.bind (elems s a) e_prev"

definition linked :: "lstate \<Rightarrow> nat \<Rightarrow> nat \<Rightarrow> bool" where
  "linked s a b \<longleftrightarrow> nxt s a = Some b \<and> prv s b = Some a"

definition chain :: "lstate \<Rightarrow> nat list \<Rightarrow> bool" where
  "chain s zs \<longleftrightarrow> distinct zs \<and> successively (linked s) zs"

text \<open>The list \<open>l\<close> holds the elements \<open>xs\<close>.\<close>

definition lrep :: "lstate \<Rightarrow> llist \<Rightarrow> nat list \<Rightarrow> bool" where
  "lrep s l xs \<longleftrightarrow> chain s (lhead l # xs @ [ltail l]) \<and> prv s (lhead l) = None \<and> nxt s (ltail l) = None"

definition alive :: "lstate \<Rightarrow> nat \<Rightarrow> bool" where
  "alive s a \<longleftrightarrow> elems s a \<noteq> None"

text \<open>The links after a step; everything else of the state is the same.\<close>

definition relink :: "lstate \<Rightarrow> (nat \<Rightarrow> elem_ptr) \<Rightarrow> (nat \<Rightarrow> elem_ptr) \<Rightarrow> lstate \<Rightarrow> bool" where
  "relink s n p s' \<longleftrightarrow> nxt s' = n \<and> prv s' = p \<and> alive s' = alive s \<and> lcon s' = lcon s"

definition set_nxt :: "nat \<Rightarrow> elem_ptr \<Rightarrow> lstate \<Rightarrow> lstate" where
  "set_nxt a v s = s\<lparr>elems := (elems s)(a := map_option (e_next_update (\<lambda>_. v)) (elems s a))\<rparr>"

definition set_prv :: "nat \<Rightarrow> elem_ptr \<Rightarrow> lstate \<Rightarrow> lstate" where
  "set_prv a v s = s\<lparr>elems := (elems s)(a := map_option (e_prev_update (\<lambda>_. v)) (elems s a))\<rparr>"

lemma alive_set [simp]:
  "alive (set_nxt a v s) = alive s" "alive (set_prv a v s) = alive s"
  "lcon (set_nxt a v s) = lcon s" "lcon (set_prv a v s) = lcon s"
  by (auto simp: alive_def set_nxt_def set_prv_def fun_eq_iff)

lemma links_set [simp]:
  "prv (set_nxt a v s) = prv s" "nxt (set_prv a v s) = nxt s"
  "alive s a \<Longrightarrow> nxt (set_nxt a v s) = (nxt s)(a := v)"
  "alive s a \<Longrightarrow> prv (set_prv a v s) = (prv s)(a := v)"
  by (auto simp: alive_def set_nxt_def set_prv_def nxt_def prv_def fun_eq_iff
      split: option.splits bind_splits)

lemma access_links [simp]:
  assumes "alive s a"
  shows "rd_next (Some a) s = Some (nxt s a)" "rd_prev (Some a) s = Some (prv s a)"
    "wr_next (Some a) v s = Some (set_nxt a v s)" "wr_prev (Some a) v s = Some (set_prv a v s)"
    "is_head (Some a) s = Some (prv s a = None \<and> nxt s a \<noteq> None)"
    "is_interior (Some a) s = Some (prv s a \<noteq> None \<and> nxt s a \<noteq> None)"
    "is_tail (Some a) s = Some (prv s a \<noteq> None \<and> nxt s a = None)"
  using assms
  by (auto simp: rd_next_def rd_prev_def wr_next_def wr_prev_def set_nxt_def set_prv_def nxt_def prv_def
      is_head_def is_interior_def is_tail_def alive_def)

lemma l_assert_holds [simp]: "c \<Longrightarrow> l_assert c fn s = s"
  by (simp add: l_assert_def ASSERT_def)

lemma linked_alive:
  assumes "linked s a b"
  shows "alive s a" "alive s b"
  using assms by (auto simp: linked_def nxt_def prv_def alive_def bind_eq_Some_conv)

lemma list_next_links: "linked s a b \<Longrightarrow> list_next (Some a) s = Some (Some b, s)"
  using linked_alive(1) [of s a b]
  by (cases "prv s a") (simp_all add: list_next_def linked_def Let_def)

lemma list_prev_links: "linked s a b \<Longrightarrow> list_prev (Some b) s = Some (Some a, s)"
  using linked_alive(2) [of s a b]
  by (cases "nxt s b") (simp_all add: list_prev_def linked_def Let_def)

text \<open>A stretch of a chain does not notice changes to the links that leave it.\<close>

lemma stretch_frame:
  assumes "successively (linked s) zs" and "\<And>a. a \<in> set (butlast zs) \<Longrightarrow> nxt s' a = nxt s a"
    and "\<And>b. b \<in> set (tl zs) \<Longrightarrow> prv s' b = prv s b"
  shows "successively (linked s') zs"
  using assms
proof (induction zs rule: induct_list012)
  case (3 x y zs)
  have "successively (linked s') (y # zs)"
    using 3(3-5) by (intro 3(2)) auto
  moreover have "linked s' x y" using 3(3-5) by (simp add: linked_def)
  ultimately show ?case by simp
qed auto

lemma successively_join:
  "successively P (xs @ a # b # ys) \<longleftrightarrow> successively P (xs @ [a]) \<and> P a b \<and> successively P (b # ys)"
  by (auto simp: successively_append_iff)

lemma chain_mem_linked:
  "chain s (us @ a # b # vs) \<Longrightarrow> linked s a b"
  by (simp add: chain_def successively_join)

lemma chain_alive:
  assumes "chain s zs" and "2 \<le> length zs" and "a \<in> set zs"
  shows "alive s a"
proof -
  obtain us vs where zs: "zs = us @ a # vs" using assms(3) by (meson split_list)
  show ?thesis
  proof (cases vs)
    case (Cons b ws)
    then show ?thesis using assms(1) zs chain_mem_linked linked_alive(1) by blast
  next
    case Nil
    then obtain b ws where "us = ws @ [b]" using assms(2) zs by (cases us rule: rev_cases) auto
    then show ?thesis using assms(1) zs Nil chain_mem_linked [of s ws b a "[]"] linked_alive(2) by simp
  qed
qed

subsection \<open>Insertion and removal on chains\<close>

lemma list_insert_links:
  assumes "linked s p b" and "alive s e" and "e \<noteq> b" and "e \<noteq> p"
  shows "\<exists>s'. list_insert (Some b) (Some e) s = Some s' \<and>
    relink s ((nxt s)(e := Some b, p := Some e)) ((prv s)(e := Some p, b := Some e)) s'"
  using assms linked_alive [OF assms(1)]
  by (cases "nxt s b") (simp_all add: list_insert_def linked_def relink_def Let_def)

lemma list_remove_links:
  assumes "linked s p e" and "linked s e n" and "p \<noteq> e" and "e \<noteq> n"
  shows "\<exists>s'. list_remove (Some e) s = Some (Some n, s') \<and>
    relink s ((nxt s)(p := Some n)) ((prv s)(n := Some p)) s'"
  using assms linked_alive [OF assms(1)] linked_alive [OF assms(2)]
  by (simp add: list_remove_def linked_def relink_def Let_def)

text \<open>Moving the run from \<open>f\<close> to \<open>z\<close> to the place before \<open>b\<close>.\<close>

lemma list_splice_links:
  assumes "linked s p f" and "linked s z n" and "linked s q b" and "nxt s f \<noteq> None" and "prv s z \<noteq> None"
    and "f \<noteq> n" and "b \<noteq> n" and "b \<noteq> f" and "p \<noteq> z" and "q \<noteq> z" and "p \<noteq> q"
  shows "\<exists>s'. list_splice (Some b) (Some f) (Some n) s = Some s' \<and>
    relink s ((nxt s)(p := Some n, z := Some b, q := Some f)) ((prv s)(n := Some p, f := Some q, b := Some z)) s'"
  using assms linked_alive [OF assms(1)] linked_alive [OF assms(2)] linked_alive [OF assms(3)]
  by (cases "nxt s b") (simp_all add: list_splice_def list_prev_links [OF assms(2)] linked_def relink_def Let_def)

lemma chain_insert_links:
  assumes "chain s (us @ p # b # vs)" and "e \<notin> set (us @ p # b # vs)"
    and "nxt s' = (nxt s)(e := Some b, p := Some e)" and "prv s' = (prv s)(e := Some p, b := Some e)"
  shows "chain s' (us @ p # e # b # vs)"
proof -
  have d: "distinct (us @ p # b # vs)" and sc: "successively (linked s) (us @ [p])" "successively (linked s) (b # vs)"
    using assms(1) by (simp_all add: chain_def successively_join)
  have "successively (linked s') (us @ [p])"
    using d assms(2-4) by (intro stretch_frame [OF sc(1)]) (cases us; auto)+
  moreover have "successively (linked s') (b # vs)"
    using d assms(2-4) by (intro stretch_frame [OF sc(2)]) (auto simp del: butlast.simps dest: in_set_butlastD)
  moreover have "linked s' p e" "linked s' e b"
    using d assms(2-4) by (auto simp: linked_def)
  ultimately show ?thesis
    using d assms(2) by (auto simp: chain_def successively_join)
qed

lemma chain_remove_links:
  assumes "chain s (us @ p # e # n # vs)"
    and "nxt s' = (nxt s)(p := Some n)" and "prv s' = (prv s)(n := Some p)"
  shows "chain s' (us @ p # n # vs)"
proof -
  have d: "distinct (us @ p # e # n # vs)" and sc: "successively (linked s) (us @ [p])" "successively (linked s) (n # vs)"
    using assms(1) by (simp_all add: chain_def successively_join)
  have "successively (linked s') (us @ [p])"
    using d assms(2,3) by (intro stretch_frame [OF sc(1)]) (cases us; auto)+
  moreover have "successively (linked s') (n # vs)"
    using d assms(2,3) by (intro stretch_frame [OF sc(2)]) (auto simp del: butlast.simps dest: in_set_butlastD)
  moreover have "linked s' p n"
    using d assms(2,3) by (auto simp: linked_def)
  ultimately show ?thesis
    using d by (auto simp: chain_def successively_join)
qed

lemma chain_insert:
  "chain s (us @ p # b # vs) \<Longrightarrow> e \<notin> set (us @ p # b # vs) \<Longrightarrow>
   relink s ((nxt s)(e := Some b, p := Some e)) ((prv s)(e := Some p, b := Some e)) s' \<Longrightarrow> chain s' (us @ p # e # b # vs)"
  by (rule chain_insert_links) (auto simp: relink_def)

lemma chain_remove:
  "chain s (us @ p # e # n # vs) \<Longrightarrow> relink s ((nxt s)(p := Some n)) ((prv s)(n := Some p)) s' \<Longrightarrow> chain s' (us @ p # n # vs)"
  by (rule chain_remove_links) (auto simp: relink_def)

subsection \<open>Runs and merging on lists\<close>

text \<open>The first non-decreasing run of a list, and what follows it.\<close>

fun first_run_of :: "less_func \<Rightarrow> nat list \<Rightarrow> nat list \<times> nat list" where
  "first_run_of lt [] = ([], [])"
| "first_run_of lt [x] = ([x], [])"
| "first_run_of lt (x # y # zs) =
     (if lt y x then ([x], y # zs) else let (r, t) = first_run_of lt (y # zs) in (x # r, t))"

fun merge_runs :: "less_func \<Rightarrow> nat list \<Rightarrow> nat list \<Rightarrow> nat list" where
  "merge_runs lt [] ys = ys"
| "merge_runs lt xs [] = xs"
| "merge_runs lt (x # xs) (y # ys) =
     (if lt y x then y # merge_runs lt (x # xs) ys else x # merge_runs lt xs (y # ys))"

abbreviation up :: "less_func \<Rightarrow> nat list \<Rightarrow> bool" where
  "up lt \<equiv> successively (\<lambda>x y. \<not> lt y x)"

lemma merge_runs_Nil [simp]: "merge_runs lt xs [] = xs"
  by (cases xs) simp_all

lemma first_run_of_append: "fst (first_run_of lt xs) @ snd (first_run_of lt xs) = xs"
  by (induction lt xs rule: first_run_of.induct) (auto simp: case_prod_beta)

lemma first_run_of_nonempty: "xs \<noteq> [] \<Longrightarrow> fst (first_run_of lt xs) \<noteq> []"
  by (induction lt xs rule: first_run_of.induct) (auto simp: case_prod_beta)

lemma first_run_of_hd: "xs \<noteq> [] \<Longrightarrow> hd (fst (first_run_of lt xs)) = hd xs"
  by (induction lt xs rule: first_run_of.induct) (auto simp: case_prod_beta)

lemma first_run_of_up: "up lt (fst (first_run_of lt xs))"
proof (induction lt xs rule: first_run_of.induct)
  case (3 lt x y zs)
  then show ?case
    using first_run_of_hd [of "y # zs" lt] first_run_of_nonempty [of "y # zs" lt]
    by (auto simp: case_prod_beta successively_Cons)
qed auto

lemma first_run_of_all: "up lt xs \<Longrightarrow> first_run_of lt xs = (xs, [])"
  by (induction lt xs rule: first_run_of.induct) auto

lemma mset_merge_runs: "mset (merge_runs lt xs ys) = mset xs + mset ys"
  by (induction lt xs ys rule: merge_runs.induct) auto

lemma set_merge_runs: "set (merge_runs lt xs ys) = set xs \<union> set ys"
  by (induction lt xs ys rule: merge_runs.induct) auto

lemma hd_merge_runs:
  "xs \<noteq> [] \<or> ys \<noteq> [] \<Longrightarrow> hd (merge_runs lt xs ys) =
    (if xs = [] then hd ys else if ys = [] then hd xs else if lt (hd ys) (hd xs) then hd ys else hd xs)"
  by (cases xs; cases ys) auto

lemma merge_runs_up:
  assumes "asymp lt" and "up lt xs" and "up lt ys"
  shows "up lt (merge_runs lt xs ys)"
  using assms
proof (induction lt xs ys rule: merge_runs.induct)
  case (3 lt x xs y ys)
  have "\<not> lt x y" if "lt y x" using that 3(3) by (auto dest: asympD)
  then show ?case
    using 3 hd_merge_runs [of "x # xs" ys lt] hd_merge_runs [of xs "y # ys" lt]
    by (auto simp: successively_Cons)
qed auto

subsection \<open>The loops of the sort on chains\<close>

lemma chain_sub: "chain s (us @ zs @ vs) \<Longrightarrow> chain s zs"
  by (simp add: chain_def successively_append_iff)

lemma chain_Cons2: "chain s (a # b # zs) \<longleftrightarrow> linked s a b \<and> a \<notin> set (b # zs) \<and> chain s (b # zs)"
  by (auto simp: chain_def)

lemma call_less_Some [simp]: "call_less lt (Some x) (Some y) = Some (lt x y)"
  by (simp add: call_less_def)

lemma sorted_loop_ok:
  assumes "chain s (xs @ [b])" and "xs \<noteq> []"
  shows "sorted_loop (Some (hd xs)) (Some b) lt s = Some (up lt xs, s)"
  using assms
proof (induction xs rule: induct_list012)
  case (2 x)
  then show ?case
    by (subst sorted_loop.simps) (auto simp: chain_Cons2 list_next_links)
next
  case (3 x y zs)
  then have "y \<noteq> b" by (auto simp: chain_def)
  with 3 show ?case
    by (subst sorted_loop.simps) (auto simp: chain_Cons2 list_next_links list_prev_links)
qed simp

lemma is_sorted_ok:
  assumes "chain s (xs @ [b])"
  shows "is_sorted (Some (hd (xs @ [b]))) (Some b) lt s = Some (up lt xs, s)"
  using assms sorted_loop_ok [OF assms] by (cases xs) (auto simp: is_sorted_def chain_def)

lemma run_loop_ok:
  assumes "chain s (xs @ [b])" and "xs \<noteq> []"
  shows "run_loop (Some (hd xs)) (Some b) lt s = Some (Some (hd (snd (first_run_of lt xs) @ [b])), s)"
  using assms
proof (induction lt xs rule: first_run_of.induct)
  case (2 lt x)
  then show ?case
    by (subst run_loop.simps) (auto simp: chain_Cons2 list_next_links)
next
  case (3 lt x y zs)
  then have "y \<noteq> b" by (auto simp: chain_def)
  with 3 show ?case
    by (subst run_loop.simps) (auto simp: chain_Cons2 list_next_links list_prev_links case_prod_beta)
qed simp

lemma find_end_of_run_ok:
  assumes "chain s (xs @ [b])" and "xs \<noteq> []"
  shows "find_end_of_run (Some (hd xs)) (Some b) lt s = Some (Some (hd (snd (first_run_of lt xs) @ [b])), s)"
  using run_loop_ok [OF assms] assms by (cases xs) (auto simp: find_end_of_run_def Let_def chain_def)

text \<open>Moving an element to the front of the run before it.\<close>

lemma chain_splice:
  assumes "chain s (p # xs @ y # n # vs)" and "xs \<noteq> []"
    and "relink s ((nxt s)(last xs := Some n, y := Some (hd xs), p := Some y))
      ((prv s)(n := Some (last xs), y := Some p, hd xs := Some y)) s'"
  shows "chain s' (p # y # xs @ n # vs)"
proof -
  obtain x xs' where xs: "xs = x # xs'" using assms(2) by (cases xs) auto
  have d: "distinct (p # xs @ y # n # vs)" using assms(1) by (simp add: chain_def)
  then have last: "last xs \<noteq> y" "last xs \<noteq> p" "last xs \<noteq> n" "last xs \<notin> set vs" "last xs \<notin> set (butlast xs)"
    using assms(2) by (auto dest: last_in_set) (metis append_butlast_last_id distinct_append distinct_butlast
        disjoint_iff list.set_intros(1))
  have sc: "successively (linked s) xs" "successively (linked s) (n # vs)"
    using assms(1) chain_sub [of s "[p]" xs "y # n # vs"] chain_sub [of s "p # xs @ [y]" "n # vs" "[]"]
    by (simp_all add: chain_def)
  have "successively (linked s') xs"
    using d last assms(3) by (intro stretch_frame [OF sc(1)]) (auto simp: relink_def xs dest: in_set_butlastD)
  moreover have "successively (linked s') (n # vs)"
    using d last assms(3)
    by (intro stretch_frame [OF sc(2)]) (auto simp: relink_def xs simp del: butlast.simps dest: in_set_butlastD)
  moreover have lk: "linked s' p y" "linked s' y x" "linked s' (last xs) n"
    using d last assms(3) by (auto simp: linked_def relink_def xs)
  ultimately have "successively (linked s') (xs @ n # vs)"
    by (simp add: successively_append_iff)
  then show ?thesis
    using d lk by (auto simp: chain_def xs)
qed

text \<open>What a step on the elements \<open>zs\<close> between \<open>p\<close> and \<open>b\<close> keeps.\<close>

definition within :: "nat \<Rightarrow> nat list \<Rightarrow> nat \<Rightarrow> lstate \<Rightarrow> lstate \<Rightarrow> bool" where
  "within p zs b s s' \<longleftrightarrow> (\<forall>a. a \<notin> set (p # zs) \<longrightarrow> nxt s' a = nxt s a) \<and>
     (\<forall>a. a \<notin> set (zs @ [b]) \<longrightarrow> prv s' a = prv s a) \<and> alive s' = alive s \<and> lcon s' = lcon s"

lemma within_refl [simp]: "within p zs b s s"
  by (simp add: within_def)

lemma within_trans: "within p zs b s s1 \<Longrightarrow> within p zs b s1 s2 \<Longrightarrow> within p zs b s s2"
  by (simp add: within_def)

lemma within_mono:
  assumes "within p zs b s s'" and "set (p # zs) \<subseteq> set (q # ws)" and "set (zs @ [b]) \<subseteq> set (ws @ [c])"
  shows "within q ws c s s'"
  using assms unfolding within_def by (meson subsetD)

lemma within_link:
  assumes "within q zs b s s'" and "linked s p q" and "p \<notin> set (q # zs)" and "q \<notin> set (zs @ [b])"
  shows "linked s' p q"
  using assms by (simp add: within_def linked_def)

lemma merge_loop_ok:
  assumes "chain s (p # xs @ ys @ [b])"
  shows "\<exists>s'. merge_loop (Some (hd (xs @ ys @ [b]))) (Some (hd (ys @ [b]))) (Some b) lt s = Some s' \<and>
    chain s' (p # merge_runs lt xs ys @ [b]) \<and> within p (xs @ ys) b s s'"
  using assms
proof (induction lt xs ys arbitrary: p s rule: merge_runs.induct)
  case (1 lt ys)
  then show ?case by (subst merge_loop.simps) simp
next
  case (2 lt x xs)
  then show ?case by (subst merge_loop.simps) simp
next
  case (3 lt x xs y ys)
  have d: "distinct (p # (x # xs) @ (y # ys) @ [b])" using "3.prems" by (simp add: chain_def)
  have ne: "x \<noteq> y" "y \<noteq> b" using d by auto
  show ?case
  proof (cases "lt y x")
    case False
    have c: "chain s (x # xs @ (y # ys) @ [b])" and px: "linked s p x"
      using "3.prems" by (simp_all add: chain_Cons2)
    obtain s' where s': "merge_loop (Some (hd (xs @ (y # ys) @ [b]))) (Some (hd ((y # ys) @ [b]))) (Some b) lt s = Some s'"
      "chain s' (x # merge_runs lt xs (y # ys) @ [b])" "within x (xs @ y # ys) b s s'"
      using "3.IH"(2) [OF False c] by blast
    have lx: "linked s x (hd (xs @ (y # ys) @ [b]))"
      using c by (cases xs) (simp_all add: chain_Cons2)
    have "linked s' p x" using within_link [OF s'(3) px] d by auto
    moreover have "within p (x # xs @ y # ys) b s s'" by (rule within_mono [OF s'(3)]) auto
    moreover have "merge_loop (Some x) (Some y) (Some b) lt s = Some s'"
      using ne False s'(1) by (subst merge_loop.simps) (simp add: list_next_links [OF lx])
    ultimately show ?thesis
      using False s'(2) d by (auto simp: chain_Cons2 set_merge_runs)
  next
    case True
    let ?n = "hd (ys @ [b])" and ?z = "last (x # xs)"
    obtain vs where vs: "ys @ [b] = ?n # vs" by (cases ys) auto
    have c0: "chain s (p # (x # xs) @ y # ?n # vs)" using "3.prems" vs by simp
    have yn: "linked s y ?n" using chain_mem_linked [of s "p # x # xs" y ?n vs] c0 by simp
    have zy: "linked s ?z y"
      using chain_mem_linked [of s "p # butlast (x # xs)" ?z y "?n # vs"] c0
        append_butlast_last_id [of "x # xs"] by (metis append_Cons append.assoc append.left_neutral list.discI)
    have px: "linked s p x" using c0 by (simp add: chain_Cons2)
    have dn: "distinct (p # (x # xs) @ y # ?n # vs)" using c0 by (simp add: chain_def)
    have z: "?z \<in> set (x # xs)" by (rule last_in_set) simp
    have "\<exists>s1. list_splice (Some x) (Some y) (Some ?n) s = Some s1 \<and>
      relink s ((nxt s)(?z := Some ?n, y := Some x, p := Some y)) ((prv s)(?n := Some ?z, y := Some p, x := Some y)) s1"
      using dn z yn zy by (intro list_splice_links [OF zy yn px]) (auto simp: linked_def)
    then obtain s1 where s1: "list_splice (Some x) (Some y) (Some ?n) s = Some s1"
      "relink s ((nxt s)(?z := Some ?n, y := Some x, p := Some y)) ((prv s)(?n := Some ?z, y := Some p, x := Some y)) s1"
      by blast
    have c1: "chain s1 (p # y # (x # xs) @ ys @ [b])"
      using chain_splice [OF c0] s1(2) vs by simp
    then have c1': "chain s1 (y # (x # xs) @ ys @ [b])" and py: "linked s1 p y" by (simp_all add: chain_Cons2)
    obtain s' where s': "merge_loop (Some (hd ((x # xs) @ ys @ [b]))) (Some ?n) (Some b) lt s1 = Some s'"
      "chain s' (y # merge_runs lt (x # xs) ys @ [b])" "within y ((x # xs) @ ys) b s1 s'"
      using "3.IH"(1) [OF True c1'] by blast
    have "linked s' p y" using within_link [OF s'(3) py] d by auto
    moreover have "?n \<in> set (ys @ [b])" by (rule hd_in_set) simp
    then have "within p ((x # xs) @ y # ys) b s s1"
      using s1(2) z by (auto simp: within_def relink_def)
    then have "within p ((x # xs) @ y # ys) b s s'"
      using within_mono [OF s'(3), of p "(x # xs) @ y # ys" b] by (auto intro: within_trans)
    moreover have "merge_loop (Some x) (Some y) (Some b) lt s = Some s'"
      using ne True s'(1) s1(1)
      by (subst merge_loop.simps) (simp add: list_next_links [OF yn] list_prev_links [OF yn])
    ultimately show ?thesis
      using True s'(2) d by (auto simp: chain_Cons2 set_merge_runs)
  qed
qed

lemma first_run_of_shorter:
  assumes "xs \<noteq> []"
  shows "length (snd (first_run_of lt xs)) < length xs"
proof -
  have "length (fst (first_run_of lt xs)) + length (snd (first_run_of lt xs)) = length xs"
    using arg_cong [OF first_run_of_append [of lt xs], of length] by simp
  then show ?thesis
    using first_run_of_nonempty [OF assms, of lt] by (cases "fst (first_run_of lt xs)") auto
qed

text \<open>One pass: adjacent pairs of runs are merged.\<close>

function pass_runs :: "less_func \<Rightarrow> nat list \<Rightarrow> nat \<times> nat list" where
  "pass_runs lt xs =
     (if xs = [] then (0, [])
      else let (r1, t1) = first_run_of lt xs
           in if t1 = [] then (1, r1)
              else let (r2, t2) = first_run_of lt t1; (k, rest) = pass_runs lt t2
                   in (Suc k, merge_runs lt r1 r2 @ rest))"
  by pat_completeness auto

termination
proof (relation "measure (\<lambda>(lt, xs). length xs)"; clarsimp)
  fix lt xs r1 t1 r2 t2
  assume xs: "xs \<noteq> []" "(r1, t1) = first_run_of lt xs" and t1: "t1 \<noteq> []" "(r2, t2) = first_run_of lt t1"
  have "length t1 < length xs" "length t2 < length t1"
    using first_run_of_shorter [OF xs(1), of lt] first_run_of_shorter [OF t1(1), of lt] xs(2) t1(2)
    by (metis snd_conv)+
  then show "length t2 < length xs" by simp
qed

declare pass_runs.simps [simp del]

lemma chain_join:
  "chain s (us @ a # vs) \<longleftrightarrow> chain s (us @ [a]) \<and> chain s (a # vs) \<and> distinct (us @ a # vs)"
  by (cases vs) (auto simp: chain_def successively_join)

lemma within_chain_after:
  assumes "within p zs b s s'" and "chain s (b # vs)" and "set (b # vs) \<inter> set (p # zs) = {}"
  shows "chain s' (b # vs)"
proof -
  have "successively (linked s') (b # vs)"
  proof (rule stretch_frame)
    show "successively (linked s) (b # vs)" using assms(2) by (simp add: chain_def)
    fix a assume "a \<in> set (butlast (b # vs))"
    then have "a \<notin> set (p # zs)" using assms(3) in_set_butlastD by fastforce
    then show "nxt s' a = nxt s a" using assms(1) by (simp add: within_def)
  next
    fix a assume "a \<in> set (tl (b # vs))"
    then have "a \<notin> set (zs @ [b])" using assms(2,3) by (auto simp: chain_def)
    then show "prv s' a = prv s a" using assms(1) by (simp add: within_def)
  qed
  then show ?thesis using assms(2) by (simp add: chain_def)
qed

lemma within_chain_before:
  assumes "within p zs b s s'" and "chain s (us @ [p])" and "set (us @ [p]) \<inter> set (zs @ [b]) = {}"
  shows "chain s' (us @ [p])"
proof -
  have "successively (linked s') (us @ [p])"
  proof (rule stretch_frame)
    show "successively (linked s) (us @ [p])" using assms(2) by (simp add: chain_def)
    fix a assume "a \<in> set (butlast (us @ [p]))"
    then have "a \<notin> set (p # zs)" using assms(2,3) by (auto simp: chain_def)
    then show "nxt s' a = nxt s a" using assms(1) by (simp add: within_def)
  next
    fix a assume "a \<in> set (tl (us @ [p]))"
    then have "a \<notin> set (zs @ [b])" using assms(3) list.set_sel(2) by (cases us) auto
    then show "prv s' a = prv s a" using assms(1) by (simp add: within_def)
  qed
  then show ?thesis using assms(2) by (simp add: chain_def)
qed

lemma inplace_merge_ok:
  assumes "chain s (p # xs @ ys @ [b])" and "xs \<noteq> []" and "ys \<noteq> []" and "up lt xs" and "up lt ys"
  shows "\<exists>s'. inplace_merge (Some (hd xs)) (Some (hd ys)) (Some b) lt s = Some s' \<and>
    chain s' (p # merge_runs lt xs ys @ [b]) \<and> within p (xs @ ys) b s s'"
proof -
  obtain x xs' y ys' where xy: "xs = x # xs'" "ys = y # ys'" using assms(2,3) by (metis list.exhaust)
  have "chain s (xs @ [y])" "chain s (ys @ [b])"
    using assms(1) chain_sub [of s "[p]" "xs @ [y]" "ys' @ [b]"] chain_sub [of s "p # xs" "ys @ [b]" "[]"]
    by (simp_all add: xy)
  then have "is_sorted (Some x) (Some y) lt s = Some (True, s)" "is_sorted (Some y) (Some b) lt s = Some (True, s)"
    using is_sorted_ok [of s xs y lt] is_sorted_ok [of s ys b lt] assms(4,5) by (simp_all add: xy)
  then show ?thesis
    using merge_loop_ok [OF assms(1), of lt] by (simp add: inplace_merge_def xy Let_def)
qed

lemma pass_loop_ok:
  assumes "chain s (p # xs @ [ltail l])"
  shows "\<exists>s'. pass_loop l (Some (hd (xs @ [ltail l]))) lt cnt s = Some (cnt + fst (pass_runs lt xs), s') \<and>
    chain s' (p # snd (pass_runs lt xs) @ [ltail l]) \<and> within p xs (ltail l) s s' \<and>
    set (snd (pass_runs lt xs)) = set xs"
  using assms
proof (induction xs arbitrary: p s cnt rule: length_induct)
  case (1 xs)
  let ?t = "ltail l"
  note d = "1.prems" [unfolded chain_def]
  show ?case
  proof (cases "xs = []")
    case True
    then show ?thesis
      using "1.prems" by (subst pass_loop.simps, subst (1 2 3) pass_runs.simps) (simp add: list_end_def)
  next
    case False
    obtain r1 t1 where r1: "first_run_of lt xs = (r1, t1)" by (metis surj_pair)
    have x1: "xs = r1 @ t1" "r1 \<noteq> []" "hd r1 = hd xs" "up lt r1" "length t1 < length xs"
      using first_run_of_append [of lt xs] first_run_of_nonempty [OF False, of lt] first_run_of_hd [OF False, of lt]
        first_run_of_up [of lt xs] first_run_of_shorter [OF False, of lt] by (simp_all add: r1)
    have f1: "find_end_of_run (Some (hd xs)) (Some ?t) lt s = Some (Some (hd (t1 @ [?t])), s)"
      using find_end_of_run_ok [of s xs ?t lt] chain_sub [of s "[p]" "xs @ [?t]" "[]"] "1.prems" False
      by (simp add: r1)
    have ht: "hd xs \<noteq> ?t" using d False by (cases xs) auto
    show ?thesis
    proof (cases "t1 = []")
      case True
      then have "first_run_of lt xs = (xs, [])" using x1(1) r1 by simp
      then have "pass_runs lt xs = (1, xs)"
        using False by (subst pass_runs.simps) simp
      moreover have "pass_loop l (Some (hd (xs @ [?t]))) lt cnt s = Some (cnt + 1, s)"
        using False True ht f1 by (subst pass_loop.simps) (simp add: list_end_def)
      ultimately show ?thesis using "1.prems" by simp
    next
      case t1: False
      obtain r2 t2 where r2: "first_run_of lt t1 = (r2, t2)" by (metis surj_pair)
      have x2: "t1 = r2 @ t2" "r2 \<noteq> []" "hd r2 = hd t1" "up lt r2" "length t2 < length t1"
        using first_run_of_append [of lt t1] first_run_of_nonempty [OF t1, of lt] first_run_of_hd [OF t1, of lt]
          first_run_of_up [of lt t1] first_run_of_shorter [OF t1, of lt] by (simp_all add: r2)
      let ?m = "merge_runs lt r1 r2"
      obtain b vs where vs: "t2 @ [?t] = b # vs" by (cases t2) auto
      then have hb: "hd (t2 @ [?t]) = b" by simp
      have h1: "hd t1 \<noteq> ?t" using d x1(1) t1 by (cases t1) auto
      have f2: "find_end_of_run (Some (hd t1)) (Some ?t) lt s = Some (Some b, s)"
        using find_end_of_run_ok [of s t1 ?t lt] chain_sub [of s "p # r1" "t1 @ [?t]" "[]"] "1.prems" t1 x1(1)
        by (simp add: r2 hb)
      have c: "chain s (p # r1 @ r2 @ b # vs)" using "1.prems" vs x1(1) x2(1) by (metis append.assoc append_Cons)
      then have c1: "chain s (p # r1 @ r2 @ [b])" "chain s (b # vs)" and dd: "distinct (p # r1 @ r2 @ b # vs)"
        using chain_sub [of s "[]" "p # r1 @ r2 @ [b]" vs] chain_sub [of s "p # r1 @ r2" "b # vs" "[]"]
        by (simp_all add: chain_def)
      obtain s1 where s1: "inplace_merge (Some (hd r1)) (Some (hd r2)) (Some b) lt s = Some s1"
        "chain s1 (p # ?m @ [b])" "within p (r1 @ r2) b s s1"
        using inplace_merge_ok [OF c1(1) x1(2) x2(2) x1(4) x2(4)] by blast
      have "chain s1 (b # vs)" using within_chain_after [OF s1(3) c1(2)] dd by auto
      moreover have dm: "distinct ((p # ?m) @ b # vs)"
        using dd s1(2) by (auto simp: chain_def set_merge_runs)
      ultimately have c2: "chain s1 ((p # ?m) @ b # vs)"
        using s1(2) by (subst chain_join) simp
      obtain ms z where mz: "?m = ms @ [z]"
        using x1(2) set_merge_runs [of lt r1 r2] by (cases ?m rule: rev_cases) auto
      have c3: "chain s1 (z # t2 @ [?t])" "chain s1 ((p # ms) @ [z])"
        using c2 chain_sub [of s1 "p # ms" "z # b # vs" "[]"] chain_sub [of s1 "[]" "p # ms @ [z]" "b # vs"]
        by (simp_all add: mz vs)
      have "length t2 < length xs" using x1(5) x2(5) by simp
      then obtain s2 where s2: "pass_loop l (Some b) lt (cnt + 1) s1 = Some (cnt + 1 + fst (pass_runs lt t2), s2)"
        "chain s2 (z # snd (pass_runs lt t2) @ [?t])" "within z t2 ?t s1 s2" "set (snd (pass_runs lt t2)) = set t2"
        using "1.IH" c3(1) unfolding hb [symmetric] by blast
      have dz: "distinct ((p # ms) @ z # t2 @ [?t])" using dm by (simp add: mz vs)
      have "chain s2 ((p # ms) @ [z])"
        using within_chain_before [OF s2(3) c3(2)] dz by auto
      then have "chain s2 ((p # ms) @ z # snd (pass_runs lt t2) @ [?t])"
        using s2(2,4) dz by (subst chain_join) (auto simp: chain_def)
      moreover have "within p xs ?t s s2"
      proof (rule within_trans)
        show "within p xs ?t s s1"
          using vs by (intro within_mono [OF s1(3)]) (cases t2; auto simp: x1(1) x2(1))+
        have "z \<in> set (r1 @ r2)" using set_merge_runs [of lt r1 r2] mz by auto
        then show "within p xs ?t s1 s2"
          by (intro within_mono [OF s2(3)]) (auto simp: x1(1) x2(1))
      qed
      moreover have "pass_loop l (Some (hd (xs @ [?t]))) lt cnt s = Some (cnt + 1 + fst (pass_runs lt t2), s2)"
        using False ht h1 f1 f2 s1(1) s2(1) t1 x1(3) x2(3)
        by (subst pass_loop.simps) (simp add: list_end_def)
      moreover have "pass_runs lt xs = (Suc (fst (pass_runs lt t2)), ?m @ snd (pass_runs lt t2))"
        using False t1 by (subst pass_runs.simps) (simp add: r1 r2 case_prod_beta)
      moreover have "set (?m @ snd (pass_runs lt t2)) = set xs"
        using s2(4) by (simp add: set_merge_runs x1(1) x2(1) Un_assoc)
      ultimately show ?thesis by (simp add: mz)
    qed
  qed
qed

subsection \<open>The sort\<close>

text \<open>The number of runs of a list, which a pass halves.\<close>

fun runs :: "less_func \<Rightarrow> nat list \<Rightarrow> nat" where
  "runs lt [] = 0"
| "runs lt [x] = 1"
| "runs lt (x # y # zs) = (if lt y x then Suc (runs lt (y # zs)) else runs lt (y # zs))"

lemma runs_pos: "xs \<noteq> [] \<Longrightarrow> 0 < runs lt xs"
  by (induction lt xs rule: runs.induct) auto

lemma runs_first: "xs \<noteq> [] \<Longrightarrow> runs lt xs = Suc (runs lt (snd (first_run_of lt xs)))"
  by (induction lt xs rule: runs.induct) (auto simp: case_prod_beta)

lemma runs_append: "runs lt (xs @ ys) \<le> runs lt xs + runs lt ys"
proof (induction lt xs rule: runs.induct)
  case (2 lt x)
  then show ?case by (cases ys) auto
qed auto

lemma runs_up: "up lt xs \<Longrightarrow> runs lt xs \<le> 1"
  by (induction lt xs rule: runs.induct) auto

lemma up_runs: "runs lt xs \<le> 1 \<Longrightarrow> up lt xs"
proof (induction lt xs rule: runs.induct)
  case (3 lt x y zs)
  then show ?case using runs_pos [of "y # zs" lt] by (auto split: if_splits)
qed auto

lemma pass_runs_facts:
  assumes "asymp lt"
  shows "fst (pass_runs lt xs) = (runs lt xs + 1) div 2 \<and> mset (snd (pass_runs lt xs)) = mset xs \<and>
    runs lt (snd (pass_runs lt xs)) \<le> fst (pass_runs lt xs)"
proof (induction xs rule: length_induct)
  case (1 xs)
  obtain r1 t1 where r1: "first_run_of lt xs = (r1, t1)" by (metis surj_pair)
  obtain r2 t2 where r2: "first_run_of lt t1 = (r2, t2)" by (metis surj_pair)
  have m1: "mset xs = mset r1 + mset t1" "up lt r1" and m2: "mset t1 = mset r2 + mset t2" "up lt r2"
    using first_run_of_append [of lt xs] first_run_of_append [of lt t1] first_run_of_up [of lt xs]
      first_run_of_up [of lt t1] by (auto simp: r1 r2)
  consider "xs = []" | (one) "xs \<noteq> []" "t1 = []" | (two) "xs \<noteq> []" "t1 \<noteq> []" by blast
  then show ?case
  proof cases
    case 1
    then show ?thesis by (subst (1 2 3 4) pass_runs.simps) simp
  next
    case one
    then have "pass_runs lt xs = (1, r1)" by (subst pass_runs.simps) (simp add: r1)
    then show ?thesis using one m1 runs_first [OF one(1), of lt] runs_up [OF m1(2)] by (simp add: r1)
  next
    case two
    have eq: "pass_runs lt xs = (Suc (fst (pass_runs lt t2)), merge_runs lt r1 r2 @ snd (pass_runs lt t2))"
      using two by (subst pass_runs.simps) (simp add: r1 r2 case_prod_beta)
    have "length t2 < length xs"
      using first_run_of_shorter [OF two(1), of lt] first_run_of_shorter [OF two(2), of lt] by (simp add: r1 r2)
    then have ih: "fst (pass_runs lt t2) = (runs lt t2 + 1) div 2" "mset (snd (pass_runs lt t2)) = mset t2"
      "runs lt (snd (pass_runs lt t2)) \<le> fst (pass_runs lt t2)"
      using 1 by blast+
    have "runs lt xs = runs lt t2 + 2"
      using runs_first [OF two(1), of lt] runs_first [OF two(2), of lt] by (simp add: r1 r2)
    moreover have "runs lt (merge_runs lt r1 r2 @ snd (pass_runs lt t2)) \<le> Suc (fst (pass_runs lt t2))"
      using runs_append [of lt "merge_runs lt r1 r2" "snd (pass_runs lt t2)"]
        runs_up [OF merge_runs_up [OF assms m1(2) m2(2)]] ih(3) by linarith
    ultimately show ?thesis
      using eq ih m1 m2 by (simp add: mset_merge_runs)
  qed
qed

lemma list_begin_ok:
  assumes "lrep s l xs"
  shows "list_begin l s = Some (Some (hd (xs @ [ltail l])))"
proof -
  have lk: "linked s (lhead l) (hd (xs @ [ltail l]))"
    using assms by (cases xs) (simp_all add: lrep_def chain_Cons2)
  then show ?thesis
    using linked_alive(1) [OF lk] by (simp add: list_begin_def linked_def)
qed

lemma sort_pass_ok:
  assumes "lrep s l xs"
  shows "\<exists>s'. pass_loop l (Some (hd (xs @ [ltail l]))) lt 0 s = Some (fst (pass_runs lt xs), s') \<and>
    lrep s' l (snd (pass_runs lt xs)) \<and> lcon s' = lcon s"
proof -
  have ch: "chain s (lhead l # xs @ [ltail l])" and ends: "prv s (lhead l) = None" "nxt s (ltail l) = None"
    using assms by (simp_all add: lrep_def)
  obtain s1 where s1: "pass_loop l (Some (hd (xs @ [ltail l]))) lt 0 s = Some (fst (pass_runs lt xs), s1)"
    "chain s1 (lhead l # snd (pass_runs lt xs) @ [ltail l])" "within (lhead l) xs (ltail l) s s1"
    using pass_loop_ok [OF ch, of lt 0] by auto
  have "lhead l \<notin> set (xs @ [ltail l])" "ltail l \<notin> set (lhead l # xs)" using ch by (auto simp: chain_def)
  then show ?thesis
    using s1 ends by (auto simp: lrep_def within_def)
qed

lemma sort_loop_ok:
  assumes "asymp lt" and "lrep s l xs"
  shows "\<exists>s' ys. sort_loop l lt s = Some s' \<and> lrep s' l ys \<and> lcon s' = lcon s \<and> mset ys = mset xs \<and> up lt ys"
  using assms(2)
proof (induction "runs lt xs" arbitrary: xs s rule: less_induct)
  case less
  note facts = pass_runs_facts [OF assms(1), of xs]
  obtain s1 where s1: "pass_loop l (Some (hd (xs @ [ltail l]))) lt 0 s = Some (fst (pass_runs lt xs), s1)"
    "lrep s1 l (snd (pass_runs lt xs))" "lcon s1 = lcon s"
    using sort_pass_ok [OF less.prems] by blast
  show ?case
  proof (cases "1 < fst (pass_runs lt xs)")
    case True
    then have "runs lt (snd (pass_runs lt xs)) < runs lt xs" using facts by auto
    from less.hyps [OF this s1(2)] obtain s' ys where s': "sort_loop l lt s1 = Some s'" "lrep s' l ys"
      "lcon s' = lcon s1" "mset ys = mset (snd (pass_runs lt xs))" "up lt ys"
      by blast
    moreover have "sort_loop l lt s = sort_loop l lt s1"
      using list_begin_ok [OF less.prems] s1(1) True by (subst sort_loop.simps) simp
    ultimately show ?thesis using s1(3) facts by auto
  next
    case False
    then have "up lt (snd (pass_runs lt xs))" using facts by (intro up_runs) linarith
    moreover have "sort_loop l lt s = Some s1"
      using list_begin_ok [OF less.prems] s1(1) False by (subst sort_loop.simps) simp
    ultimately show ?thesis using s1 facts by blast
  qed
qed

lemma list_sort_ok:
  assumes "asymp lt" and "lrep s l xs"
  shows "\<exists>s' ys. list_sort l lt s = Some s' \<and> lrep s' l ys \<and> lcon s' = lcon s \<and> mset ys = mset xs \<and> up lt ys"
proof -
  obtain s' ys where s': "sort_loop l lt s = Some s'" "lrep s' l ys" "lcon s' = lcon s" "mset ys = mset xs" "up lt ys"
    using sort_loop_ok [OF assms] by blast
  have "chain s' (ys @ [ltail l])"
    using s'(2) chain_sub [of s' "[lhead l]" "ys @ [ltail l]" "[]"] by (simp add: lrep_def)
  then have "is_sorted (Some (hd (ys @ [ltail l]))) (Some (ltail l)) lt s' = Some (True, s')"
    using is_sorted_ok [of s' ys "ltail l" lt] s'(5) by simp
  then have "list_sort l lt s = Some s'"
    using s'(1) list_begin_ok [OF s'(2)] by (simp add: list_sort_def list_end_def)
  then show ?thesis using s' by blast
qed

subsection \<open>The other operations\<close>

lemma lrep_alive:
  assumes "lrep s l xs" and "a \<in> set (lhead l # xs @ [ltail l])"
  shows "alive s a"
  using assms chain_alive [of s "lhead l # xs @ [ltail l]" a] by (simp add: lrep_def)

lemma llist_init_ok:
  assumes "alive s (lhead l)" and "alive s (ltail l)" and "lhead l \<noteq> ltail l"
  shows "\<exists>s'. llist_init l s = Some s' \<and> lrep s' l [] \<and> lcon s' = lcon s"
  using assms by (simp add: llist_init_def lrep_def chain_def linked_def)

text \<open>Elements that can be put in a list.\<close>

definition fits :: "llist \<Rightarrow> lstate \<Rightarrow> nat list \<Rightarrow> nat \<Rightarrow> bool" where
  "fits l s xs x \<longleftrightarrow> alive s x \<and> x \<notin> set (lhead l # xs @ [ltail l])"

text \<open>Insertion of \<open>e\<close> after the first part of a list, and removal of an element.\<close>

lemma lrep_insert:
  assumes "lrep s l (xs @ ys)" and "fits l s (xs @ ys) e"
  shows "\<exists>s'. list_insert (Some (hd (ys @ [ltail l]))) (Some e) s = Some s' \<and> lrep s' l (xs @ e # ys) \<and>
    lcon s' = lcon s \<and> alive s' = alive s"
proof -
  obtain us p where us: "lhead l # xs = us @ [p]" by (metis append_butlast_last_id list.discI)
  obtain b vs where vs: "ys @ [ltail l] = b # vs" by (cases ys) auto
  have c: "chain s (us @ p # b # vs)"
    using assms(1) us vs unfolding lrep_def by (metis append.assoc append_Cons append_Nil)
  have e: "alive s e" "e \<notin> set (us @ p # b # vs)"
    using assms(2) arg_cong [OF us, of set] arg_cong [OF vs, of set] by (auto simp: fits_def)
  obtain s' where s': "list_insert (Some b) (Some e) s = Some s'"
    "relink s ((nxt s)(e := Some b, p := Some e)) ((prv s)(e := Some p, b := Some e)) s'"
    using list_insert_links [OF chain_mem_linked [OF c] e(1)] e(2) by auto
  have ht: "lhead l \<in> set (us @ [p])" "ltail l \<in> set (b # vs)" "lhead l \<notin> set (b # vs)" "ltail l \<notin> set (us @ [p])"
    using c arg_cong [OF us, of set] arg_cong [OF vs, of set] unfolding chain_def by auto
  have "chain s' (us @ p # e # b # vs)" by (rule chain_insert [OF c e(2) s'(2)])
  moreover have "us @ p # e # b # vs = lhead l # (xs @ e # ys) @ [ltail l]"
    using us vs by (metis append.assoc append_Cons append_Nil)
  moreover have "prv s' (lhead l) = None" "nxt s' (ltail l) = None"
    using assms(1) s'(2) ht e(2) by (auto simp: lrep_def relink_def)
  ultimately show ?thesis
    using s' vs by (auto simp: lrep_def relink_def)
qed

lemma lrep_remove:
  assumes "lrep s l (xs @ e # ys)"
  shows "\<exists>s'. list_remove (Some e) s = Some (Some (hd (ys @ [ltail l])), s') \<and> lrep s' l (xs @ ys) \<and>
    lcon s' = lcon s \<and> alive s' = alive s"
proof -
  obtain us p where us: "lhead l # xs = us @ [p]" by (metis append_butlast_last_id list.discI)
  obtain b vs where vs: "ys @ [ltail l] = b # vs" by (cases ys) auto
  have c: "chain s (us @ p # e # b # vs)"
    using assms(1) us vs unfolding lrep_def by (metis append.assoc append_Cons append_Nil)
  then have lk: "linked s p e" "linked s e b" and d: "distinct (us @ p # e # b # vs)"
    using chain_mem_linked [of s us p e "b # vs"] chain_mem_linked [of s "us @ [p]" e b vs] by (simp_all add: chain_def)
  obtain s' where s': "list_remove (Some e) s = Some (Some b, s')"
    "relink s ((nxt s)(p := Some b)) ((prv s)(b := Some p)) s'"
    using list_remove_links [OF lk] d by auto
  have ht: "lhead l \<in> set (us @ [p])" "ltail l \<in> set (b # vs)" "lhead l \<notin> set (b # vs)" "ltail l \<notin> set (us @ [p])"
    using d arg_cong [OF us, of set] arg_cong [OF vs, of set] by auto
  have "chain s' (us @ p # b # vs)" by (rule chain_remove [OF c s'(2)])
  moreover have "us @ p # b # vs = lhead l # (xs @ ys) @ [ltail l]"
    using us vs by (metis append.assoc append_Cons append_Nil)
  moreover have "prv s' (lhead l) = None" "nxt s' (ltail l) = None"
    using assms(1) s'(2) ht by (auto simp: lrep_def relink_def)
  ultimately show ?thesis
    using s' vs by (auto simp: lrep_def relink_def)
qed

lemma lrep_ends:
  assumes "lrep s l xs"
  shows "rd_next (Some (lhead l)) s = Some (Some (hd (xs @ [ltail l])))"
    "rd_prev (Some (ltail l)) s = Some (Some (last (lhead l # xs)))"
    "list_empty l s = Some (xs = [])"
proof -
  show n: "rd_next (Some (lhead l)) s = Some (Some (hd (xs @ [ltail l])))"
    using list_begin_ok [OF assms] by (simp add: list_begin_def)
  obtain us p where us: "lhead l # xs = us @ [p]" by (metis append_butlast_last_id list.discI)
  then have eq: "lhead l # xs @ [ltail l] = us @ [p, ltail l]" by (metis append.assoc append_Cons append_Nil)
  have "linked s p (ltail l)"
    using assms chain_mem_linked [of s us p "ltail l" "[]"] unfolding lrep_def eq by blast
  moreover have "last (lhead l # xs) = p" using us by (metis last_snoc)
  ultimately show "rd_prev (Some (ltail l)) s = Some (Some (last (lhead l # xs)))"
    using linked_alive(2) by (simp add: linked_def lrep_alive [OF assms])
  show "list_empty l s = Some (xs = [])"
    using assms list_begin_ok [OF assms]
    by (cases xs) (auto simp: list_empty_def list_end_def lrep_def chain_def)
qed

lemma list_push_front_ok:
  assumes "lrep s l xs" and "fits l s xs x"
  shows "\<exists>s'. list_push_front l (Some x) s = Some s' \<and> lrep s' l (x # xs) \<and> lcon s' = lcon s \<and> alive s' = alive s"
  using lrep_insert [of s l "[]" xs x] assms list_begin_ok [OF assms(1)] by (auto simp: list_push_front_def)

lemma list_push_back_ok:
  assumes "lrep s l xs" and "fits l s xs x"
  shows "\<exists>s'. list_push_back l (Some x) s = Some s' \<and> lrep s' l (xs @ [x]) \<and> lcon s' = lcon s \<and> alive s' = alive s"
  using lrep_insert [of s l xs "[]" x] assms by (auto simp: list_push_back_def list_end_def)

lemma list_pop_front_ok:
  assumes "lrep s l (x # xs)"
  shows "\<exists>s'. list_pop_front l s = Some (Some x, s') \<and> lrep s' l xs \<and> lcon s' = lcon s \<and> alive s' = alive s"
  using lrep_remove [of s l "[]" x xs] assms lrep_ends [OF assms]
  by (auto simp: list_pop_front_def list_front_def Let_def)

lemma list_pop_back_ok:
  assumes "lrep s l (xs @ [x])"
  shows "\<exists>s'. list_pop_back l s = Some (Some x, s') \<and> lrep s' l xs \<and> lcon s' = lcon s \<and> alive s' = alive s"
  using lrep_remove [of s l xs x "[]"] assms lrep_ends [OF assms]
  by (auto simp: list_pop_back_def list_back_def Let_def)

lemma size_loop_ok:
  assumes "chain s (xs @ [ltail l])"
  shows "size_loop l (Some (hd (xs @ [ltail l]))) cnt s = Some (cnt + length xs, s)"
  using assms
proof (induction xs arbitrary: cnt)
  case Nil
  then show ?case by (subst size_loop.simps) (simp add: list_end_def)
next
  case (Cons x xs)
  have lk: "linked s x (hd (xs @ [ltail l]))" using Cons.prems by (cases xs) (simp_all add: chain_Cons2)
  have "x \<noteq> ltail l" "chain s (xs @ [ltail l])"
    using Cons.prems chain_sub [of s "[x]" "xs @ [ltail l]" "[]"] by (auto simp: chain_def)
  then show ?case
    using Cons.IH by (subst size_loop.simps) (simp add: list_end_def list_next_links [OF lk])
qed

lemma list_size_ok:
  assumes "lrep s l xs"
  shows "list_size l s = Some (length xs, s)"
  using size_loop_ok [of s xs l 0] chain_sub [of s "[lhead l]" "xs @ [ltail l]" "[]"] assms list_begin_ok [OF assms]
  by (simp add: list_size_def lrep_def)

text \<open>Reversal: the loop exchanges the two links of every interior element.\<close>

lemma swap_links_ok:
  assumes "alive s a"
  shows "\<exists>s'. swap_links (Some a) s = Some s' \<and> relink s ((nxt s)(a := prv s a)) ((prv s)(a := nxt s a)) s'"
  using assms by (simp add: swap_links_def relink_def)

lemma reverse_loop_ok:
  assumes "distinct (xs @ [ltail l])" and "\<forall>x \<in> set xs. alive s x"
    and "successively (\<lambda>a b. nxt s a = Some b) (xs @ [ltail l])"
  shows "\<exists>s'. reverse_loop l (Some (hd (xs @ [ltail l]))) s = Some s' \<and>
    relink s (\<lambda>a. if a \<in> set xs then prv s a else nxt s a) (\<lambda>a. if a \<in> set xs then nxt s a else prv s a) s'"
  using assms
proof (induction xs arbitrary: s)
  case Nil
  then show ?case by (subst reverse_loop.simps) (simp add: list_end_def relink_def)
next
  case (Cons x xs)
  let ?h = "hd (xs @ [ltail l])"
  obtain s1 where s1: "swap_links (Some x) s = Some s1"
    "relink s ((nxt s)(x := prv s x)) ((prv s)(x := nxt s x)) s1"
    using swap_links_ok [of s x] Cons.prems(2) by auto
  have nx: "nxt s x = Some ?h" using Cons.prems(3) by (cases xs) auto
  have "successively (\<lambda>a b. nxt s a = Some b) (xs @ [ltail l])" using Cons.prems(3) by (cases xs) auto
  moreover have "nxt s1 a = nxt s a" if "a \<in> set (xs @ [ltail l])" for a
    using that Cons.prems(1) s1(2) by (auto simp: relink_def)
  ultimately have "successively (\<lambda>a b. nxt s1 a = Some b) (xs @ [ltail l])"
    by (subst successively_cong [of _ _ "\<lambda>a b. nxt s a = Some b"]) auto
  moreover have "\<forall>a \<in> set xs. alive s1 a" using Cons.prems(2) s1(2) by (simp add: relink_def)
  ultimately obtain s' where s': "reverse_loop l (Some ?h) s1 = Some s'"
    "relink s1 (\<lambda>a. if a \<in> set xs then prv s1 a else nxt s1 a) (\<lambda>a. if a \<in> set xs then nxt s1 a else prv s1 a) s'"
    using Cons.IH [of s1] Cons.prems(1) by auto
  have "alive s1 x" "prv s1 x = Some ?h" using Cons.prems(2) s1(2) nx by (simp_all add: relink_def)
  then have "reverse_loop l (Some (hd ((x # xs) @ [ltail l]))) s = Some s'"
    using Cons.prems(1) s1(1) s'(1) by (subst reverse_loop.simps) (simp add: list_end_def)
  moreover have "x \<notin> set xs" using Cons.prems(1) by simp
  ultimately show ?case
    using s1(2) s'(2) by (auto simp: relink_def fun_eq_iff)
qed

lemma list_reverse_ok:
  assumes "lrep s l xs"
  shows "\<exists>s'. list_reverse l s = Some s' \<and> lrep s' l (rev xs) \<and> lcon s' = lcon s"
proof (cases "xs = []")
  case True
  then show ?thesis using assms lrep_ends(3) [OF assms] by (simp add: list_reverse_def)
next
  case False
  let ?h = "lhead l" and ?t = "ltail l" and ?f = "hd xs" and ?z = "last xs"
  note ch = assms [unfolded lrep_def chain_def]
  have d: "distinct (?h # xs @ [?t])" and fz: "?f \<in> set xs" "?z \<in> set xs" using ch False by auto
  have sc: "successively (linked s) (xs @ [?t])" "linked s ?h ?f" "linked s ?z ?t" "successively (linked s) xs"
    using ch False by (auto simp: successively_Cons successively_append_iff)
  have nx: "successively (\<lambda>a b. nxt s a = Some b) (xs @ [?t])"
    by (rule successively_mono [OF sc(1)]) (simp add: linked_def)
  obtain s1 where s1: "reverse_loop l (Some (hd (xs @ [?t]))) s = Some s1"
    "relink s (\<lambda>a. if a \<in> set xs then prv s a else nxt s a) (\<lambda>a. if a \<in> set xs then nxt s a else prv s a) s1"
    using reverse_loop_ok [of xs l s, OF _ _ nx] d lrep_alive [OF assms] by auto
  have lk: "nxt s ?h = Some ?f" "prv s ?f = Some ?h" "nxt s ?z = Some ?t" "prv s ?t = Some ?z"
    using sc by (simp_all add: linked_def)
  have al: "alive s1 ?h" "alive s1 ?t" "alive s1 ?f" "alive s1 ?z"
    using s1(2) lrep_alive [OF assms] fz by (simp_all add: relink_def)
  have ne: "?h \<noteq> ?t" "?h \<notin> set xs" "?t \<notin> set xs" using d by auto
  have n1: "nxt s1 ?h = Some ?f" "prv s1 ?t = Some ?z" "prv s1 ?z = Some ?t" "nxt s1 ?f = Some ?h"
    using s1(2) lk ne fz by (auto simp: relink_def)
  have ne2: "?h \<noteq> ?f" "?h \<noteq> ?z" "?t \<noteq> ?f" "?t \<noteq> ?z" using ne fz by auto
  let ?s = "set_nxt ?f (Some ?t) (set_prv ?z (Some ?h) (set_prv ?t (Some ?f) (set_nxt ?h (Some ?z) s1)))"
  have run: "list_reverse l s = Some ?s"
    using s1(1) al n1 ne ne2 False lrep_ends(3) [OF assms] list_begin_ok [OF assms]
    by (simp add: list_reverse_def Let_def)
  have N: "nxt ?s = (\<lambda>a. if a = ?f then Some ?t else if a = ?h then Some ?z else if a \<in> set xs then prv s a else nxt s a)"
    and P: "prv ?s = (\<lambda>a. if a = ?z then Some ?h else if a = ?t then Some ?f else if a \<in> set xs then nxt s a else prv s a)"
    using al s1(2) by (auto simp: relink_def fun_eq_iff)
  have inner: "linked ?s b a" if "linked s a b" "a \<in> set xs" "b \<in> set xs" for a b
    unfolding linked_def N P using that d sc by (auto simp: linked_def)
  have "successively (linked ?s) (rev xs)"
    unfolding successively_rev using sc(4) inner by (auto elim!: successively_mono)
  moreover have "linked ?s ?h ?z" "linked ?s ?f ?t"
    unfolding linked_def N P using ne ne2 by auto
  ultimately have "chain ?s (?h # rev xs @ [?t])"
    using d False by (auto simp: chain_def successively_Cons successively_append_iff hd_rev last_rev)
  moreover have "prv ?s ?h = None" "nxt ?s ?t = None"
    unfolding N P using ch ne ne2 by auto
  ultimately show ?thesis
    using run s1(2) by (auto simp: lrep_def relink_def)
qed

text \<open>Ordered insertion, and the greatest and the least element.\<close>

lemma ordered_loop_ok:
  assumes "chain s (xs @ [ltail l])"
  shows "ordered_loop l (Some x) (Some (hd (xs @ [ltail l]))) lt s =
    Some (Some (hd (dropWhile (\<lambda>e. \<not> lt x e) xs @ [ltail l])), s)"
  using assms
proof (induction xs)
  case Nil
  then show ?case by (subst ordered_loop.simps) (simp add: list_end_def)
next
  case (Cons y xs)
  have lk: "linked s y (hd (xs @ [ltail l]))" using Cons.prems by (cases xs) (simp_all add: chain_Cons2)
  have "y \<noteq> ltail l" "chain s (xs @ [ltail l])"
    using Cons.prems chain_sub [of s "[y]" "xs @ [ltail l]" "[]"] by (auto simp: chain_def)
  then show ?case
    using Cons.IH by (subst ordered_loop.simps) (simp add: list_end_def list_next_links [OF lk])
qed

lemma list_insert_ordered_ok:
  assumes "lrep s l xs" and "fits l s xs x"
  shows "\<exists>s'. list_insert_ordered l (Some x) lt s = Some s' \<and>
    lrep s' l (takeWhile (\<lambda>e. \<not> lt x e) xs @ x # dropWhile (\<lambda>e. \<not> lt x e) xs) \<and> lcon s' = lcon s"
proof -
  let ?a = "takeWhile (\<lambda>e. \<not> lt x e) xs" and ?b = "dropWhile (\<lambda>e. \<not> lt x e) xs"
  have "ordered_loop l (Some x) (Some (hd (xs @ [ltail l]))) lt s = Some (Some (hd (?b @ [ltail l])), s)"
    using ordered_loop_ok [of s xs l x lt] chain_sub [of s "[lhead l]" "xs @ [ltail l]" "[]"] assms(1)
    by (simp add: lrep_def)
  then show ?thesis
    using lrep_insert [of s l ?a ?b x] assms list_begin_ok [OF assms(1)]
    by (auto simp: list_insert_ordered_def Let_def)
qed

lemma best_loop_ok:
  assumes "chain s (xs @ [ltail l])"
  shows "best_loop l better (Some m) (Some (hd (xs @ [ltail l]))) s =
    Some (Some (foldl (\<lambda>m e. if better m e then e else m) m xs), s)"
  using assms
proof (induction xs arbitrary: m)
  case Nil
  then show ?case by (subst best_loop.simps) (simp add: list_end_def)
next
  case (Cons y xs)
  have lk: "linked s y (hd (xs @ [ltail l]))" using Cons.prems by (cases xs) (simp_all add: chain_Cons2)
  have "y \<noteq> ltail l" "chain s (xs @ [ltail l])"
    using Cons.prems chain_sub [of s "[y]" "xs @ [ltail l]" "[]"] by (auto simp: chain_def)
  then show ?case
    using Cons.IH by (subst best_loop.simps) (auto simp: list_end_def list_next_links [OF lk])
qed

lemma best_fold:
  assumes "transp (\<lambda>x y. \<not> better y x)" and "asymp better"
  shows "(let r = foldl (\<lambda>m e. if better m e then e else m) m xs
    in r \<in> set (m # xs) \<and> (\<forall>e \<in> set (m # xs). \<not> better r e))"
proof (induction xs arbitrary: m)
  case Nil
  then show ?case using assms(2) by (auto dest: asympD)
next
  case (Cons x xs)
  let ?k = "if better m x then x else m"
  let ?r = "foldl (\<lambda>m e. if better m e then e else m) ?k xs"
  have ih: "?r \<in> set (?k # xs)" "\<forall>e \<in> set (?k # xs). \<not> better ?r e" using Cons.IH [of ?k] by (auto simp: Let_def)
  have k: "\<not> better ?k m" "\<not> better ?k x" using assms(2) by (auto dest: asympD)
  have "\<not> better ?r ?k" using ih(2) by simp
  then have "\<not> better ?r m" "\<not> better ?r x"
    using transpD [OF assms(1), of ?k m ?r] transpD [OF assms(1), of ?k x ?r] k by blast+
  then show ?case using ih by (auto simp: Let_def)
qed

lemma list_max_min_ok:
  assumes "lrep s l (x # xs)"
  shows "list_max l lt s = Some (Some (foldl (\<lambda>m e. if lt m e then e else m) x xs), s)"
    "list_min l lt s = Some (Some (foldl (\<lambda>m e. if lt e m then e else m) x xs), s)"
proof -
  have c: "chain s (xs @ [ltail l])" and lk: "linked s x (hd (xs @ [ltail l]))" and ne: "x \<noteq> ltail l"
    using assms chain_sub [of s "[lhead l, x]" "xs @ [ltail l]" "[]"]
    by (cases xs; auto simp: lrep_def chain_def)+
  show "list_max l lt s = Some (Some (foldl (\<lambda>m e. if lt m e then e else m) x xs), s)"
    "list_min l lt s = Some (Some (foldl (\<lambda>m e. if lt e m then e else m) x xs), s)"
    using list_begin_ok [OF assms] ne best_loop_ok [OF c]
    by (simp_all add: list_max_def list_min_def list_end_def list_next_links [OF lk])
qed

text \<open>Removal of adjacent equal elements.\<close>

fun unique_of :: "less_func \<Rightarrow> nat list \<Rightarrow> nat list" where
  "unique_of lt (x # y # zs) =
     (if \<not> lt x y \<and> \<not> lt y x then unique_of lt (x # zs) else x # unique_of lt (y # zs))"
| "unique_of lt xs = xs"

lemma unique_loop_ok:
  assumes "lrep s l (us @ x # xs)"
  shows "\<exists>s'. unique_loop l None (Some x) lt s = Some s' \<and> lrep s' l (us @ unique_of lt (x # xs)) \<and> lcon s' = lcon s"
  using assms
proof (induction "length xs" arbitrary: us x xs s)
  case 0
  then have "linked s x (ltail l)"
    using chain_mem_linked [of s "lhead l # us" x "ltail l" "[]"] by (simp add: lrep_def)
  then show ?case using 0 by (subst unique_loop.simps) (simp add: list_next_links list_end_def)
next
  case (Suc n)
  then obtain y zs where xs: "xs = y # zs" by (cases xs) auto
  have lk: "linked s x y" and ne: "y \<noteq> ltail l"
    using Suc.prems chain_mem_linked [of s "lhead l # us" x y "zs @ [ltail l]"] xs by (auto simp: lrep_def chain_def)
  show ?case
  proof (cases "\<not> lt x y \<and> \<not> lt y x")
    case True
    obtain s1 where s1: "list_remove (Some y) s = Some (Some (hd (zs @ [ltail l])), s1)"
      "lrep s1 l (us @ x # zs)" "lcon s1 = lcon s"
      using lrep_remove [of s l "us @ [x]" y zs] Suc.prems xs by auto
    then show ?thesis
      using Suc.hyps(1) [of zs s1 us x] Suc.hyps(2) True ne lk xs
      by (subst unique_loop.simps) (auto simp: list_next_links list_end_def)
  next
    case False
    then show ?thesis
      using Suc.hyps(1) [of zs s "us @ [x]" y] Suc.hyps(2) Suc.prems ne lk xs
      by (subst unique_loop.simps) (auto simp: list_next_links list_end_def)
  qed
qed

lemma list_unique_ok:
  assumes "lrep s l xs"
  shows "\<exists>s'. list_unique l None lt s = Some s' \<and> lrep s' l (unique_of lt xs) \<and> lcon s' = lcon s"
  using assms unique_loop_ok [of s l "[]"] lrep_ends(3) [OF assms] list_begin_ok [OF assms]
  by (cases xs) (auto simp: list_unique_def)

subsection \<open>The contract of a double-ended queue\<close>

text \<open>The elements of these lists are never null.\<close>

definition popped :: "(elem_ptr \<times> lstate) option \<Rightarrow> (nat \<times> lstate) option" where
  "popped r = do { (e, s) \<leftarrow> r; x \<leftarrow> e; Some (x, s) }"

definition all_fit :: "llist \<Rightarrow> lstate \<Rightarrow> nat list \<Rightarrow> nat list \<Rightarrow> bool" where
  "all_fit l s xs ys \<longleftrightarrow> distinct ys \<and> (\<forall>y \<in> set ys. fits l s xs y)"

interpretation elem_deque: deque "\<lambda>s xs. lrep s l xs" "all_fit l" "\<lambda>x. list_push_front l (Some x)"
  "\<lambda>x. list_push_back l (Some x)" "\<lambda>s. popped (list_pop_front l s)" "\<lambda>s. popped (list_pop_back l s)" for l
proof unfold_locales
  fix s xs x ys assume "lrep s l xs" "all_fit l s xs (x # ys)"
  then show "\<exists>s'. list_push_front l (Some x) s = Some s' \<and> lrep s' l (x # xs) \<and> all_fit l s' (x # xs) ys"
    using list_push_front_ok [of s l xs x] by (auto simp: fits_def all_fit_def)
next
  fix s xs x ys assume "lrep s l xs" "all_fit l s xs (x # ys)"
  then show "\<exists>s'. list_push_back l (Some x) s = Some s' \<and> lrep s' l (xs @ [x]) \<and> all_fit l s' (xs @ [x]) ys"
    using list_push_back_ok [of s l xs x] by (auto simp: fits_def all_fit_def)
next
  fix s x xs assume "lrep s l (x # xs)"
  then show "\<exists>s'. popped (list_pop_front l s) = Some (x, s') \<and> lrep s' l xs"
    using list_pop_front_ok [of s l x xs] by (auto simp: popped_def)
next
  fix s xs x assume "lrep s l (xs @ [x])"
  then show "\<exists>s'. popped (list_pop_back l s) = Some (x, s') \<and> lrep s' l xs"
    using list_pop_back_ok [of s l xs x] by (auto simp: popped_def)
qed

lemma up_sorted_wrt:
  assumes "transp (\<lambda>x y. \<not> lt y x)" and "up lt xs"
  shows "sorted_wrt (\<lambda>x y. \<not> lt y x) xs"
  using assms by (simp add: successively_conv_sorted_wrt)

subsection \<open>Properties\<close>

text \<open>Four elements and a list that holds three of them, for the witnesses.\<close>

definition sample_list :: llist where
  "sample_list = \<lparr>lhead = 10, ltail = 11\<rparr>"

definition sample_elems :: lstate where
  "sample_elems = \<lparr>elems = [10 \<mapsto> \<lparr>e_prev = None, e_next = Some 3\<rparr>, 3 \<mapsto> \<lparr>e_prev = Some 10, e_next = Some 1\<rparr>,
     1 \<mapsto> \<lparr>e_prev = Some 3, e_next = Some 2\<rparr>, 2 \<mapsto> \<lparr>e_prev = Some 1, e_next = Some 11\<rparr>,
     11 \<mapsto> \<lparr>e_prev = Some 2, e_next = None\<rparr>, 4 \<mapsto> \<lparr>e_prev = None, e_next = None\<rparr>], lcon = []\<rparr>"

lemma sample_elems_facts:
  "lrep sample_elems sample_list [3, 1, 2]" "fits sample_list sample_elems [3, 1, 2] 4" "lcon sample_elems = []"
  by (simp_all add: sample_elems_def sample_list_def lrep_def chain_def linked_def nxt_def prv_def fits_def alive_def)

text \<open>C3: \<^verbatim>\<open>list_sort\<close> always ends and sorts: afterwards the list holds the same elements, in non-decreasing
  order of the caller's comparison, its links are well-formed, and no assertion of the code failed.\<close>

theorem list_sort_sorts:
  assumes "lrep s l xs" and "asymp lt" and "transp (\<lambda>x y. \<not> lt y x)"
  shows "\<exists>s' ys. list_sort l lt s = Some s' \<and> lrep s' l ys \<and> mset ys = mset xs \<and>
    sorted_wrt (\<lambda>x y. \<not> lt y x) ys \<and> lcon s' = lcon s"
  using list_sort_ok [OF assms(2,1)] up_sorted_wrt [OF assms(3)] by blast

theorem list_sort_sorts_witness:
  "\<exists>s' ys. list_sort sample_list (<) sample_elems = Some s' \<and> lrep s' sample_list ys \<and> mset ys = {#1, 2, 3#} \<and>
     sorted_wrt (\<lambda>x y. \<not> y < x) ys"
proof -
  have "asymp ((<) :: nat \<Rightarrow> nat \<Rightarrow> bool)" "transp (\<lambda>x y :: nat. \<not> y < x)" by (auto intro: transpI)
  note this = list_sort_sorts [OF sample_elems_facts(1) this]
  moreover have "mset [3, 1, 2 :: nat] = {#1, 2, 3#}" by (simp add: add_mset_commute)
  ultimately show ?thesis by (metis (no_types))
qed

text \<open>C35: The four operations at the ends of a list make it a double-ended queue: each does to the
  represented list what it is named after, and the size and the test for emptiness are those of
  that list.\<close>

theorem list_ends_refine:
  assumes "lrep s l (x # xs)" and "fits l s (x # xs) y"
  shows "(\<exists>s'. list_push_front l (Some y) s = Some s' \<and> lrep s' l (y # x # xs) \<and> lcon s' = lcon s) \<and>
    (\<exists>s'. list_push_back l (Some y) s = Some s' \<and> lrep s' l (x # xs @ [y]) \<and> lcon s' = lcon s) \<and>
    (\<exists>s'. list_pop_front l s = Some (Some x, s') \<and> lrep s' l xs \<and> lcon s' = lcon s) \<and>
    (\<exists>s'. list_pop_back l s = Some (Some (last (x # xs)), s') \<and> lrep s' l (butlast (x # xs)) \<and> lcon s' = lcon s) \<and>
    list_size l s = Some (length (x # xs), s) \<and> list_empty l s = Some False"
  using list_push_front_ok [OF assms] list_push_back_ok [OF assms] list_pop_front_ok [OF assms(1)]
    list_pop_back_ok [of s l "butlast (x # xs)" "last (x # xs)"] assms(1) list_size_ok [OF assms(1)] lrep_ends(3) [OF assms(1)]
  by (simp del: butlast.simps last.simps) blast

theorem list_ends_refine_witness:
  "(\<exists>s'. list_push_back sample_list (Some 4) sample_elems = Some s' \<and> lrep s' sample_list [3, 1, 2, 4]) \<and>
   (\<exists>s'. list_pop_back sample_list sample_elems = Some (Some 2, s') \<and> lrep s' sample_list [3, 1])"
  using list_ends_refine [OF sample_elems_facts(1,2)] by auto

text \<open>\<^verbatim>\<open>list_reverse\<close> reverses the list in place.\<close>

theorem list_reverse_reverses:
  assumes "lrep s l xs"
  shows "\<exists>s'. list_reverse l s = Some s' \<and> lrep s' l (rev xs) \<and> lcon s' = lcon s"
  by (rule list_reverse_ok [OF assms])

theorem list_reverse_reverses_witness:
  "\<exists>s'. list_reverse sample_list sample_elems = Some s' \<and> lrep s' sample_list [2, 1, 3]"
  using list_reverse_reverses [OF sample_elems_facts(1)] by auto

text \<open>Elements pushed at the back of an empty list come out at the front in the order in which they
  were pushed, and elements pushed at the front come out there in the opposite order.\<close>

theorem list_order_kept:
  assumes "lrep s l []" and "distinct xs" and "\<forall>x \<in> set xs. fits l s [] x"
  shows "(\<exists>s1 s2. push_each (\<lambda>x. list_push_back l (Some x)) xs s = Some s1 \<and>
      pop_each (\<lambda>s. popped (list_pop_front l s)) (length xs) s1 = Some (xs, s2) \<and> lrep s2 l []) \<and>
    (\<exists>s1 s2. push_each (\<lambda>x. list_push_front l (Some x)) xs s = Some s1 \<and>
      pop_each (\<lambda>s. popped (list_pop_front l s)) (length xs) s1 = Some (rev xs, s2) \<and> lrep s2 l [])"
  using elem_deque.in_order(1,4) [of s l xs] assms by (simp add: all_fit_def)

theorem list_order_kept_witness:
  "let s = \<lparr>elems = [1 \<mapsto> \<lparr>e_prev = None, e_next = Some 2\<rparr>, 2 \<mapsto> \<lparr>e_prev = Some 1, e_next = None\<rparr>,
         7 \<mapsto> \<lparr>e_prev = None, e_next = None\<rparr>, 8 \<mapsto> \<lparr>e_prev = None, e_next = None\<rparr>], lcon = []\<rparr>;
       l = \<lparr>lhead = 1, ltail = 2\<rparr>
   in \<exists>s1 s2. push_each (\<lambda>x. list_push_back l (Some x)) [7, 8] s = Some s1 \<and>
        pop_each (\<lambda>s. popped (list_pop_front l s)) 2 s1 = Some ([7, 8], s2)"
proof -
  let ?s = "\<lparr>elems = [1 \<mapsto> \<lparr>e_prev = None, e_next = Some 2\<rparr>, 2 \<mapsto> \<lparr>e_prev = Some 1, e_next = None\<rparr>,
    7 \<mapsto> \<lparr>e_prev = None, e_next = None\<rparr>, 8 \<mapsto> \<lparr>e_prev = None, e_next = None\<rparr>], lcon = []\<rparr>"
  let ?l = "\<lparr>lhead = 1, ltail = 2\<rparr>"
  have "lrep ?s ?l []" "\<forall>x \<in> set [7, 8]. fits ?l ?s [] x" "distinct [7, 8 :: nat]"
    by (simp_all add: lrep_def chain_def linked_def nxt_def prv_def fits_def alive_def)
  from list_order_kept [OF this(1,3,2)] show ?thesis by (auto simp: Let_def numeral_2_eq_2)
qed

end
