(* ===== verification/Linked_List.thy ===== *)
theory Linked_List
  imports Elem_List
begin

text \<open>
  The doubly linked lists of the third kernel (\<^verbatim>\<open>a3/linked_list.c\<close>), at the level of their pointers. A
  node is an object on a heap that \<^verbatim>\<open>malloc\<close> extends and nothing frees; its fields are \<open>None\<close> until
  they are written, and reading an unwritten field is undefined, as is access through a null
  pointer. A list owns two dummy nodes. The data are opaque values of type \<open>'d\<close>; the function pointer \<^verbatim>\<open>equal\<close>
  of a list compares two of them in a memory of type \<open>'m\<close>, which the operations that call it are
  given, and the result \<open>None\<close> says that the comparison is undefined. \<^verbatim>\<open>exit\<close> is an \<open>outcome\<close>.

  The chains of \<^verbatim>\<open>Elem_List\<close> describe the links (\<open>links\<close> forgets the data), so that the lemmas on insertion
  and removal are shared. The lists provide the contract \<open>deque\<close>.
\<close>

record 'd lnode =
  n_data :: "'d option"
  n_next :: "elem_ptr option"
  n_prev :: "elem_ptr option"

record ('d, 'm) linked_list =
  ll_size :: int
  dummy_head :: nat
  dummy_tail :: nat
  equal_fn :: "'m \<Rightarrow> 'd \<Rightarrow> 'd \<Rightarrow> bool option"

text \<open>\<open>brk\<close> is the address the next \<^verbatim>\<open>malloc\<close> returns.\<close>

record 'd lheap =
  lnodes :: "nat \<rightharpoonup> 'd lnode"
  brk :: nat
  lout :: console

definition malloc_node :: "'d lheap \<Rightarrow> nat \<times> 'd lheap" where
  "malloc_node h =
     (brk h, h\<lparr>lnodes := (lnodes h)(brk h \<mapsto> \<lparr>n_data = None, n_next = None, n_prev = None\<rparr>), brk := brk h + 1\<rparr>)"

subsection \<open>Access through pointers\<close>

definition get_data :: "elem_ptr \<Rightarrow> 'd lheap \<Rightarrow> 'd option" where
  "get_data p h = do { a \<leftarrow> p; n \<leftarrow> lnodes h a; n_data n }"

definition get_next :: "elem_ptr \<Rightarrow> 'd lheap \<Rightarrow> elem_ptr option" where
  "get_next p h = do { a \<leftarrow> p; n \<leftarrow> lnodes h a; n_next n }"

definition get_prev :: "elem_ptr \<Rightarrow> 'd lheap \<Rightarrow> elem_ptr option" where
  "get_prev p h = do { a \<leftarrow> p; n \<leftarrow> lnodes h a; n_prev n }"

definition put_data :: "elem_ptr \<Rightarrow> 'd \<Rightarrow> 'd lheap \<Rightarrow> 'd lheap option" where
  "put_data p v h = do { a \<leftarrow> p; n \<leftarrow> lnodes h a; Some (h\<lparr>lnodes := (lnodes h)(a \<mapsto> n\<lparr>n_data := Some v\<rparr>)\<rparr>) }"

definition put_next :: "elem_ptr \<Rightarrow> elem_ptr \<Rightarrow> 'd lheap \<Rightarrow> 'd lheap option" where
  "put_next p v h = do { a \<leftarrow> p; n \<leftarrow> lnodes h a; Some (h\<lparr>lnodes := (lnodes h)(a \<mapsto> n\<lparr>n_next := Some v\<rparr>)\<rparr>) }"

definition put_prev :: "elem_ptr \<Rightarrow> elem_ptr \<Rightarrow> 'd lheap \<Rightarrow> 'd lheap option" where
  "put_prev p v h = do { a \<leftarrow> p; n \<leftarrow> lnodes h a; Some (h\<lparr>lnodes := (lnodes h)(a \<mapsto> n\<lparr>n_prev := Some v\<rparr>)\<rparr>) }"

text \<open>The counter is an \<^verbatim>\<open>int\<close>; counting past the largest is undefined.\<close>

definition add_size :: "int \<Rightarrow> ('d, 'm) linked_list \<Rightarrow> ('d, 'm) linked_list option" where
  "add_size k l = (let n = ll_size l + k in if - (2 ^ 31) \<le> n \<and> n < 2 ^ 31 then Some (l\<lparr>ll_size := n\<rparr>) else None)"

subsection \<open>The operations\<close>

definition has_next :: "elem_ptr \<Rightarrow> 'd lheap \<Rightarrow> bool option" where
  "has_next elem h = do { n \<leftarrow> get_next elem h; Some (n \<noteq> None) }"

text \<open>The results are the returned node (or its data) and the new value of the caller's pointer.\<close>

definition next_node :: "elem_ptr \<Rightarrow> 'd lheap \<Rightarrow> (elem_ptr \<times> elem_ptr) option" where
  "next_node node h = do { n \<leftarrow> get_next node h; Some (node, n) }"

definition next_elem :: "elem_ptr \<Rightarrow> 'd lheap \<Rightarrow> ('d \<times> elem_ptr) option" where
  "next_elem elem h = do { (ret, elem) \<leftarrow> next_node elem h; d \<leftarrow> get_data ret h; Some (d, elem) }"

definition list_clear :: "('d, 'm) linked_list \<Rightarrow> 'd lheap \<Rightarrow> (('d, 'm) linked_list \<times> 'd lheap) option" where
  "list_clear l h =
     do { h \<leftarrow> put_next (Some (dummy_head l)) (Some (dummy_tail l)) h;
          h \<leftarrow> put_prev (Some (dummy_tail l)) (Some (dummy_head l)) h;
          Some (l\<lparr>ll_size := 0\<rparr>, h) }"

definition add_tail ::
    "'d \<Rightarrow> ('d, 'm) linked_list \<Rightarrow> 'd lheap \<Rightarrow> (int \<times> ('d, 'm) linked_list \<times> 'd lheap) option" where
  "add_tail data l h =
     (let (new_node, h) = malloc_node h
      in do { old_tail \<leftarrow> get_prev (Some (dummy_tail l)) h;
              h \<leftarrow> put_data (Some new_node) data h;
              h \<leftarrow> put_next old_tail (Some new_node) h;
              h \<leftarrow> put_prev (Some new_node) old_tail h;
              h \<leftarrow> put_next (Some new_node) (Some (dummy_tail l)) h;
              h \<leftarrow> put_prev (Some (dummy_tail l)) (Some new_node) h;
              l \<leftarrow> add_size 1 l;
              Some (0, l, h) })"

definition add_head ::
    "'d \<Rightarrow> ('d, 'm) linked_list \<Rightarrow> 'd lheap \<Rightarrow> (int \<times> ('d, 'm) linked_list \<times> 'd lheap) option" where
  "add_head data l h =
     (let (new_node, h) = malloc_node h
      in do { old_head \<leftarrow> get_next (Some (dummy_head l)) h;
              h \<leftarrow> put_data (Some new_node) data h;
              h \<leftarrow> put_prev old_head (Some new_node) h;
              h \<leftarrow> put_next (Some new_node) old_head h;
              h \<leftarrow> put_prev (Some new_node) (Some (dummy_head l)) h;
              h \<leftarrow> put_next (Some (dummy_head l)) (Some new_node) h;
              l \<leftarrow> add_size 1 l;
              Some (0, l, h) })"

text \<open>What \<^verbatim>\<open>pop_head\<close>, \<^verbatim>\<open>pop_tail\<close> and \<^verbatim>\<open>remove_elem\<close> do with the node they take out. The node stays allocated.\<close>

definition unlink_node ::
    "elem_ptr \<Rightarrow> ('d, 'm) linked_list \<Rightarrow> 'd lheap \<Rightarrow> ('d \<times> ('d, 'm) linked_list \<times> 'd lheap) option" where
  "unlink_node del l h =
     do { p \<leftarrow> get_prev del h; n \<leftarrow> get_next del h;
          h \<leftarrow> put_next p n h;
          n \<leftarrow> get_next del h; p \<leftarrow> get_prev del h;
          h \<leftarrow> put_prev n p h;
          l \<leftarrow> add_size (- 1) l;
          d \<leftarrow> get_data del h;
          Some (d, l, h) }"

definition say_l :: "string \<Rightarrow> 'd lheap \<Rightarrow> 'd lheap" where
  "say_l t h = h\<lparr>lout := lout h @ [Print t]\<rparr>"

definition pop_head ::
    "('d, 'm) linked_list \<Rightarrow> 'd lheap \<Rightarrow> ('d outcome \<times> ('d, 'm) linked_list \<times> 'd lheap) option" where
  "pop_head l h =
     (if ll_size l \<le> 0
      then Some (Exit 99, l, say_l ''Trying to pop head element from an empty linked list'' h)
      else do { del \<leftarrow> get_next (Some (dummy_head l)) h;
                (d, l, h) \<leftarrow> unlink_node del l h;
                Some (Done d, l, h) })"

fun index_loop :: "nat \<Rightarrow> elem_ptr \<Rightarrow> 'd lheap \<Rightarrow> elem_ptr option" where
  "index_loop 0 cur h = Some cur"
| "index_loop (Suc n) cur h = do { cur \<leftarrow> get_next cur h; index_loop n cur h }"

definition get_node_by_index ::
    "('d, 'm) linked_list \<Rightarrow> int \<Rightarrow> 'd lheap \<Rightarrow> (elem_ptr \<times> 'd lheap) option" where
  "get_node_by_index l idx h =
     (if idx \<ge> ll_size l \<or> idx < 0 then Some (None, say_l ''Invalid index to get from a linked list'' h)
      else do { cur \<leftarrow> get_next (Some (dummy_head l)) h;
                cur \<leftarrow> index_loop (nat idx) cur h;
                Some (cur, h) })"

partial_function (option) value_loop ::
    "('d, 'm) linked_list \<Rightarrow> 'm \<Rightarrow> 'd \<Rightarrow> elem_ptr \<Rightarrow> 'd lheap \<Rightarrow> elem_ptr option" where
  "value_loop l m target cur h =
     (if cur = None then Some None
      else do { d \<leftarrow> get_data cur h;
                eq \<leftarrow> equal_fn l m target d;
                if eq then Some cur
                else do { cur \<leftarrow> get_next cur h; value_loop l m target cur h } })"

definition get_node_by_value :: "('d, 'm) linked_list \<Rightarrow> 'm \<Rightarrow> 'd \<Rightarrow> 'd lheap \<Rightarrow> elem_ptr option" where
  "get_node_by_value l m target h =
     do { cur \<leftarrow> get_next (Some (dummy_head l)) h; value_loop l m target cur h }"

definition get_by_index :: "('d, 'm) linked_list \<Rightarrow> int \<Rightarrow> 'd lheap \<Rightarrow> ('d \<times> 'd lheap) option" where
  "get_by_index l idx h =
     do { (n, h) \<leftarrow> get_node_by_index l idx h; d \<leftarrow> get_data n h; Some (d, h) }"

definition get_by_value :: "('d, 'm) linked_list \<Rightarrow> 'm \<Rightarrow> 'd \<Rightarrow> 'd lheap \<Rightarrow> 'd option" where
  "get_by_value l m elem h = do { n \<leftarrow> get_node_by_value l m elem h; get_data n h }"

definition remove_elem ::
    "'d \<Rightarrow> 'm \<Rightarrow> ('d, 'm) linked_list \<Rightarrow> 'd lheap \<Rightarrow> ('d \<times> ('d, 'm) linked_list \<times> 'd lheap) option" where
  "remove_elem data_to_del m l h =
     do { del \<leftarrow> get_node_by_value l m data_to_del h; unlink_node del l h }"

definition swap_data :: "elem_ptr \<Rightarrow> elem_ptr \<Rightarrow> 'd lheap \<Rightarrow> 'd lheap option" where
  "swap_data node1 node2 h =
     do { tmp \<leftarrow> get_data node1 h;
          d \<leftarrow> get_data node2 h;
          h \<leftarrow> put_data node1 d h;
          put_data node2 tmp h }"

definition pop_tail ::
    "('d, 'm) linked_list \<Rightarrow> 'd lheap \<Rightarrow> ('d outcome \<times> ('d, 'm) linked_list \<times> 'd lheap) option" where
  "pop_tail l h =
     (if ll_size l \<le> 0
      then Some (Exit 99, l, say_l ''Trying to pop tail element from an empty linked list'' h)
      else do { del \<leftarrow> get_prev (Some (dummy_tail l)) h;
                (d, l, h) \<leftarrow> unlink_node del l h;
                Some (Done d, l, h) })"

definition list_init ::
    "('m \<Rightarrow> 'd \<Rightarrow> 'd \<Rightarrow> bool option) \<Rightarrow> 'd lheap \<Rightarrow> (('d, 'm) linked_list \<times> 'd lheap) option" where
  "list_init equal h =
     (let (hd_node, h) = malloc_node h; (tl_node, h) = malloc_node h
      in do { h \<leftarrow> put_next (Some tl_node) None h;
              h \<leftarrow> put_next (Some hd_node) (Some tl_node) h;
              h \<leftarrow> put_prev (Some tl_node) (Some hd_node) h;
              Some (\<lparr>ll_size = 0, dummy_head = hd_node, dummy_tail = tl_node, equal_fn = equal\<rparr>, h) })"

subsection \<open>What the operations do to the nodes\<close>

definition flat :: "elem_ptr option \<Rightarrow> elem_ptr" where
  "flat x = Option.bind x id"

definition links :: "'d lheap \<Rightarrow> lstate" where
  "links h = \<lparr>elems = (\<lambda>a. map_option (\<lambda>n. \<lparr>e_prev = flat (n_prev n), e_next = flat (n_next n)\<rparr>) (lnodes h a)), lcon = []\<rparr>"

text \<open>A new node between \<open>p\<close> and \<open>n\<close>, and a node between \<open>p\<close> and \<open>n\<close> taken out.\<close>

definition node_between :: "'d \<Rightarrow> nat \<Rightarrow> nat \<Rightarrow> 'd lheap \<Rightarrow> 'd lheap" where
  "node_between d p n h =
     h\<lparr>lnodes := (lnodes h)(brk h \<mapsto> \<lparr>n_data = Some d, n_next = Some (Some n), n_prev = Some (Some p)\<rparr>,
                            p := map_option (n_next_update (\<lambda>_. Some (Some (brk h)))) (lnodes h p),
                            n := map_option (n_prev_update (\<lambda>_. Some (Some (brk h)))) (lnodes h n)),
       brk := brk h + 1\<rparr>"

definition cut_between :: "nat \<Rightarrow> nat \<Rightarrow> 'd lheap \<Rightarrow> 'd lheap" where
  "cut_between p n h =
     h\<lparr>lnodes := (lnodes h)(p := map_option (n_next_update (\<lambda>_. Some (Some n))) (lnodes h p),
                            n := map_option (n_prev_update (\<lambda>_. Some (Some p))) (lnodes h n))\<rparr>"

lemma flat_Some [simp]: "flat (Some p) = p" "flat None = None" "flat x = Some a \<longleftrightarrow> x = Some (Some a)"
  by (cases x; simp add: flat_def)+

lemma nxt_links: "nxt (links h) a = (case lnodes h a of None \<Rightarrow> None | Some n \<Rightarrow> flat (n_next n))"
  by (simp add: nxt_def links_def split: option.split)

lemma prv_links: "prv (links h) a = (case lnodes h a of None \<Rightarrow> None | Some n \<Rightarrow> flat (n_prev n))"
  by (simp add: prv_def links_def split: option.split)

lemma linked_get:
  assumes "linked (links h) a b"
  shows "get_next (Some a) h = Some (Some b)" "get_prev (Some b) h = Some (Some a)"
    "lnodes h a \<noteq> None" "lnodes h b \<noteq> None"
  using assms by (auto simp: linked_def nxt_links prv_links get_next_def get_prev_def split: option.splits)

definition int_room :: "nat \<Rightarrow> bool" where
  "int_room n \<longleftrightarrow> n < 2 ^ 31 - 1"

lemma add_size_ok [simp]:
  "ll_size l = int n \<Longrightarrow> int_room n \<Longrightarrow> add_size 1 l = Some (l\<lparr>ll_size := int (Suc n)\<rparr>)"
  "ll_size l = int (Suc n) \<Longrightarrow> n < 2 ^ 31 \<Longrightarrow> add_size (- 1) l = Some (l\<lparr>ll_size := int n\<rparr>)"
  by (simp_all add: add_size_def int_room_def Let_def)

lemmas access_defs = get_data_def get_next_def get_prev_def put_data_def put_next_def put_prev_def

text \<open>The two ways to add and the three ways to remove are one each.\<close>

lemma add_tail_between:
  assumes "linked (links h) p (dummy_tail l)" and "p \<noteq> dummy_tail l" and "lnodes h (brk h) = None"
    and "ll_size l = int n" and "int_room n"
  shows "add_tail d l h = Some (0, l\<lparr>ll_size := int (Suc n)\<rparr>, node_between d p (dummy_tail l) h)"
proof -
  obtain x y where xy: "lnodes h (p) = Some x" "lnodes h (dummy_tail l) = Some y" "n_next x = Some (Some (dummy_tail l))" "n_prev y = Some (Some (p))"
    using linked_get [OF assms(1)] by (auto simp: get_next_def get_prev_def bind_eq_Some_conv)
  moreover have "p \<noteq> brk h" "dummy_tail l \<noteq> brk h" using xy assms(3) by auto
  ultimately show ?thesis
    using assms(2,4,5)
    by (simp add: add_tail_def malloc_node_def node_between_def access_defs fun_upd_twist [of _ "brk h"])
qed

lemma add_head_between:
  assumes "linked (links h) (dummy_head l) n" and "dummy_head l \<noteq> n" and "lnodes h (brk h) = None"
    and "ll_size l = int k" and "int_room k"
  shows "add_head d l h = Some (0, l\<lparr>ll_size := int (Suc k)\<rparr>, node_between d (dummy_head l) n h)"
proof -
  obtain x y where xy: "lnodes h (dummy_head l) = Some x" "lnodes h (n) = Some y" "n_next x = Some (Some (n))" "n_prev y = Some (Some (dummy_head l))"
    using linked_get [OF assms(1)] by (auto simp: get_next_def get_prev_def bind_eq_Some_conv)
  moreover have "dummy_head l \<noteq> brk h" "n \<noteq> brk h" using xy assms(3) by auto
  ultimately show ?thesis
    using assms(2,4,5)
    by (simp add: add_head_def malloc_node_def node_between_def access_defs fun_upd_twist [of _ "brk h"] fun_upd_twist [of n "dummy_head l"])
qed

lemma unlink_node_between:
  assumes "linked (links h) p e" and "linked (links h) e n" and "distinct [p, e, n]"
    and "get_data (Some e) h = Some d" and "ll_size l = int (Suc k)" and "k < 2 ^ 31"
  shows "unlink_node (Some e) l h = Some (d, l\<lparr>ll_size := int k\<rparr>, cut_between p n h)"
proof -
  obtain x y z where "lnodes h p = Some x" "lnodes h e = Some y" "lnodes h n = Some z"
    "n_next y = Some (Some n)" "n_prev y = Some (Some p)" "n_data y = Some d"
    using linked_get [OF assms(1)] linked_get [OF assms(2)] assms(4) by (auto simp: access_defs bind_eq_Some_conv)
  then show ?thesis
    using assms(3,5,6) by (simp add: unlink_node_def cut_between_def access_defs)
qed

subsection \<open>The list a chain of nodes represents\<close>

text \<open>The nodes \<open>as\<close> of the list hold the data \<open>ds\<close>; the dummy tail has no data.\<close>

definition nrep :: "'d lheap \<Rightarrow> ('d, 'm) linked_list \<Rightarrow> nat list \<Rightarrow> 'd list \<Rightarrow> bool" where
  "nrep h l as ds \<longleftrightarrow> chain (links h) (dummy_head l # as @ [dummy_tail l]) \<and>
     map (\<lambda>a. get_data (Some a) h) as = map Some ds \<and> get_data (Some (dummy_tail l)) h = None \<and>
     get_next (Some (dummy_tail l)) h = Some None \<and> ll_size l = int (length ds) \<and> length ds < 2 ^ 31"

definition heap_ok :: "'d lheap \<Rightarrow> bool" where
  "heap_ok h \<longleftrightarrow> (\<forall>a \<ge> brk h. lnodes h a = None)"

text \<open>Nodes outside \<open>A\<close> are as before.\<close>

definition same_nodes :: "nat set \<Rightarrow> 'd lheap \<Rightarrow> 'd lheap \<Rightarrow> bool" where
  "same_nodes A h h' \<longleftrightarrow> (\<forall>a. a \<notin> A \<longrightarrow> lnodes h' a = lnodes h a) \<and> lout h' = lout h \<and> brk h \<le> brk h'"

definition node_set :: "('d, 'm) linked_list \<Rightarrow> nat list \<Rightarrow> nat set" where
  "node_set l as = {dummy_head l, dummy_tail l} \<union> set as"

lemma nrep_length: "nrep h l as ds \<Longrightarrow> length as = length ds"
  by (auto simp: nrep_def dest: map_eq_imp_length_eq)

lemma nrep_alive:
  assumes "nrep h l as ds" and "a \<in> node_set l as"
  shows "lnodes h a \<noteq> None"
proof -
  have "alive (links h) a"
    using assms by (intro chain_alive [of _ "dummy_head l # as @ [dummy_tail l]"]) (auto simp: nrep_def node_set_def)
  then show ?thesis by (simp add: alive_def links_def)
qed

lemma heap_ok_fresh:
  assumes "heap_ok h" and "nrep h l as ds"
  shows "lnodes h (brk h) = None" "brk h \<notin> node_set l as"
  using assms nrep_alive [OF assms(2), of "brk h"] by (auto simp: heap_ok_def)

text \<open>A list does not notice changes to nodes of other lists.\<close>

lemma nrep_frame:
  assumes "nrep h l as ds" and "same_nodes A h h'" and "A \<inter> node_set l as = {}"
  shows "nrep h' l as ds"
proof -
  have eq: "lnodes h' a = lnodes h a" if "a \<in> node_set l as" for a
    using that assms(2,3) by (auto simp: same_nodes_def)
  have lk: "nxt (links h') a = nxt (links h) a" "prv (links h') a = prv (links h) a" if "a \<in> node_set l as" for a
    using eq [OF that] by (simp_all add: nxt_links prv_links)
  have "successively (linked (links h)) (dummy_head l # as @ [dummy_tail l])"
    using assms(1) by (simp add: nrep_def chain_def)
  then have "successively (linked (links h')) (dummy_head l # as @ [dummy_tail l])"
    by (rule stretch_frame) (auto simp: node_set_def intro!: lk dest!: in_set_butlastD)
  moreover have "get_data (Some a) h' = get_data (Some a) h" "get_next (Some a) h' = get_next (Some a) h"
    if "a \<in> node_set l as" for a
    using eq [OF that] by (simp_all add: access_defs)
  ultimately show ?thesis
    using assms(1) by (auto simp: nrep_def chain_def node_set_def cong: map_cong)
qed

lemma node_between_links:
  assumes "linked (links h) p n" and "p \<noteq> n" and "lnodes h (brk h) = None"
  shows "nxt (links (node_between d p n h)) = (nxt (links h))(brk h := Some n, p := Some (brk h))"
    and "prv (links (node_between d p n h)) = (prv (links h))(brk h := Some p, n := Some (brk h))"
proof -
  obtain x y where "lnodes h p = Some x" "lnodes h n = Some y" using linked_get(3,4) [OF assms(1)] by auto
  then show "nxt (links (node_between d p n h)) = (nxt (links h))(brk h := Some n, p := Some (brk h))"
    "prv (links (node_between d p n h)) = (prv (links h))(brk h := Some p, n := Some (brk h))"
    using assms(2,3) by (auto simp: fun_eq_iff nxt_links prv_links node_between_def)
qed

lemma cut_between_links:
  assumes "lnodes h p \<noteq> None" and "lnodes h n \<noteq> None" and "p \<noteq> n"
  shows "nxt (links (cut_between p n h)) = (nxt (links h))(p := Some n)"
    and "prv (links (cut_between p n h)) = (prv (links h))(n := Some p)"
  using assms by (auto simp: fun_eq_iff nxt_links prv_links cut_between_def split: option.split)

lemma get_data_between [simp]:
  "lnodes h (brk h) = None \<Longrightarrow> a \<noteq> brk h \<Longrightarrow> p \<noteq> n \<Longrightarrow> get_data (Some a) (node_between d p n h) = get_data (Some a) h"
  "p \<noteq> brk h \<Longrightarrow> n \<noteq> brk h \<Longrightarrow> get_data (Some (brk h)) (node_between d p n h) = Some d"
  "p \<noteq> n \<Longrightarrow> get_data (Some a) (cut_between p n h) = get_data (Some a) h"
  by (auto simp: get_data_def node_between_def cut_between_def split: option.split bind_split)

lemma chain_node_between:
  assumes "chain (links h) (us @ p # n # vs)" and "lnodes h (brk h) = None"
  shows "chain (links (node_between d p n h)) (us @ p # brk h # n # vs)"
proof -
  have pn: "linked (links h) p n" "p \<noteq> n" using chain_mem_linked [OF assms(1)] assms(1) by (simp_all add: chain_def)
  have "brk h \<notin> set (us @ p # n # vs)"
    using chain_alive [OF assms(1), of "brk h"] assms(2) by (auto simp: alive_def links_def)
  then show ?thesis
    using assms(1) node_between_links [OF pn assms(2), of d] by (intro chain_insert_links [of "links h"]) auto
qed

lemma chain_cut_between:
  assumes "chain (links h) (us @ p # e # n # vs)"
  shows "chain (links (cut_between p n h)) (us @ p # n # vs)"
proof -
  have "alive (links h) p" "alive (links h) n" "p \<noteq> n"
    using assms chain_alive [OF assms] by (auto simp: chain_def)
  then show ?thesis
    using cut_between_links [of h p n] by (intro chain_remove_links [OF assms]) (auto simp: alive_def links_def)
qed

text \<open>Adding a node after \<open>us\<close>, and taking out the one after \<open>us\<close>.\<close>

lemma nrep_add:
  assumes "nrep h l (us @ vs) (xs @ ys)" and "length us = length xs" and "heap_ok h" and "int_room (length (xs @ ys))"
    and "p = last (dummy_head l # us)" and "n = hd (vs @ [dummy_tail l])"
    and h'_def: "h' = node_between d p n h"
  shows "linked (links h) p n" "p \<noteq> n" "nrep h' (l\<lparr>ll_size := int (Suc (length (xs @ ys)))\<rparr>) (us @ brk h # vs) (xs @ d # ys)"
    "heap_ok h'" "same_nodes ({brk h} \<union> node_set l (us @ vs)) h h'"
proof -
  obtain ps ns where ps: "dummy_head l # us = ps @ [p]" and ns: "vs @ [dummy_tail l] = n # ns"
    using assms(5,6) by (metis append_butlast_last_id list.distinct(1) list.collapse snoc_eq_iff_butlast)
  have "dummy_head l # (us @ vs) @ [dummy_tail l] = ps @ p # n # ns"
    using ps ns by (metis append.assoc append_Cons append_Nil)
  then have ch: "chain (links h) (ps @ p # n # ns)" using assms(1) by (simp add: nrep_def)
  show lk: "linked (links h) p n" "p \<noteq> n" using chain_mem_linked [OF ch] ch by (simp_all add: chain_def)
  note fr = heap_ok_fresh [OF assms(3,1)]
  have pn: "p \<in> node_set l (us @ vs)" "n \<in> node_set l (us @ vs)"
    using ps ns assms(5,6) by (auto simp: node_set_def hd_append)
  have "chain (links h') (ps @ p # brk h # n # ns)"
    using chain_node_between [OF ch fr(1)] by (simp add: h'_def)
  also have "ps @ p # brk h # n # ns = dummy_head l # (us @ brk h # vs) @ [dummy_tail l]"
    using ps ns by (metis append.assoc append_Cons append_Nil)
  finally have ch': "chain (links h') (dummy_head l # (us @ brk h # vs) @ [dummy_tail l])" .
  have gd: "get_data (Some a) h' = get_data (Some a) h" if "a \<in> node_set l (us @ vs)" for a
    using that fr lk(2) unfolding h'_def by (intro get_data_between(1)) auto
  have tl: "p \<noteq> dummy_tail l"
    using ps assms(1) by (auto simp: nrep_def chain_def) (metis in_set_conv_decomp set_ConsD)
  have ds: "map (\<lambda>a. get_data (Some a) h) us = map Some xs" "map (\<lambda>a. get_data (Some a) h) vs = map Some ys"
    using assms(1,2) by (simp_all add: nrep_def append_eq_append_conv)
  have "map (\<lambda>a. get_data (Some a) h') us = map Some xs" "map (\<lambda>a. get_data (Some a) h') vs = map Some ys"
    unfolding ds [symmetric] by (auto intro!: gd simp: node_set_def)
  moreover have "get_data (Some (brk h)) h' = Some d"
    using pn fr(2) unfolding h'_def by (intro get_data_between(2)) auto
  moreover have "get_data (Some (dummy_tail l)) h' = None"
    using gd [of "dummy_tail l"] assms(1) by (simp add: nrep_def node_set_def)
  moreover have "get_next (Some (dummy_tail l)) h' = get_next (Some (dummy_tail l)) h"
    using fr(2) tl by (cases "lnodes h (dummy_tail l)") (auto simp: h'_def get_next_def node_between_def node_set_def)
  ultimately show "nrep h' (l\<lparr>ll_size := int (Suc (length (xs @ ys)))\<rparr>) (us @ brk h # vs) (xs @ d # ys)"
    using ch' assms(1,4) by (simp add: nrep_def int_room_def)
  show "heap_ok h'"
    using assms(3) nrep_alive [OF assms(1) pn(1)] nrep_alive [OF assms(1) pn(2)]
    by (auto simp: heap_ok_def h'_def node_between_def)
  show "same_nodes ({brk h} \<union> node_set l (us @ vs)) h h'"
    using pn by (auto simp: same_nodes_def h'_def node_between_def)
qed

lemma nrep_cut:
  assumes "nrep h l (us @ e # vs) (xs @ d # ys)" and "length us = length xs"
    and "p = last (dummy_head l # us)" and "n = hd (vs @ [dummy_tail l])" and h'_def: "h' = cut_between p n h"
  shows "linked (links h) p e" "linked (links h) e n" "distinct [p, e, n]" "get_data (Some e) h = Some d"
    "nrep h' (l\<lparr>ll_size := int (length (xs @ ys))\<rparr>) (us @ vs) (xs @ ys)"
    "same_nodes (node_set l (us @ vs)) h h'" "heap_ok h \<Longrightarrow> heap_ok h'"
proof -
  obtain ps ns where ps: "dummy_head l # us = ps @ [p]" and ns: "vs @ [dummy_tail l] = n # ns"
    using assms(3,4) by (metis append_butlast_last_id list.distinct(1) list.collapse snoc_eq_iff_butlast)
  have "dummy_head l # (us @ e # vs) @ [dummy_tail l] = ps @ p # e # n # ns"
    using ps ns by (metis append.assoc append_Cons append_Nil)
  then have ch: "chain (links h) (ps @ p # e # n # ns)" using assms(1) by (simp add: nrep_def)
  show "linked (links h) p e" "linked (links h) e n" and dpn: "distinct [p, e, n]"
    using ch by (simp_all add: chain_def successively_append_iff)
  have pn: "p \<in> node_set l (us @ vs)" "n \<in> node_set l (us @ vs)"
    using ps ns assms(3,4) by (auto simp: node_set_def hd_append)
  have "chain (links h') (ps @ p # n # ns)" using chain_cut_between [OF ch] by (simp add: h'_def)
  also have "ps @ p # n # ns = dummy_head l # (us @ vs) @ [dummy_tail l]"
    using ps ns by (metis append.assoc append_Cons append_Nil)
  finally have ch': "chain (links h') (dummy_head l # (us @ vs) @ [dummy_tail l])" .
  have ds: "map (\<lambda>a. get_data (Some a) h) us = map Some xs" "map (\<lambda>a. get_data (Some a) h) (e # vs) = map Some (d # ys)"
    using assms(1,2) by (simp_all add: nrep_def append_eq_append_conv)
  then show "get_data (Some e) h = Some d" by simp
  have gd: "get_data (Some a) h' = get_data (Some a) h" for a using dpn by (simp add: h'_def)
  have "p \<noteq> dummy_tail l"
    using ps assms(1) by (auto simp: nrep_def chain_def) (metis in_set_conv_decomp set_ConsD)
  then have "get_next (Some (dummy_tail l)) h' = get_next (Some (dummy_tail l)) h"
    by (cases "lnodes h (dummy_tail l)") (auto simp: h'_def get_next_def cut_between_def)
  then show "nrep h' (l\<lparr>ll_size := int (length (xs @ ys))\<rparr>) (us @ vs) (xs @ ys)"
    using ch' ds assms(1) by (simp add: nrep_def gd)
  show "same_nodes (node_set l (us @ vs)) h h'"
    using pn by (auto simp: same_nodes_def h'_def cut_between_def)
  show "heap_ok h'" if "heap_ok h" using that by (simp add: heap_ok_def h'_def cut_between_def)
qed

subsection \<open>The operations on lists of data\<close>

abbreviation resized :: "('d, 'm) linked_list \<Rightarrow> 'd list \<Rightarrow> ('d, 'm) linked_list" where
  "resized l ds \<equiv> l\<lparr>ll_size := int (length ds)\<rparr>"

lemma add_tail_ok:
  assumes "nrep h l as ds" and "heap_ok h" and "int_room (length ds)"
  shows "\<exists>h'. add_tail d l h = Some (0, resized l (ds @ [d]), h') \<and> nrep h' (resized l (ds @ [d])) (as @ [brk h]) (ds @ [d]) \<and>
    heap_ok h' \<and> same_nodes ({brk h} \<union> node_set l as) h h'"
proof -
  note * = nrep_add [of h l as "[]" ds "[]" _ _ _ d, OF _ nrep_length assms(2) _ refl refl refl, simplified, OF assms(1,1,3)]
  show ?thesis
    using * add_tail_between [of h _ l "length ds" d, OF *(1,2) heap_ok_fresh(1) [OF assms(2,1)] _ assms(3)] assms(1)
    by (auto simp: nrep_def)
qed

lemma add_head_ok:
  assumes "nrep h l as ds" and "heap_ok h" and "int_room (length ds)"
  shows "\<exists>h'. add_head d l h = Some (0, resized l (d # ds), h') \<and> nrep h' (resized l (d # ds)) (brk h # as) (d # ds) \<and>
    heap_ok h' \<and> same_nodes ({brk h} \<union> node_set l as) h h'"
proof -
  note * = nrep_add [of h l "[]" as "[]" ds _ _ _ d, OF _ _ assms(2) _ refl refl refl, simplified, OF assms(1,3)]
  show ?thesis
    using * add_head_between [of h l _ "length ds" d, OF *(1,2) heap_ok_fresh(1) [OF assms(2,1)] _ assms(3)] assms(1)
    by (auto simp: nrep_def)
qed

lemma kernel_pop_head_ok:
  assumes "nrep h l (a # as) (d # ds)"
  shows "\<exists>h'. pop_head l h = Some (Done d, resized l ds, h') \<and> nrep h' (resized l ds) as ds \<and>
    (heap_ok h \<longrightarrow> heap_ok h') \<and> same_nodes (node_set l as) h h'"
proof -
  note * = nrep_cut [of h l "[]" a as "[]" d ds, simplified, OF assms refl refl refl]
  have "length ds < 2 ^ 31" "ll_size l = int (Suc (length ds))" using assms by (simp_all add: nrep_def)
  with * show ?thesis
    using unlink_node_between [of h _ a _ d l "length ds"] linked_get(1) [OF *(1)] by (auto simp: pop_head_def)
qed

lemma pop_tail_ok:
  assumes "nrep h l (as @ [a]) (ds @ [d])"
  shows "\<exists>h'. pop_tail l h = Some (Done d, resized l ds, h') \<and> nrep h' (resized l ds) as ds \<and>
    (heap_ok h \<longrightarrow> heap_ok h') \<and> same_nodes (node_set l as) h h'"
proof -
  have "length as = length ds" using nrep_length [OF assms] by simp
  note * = nrep_cut [of h l as a "[]" ds d "[]", simplified, OF assms this refl refl refl]
  have "length ds < 2 ^ 31" "ll_size l = int (Suc (length ds))" using assms by (simp_all add: nrep_def)
  with * show ?thesis
    using unlink_node_between [of h _ a _ d l "length ds"] linked_get(2) [OF *(2)] by (auto simp: pop_tail_def)
qed

lemma nrep_nth:
  assumes "nrep h l as ds" and "i < length ds"
  shows "get_data (Some (as ! i)) h = Some (ds ! i)"
proof -
  have "map (\<lambda>a. get_data (Some a) h) as ! i = map Some ds ! i" using assms(1) by (simp add: nrep_def)
  then show ?thesis using assms(2) nrep_length [OF assms(1)] by simp
qed

lemma nrep_step:
  assumes "nrep h l as ds" and "i \<le> length as"
  shows "get_next (Some ((dummy_head l # as) ! i)) h = Some (Some ((as @ [dummy_tail l]) ! i))"
proof -
  let ?z = "dummy_head l # as @ [dummy_tail l]"
  have "successively (linked (links h)) ?z" using assms(1) by (simp add: nrep_def chain_def)
  from successively_nth [OF this, of i] have "linked (links h) (?z ! i) (?z ! Suc i)" using assms(2) by simp
  moreover have "?z ! i = (dummy_head l # as) ! i" using assms(2) by (cases i) (auto simp: nth_append)
  ultimately show ?thesis using linked_get(1) by fastforce
qed

lemma index_loop_ok:
  assumes "nrep h l as ds" and "i + n \<le> length as"
  shows "index_loop n (Some ((as @ [dummy_tail l]) ! i)) h = Some (Some ((as @ [dummy_tail l]) ! (i + n)))"
  using assms(2)
proof (induction n arbitrary: i)
  case (Suc n)
  then have "get_next (Some (as ! i)) h = Some (Some ((as @ [dummy_tail l]) ! Suc i))"
    using nrep_step [OF assms(1), of "Suc i"] by simp
  then show ?case using Suc.IH [of "Suc i"] Suc.prems by (simp add: nth_append)
qed simp

lemma get_by_index_ok:
  assumes "nrep h l as ds"
  shows "0 \<le> i \<Longrightarrow> i < int (length ds) \<Longrightarrow> get_by_index l i h = Some (ds ! nat i, h)"
    and "i < 0 \<or> int (length ds) \<le> i \<Longrightarrow> get_by_index l i h = None"
proof -
  have sz: "ll_size l = int (length ds)" "length as = length ds" using assms nrep_length by (auto simp: nrep_def)
  show "get_by_index l i h = Some (ds ! nat i, h)" if "0 \<le> i" "i < int (length ds)"
    using that sz nrep_step [OF assms, of 0] index_loop_ok [OF assms, of 0 "nat i"] nrep_nth [OF assms, of "nat i"]
    by (auto simp: get_by_index_def get_node_by_index_def nth_append)
  show "get_by_index l i h = None" if "i < 0 \<or> int (length ds) \<le> i"
    using that sz by (auto simp: get_by_index_def get_node_by_index_def get_data_def)
qed

text \<open>The search compares with one datum after the other; when none is equal it goes on to the dummy tail,
  whose data was never written.\<close>

lemma value_loop_step:
  assumes "nrep h l as ds" and "i < length ds" and "equal_fn l m target (ds ! i) = Some e"
  shows "value_loop l m target (Some (as ! i)) h =
    (if e then Some (Some (as ! i)) else value_loop l m target (Some ((as @ [dummy_tail l]) ! Suc i)) h)"
proof -
  have "get_next (Some (as ! i)) h = Some (Some ((as @ [dummy_tail l]) ! Suc i))"
    using nrep_step [OF assms(1), of "Suc i"] assms(2) nrep_length [OF assms(1)] by simp
  then show ?thesis
    using nrep_nth [OF assms(1,2)] assms(3) by (subst value_loop.simps) simp
qed

lemma value_loop_finds:
  assumes "nrep h l as ds" and "k < length ds" and "i \<le> k" and "\<And>j. i \<le> j \<Longrightarrow> j < k \<Longrightarrow> equal_fn l m target (ds ! j) = Some False"
    and "equal_fn l m target (ds ! k) = Some True"
  shows "value_loop l m target (Some (as ! i)) h = Some (Some (as ! k))"
  using assms(3,4)
proof (induction "k - i" arbitrary: i)
  case 0
  then show ?case using value_loop_step [OF assms(1,2,5)] by simp
next
  case (Suc n)
  then have "i < length ds" "Suc i < length as" using assms(2) nrep_length [OF assms(1)] by auto
  moreover have "value_loop l m target (Some (as ! Suc i)) h = Some (Some (as ! k))"
    using Suc by (intro Suc.hyps(1)) auto
  ultimately show ?case
    using value_loop_step [OF assms(1), of i m target False] Suc by (simp add: nth_append)
qed

lemma value_loop_misses:
  assumes "nrep h l as ds" and "i \<le> length ds" and "\<And>j. i \<le> j \<Longrightarrow> j < length ds \<Longrightarrow> equal_fn l m target (ds ! j) = Some False"
  shows "value_loop l m target (Some ((as @ [dummy_tail l]) ! i)) h = None"
  using assms(2,3)
proof (induction "length ds - i" arbitrary: i)
  case 0
  then have "(as @ [dummy_tail l]) ! i = dummy_tail l" using nrep_length [OF assms(1)] by (simp add: nth_append)
  then show ?case using assms(1) by (subst value_loop.simps) (simp add: nrep_def)
next
  case (Suc n)
  then have "i < length ds" "(as @ [dummy_tail l]) ! i = as ! i" using nrep_length [OF assms(1)] by (auto simp: nth_append)
  moreover have "value_loop l m target (Some ((as @ [dummy_tail l]) ! Suc i)) h = None"
    using Suc by (intro Suc.hyps(1)) auto
  ultimately show ?case
    using value_loop_step [OF assms(1), of i m target False] Suc by simp
qed

lemma nrep_first:
  assumes "nrep h l as ds"
  shows "get_next (Some (dummy_head l)) h = Some (Some ((as @ [dummy_tail l]) ! 0))"
  using nrep_step [OF assms, of 0] by simp

lemma remove_elem_ok:
  assumes "nrep h l as (xs @ d # ys)" and "\<And>x. x \<in> set xs \<Longrightarrow> equal_fn l m target x = Some False"
    and "equal_fn l m target d = Some True"
  shows "\<exists>h' as'. remove_elem target m l h = Some (d, resized l (xs @ ys), h') \<and> nrep h' (resized l (xs @ ys)) as' (xs @ ys) \<and>
    (heap_ok h \<longrightarrow> heap_ok h') \<and> same_nodes (node_set l as) h h' \<and> node_set l as' \<subseteq> node_set l as"
proof -
  have len: "length as = length xs + Suc (length ys)" using nrep_length [OF assms(1)] by simp
  let ?k = "length xs"
  let ?us = "take ?k as" and ?e = "as ! ?k" and ?vs = "drop (Suc ?k) as"
  have as: "as = ?us @ ?e # ?vs" using len by (simp add: id_take_nth_drop)
  have lus: "length ?us = length xs" using len by simp
  note * = nrep_cut [of h l ?us ?e ?vs xs d ys, OF _ lus refl refl refl, folded as, OF assms(1)]
  have "value_loop l m target (Some (as ! 0)) h = Some (Some ?e)"
    using assms(2,3) by (intro value_loop_finds [OF assms(1)]) (auto simp: nth_append)
  moreover have "get_next (Some (dummy_head l)) h = Some (Some (as ! 0))"
    using nrep_first [OF assms(1)] len by (simp add: nth_append)
  ultimately have "get_node_by_value l m target h = Some (Some ?e)" by (simp add: get_node_by_value_def)
  moreover have "length (xs @ ys) < 2 ^ 31" "ll_size l = int (Suc (length (xs @ ys)))" using assms(1) by (simp_all add: nrep_def)
  ultimately have r: "remove_elem target m l h = Some (d, resized l (xs @ ys), cut_between (last (dummy_head l # ?us)) (hd (?vs @ [dummy_tail l])) h)"
    using unlink_node_between [OF *(1,2,3,4), of l "length (xs @ ys)"] by (simp add: remove_elem_def)
  have sub: "node_set l (?us @ ?vs) \<subseteq> node_set l as"
    unfolding node_set_def by (auto dest: in_set_takeD in_set_dropD)
  then have "same_nodes (node_set l as) h (cut_between (last (dummy_head l # ?us)) (hd (?vs @ [dummy_tail l])) h)"
    using *(6) unfolding same_nodes_def by blast
  with r sub *(5,7) show ?thesis by blast
qed

lemma list_init_ok:
  assumes "heap_ok h"
  shows "\<exists>l h'. list_init eq h = Some (l, h') \<and> nrep h' l [] [] \<and> heap_ok h' \<and> equal_fn l = eq \<and>
    same_nodes {brk h, brk h + 1} h h' \<and> node_set l [] = {brk h, brk h + 1}"
  using assms
  by (auto simp: list_init_def malloc_node_def access_defs nrep_def chain_def linked_def nxt_links prv_links heap_ok_def
      same_nodes_def node_set_def)

lemma list_clear_ok:
  assumes "nrep h l as ds"
  shows "\<exists>h'. list_clear l h = Some (resized l [], h') \<and> nrep h' (resized l []) [] [] \<and> (heap_ok h \<longrightarrow> heap_ok h') \<and>
    same_nodes (node_set l []) h h'"
proof -
  obtain x y where "lnodes h (dummy_head l) = Some x" "lnodes h (dummy_tail l) = Some y" "dummy_head l \<noteq> dummy_tail l"
    "n_next y = Some None" "n_data y = None"
    using assms nrep_alive [OF assms] by (fastforce simp: node_set_def nrep_def chain_def get_next_def get_data_def bind_eq_Some_conv)
  then show ?thesis
    by (auto simp: list_clear_def access_defs nrep_def chain_def linked_def nxt_links prv_links heap_ok_def
      same_nodes_def node_set_def)
qed

subsection \<open>The contract of a double-ended queue\<close>

text \<open>A list and the heap its nodes are on.\<close>

type_synonym ('d, 'm) lpair = "('d, 'm) linked_list \<times> 'd lheap"

definition holds :: "('d, 'm) lpair \<Rightarrow> 'd list \<Rightarrow> bool" where
  "holds s ds \<longleftrightarrow> heap_ok (snd s) \<and> (\<exists>as. nrep (snd s) (fst s) as ds)"

definition has_room :: "('d, 'm) lpair \<Rightarrow> 'd list \<Rightarrow> 'd list \<Rightarrow> bool" where
  "has_room s xs ys \<longleftrightarrow> length xs + length ys < 2 ^ 31"

definition pushing :: "(int \<times> ('d, 'm) lpair) option \<Rightarrow> ('d, 'm) lpair option" where
  "pushing r = map_option snd r"

definition popping :: "('d outcome \<times> ('d, 'm) lpair) option \<Rightarrow> ('d \<times> ('d, 'm) lpair) option" where
  "popping r = do { (v, s) \<leftarrow> r; case v of Done d \<Rightarrow> Some (d, s) | Exit n \<Rightarrow> None }"

interpretation kernel_deque: deque holds has_room "\<lambda>d (l, h). pushing (add_head d l h)"
  "\<lambda>d (l, h). pushing (add_tail d l h)" "\<lambda>(l, h). popping (pop_head l h)" "\<lambda>(l, h). popping (pop_tail l h)"
proof unfold_locales
  fix s :: "('d, 'm) lpair" and xs x ys assume "holds s xs" "has_room s xs (x # ys)"
  moreover from this have "int_room (length xs)" by (simp add: has_room_def int_room_def)
  ultimately show "\<exists>s'. (case s of (l, h) \<Rightarrow> pushing (add_head x l h)) = Some s' \<and> holds s' (x # xs) \<and> has_room s' (x # xs) ys"
    using add_head_ok [of "snd s" "fst s" _ xs x] by (fastforce simp: holds_def has_room_def pushing_def split: prod.split)
next
  fix s :: "('d, 'm) lpair" and xs x ys assume "holds s xs" "has_room s xs (x # ys)"
  moreover from this have "int_room (length xs)" by (simp add: has_room_def int_room_def)
  ultimately show "\<exists>s'. (case s of (l, h) \<Rightarrow> pushing (add_tail x l h)) = Some s' \<and> holds s' (xs @ [x]) \<and> has_room s' (xs @ [x]) ys"
    using add_tail_ok [of "snd s" "fst s" _ xs x] by (fastforce simp: holds_def has_room_def pushing_def split: prod.split)
next
  fix s :: "('d, 'm) lpair" and x xs assume "holds s (x # xs)"
  moreover from this obtain a as where "nrep (snd s) (fst s) (a # as) (x # xs)"
    unfolding holds_def by (metis nrep_length length_Suc_conv list.size(4) add.commute plus_1_eq_Suc)
  ultimately show "\<exists>s'. (case s of (l, h) \<Rightarrow> popping (pop_head l h)) = Some (x, s') \<and> holds s' xs"
    using kernel_pop_head_ok [of "snd s" "fst s" a as x xs] by (fastforce simp: holds_def popping_def split: prod.split)
next
  fix s :: "('d, 'm) lpair" and x xs assume "holds s (xs @ [x])"
  moreover from this obtain a as where "nrep (snd s) (fst s) (as @ [a]) (xs @ [x])"
    unfolding holds_def by (metis nrep_length length_append_singleton length_Suc_conv_rev)
  ultimately show "\<exists>s'. (case s of (l, h) \<Rightarrow> popping (pop_tail l h)) = Some (x, s') \<and> holds s' xs"
    using pop_tail_ok [of "snd s" "fst s" as a xs x] by (fastforce simp: holds_def popping_def split: prod.split)
qed

subsection \<open>Properties\<close>

definition sample_heap :: "nat lheap" where
  "sample_heap = \<lparr>lnodes = [0 \<mapsto> \<lparr>n_data = None, n_next = Some (Some 2), n_prev = None\<rparr>,
     1 \<mapsto> \<lparr>n_data = None, n_next = Some None, n_prev = Some (Some 3)\<rparr>,
     2 \<mapsto> \<lparr>n_data = Some 7, n_next = Some (Some 3), n_prev = Some (Some 0)\<rparr>,
     3 \<mapsto> \<lparr>n_data = Some 8, n_next = Some (Some 1), n_prev = Some (Some 2)\<rparr>], brk = 4, lout = []\<rparr>"

definition sample_ll :: "(nat, unit) linked_list" where
  "sample_ll = \<lparr>ll_size = 2, dummy_head = 0, dummy_tail = 1, equal_fn = (\<lambda>_ a b. Some (a = b))\<rparr>"

lemma sample_heap_facts: "heap_ok sample_heap" "nrep sample_heap sample_ll [2, 3] [7, 8]"
  by (auto simp: sample_heap_def sample_ll_def nrep_def heap_ok_def chain_def linked_def nxt_links prv_links access_defs)

text \<open>The two ways to add to a list of the kernel and the two ways to pop from it act on the list of
  its data as their names say, whatever other lists are on the heap, and popping from an
  empty list ends the program with status 99.\<close>

theorem kernel_list_ends:
  assumes "heap_ok h" and "nrep h l as ds" and "length ds < 2 ^ 31 - 1"
  shows "(\<exists>h'. add_tail d l h = Some (0, resized l (ds @ [d]), h') \<and> nrep h' (resized l (ds @ [d])) (as @ [brk h]) (ds @ [d])) \<and>
    (\<exists>h'. add_head d l h = Some (0, resized l (d # ds), h') \<and> nrep h' (resized l (d # ds)) (brk h # as) (d # ds)) \<and>
    (if ds = [] then (\<exists>h'. pop_head l h = Some (Exit 99, l, h')) \<and> (\<exists>h'. pop_tail l h = Some (Exit 99, l, h'))
     else (\<exists>h'. pop_head l h = Some (Done (hd ds), resized l (tl ds), h') \<and> nrep h' (resized l (tl ds)) (tl as) (tl ds)) \<and>
       (\<exists>h'. pop_tail l h = Some (Done (last ds), resized l (butlast ds), h') \<and>
          nrep h' (resized l (butlast ds)) (butlast as) (butlast ds)))"
proof (intro conjI)
  have room: "int_room (length ds)" using assms(3) by (simp add: int_room_def)
  show "\<exists>h'. add_tail d l h = Some (0, resized l (ds @ [d]), h') \<and> nrep h' (resized l (ds @ [d])) (as @ [brk h]) (ds @ [d])"
    using add_tail_ok [OF assms(2,1) room, of d] by blast
  show "\<exists>h'. add_head d l h = Some (0, resized l (d # ds), h') \<and> nrep h' (resized l (d # ds)) (brk h # as) (d # ds)"
    using add_head_ok [OF assms(2,1) room, of d] by blast
  show "if ds = [] then (\<exists>h'. pop_head l h = Some (Exit 99, l, h')) \<and> (\<exists>h'. pop_tail l h = Some (Exit 99, l, h'))
     else (\<exists>h'. pop_head l h = Some (Done (hd ds), resized l (tl ds), h') \<and> nrep h' (resized l (tl ds)) (tl as) (tl ds)) \<and>
       (\<exists>h'. pop_tail l h = Some (Done (last ds), resized l (butlast ds), h') \<and>
          nrep h' (resized l (butlast ds)) (butlast as) (butlast ds))"
  proof (cases "ds = []")
    case True
    then have "ll_size l = 0" using assms(2) by (simp add: nrep_def)
    with True show ?thesis by (simp add: pop_head_def pop_tail_def)
  next
    case False
    then have "as \<noteq> []" using nrep_length [OF assms(2)] by auto
    with False show ?thesis
      using assms(2) kernel_pop_head_ok [of h l "hd as" "tl as" "hd ds" "tl ds"]
        pop_tail_ok [of h l "butlast as" "last as" "butlast ds" "last ds"] by auto
  qed
qed

theorem kernel_list_ends_witness:
  "(\<exists>h'. add_tail 9 sample_ll sample_heap = Some (0, resized sample_ll [7, 8, 9], h') \<and> nrep h' (resized sample_ll [7, 8, 9]) [2, 3, 4] [7, 8, 9]) \<and>
   (\<exists>h'. pop_tail sample_ll sample_heap = Some (Done 8, resized sample_ll [7], h') \<and> nrep h' (resized sample_ll [7]) [2] [7])"
  using kernel_list_ends [OF sample_heap_facts, of 9] by (simp add: sample_heap_def)

text \<open>\<^verbatim>\<open>remove_elem\<close> takes out the first datum that \<^verbatim>\<open>equal\<close> accepts and keeps the others in order; when there is
  none, it compares with the data of the dummy tail, which was never written, and is undefined.\<close>

theorem remove_elem_first_or_undefined:
  assumes "nrep h l as (xs @ ys)" and "\<forall>x \<in> set xs. equal_fn l m target x = Some False"
    and "ys \<noteq> [] \<longrightarrow> equal_fn l m target (hd ys) = Some True"
  shows "case ys of [] \<Rightarrow> remove_elem target m l h = None
    | d # zs \<Rightarrow> \<exists>h' as'. remove_elem target m l h = Some (d, resized l (xs @ zs), h') \<and> nrep h' (resized l (xs @ zs)) as' (xs @ zs)"
proof (cases ys)
  case Nil
  then have "value_loop l m target (Some ((as @ [dummy_tail l]) ! 0)) h = None"
    using assms(1,2) by (intro value_loop_misses [where ds = xs]) auto
  then show ?thesis
    using Nil nrep_first [OF assms(1)] by (simp add: remove_elem_def get_node_by_value_def)
next
  case (Cons d zs)
  then show ?thesis using remove_elem_ok [of h l as xs d zs m target] assms by auto
qed

theorem remove_elem_first_or_undefined_witness:
  "(\<exists>h' as'. remove_elem 8 () sample_ll sample_heap = Some (8, resized sample_ll [7], h') \<and> nrep h' (resized sample_ll [7]) as' [7]) \<and>
   remove_elem 9 () sample_ll sample_heap = None"
  using remove_elem_first_or_undefined [of sample_heap sample_ll "[2, 3]" "[7]" "[8]" "()" 8]
    remove_elem_first_or_undefined [of sample_heap sample_ll "[2, 3]" "[7, 8]" "[]" "()" 9]
    sample_heap_facts(2) by (simp add: sample_ll_def)

text \<open>A list of the kernel that is filled at its tail and emptied at its head, as the ready queue is, and one
  that is filled at its head and emptied at its tail, as the cache of pages is, both give back the
  data in the order in which they came.\<close>

theorem kernel_list_order:
  assumes "holds (l, h) []" and "length ds < 2 ^ 31"
  shows "(\<exists>s1 s2. push_each (\<lambda>d (l, h). pushing (add_tail d l h)) ds (l, h) = Some s1 \<and>
      pop_each (\<lambda>(l, h). popping (pop_head l h)) (length ds) s1 = Some (ds, s2) \<and> holds s2 []) \<and>
    (\<exists>s1 s2. push_each (\<lambda>d (l, h). pushing (add_head d l h)) ds (l, h) = Some s1 \<and>
      pop_each (\<lambda>(l, h). popping (pop_tail l h)) (length ds) s1 = Some (ds, s2) \<and> holds s2 [])"
  using kernel_deque.in_order(1,3) [OF assms(1), of ds] assms(2) by (simp add: has_room_def)

theorem kernel_list_order_witness:
  "\<exists>l h. list_init (\<lambda>_ a b. Some (a = b)) \<lparr>lnodes = Map.empty, brk = 0, lout = []\<rparr> = Some (l, h) \<and>
     (\<exists>s1 s2. push_each (\<lambda>d (l, h). pushing (add_tail d l h)) [5, 6, 5 :: nat] (l :: (nat, unit) linked_list, h) = Some s1 \<and>
        pop_each (\<lambda>(l, h). popping (pop_head l h)) 3 s1 = Some ([5, 6, 5], s2))"
proof -
  have "heap_ok \<lparr>lnodes = Map.empty, brk = 0, lout = []\<rparr>" by (simp add: heap_ok_def)
  from list_init_ok [OF this] obtain l h where
    l: "list_init (\<lambda>(_::unit) a b. Some (a = (b::nat))) \<lparr>lnodes = Map.empty, brk = 0, lout = []\<rparr> = Some (l, h)"
    "nrep h l [] []" "heap_ok h" by blast
  then have "holds (l, h) []" by (auto simp: holds_def)
  from kernel_list_order [OF this, of "[5, 6, 5]"] l(1) show ?thesis by (auto simp: numeral_3_eq_3)
qed

end
