(* ===== verification/A3_Kernel.thy ===== *)
theory A3_Kernel
  imports Linked_List Shell_Memory Round_Robin
begin

text \<open>
  The kernel of the third shell: \<^verbatim>\<open>a3/kernel.c\<close> and \<^verbatim>\<open>a3/cpu.c\<close>. Three linked lists on one heap hold the ready
  queue, the pages in the order of their use and all processes. A process control block is an object on a heap of
  its own; its pages are part of it, and a pointer to a page is the pointer to the process with the number of the
  page. \<^verbatim>\<open>free_PCB\<close> takes the block off the heap, so that an access after it is undefined.

  The state is a record that the shell extends: the parser, which runs a line of a program, acts on the extended
  state.
\<close>

datatype kref = PcbRef nat | PageRef nat nat

type_synonym pcb_heap = "nat \<rightharpoonup> pcb_a3"
type_synonym klist = "(kref, pcb_heap) linked_list"

record kernel =
  k_heap :: "kref lheap"
  QUEUE :: klist
  LRU_CACHE :: klist
  ALL_PCB :: klist
  k_pcbs :: pcb_heap
  k_brk :: nat
  PID_counter :: int
  k_mem :: memory_a3

type_synonym ('z, 'x) kreply = "('x outcome \<times> 'z kernel_scheme) option"
type_synonym 'z kparser = "string \<Rightarrow> 'z kernel_scheme \<Rightarrow> ('z, int) kreply"

text \<open>An access to an array.\<close>

definition at :: "'a list \<Rightarrow> nat \<Rightarrow> 'a option" where
  "at xs i = (if i < length xs then Some (xs ! i) else None)"

subsection \<open>References\<close>

definition pcb_at :: "pcb_heap \<Rightarrow> kref \<Rightarrow> pcb_a3 option" where
  "pcb_at m r = (case r of PcbRef b \<Rightarrow> m b | PageRef b i \<Rightarrow> None)"

definition page_at :: "pcb_heap \<Rightarrow> kref \<Rightarrow> page option" where
  "page_at m r = (case r of PageRef b i \<Rightarrow> do { p \<leftarrow> m b; at (page_table p) i } | PcbRef b \<Rightarrow> None)"

text \<open>The comparison functions of the lists.\<close>

definition PCB_equal_at :: "pcb_heap \<Rightarrow> kref \<Rightarrow> kref \<Rightarrow> bool option" where
  "PCB_equal_at m a b = do { p \<leftarrow> pcb_at m a; q \<leftarrow> pcb_at m b; Some (PCB_equal p q) }"

definition PAGE_equal_at :: "pcb_heap \<Rightarrow> kref \<Rightarrow> kref \<Rightarrow> bool option" where
  "PAGE_equal_at m a b = do { p \<leftarrow> page_at m a; q \<leftarrow> page_at m b; Some (PAGE_equal p q) }"

text \<open>The operations of the lists in the state.\<close>

definition on_ready :: "(klist \<Rightarrow> kref lheap \<Rightarrow> ('x \<times> klist \<times> kref lheap) option) \<Rightarrow> 'z kernel_scheme \<Rightarrow> ('x \<times> 'z kernel_scheme) option" where
  "on_ready f s = do { (x, l, h) \<leftarrow> f (QUEUE s) (k_heap s); Some (x, s\<lparr>QUEUE := l, k_heap := h\<rparr>) }"

definition on_lru :: "(klist \<Rightarrow> kref lheap \<Rightarrow> ('x \<times> klist \<times> kref lheap) option) \<Rightarrow> 'z kernel_scheme \<Rightarrow> ('x \<times> 'z kernel_scheme) option" where
  "on_lru f s = do { (x, l, h) \<leftarrow> f (LRU_CACHE s) (k_heap s); Some (x, s\<lparr>LRU_CACHE := l, k_heap := h\<rparr>) }"

definition on_all :: "(klist \<Rightarrow> kref lheap \<Rightarrow> ('x \<times> klist \<times> kref lheap) option) \<Rightarrow> 'z kernel_scheme \<Rightarrow> ('x \<times> 'z kernel_scheme) option" where
  "on_all f s = do { (x, l, h) \<leftarrow> f (ALL_PCB s) (k_heap s); Some (x, s\<lparr>ALL_PCB := l, k_heap := h\<rparr>) }"

abbreviation k_out :: "'z kernel_scheme \<Rightarrow> console" where
  "k_out s \<equiv> lout (k_heap s)"

definition set_out :: "console \<Rightarrow> 'z kernel_scheme \<Rightarrow> 'z kernel_scheme" where
  "set_out t s = s\<lparr>k_heap := (k_heap s)\<lparr>lout := t\<rparr>\<rparr>"

definition put_pcb_a3 :: "nat \<Rightarrow> pcb_a3 \<Rightarrow> 'z kernel_scheme \<Rightarrow> 'z kernel_scheme" where
  "put_pcb_a3 b p s = s\<lparr>k_pcbs := (k_pcbs s)(b \<mapsto> p)\<rparr>"

subsection \<open>Starting the kernel: kernel.c\<close>

definition kernel_setup :: "'z kernel_scheme \<Rightarrow> 'z kernel_scheme option" where
  "kernel_setup s =
     do { (q, h) \<leftarrow> list_init PCB_equal_at (k_heap s);
          (l, h) \<leftarrow> list_init PAGE_equal_at h;
          (a, h) \<leftarrow> list_init PCB_equal_at h;
          Some (s\<lparr>QUEUE := q, LRU_CACHE := l, ALL_PCB := a, k_heap := h\<rparr>) }"

subsection \<open>The processor: cpu.c\<close>

text \<open>The arguments of \<^verbatim>\<open>cpu_run\<close> are pointers into the process \<open>b\<close>: its counter for page \<open>i\<close>, its size, and the index and the
  valid bit of line \<open>j\<close> of the page. The line is a copy of the cell, which the parser may change.\<close>

definition cpu_run :: "'z kparser \<Rightarrow> nat \<Rightarrow> nat \<Rightarrow> nat \<Rightarrow> 'z kernel_scheme \<Rightarrow> ('z, int) kreply" where
  "cpu_run parse b i j s =
     do { p \<leftarrow> k_pcbs s b; pg \<leftarrow> at (page_table p) i; v \<leftarrow> at (valid_bit pg) j;
          if v = 0 then Some (Done 1, s)
          else do { start_pos \<leftarrow> at (index pg) j;
                    ln \<leftarrow> mem_get_value_at start_pos (k_mem s);
                    (r, s) \<leftarrow> parse ln s;
                    case r of
                      Exit c \<Rightarrow> Some (Exit c, s)
                    | Done ret \<Rightarrow>
                        do { p \<leftarrow> k_pcbs s b; c \<leftarrow> at (program_counter p) i;
                             Some (Done ret, put_pcb_a3 b (p\<lparr>program_counter := (program_counter p)[i := c + 1],
                                                             lines_a3 := lines_a3 p - 1\<rparr>) s) } } }"

definition proc_done :: "int \<Rightarrow> bool" where
  "proc_done n \<longleftrightarrow> \<not> 0 < n"

subsection \<open>Running a process: kernel.c\<close>

text \<open>The search for the owner of the victim page starts at the head of \<^verbatim>\<open>ALL_PCB\<close> and stops at the end of \<^verbatim>\<open>QUEUE\<close>, another
  list.\<close>

partial_function (option) owner_loop :: "nat \<Rightarrow> int \<Rightarrow> elem_ptr \<Rightarrow> pcb_heap \<Rightarrow> kref lheap \<Rightarrow> elem_ptr option" where
  "owner_loop stop vpid cur m h =
     (if cur = Some stop then Some cur
      else do { d \<leftarrow> get_data cur h; p \<leftarrow> pcb_at m d;
                if pid_a3 p \<noteq> vpid then do { cur \<leftarrow> get_next cur h; owner_loop stop vpid cur m h } else Some cur })"

definition load_in :: "nat \<Rightarrow> nat \<Rightarrow> 'z kernel_scheme \<Rightarrow> (int \<times> 'z kernel_scheme) option" where
  "load_in b i s =
     do { p \<leftarrow> k_pcbs s b; (e, p, m) \<leftarrow> load_PAGE p i (k_mem s); Some (e, put_pcb_a3 b p (s\<lparr>k_mem := m\<rparr>)) }"

text \<open>No frame is free: the page used least recently is evicted, and loading is tried once more.\<close>

definition evict_for :: "nat \<Rightarrow> nat \<Rightarrow> 'z kernel_scheme \<Rightarrow> ('z, unit) kreply" where
  "evict_for b i s =
     do { (r, s) \<leftarrow> on_lru pop_tail s;
          case r of
            Exit c \<Rightarrow> Some (Exit c, s)
          | Done v \<Rightarrow>
              do { victim_page \<leftarrow> page_at (k_pcbs s) v;
                   cur \<leftarrow> get_next (Some (dummy_head (ALL_PCB s))) (k_heap s);
                   cur \<leftarrow> owner_loop (dummy_tail (QUEUE s)) (page_pid victim_page) cur (k_pcbs s) (k_heap s);
                   if cur = None
                   then Some (Exit 99, set_out (k_out s @ [Print ''cannot find PCB to be deleted'']) s)
                   else do { d \<leftarrow> get_data cur (k_heap s);
                             case d of
                               PageRef c k \<Rightarrow> None
                             | PcbRef c \<Rightarrow>
                                 do { p \<leftarrow> k_pcbs s c;
                                      (p, m, t) \<leftarrow> PAGE_evict p (nat (page_index victim_page)) (k_mem s) (k_out s);
                                      (e, s) \<leftarrow> load_in b i (set_out t (put_pcb_a3 c p (s\<lparr>k_mem := m\<rparr>)));
                                      Some (Done (), s) } } } }"

definition run_proc :: "'z kparser \<Rightarrow> nat \<Rightarrow> nat \<Rightarrow> nat \<Rightarrow> 'z kernel_scheme \<Rightarrow> ('z, int) kreply" where
  "run_proc parse b i j s =
     do { (r, s) \<leftarrow> cpu_run parse b i j s;
          case r of
            Exit c \<Rightarrow> Some (Exit c, s)
          | Done ret \<Rightarrow>
              if ret = 1
              then do { (e, s) \<leftarrow> load_in b i s;
                        (r, s) \<leftarrow> (if e = 1 then evict_for b i s else Some (Done (), s));
                        case r of
                          Exit c \<Rightarrow> Some (Exit c, s)
                        | Done u \<Rightarrow> do { (x, s) \<leftarrow> on_lru (add_head (PageRef b i)) s;
                                        (x, s) \<leftarrow> on_ready (add_tail (PcbRef b)) s;
                                        Some (Done 1, s) } }
              else do { (pg, s) \<leftarrow> on_lru (remove_elem (PageRef b i) (k_pcbs s)) s;
                        (x, s) \<leftarrow> on_lru (add_head pg) s;
                        Some (Done 0, s) } }"

text \<open>The pages that \<^verbatim>\<open>PCB_init\<close> has loaded enter the list of pages. \<open>files\<close> gives the text of a file of the host.\<close>

fun add_pages :: "nat \<Rightarrow> nat \<Rightarrow> nat \<Rightarrow> 'z kernel_scheme \<Rightarrow> 'z kernel_scheme option" where
  "add_pages b i 0 s = Some s"
| "add_pages b i (Suc n) s = do { (x, s) \<leftarrow> on_lru (add_head (PageRef b i)) s; add_pages b (Suc i) n s }"

definition new_proc :: "(string \<Rightarrow> string option) \<Rightarrow> string \<Rightarrow> 'z kernel_scheme \<Rightarrow> ('z, int) kreply" where
  "new_proc files script s =
     do { (r, m, t) \<leftarrow> PCB_init (PID_counter s) script (files script) (k_mem s) (k_out s);
          let s = set_out t (s\<lparr>k_mem := m, PID_counter := PID_counter s + 1\<rparr>);
          case r of
            Exit c \<Rightarrow> Some (Exit c, s)
          | Done p \<Rightarrow>
              do { let b = k_brk s; let s = put_pcb_a3 b p (s\<lparr>k_brk := b + 1\<rparr>);
                   (x, s) \<leftarrow> on_all (add_tail (PcbRef b)) s;
                   (e, s) \<leftarrow> on_ready (add_tail (PcbRef b)) s;
                   if e \<noteq> 0 then Some (Done 1, s)
                   else do { s \<leftarrow> add_pages b 0 (nat (if 2 > page_table_size p then page_table_size p else 2)) s;
                             Some (Done 0, s) } } }"

definition free_proc :: "kref \<Rightarrow> 'z kernel_scheme \<Rightarrow> 'z kernel_scheme option" where
  "free_proc r s =
     (case r of
        PcbRef b \<Rightarrow> do { p \<leftarrow> k_pcbs s b; m \<leftarrow> free_PCB p (k_mem s); Some (s\<lparr>k_mem := m, k_pcbs := (k_pcbs s)(b := None)\<rparr>) }
      | PageRef b i \<Rightarrow> None)"

subsection \<open>First in, first out: kernel.c\<close>

text \<open>The first line whose valid bit is set; with none the search runs past the page table.\<close>

definition first_valid :: "page list \<Rightarrow> (nat \<times> nat) option" where
  "first_valid pgs =
     do { i \<leftarrow> find (\<lambda>i. \<exists>j < 3. valid_bit (pgs ! i) ! j \<noteq> 0) [0..<length pgs];
          j \<leftarrow> find (\<lambda>j. valid_bit (pgs ! i) ! j \<noteq> 0) [0..<3];
          Some (i, j) }"

partial_function (option) fifo_lines :: "'z kparser \<Rightarrow> nat \<Rightarrow> 'z kernel_scheme \<Rightarrow> ('z, unit) kreply" where
  "fifo_lines parse b s =
     do { p \<leftarrow> k_pcbs s b;
          if proc_done (lines_a3 p) then Some (Done (), s)
          else do { (i, j) \<leftarrow> first_valid (page_table p);
                    (r, s) \<leftarrow> run_proc parse b i j s;
                    case r of Exit c \<Rightarrow> Some (Exit c, s) | Done ret \<Rightarrow> fifo_lines parse b s } }"

definition fifo_turn :: "'z kparser \<Rightarrow> 'z kernel_scheme \<Rightarrow> ('z, unit) kreply" where
  "fifo_turn parse s =
     do { (r, s) \<leftarrow> on_ready pop_head s;
          case r of
            Exit c \<Rightarrow> Some (Exit c, s)
          | Done (PageRef b i) \<Rightarrow> None
          | Done (PcbRef b) \<Rightarrow>
              do { (r, s) \<leftarrow> fifo_lines parse b s;
                   case r of
                     Exit c \<Rightarrow> Some (Exit c, s)
                   | Done u \<Rightarrow> do { s \<leftarrow> free_proc (PcbRef b) s; Some (Done (), s) } } }"

partial_function (option) fifo_loop :: "'z kparser \<Rightarrow> 'z kernel_scheme \<Rightarrow> ('z, int) kreply" where
  "fifo_loop parse s =
     (if ll_size (QUEUE s) > 0
      then do { (r, s) \<leftarrow> fifo_turn parse s;
                case r of Exit c \<Rightarrow> Some (Exit c, s) | Done u \<Rightarrow> fifo_loop parse s }
      else Some (Done 0, s))"

definition run_proc_FIFO :: "'z kparser \<Rightarrow> 'z kernel_scheme \<Rightarrow> ('z, int) kreply" where
  "run_proc_FIFO parse s = fifo_loop parse s"

subsection \<open>Round robin: kernel.c\<close>

partial_function (option) done_loop :: "elem_ptr \<Rightarrow> pcb_heap \<Rightarrow> kref lheap \<Rightarrow> bool option" where
  "done_loop cur m h =
     do { more \<leftarrow> has_next cur h;
          if more
          then do { (d, cur) \<leftarrow> next_elem cur h; p \<leftarrow> pcb_at m d;
                    if PCB_done p then done_loop cur m h else Some False }
          else Some True }"

definition queue_done :: "'z kernel_scheme \<Rightarrow> bool option" where
  "queue_done s =
     do { cur \<leftarrow> get_next (Some (dummy_head (QUEUE s))) (k_heap s); done_loop cur (k_pcbs s) (k_heap s) }"

text \<open>The next line of a process: in the first page whose counter is not 3.\<close>

definition run_next :: "'z kparser \<Rightarrow> nat \<Rightarrow> 'z kernel_scheme \<Rightarrow> ('z, int) kreply" where
  "run_next parse b s =
     do { p \<leftarrow> k_pcbs s b;
          let i = length (takeWhile (\<lambda>c. c = 3) (take (nat (page_table_size p)) (program_counter p)));
          j \<leftarrow> at (program_counter p) i;
          run_proc parse b i (nat j) s }"

text \<open>One round of the loop: two lines of a process with more than one line left, which goes back to the queue; one line of a
  process with one line left. After a page fault the round is over.\<close>

definition rr_turn_a3 :: "'z kparser \<Rightarrow> 'z kernel_scheme \<Rightarrow> ('z, unit) kreply" where
  "rr_turn_a3 parse s =
     do { (r, s) \<leftarrow> on_ready pop_head s;
          case r of
            Exit c \<Rightarrow> Some (Exit c, s)
          | Done (PageRef b i) \<Rightarrow> None
          | Done (PcbRef b) \<Rightarrow>
              do { p \<leftarrow> k_pcbs s b;
                   if lines_a3 p > 1
                   then do { (r, s) \<leftarrow> run_next parse b s;
                             case r of
                               Exit c \<Rightarrow> Some (Exit c, s)
                             | Done ret \<Rightarrow>
                                 if ret = 1 then Some (Done (), s)
                                 else do { (r, s) \<leftarrow> run_next parse b s;
                                           case r of
                                             Exit c \<Rightarrow> Some (Exit c, s)
                                           | Done ret \<Rightarrow>
                                               if ret = 1 then Some (Done (), s)
                                               else do { (x, s) \<leftarrow> on_ready (add_tail (PcbRef b)) s; Some (Done (), s) } } }
                   else if lines_a3 p = 1
                   then do { (r, s) \<leftarrow> run_next parse b s;
                             case r of Exit c \<Rightarrow> Some (Exit c, s) | Done ret \<Rightarrow> Some (Done (), s) }
                   else Some (Done (), s) } }"

partial_function (option) rr_loop :: "'z kparser \<Rightarrow> 'z kernel_scheme \<Rightarrow> ('z, unit) kreply" where
  "rr_loop parse s =
     do { d \<leftarrow> queue_done s;
          if d then Some (Done (), s)
          else do { (r, s) \<leftarrow> rr_turn_a3 parse s;
                    case r of Exit c \<Rightarrow> Some (Exit c, s) | Done u \<Rightarrow> rr_loop parse s } }"

partial_function (option) free_procs :: "elem_ptr \<Rightarrow> 'z kernel_scheme \<Rightarrow> 'z kernel_scheme option" where
  "free_procs cur s =
     do { more \<leftarrow> has_next cur (k_heap s);
          if more
          then do { (d, cur) \<leftarrow> next_elem cur (k_heap s); s \<leftarrow> free_proc d s; free_procs cur s }
          else Some s }"

definition clear_lists :: "'z kernel_scheme \<Rightarrow> 'z kernel_scheme option" where
  "clear_lists s =
     do { (q, h) \<leftarrow> list_clear (QUEUE s) (k_heap s);
          (l, h) \<leftarrow> list_clear (LRU_CACHE s) h;
          (a, h) \<leftarrow> list_clear (ALL_PCB s) h;
          Some (s\<lparr>QUEUE := q, LRU_CACHE := l, ALL_PCB := a, k_heap := h\<rparr>) }"

definition run_proc_RR :: "'z kparser \<Rightarrow> 'z kernel_scheme \<Rightarrow> ('z, int) kreply" where
  "run_proc_RR parse s =
     do { (r, s) \<leftarrow> rr_loop parse s;
          case r of
            Exit c \<Rightarrow> Some (Exit c, s)
          | Done u \<Rightarrow> do { cur \<leftarrow> get_next (Some (dummy_head (ALL_PCB s))) (k_heap s);
                          s \<leftarrow> free_procs cur s;
                          s \<leftarrow> clear_lists s;
                          Some (Done 0, s) } }"

subsection \<open>The three lists\<close>

text \<open>The lists hold these references, on nodes of their own.\<close>

definition on_own_nodes :: "'z kernel_scheme \<Rightarrow> nat list \<Rightarrow> nat list \<Rightarrow> nat list \<Rightarrow> bool" where
  "on_own_nodes s as bs cs \<longleftrightarrow> node_set (QUEUE s) as \<inter> node_set (LRU_CACHE s) bs = {} \<and>
     node_set (QUEUE s) as \<inter> node_set (ALL_PCB s) cs = {} \<and> node_set (LRU_CACHE s) bs \<inter> node_set (ALL_PCB s) cs = {}"

definition klists :: "'z kernel_scheme \<Rightarrow> kref list \<Rightarrow> kref list \<Rightarrow> kref list \<Rightarrow> bool" where
  "klists s qs ls zs \<longleftrightarrow> heap_ok (k_heap s) \<and> equal_fn (LRU_CACHE s) = PAGE_equal_at \<and>
     (\<exists>as bs cs. nrep (k_heap s) (QUEUE s) as qs \<and> nrep (k_heap s) (LRU_CACHE s) bs ls \<and> nrep (k_heap s) (ALL_PCB s) cs zs \<and>
        on_own_nodes s as bs cs)"

lemma klistsI:
  assumes "heap_ok (k_heap s)" and "equal_fn (LRU_CACHE s) = PAGE_equal_at" and "nrep (k_heap s) (QUEUE s) as qs"
    and "nrep (k_heap s) (LRU_CACHE s) bs ls" and "nrep (k_heap s) (ALL_PCB s) cs zs" and "on_own_nodes s as bs cs"
  shows "klists s qs ls zs"
  using assms unfolding klists_def by blast

text \<open>Everything but the lists.\<close>

definition same_core :: "'z kernel_scheme \<Rightarrow> 'z kernel_scheme \<Rightarrow> bool" where
  "same_core s s' \<longleftrightarrow> k_pcbs s' = k_pcbs s \<and> k_mem s' = k_mem s \<and> k_out s' = k_out s \<and> k_brk s' = k_brk s \<and>
     PID_counter s' = PID_counter s \<and> kernel.more s' = kernel.more s"

lemma node_set_resized [simp]: "node_set (l\<lparr>ll_size := n\<rparr>) as = node_set l as"
  by (simp add: node_set_def)

lemma same_nodes_out: "same_nodes A h h' \<Longrightarrow> lout h' = lout h"
  by (simp add: same_nodes_def)

lemma ready_pop:
  assumes "klists s (r # qs) ls zs"
  shows "\<exists>s'. on_ready pop_head s = Some (Done r, s') \<and> klists s' qs ls zs \<and> same_core s s'"
proof -
  from assms obtain as' bs cs where q': "nrep (k_heap s) (QUEUE s) as' (r # qs)" and l: "nrep (k_heap s) (LRU_CACHE s) bs ls"
    and z: "nrep (k_heap s) (ALL_PCB s) cs zs" and d': "on_own_nodes s as' bs cs"
    and e: "heap_ok (k_heap s)" "equal_fn (LRU_CACHE s) = PAGE_equal_at"
    unfolding klists_def by blast
  obtain a as where "as' = a # as" using nrep_length [OF q'] by (cases as') auto
  then have q: "nrep (k_heap s) (QUEUE s) (a # as) (r # qs)" and d: "on_own_nodes s (a # as) bs cs" using q' d' by auto
  obtain h' where h': "pop_head (QUEUE s) (k_heap s) = Some (Done r, resized (QUEUE s) qs, h')" "nrep h' (resized (QUEUE s) qs) as qs"
    "heap_ok h'" "same_nodes (node_set (QUEUE s) as) (k_heap s) h'"
    using kernel_pop_head_ok [OF q] e(1) by auto
  let ?s = "s\<lparr>QUEUE := resized (QUEUE s) qs, k_heap := h'\<rparr>"
  have d': "on_own_nodes ?s as bs cs" using d by (auto simp: on_own_nodes_def node_set_def)
  have "nrep h' (LRU_CACHE s) bs ls" "nrep h' (ALL_PCB s) cs zs"
    using nrep_frame [OF l h'(4)] nrep_frame [OF z h'(4)] d' by (auto simp: on_own_nodes_def)
  then have "klists ?s qs ls zs" using h' e d' by (intro klistsI [of _ as _ bs _ cs]) simp_all
  then show ?thesis using h' by (auto simp: on_ready_def same_core_def same_nodes_out)
qed

lemma ready_add:
  assumes "klists s qs ls zs" and "int_room (length qs)"
  shows "\<exists>s'. on_ready (add_tail r) s = Some (0, s') \<and> klists s' (qs @ [r]) ls zs \<and> same_core s s'"
proof -
  from assms(1) obtain as bs cs where q: "nrep (k_heap s) (QUEUE s) as qs" and l: "nrep (k_heap s) (LRU_CACHE s) bs ls"
    and z: "nrep (k_heap s) (ALL_PCB s) cs zs" and d: "on_own_nodes s as bs cs"
    and e: "heap_ok (k_heap s)" "equal_fn (LRU_CACHE s) = PAGE_equal_at"
    unfolding klists_def by blast
  let ?b = "brk (k_heap s)"
  obtain h' where h': "add_tail r (QUEUE s) (k_heap s) = Some (0, resized (QUEUE s) (qs @ [r]), h')"
    "nrep h' (resized (QUEUE s) (qs @ [r])) (as @ [?b]) (qs @ [r])"
    "heap_ok h'" "same_nodes ({?b} \<union> node_set (QUEUE s) as) (k_heap s) h'"
    using add_tail_ok [OF q e(1) assms(2), of r] by auto
  let ?s = "s\<lparr>QUEUE := resized (QUEUE s) (qs @ [r]), k_heap := h'\<rparr>"
  have "?b \<notin> node_set (LRU_CACHE s) bs" "?b \<notin> node_set (ALL_PCB s) cs"
    using heap_ok_fresh(2) [OF e(1) l] heap_ok_fresh(2) [OF e(1) z] by auto
  then have d': "on_own_nodes ?s (as @ [?b]) bs cs" and n: "({?b} \<union> node_set (QUEUE s) as) \<inter> node_set (LRU_CACHE s) bs = {}"
    "({?b} \<union> node_set (QUEUE s) as) \<inter> node_set (ALL_PCB s) cs = {}"
    using d by (auto simp: on_own_nodes_def node_set_def)
  have "nrep h' (LRU_CACHE s) bs ls" "nrep h' (ALL_PCB s) cs zs"
    using nrep_frame [OF l h'(4) n(1)] nrep_frame [OF z h'(4) n(2)] by auto
  then have "klists ?s (qs @ [r]) ls zs" using h' e d' by (intro klistsI [of _ "as @ [?b]" _ bs _ cs]) simp_all
  then show ?thesis using h' by (auto simp: on_ready_def same_core_def same_nodes_out)
qed

lemma all_add:
  assumes "klists s qs ls zs" and "int_room (length zs)"
  shows "\<exists>s'. on_all (add_tail r) s = Some (0, s') \<and> klists s' qs ls (zs @ [r]) \<and> same_core s s'"
proof -
  from assms(1) obtain as bs cs where q: "nrep (k_heap s) (QUEUE s) as qs" and l: "nrep (k_heap s) (LRU_CACHE s) bs ls"
    and z: "nrep (k_heap s) (ALL_PCB s) cs zs" and d: "on_own_nodes s as bs cs"
    and e: "heap_ok (k_heap s)" "equal_fn (LRU_CACHE s) = PAGE_equal_at"
    unfolding klists_def by blast
  let ?b = "brk (k_heap s)"
  obtain h' where h': "add_tail r (ALL_PCB s) (k_heap s) = Some (0, resized (ALL_PCB s) (zs @ [r]), h')"
    "nrep h' (resized (ALL_PCB s) (zs @ [r])) (cs @ [?b]) (zs @ [r])"
    "heap_ok h'" "same_nodes ({?b} \<union> node_set (ALL_PCB s) cs) (k_heap s) h'"
    using add_tail_ok [OF z e(1) assms(2), of r] by auto
  let ?s = "s\<lparr>ALL_PCB := resized (ALL_PCB s) (zs @ [r]), k_heap := h'\<rparr>"
  have "?b \<notin> node_set (LRU_CACHE s) bs" "?b \<notin> node_set (QUEUE s) as"
    using heap_ok_fresh(2) [OF e(1) l] heap_ok_fresh(2) [OF e(1) q] by auto
  then have d': "on_own_nodes ?s as bs (cs @ [?b])" and n: "({?b} \<union> node_set (ALL_PCB s) cs) \<inter> node_set (LRU_CACHE s) bs = {}"
    "({?b} \<union> node_set (ALL_PCB s) cs) \<inter> node_set (QUEUE s) as = {}"
    using d by (auto simp: on_own_nodes_def node_set_def)
  have "nrep h' (LRU_CACHE s) bs ls" "nrep h' (QUEUE s) as qs"
    using nrep_frame [OF l h'(4) n(1)] nrep_frame [OF q h'(4) n(2)] by auto
  then have "klists ?s qs ls (zs @ [r])" using h' e d' by (intro klistsI [of _ as _ bs _ "cs @ [?b]"]) simp_all
  then show ?thesis using h' by (auto simp: on_all_def same_core_def same_nodes_out)
qed

lemma lru_add:
  assumes "klists s qs ls zs" and "int_room (length ls)"
  shows "\<exists>s'. on_lru (add_head r) s = Some (0, s') \<and> klists s' qs (r # ls) zs \<and> same_core s s'"
proof -
  from assms(1) obtain as bs cs where q: "nrep (k_heap s) (QUEUE s) as qs" and l: "nrep (k_heap s) (LRU_CACHE s) bs ls"
    and z: "nrep (k_heap s) (ALL_PCB s) cs zs" and d: "on_own_nodes s as bs cs"
    and e: "heap_ok (k_heap s)" "equal_fn (LRU_CACHE s) = PAGE_equal_at"
    unfolding klists_def by blast
  let ?b = "brk (k_heap s)"
  obtain h' where h': "add_head r (LRU_CACHE s) (k_heap s) = Some (0, resized (LRU_CACHE s) (r # ls), h')"
    "nrep h' (resized (LRU_CACHE s) (r # ls)) (?b # bs) (r # ls)"
    "heap_ok h'" "same_nodes ({?b} \<union> node_set (LRU_CACHE s) bs) (k_heap s) h'"
    using add_head_ok [OF l e(1) assms(2), of r] by auto
  let ?s = "s\<lparr>LRU_CACHE := resized (LRU_CACHE s) (r # ls), k_heap := h'\<rparr>"
  have "?b \<notin> node_set (ALL_PCB s) cs" "?b \<notin> node_set (QUEUE s) as"
    using heap_ok_fresh(2) [OF e(1) z] heap_ok_fresh(2) [OF e(1) q] by auto
  then have d': "on_own_nodes ?s as (?b # bs) cs" and n: "({?b} \<union> node_set (LRU_CACHE s) bs) \<inter> node_set (ALL_PCB s) cs = {}"
    "({?b} \<union> node_set (LRU_CACHE s) bs) \<inter> node_set (QUEUE s) as = {}"
    using d by (auto simp: on_own_nodes_def node_set_def)
  have "nrep h' (ALL_PCB s) cs zs" "nrep h' (QUEUE s) as qs"
    using nrep_frame [OF z h'(4) n(1)] nrep_frame [OF q h'(4) n(2)] by auto
  then have "klists ?s qs (r # ls) zs" using h' e d' by (intro klistsI [of _ as _ "?b # bs" _ cs]) simp_all
  then show ?thesis using h' by (auto simp: on_lru_def same_core_def same_nodes_out)
qed

text \<open>The page moves to the head of the list; the list must only hold pages of live processes.\<close>

lemma lru_remove:
  assumes "klists s qs ls zs" and "PageRef b i \<in> set ls" and "\<forall>r \<in> set ls. page_at (k_pcbs s) r \<noteq> None"
  shows "\<exists>r xs ys s'. ls = xs @ r # ys \<and> on_lru (remove_elem (PageRef b i) (k_pcbs s)) s = Some (r, s') \<and>
    klists s' qs (xs @ ys) zs \<and> same_core s s'"
proof -
  from assms(1) obtain as bs cs where q: "nrep (k_heap s) (QUEUE s) as qs" and l: "nrep (k_heap s) (LRU_CACHE s) bs ls"
    and z: "nrep (k_heap s) (ALL_PCB s) cs zs" and d: "on_own_nodes s as bs cs"
    and e: "heap_ok (k_heap s)" "equal_fn (LRU_CACHE s) = PAGE_equal_at"
    unfolding klists_def by blast
  let ?eq = "PAGE_equal_at (k_pcbs s) (PageRef b i)"
  have def: "?eq r \<noteq> None" if "r \<in> set ls" for r
    using assms(2,3) that by (cases "page_at (k_pcbs s) r"; cases "page_at (k_pcbs s) (PageRef b i)") (auto simp: PAGE_equal_at_def)
  have "?eq (PageRef b i) = Some True" using assms(2,3) by (cases "page_at (k_pcbs s) (PageRef b i)") (auto simp: PAGE_equal_at_def PAGE_equal_def)
  then obtain xs r ys where ls: "ls = xs @ r # ys" "?eq r = Some True" "\<forall>x \<in> set xs. ?eq x \<noteq> Some True"
    using assms(2) split_list_first_prop [of ls "\<lambda>r. ?eq r = Some True"] by auto
  have fl: "?eq x = Some False" if "x \<in> set xs" for x
    using that ls(3) def [of x] ls(1) by (cases "?eq x") auto
  obtain h' bs' where h': "remove_elem (PageRef b i) (k_pcbs s) (LRU_CACHE s) (k_heap s) = Some (r, resized (LRU_CACHE s) (xs @ ys), h')"
    "nrep h' (resized (LRU_CACHE s) (xs @ ys)) bs' (xs @ ys)" "heap_ok h'"
    "same_nodes (node_set (LRU_CACHE s) bs) (k_heap s) h'" "node_set (LRU_CACHE s) bs' \<subseteq> node_set (LRU_CACHE s) bs"
    using remove_elem_ok [OF l [unfolded ls(1)], of "k_pcbs s" "PageRef b i"] fl ls(2) e by auto
  let ?s = "s\<lparr>LRU_CACHE := resized (LRU_CACHE s) (xs @ ys), k_heap := h'\<rparr>"
  have d': "on_own_nodes ?s as bs' cs" using d h'(5) by (auto simp: on_own_nodes_def)
  have "nrep h' (ALL_PCB s) cs zs" "nrep h' (QUEUE s) as qs"
    using nrep_frame [OF z h'(4)] nrep_frame [OF q h'(4)] d by (auto simp: on_own_nodes_def)
  then have "klists ?s qs (xs @ ys) zs" using h' e d' by (intro klistsI [of _ as _ bs' _ cs]) simp_all
  then show ?thesis
    using h' ls(1) by (intro exI [of _ r] exI [of _ xs] exI [of _ ys] exI [of _ ?s]) (simp add: on_lru_def same_core_def same_nodes_out)
qed

lemma clear_lists_ok:
  assumes "klists s qs ls zs"
  shows "\<exists>s'. clear_lists s = Some s' \<and> klists s' [] [] [] \<and> same_core s s'"
proof -
  from assms(1) obtain as bs cs where q: "nrep (k_heap s) (QUEUE s) as qs" and l: "nrep (k_heap s) (LRU_CACHE s) bs ls"
    and z: "nrep (k_heap s) (ALL_PCB s) cs zs" and d: "on_own_nodes s as bs cs"
    and e: "heap_ok (k_heap s)" "equal_fn (LRU_CACHE s) = PAGE_equal_at"
    unfolding klists_def by blast
  note d = d [unfolded on_own_nodes_def]
  have sub: "node_set l [] \<subseteq> node_set l xs" for l :: klist and xs by (auto simp: node_set_def)
  obtain h1 where h1: "list_clear (QUEUE s) (k_heap s) = Some (resized (QUEUE s) [], h1)" "nrep h1 (resized (QUEUE s) []) [] []"
    "heap_ok h1" "same_nodes (node_set (QUEUE s) []) (k_heap s) h1"
    using list_clear_ok [OF q] e by auto
  have l1: "nrep h1 (LRU_CACHE s) bs ls" and z1: "nrep h1 (ALL_PCB s) cs zs"
    using nrep_frame [OF l h1(4)] nrep_frame [OF z h1(4)] d sub by blast+
  obtain h2 where h2: "list_clear (LRU_CACHE s) h1 = Some (resized (LRU_CACHE s) [], h2)" "nrep h2 (resized (LRU_CACHE s) []) [] []"
    "heap_ok h2" "same_nodes (node_set (LRU_CACHE s) []) h1 h2"
    using list_clear_ok [OF l1] h1(3) by auto
  have q2: "nrep h2 (resized (QUEUE s) []) [] []" and z2: "nrep h2 (ALL_PCB s) cs zs"
    using nrep_frame [OF h1(2) h2(4)] nrep_frame [OF z1 h2(4)] d sub [of "QUEUE s" as] sub [of "LRU_CACHE s" bs]
    unfolding node_set_resized by blast+
  obtain h3 where h3: "list_clear (ALL_PCB s) h2 = Some (resized (ALL_PCB s) [], h3)" "nrep h3 (resized (ALL_PCB s) []) [] []"
    "heap_ok h3" "same_nodes (node_set (ALL_PCB s) []) h2 h3"
    using list_clear_ok [OF z2] h2(3) by auto
  have "nrep h3 (resized (QUEUE s) []) [] []" "nrep h3 (resized (LRU_CACHE s) []) [] []"
    using nrep_frame [OF q2 h3(4)] nrep_frame [OF h2(2) h3(4)] d sub [of "QUEUE s" as] sub [of "LRU_CACHE s" bs] sub [of "ALL_PCB s" cs]
    unfolding node_set_resized by blast+
  moreover let ?s = "s\<lparr>QUEUE := resized (QUEUE s) [], LRU_CACHE := resized (LRU_CACHE s) [], ALL_PCB := resized (ALL_PCB s) [], k_heap := h3\<rparr>"
  have "on_own_nodes ?s [] [] []" unfolding on_own_nodes_def using d by (auto simp: node_set_def)
  ultimately have "klists ?s [] [] []" using h3 e by (intro klistsI [of _ "[]" _ "[]" _ "[]"]) simp_all
  then show ?thesis using h1 h2 h3 by (auto simp: clear_lists_def same_core_def same_nodes_out)
qed

subsection \<open>Walking over a list\<close>

lemma nrep_walk:
  assumes "nrep h l as ds" and "i < length ds"
  shows "has_next (Some (as ! i)) h = Some True"
    "next_elem (Some (as ! i)) h = Some (ds ! i, Some ((as @ [dummy_tail l]) ! Suc i))"
proof -
  have "get_next (Some (as ! i)) h = Some (Some ((as @ [dummy_tail l]) ! Suc i))"
    using nrep_step [OF assms(1), of "Suc i"] assms(2) nrep_length [OF assms(1)] by simp
  then show "has_next (Some (as ! i)) h = Some True"
    "next_elem (Some (as ! i)) h = Some (ds ! i, Some ((as @ [dummy_tail l]) ! Suc i))"
    using nrep_nth [OF assms] by (simp_all add: has_next_def next_elem_def next_node_def)
qed

lemma nrep_walk_end: "nrep h l as ds \<Longrightarrow> has_next (Some (dummy_tail l)) h = Some False"
  by (simp add: nrep_def has_next_def)

lemma done_loop_ok:
  assumes "nrep h l as ds" and "\<forall>d \<in> set ds. pcb_at m d \<noteq> None" and "i \<le> length ds"
  shows "done_loop (Some ((as @ [dummy_tail l]) ! i)) m h = Some (\<forall>d \<in> set (drop i ds). PCB_done (the (pcb_at m d)))"
  using assms(3)
proof (induction "length ds - i" arbitrary: i)
  case 0
  then have "(as @ [dummy_tail l]) ! i = dummy_tail l" using nrep_length [OF assms(1)] by (simp add: nth_append)
  then show ?case using 0 nrep_walk_end [OF assms(1)] by (subst done_loop.simps) simp
next
  case (Suc n)
  then have i: "i < length ds" "(as @ [dummy_tail l]) ! i = as ! i" using nrep_length [OF assms(1)] by (auto simp: nth_append)
  obtain p where p: "pcb_at m (ds ! i) = Some p" using assms(2) i(1) by (metis nth_mem option.exhaust)
  have "done_loop (Some ((as @ [dummy_tail l]) ! Suc i)) m h = Some (\<forall>d \<in> set (drop (Suc i) ds). PCB_done (the (pcb_at m d)))"
    using Suc by (intro Suc.hyps(1)) auto
  moreover have "drop i ds = ds ! i # drop (Suc i) ds" using i(1) by (simp add: Cons_nth_drop_Suc)
  ultimately show ?case using i p nrep_walk [OF assms(1) i(1)] by (subst done_loop.simps) simp
qed

lemma queue_done_ok:
  assumes "klists s qs ls zs" and "\<forall>d \<in> set qs. pcb_at (k_pcbs s) d \<noteq> None"
  shows "queue_done s = Some (\<forall>d \<in> set qs. PCB_done (the (pcb_at (k_pcbs s) d)))"
proof -
  obtain as where q: "nrep (k_heap s) (QUEUE s) as qs" using assms(1) unfolding klists_def by blast
  show ?thesis using nrep_first [OF q] done_loop_ok [OF q assms(2), of 0] by (simp add: queue_done_def)
qed

text \<open>Every page of the process has cells of the memory to clear.\<close>

definition freeable :: "'z kernel_scheme \<Rightarrow> kref \<Rightarrow> bool" where
  "freeable s r \<longleftrightarrow> (\<exists>b p. r = PcbRef b \<and> k_pcbs s b = Some p \<and>
     (\<forall>pg \<in> set (page_table p). \<forall>k \<in> set (index pg). 0 \<le> k \<and> nat k + 3 \<le> length (mcells (k_mem s))))"

lemma free_run_ok:
  assumes "0 \<le> i" and "nat i + n \<le> length (mcells m)"
  shows "\<exists>m'. free_run i n m = Some m'"
  using assms
proof (induction n arbitrary: i m)
  case (Suc n)
  then show ?case
    using Suc.IH [of "i + 1"] by (auto simp: mem_free_at_def in_mem_def nat_add_distrib)
qed simp

lemma clear_page_ok:
  assumes "\<forall>k \<in> set ks. 0 \<le> k \<and> nat k + 3 \<le> length (mcells m)"
  shows "\<exists>m'. clear_page ks m = Some m'"
  using assms
proof (induction ks arbitrary: m)
  case (Cons k ks)
  obtain m1 where m1: "clear_frame k m = Some m1" using free_run_ok [of k 3 m] Cons.prems by (auto simp: clear_frame_def)
  then have "length (mcells m1) = length (mcells m)" using free_run_length by (auto simp: clear_frame_def)
  then show ?case using Cons m1 by auto
qed simp

lemma clear_pages_ok:
  assumes "\<forall>pg \<in> set pgs. \<forall>k \<in> set (index pg). 0 \<le> k \<and> nat k + 3 \<le> length (mcells m)"
  shows "\<exists>m'. clear_pages pgs m = Some m' \<and> length (mcells m') = length (mcells m)"
  using assms
proof (induction pgs arbitrary: m)
  case (Cons pg pgs)
  obtain m1 where m1: "clear_page (index pg) m = Some m1" using clear_page_ok Cons.prems by fastforce
  then have len: "length (mcells m1) = length (mcells m)" using clear_page_length by blast
  then have "\<exists>m'. clear_pages pgs m1 = Some m' \<and> length (mcells m') = length (mcells m1)"
    using Cons.prems by (intro Cons.IH) simp
  then show ?case using m1 len by auto
qed simp

lemma free_proc_ok:
  assumes "freeable s r"
  shows "\<exists>b m. r = PcbRef b \<and> free_proc r s = Some (s\<lparr>k_mem := m, k_pcbs := (k_pcbs s)(b := None)\<rparr>) \<and>
    length (mcells m) = length (mcells (k_mem s))"
  using assms clear_pages_ok unfolding freeable_def free_proc_def free_PCB_def by fastforce

text \<open>The final loop frees every process of the list, each once.\<close>

lemma free_procs_ok:
  assumes "nrep (k_heap s) l as zs" and "distinct (drop i zs)" and "\<forall>z \<in> set (drop i zs). freeable s z" and "i \<le> length zs"
  shows "\<exists>m. free_procs (Some ((as @ [dummy_tail l]) ! i)) s =
    Some (s\<lparr>k_mem := m, k_pcbs := (\<lambda>b. if PcbRef b \<in> set (drop i zs) then None else k_pcbs s b)\<rparr>)"
  using assms
proof (induction "length zs - i" arbitrary: i s)
  case 0
  then have "(as @ [dummy_tail l]) ! i = dummy_tail l" using nrep_length [OF 0(2)] by (simp add: nth_append)
  then show ?case
    using 0 nrep_walk_end [OF 0(2)] by (subst free_procs.simps) (auto intro!: exI [of _ "k_mem s"])
next
  case (Suc n)
  then have i: "i < length zs" "(as @ [dummy_tail l]) ! i = as ! i" using nrep_length [OF Suc(3)] by (auto simp: nth_append)
  have dr: "drop i zs = zs ! i # drop (Suc i) zs" using i(1) by (simp add: Cons_nth_drop_Suc)
  obtain b m where b: "zs ! i = PcbRef b" and f: "free_proc (zs ! i) s = Some (s\<lparr>k_mem := m, k_pcbs := (k_pcbs s)(b := None)\<rparr>)"
    and m: "length (mcells m) = length (mcells (k_mem s))"
    using free_proc_ok [of s "zs ! i"] Suc.prems(3) dr by auto
  let ?s = "s\<lparr>k_mem := m, k_pcbs := (k_pcbs s)(b := None)\<rparr>"
  have nb: "PcbRef b \<notin> set (drop (Suc i) zs)" using Suc.prems(2) dr b by simp
  then have "\<forall>z \<in> set (drop (Suc i) zs). freeable ?s z"
    using Suc.prems(3) dr m unfolding freeable_def by fastforce
  then obtain m' where m': "free_procs (Some ((as @ [dummy_tail l]) ! Suc i)) ?s =
      Some (?s\<lparr>k_mem := m', k_pcbs := (\<lambda>b. if PcbRef b \<in> set (drop (Suc i) zs) then None else k_pcbs ?s b)\<rparr>)"
    using Suc.hyps(1) [of "Suc i" ?s] Suc.hyps(2) Suc.prems dr i(1) by fastforce
  have eq: "(\<lambda>c. if PcbRef c \<in> set (drop (Suc i) zs) then None else k_pcbs ?s c) =
      (\<lambda>c. if PcbRef c \<in> set (drop i zs) then None else k_pcbs s c)"
    using dr b by (auto simp: fun_eq_iff)
  have "free_procs (Some ((as @ [dummy_tail l]) ! i)) s = free_procs (Some ((as @ [dummy_tail l]) ! Suc i)) ?s"
    using f i nrep_walk [OF Suc(3) i(1)] by (subst free_procs.simps) simp
  then show ?case unfolding m' eq by auto
qed

subsection \<open>Processes whose pages are in memory\<close>

text \<open>A line that prints something and does nothing else to the kernel; its code is not that of a page fault.\<close>

definition quiet_a3 :: "'z kparser \<Rightarrow> string \<times> string \<Rightarrow> bool" where
  "quiet_a3 parse lt \<longleftrightarrow> (\<forall>s. \<exists>r s'. parse (fst lt) s = Some (Done r, s') \<and> r \<noteq> 1 \<and>
     kernel.truncate s' = kernel.truncate (set_out (k_out s @ [Print (snd lt)]) s))"

text \<open>The process has run \<open>d\<close> lines; the lines \<open>lns\<close> are left, and all of them are in memory.\<close>

definition script_at :: "memory_a3 \<Rightarrow> pcb_a3 \<Rightarrow> nat \<Rightarrow> string list \<Rightarrow> bool" where
  "script_at m p d lns \<longleftrightarrow>
     page_table_size p = int (length (page_table p)) \<and> lines_a3 p = int (length lns) \<and>
     program_counter p = map (\<lambda>i. int (min 3 (d - 3 * i))) [0..<length (page_table p)] \<and>
     d + length lns \<le> 3 * length (page_table p) \<and>
     (\<forall>pg \<in> set (page_table p). length (index pg) = 3 \<and> length (valid_bit pg) = 3) \<and>
     (\<forall>t < length lns. let pg = page_table p ! ((d + t) div 3) in
        valid_bit pg ! ((d + t) mod 3) \<noteq> 0 \<and> mem_get_value_at (index pg ! ((d + t) mod 3)) m = Some (lns ! t))"

definition step_pcb_a3 :: "nat \<Rightarrow> pcb_a3 \<Rightarrow> pcb_a3" where
  "step_pcb_a3 i p = p\<lparr>program_counter := (program_counter p)[i := program_counter p ! i + 1], lines_a3 := lines_a3 p - 1\<rparr>"

lemma counters_prefix:
  assumes "d < 3 * n"
  shows "length (takeWhile (\<lambda>c. c = 3) (map (\<lambda>i. int (min 3 (d - 3 * i))) [0..<n])) = d div 3"
proof -
  let ?f = "\<lambda>i. int (min 3 (d - 3 * i))"
  have "[0..<n] = [0..<d div 3] @ (d div 3) # [Suc (d div 3)..<n]"
    using upt_add_eq_append [of 0 "d div 3" "n - d div 3"] upt_conv_Cons [of "d div 3" n] assms by simp
  from arg_cong [OF this, of "map ?f"]
  have "map ?f [0..<n] = map ?f [0..<d div 3] @ ?f (d div 3) # map ?f [Suc (d div 3)..<n]" by (simp only: map_append list.map(2))
  moreover have "c = 3" if "c \<in> set (map ?f [0..<d div 3])" for c using that by auto
  then have "takeWhile (\<lambda>c. c = 3) (map ?f [0..<d div 3] @ ys) = map ?f [0..<d div 3] @ takeWhile (\<lambda>c. c = 3) ys" for ys
    by (rule takeWhile_append2)
  moreover have "?f (d div 3) \<noteq> 3" by (simp add: minus_mult_div_eq_mod)
  ultimately show ?thesis by (simp only: takeWhile.simps if_False append_Nil2 length_map length_upt diff_zero)
qed

lemma counters_step:
  assumes "d < 3 * n"
  shows "(map (\<lambda>i. int (min 3 (d - 3 * i))) [0..<n])[d div 3 := int (min 3 (d - 3 * (d div 3))) + 1] =
    map (\<lambda>i. int (min 3 (Suc d - 3 * i))) [0..<n]"
proof (rule nth_equalityI)
  fix i assume "i < length ((map (\<lambda>i. int (min 3 (d - 3 * i))) [0..<n])[d div 3 := int (min 3 (d - 3 * (d div 3))) + 1])"
  then have i: "i < n" by simp
  have "int (min 3 (d - 3 * (d div 3))) + 1 = int (min 3 (Suc d - 3 * (d div 3)))" by simp
  moreover have "min 3 (d - 3 * i) = min 3 (Suc d - 3 * i)" if "i \<noteq> d div 3"
  proof (cases "i < d div 3")
    case False
    then have "Suc d \<le> 3 * i" using that by simp
    then show ?thesis by simp
  qed simp
  ultimately show "(map (\<lambda>i. int (min 3 (d - 3 * i))) [0..<n])[d div 3 := int (min 3 (d - 3 * (d div 3))) + 1] ! i =
      map (\<lambda>i. int (min 3 (Suc d - 3 * i))) [0..<n] ! i"
    using i by (cases "i = d div 3") simp_all
qed simp

lemma script_at_step:
  assumes "script_at m p d (l # lns)"
  shows "script_at m (step_pcb_a3 (d div 3) p) (Suc d) lns" "d div 3 < length (page_table p)"
    "length (takeWhile (\<lambda>c. c = 3) (take (nat (page_table_size p)) (program_counter p))) = d div 3"
    "at (program_counter p) (d div 3) = Some (int (d mod 3))"
proof -
  let ?n = "length (page_table p)"
  have d: "d < 3 * ?n" and pc: "program_counter p = map (\<lambda>i. int (min 3 (d - 3 * i))) [0..<?n]" "page_table_size p = int ?n"
    using assms by (simp_all add: script_at_def)
  show dn: "d div 3 < ?n" using d by linarith
  show "length (takeWhile (\<lambda>c. c = 3) (take (nat (page_table_size p)) (program_counter p))) = d div 3"
    using counters_prefix [OF d] pc by simp
  have pcd: "program_counter p ! (d div 3) = int (d mod 3)" using pc(1) dn by (simp add: minus_mult_div_eq_mod)
  then show "at (program_counter p) (d div 3) = Some (int (d mod 3))" using pc(1) dn by (simp add: at_def)
  have "program_counter p ! (d div 3) = int (min 3 (d - 3 * (d div 3)))" using pc(1) dn by simp
  then have "(program_counter p)[d div 3 := program_counter p ! (d div 3) + 1] = map (\<lambda>i. int (min 3 (Suc d - 3 * i))) [0..<?n]"
    using counters_step [OF d] pc(1) by simp
  moreover have "let pg = page_table p ! ((Suc d + t) div 3) in
      valid_bit pg ! ((Suc d + t) mod 3) \<noteq> 0 \<and> mem_get_value_at (index pg ! ((Suc d + t) mod 3)) m = Some (lns ! t)"
    if "t < length lns" for t
    using assms that unfolding script_at_def by (auto dest!: conjunct2 spec [of _ "Suc t"])
  ultimately show "script_at m (step_pcb_a3 (d div 3) p) (Suc d) lns"
    using assms by (simp add: script_at_def step_pcb_a3_def)
qed

lemma script_at_line:
  assumes "script_at m p d (l # lns)"
  shows "\<exists>pg v x. at (page_table p) (d div 3) = Some pg \<and> at (valid_bit pg) (d mod 3) = Some v \<and> v \<noteq> 0 \<and>
    at (index pg) (d mod 3) = Some x \<and> mem_get_value_at x m = Some l"
proof -
  have "d div 3 < length (page_table p)" using script_at_step(2) [OF assms] .
  moreover have "let pg = page_table p ! (d div 3) in valid_bit pg ! (d mod 3) \<noteq> 0 \<and> mem_get_value_at (index pg ! (d mod 3)) m = Some l"
    using assms unfolding script_at_def by (auto dest!: spec [of _ 0])
  ultimately show ?thesis using assms by (auto simp: at_def script_at_def Let_def)
qed

lemma PCB_done_script: "script_at m p d lns \<Longrightarrow> PCB_done p \<Longrightarrow> lns = []"
proof (rule ccontr)
  assume s: "script_at m p d lns" and "PCB_done p" "lns \<noteq> []"
  obtain l ls where "lns = l # ls" using \<open>lns \<noteq> []\<close> by (cases lns) auto
  with s have "d div 3 < length (page_table p)" "at (program_counter p) (d div 3) = Some (int (d mod 3))"
    "page_table_size p = int (length (page_table p))"
    using script_at_step(2,4) by (auto simp: script_at_def)
  then have "int (d mod 3) = 3" using \<open>PCB_done p\<close> by (auto simp: PCB_done_def at_def split: if_splits)
  then show False using mod_less_divisor [of 3 d] by linarith
qed

subsection \<open>One line\<close>

lemma nrep_lout [simp]: "nrep (h\<lparr>lout := t\<rparr>) l as ds = nrep h l as ds"
  by (simp add: nrep_def access_defs links_def)

lemma klists_same:
  assumes "kernel.truncate s' = kernel.truncate (set_out t s)"
  shows "klists s' qs ls zs = klists s qs ls zs" "k_pcbs s' = k_pcbs s" "k_mem s' = k_mem s" "k_out s' = t"
    "k_brk s' = k_brk s" "PID_counter s' = PID_counter s"
proof -
  have f: "k_heap s' = (k_heap s)\<lparr>lout := t\<rparr>" "QUEUE s' = QUEUE s" "LRU_CACHE s' = LRU_CACHE s" "ALL_PCB s' = ALL_PCB s"
    "k_pcbs s' = k_pcbs s" "k_mem s' = k_mem s" "k_brk s' = k_brk s" "PID_counter s' = PID_counter s"
    using assms by (simp_all add: kernel.truncate_def set_out_def)
  then show "klists s' qs ls zs = klists s qs ls zs" by (simp add: klists_def heap_ok_def on_own_nodes_def)
  show "k_pcbs s' = k_pcbs s" "k_mem s' = k_mem s" "k_out s' = t" "k_brk s' = k_brk s" "PID_counter s' = PID_counter s"
    using f by simp_all
qed

lemma klists_pcbs [simp]: "klists (s\<lparr>k_pcbs := m\<rparr>) qs ls zs = klists s qs ls zs"
  "klists (s\<lparr>k_mem := m'\<rparr>) qs ls zs = klists s qs ls zs"
  by (simp_all add: klists_def on_own_nodes_def)

lemma page_at_step: "page_table p' = page_table p \<Longrightarrow> k b = Some p \<Longrightarrow> page_at (k(b \<mapsto> p')) r = page_at k r"
  by (auto simp: page_at_def split: kref.split)

abbreviation live :: "'z kernel_scheme \<Rightarrow> kref list \<Rightarrow> bool" where
  "live s ls \<equiv> \<forall>r \<in> set ls. page_at (k_pcbs s) r \<noteq> None"

lemma run_proc_quiet:
  assumes k: "klists s qs ls zs" and l: "live s ls" and p: "k_pcbs s b = Some p"
    and line: "at (page_table p) i = Some pg" "at (valid_bit pg) j = Some v" "v \<noteq> 0" "at (index pg) j = Some x"
      "mem_get_value_at x (k_mem s) = Some (fst lt)" "i < length (program_counter p)"
    and q: "quiet_a3 parse lt" and r: "PageRef b i \<in> set ls"
  shows "\<exists>s' ls'. run_proc parse b i j s = Some (Done 0, s') \<and> klists s' qs ls' zs \<and> set ls' = set ls \<and> live s' ls' \<and>
    k_pcbs s' = (k_pcbs s)(b \<mapsto> step_pcb_a3 i p) \<and> k_mem s' = k_mem s \<and> k_out s' = k_out s @ [Print (snd lt)] \<and>
    length ls' = length ls"
proof -
  let ?p' = "step_pcb_a3 i p"
  obtain c s1 where s1: "parse (fst lt) s = Some (Done c, s1)" "c \<noteq> 1"
    "kernel.truncate s1 = kernel.truncate (set_out (k_out s @ [Print (snd lt)]) s)"
    using q unfolding quiet_a3_def by blast
  note f1 = klists_same [OF s1(3)]
  let ?s2 = "put_pcb_a3 b ?p' s1"
  have cpu: "cpu_run parse b i j s = Some (Done c, ?s2)"
    using line s1(1) p f1(2) by (simp add: cpu_run_def step_pcb_a3_def at_def split: if_splits)
  have pt: "page_table ?p' = page_table p" by (simp add: step_pcb_a3_def)
  have l2: "live ?s2 ls" using l page_at_step [of ?p' p "k_pcbs s" b, OF pt p] f1(2) by (simp add: put_pcb_a3_def)
  have k2: "klists ?s2 qs ls zs" using k f1(1) by (simp add: put_pcb_a3_def)
  obtain x xs ys s3 where s3: "ls = xs @ x # ys" "on_lru (remove_elem (PageRef b i) (k_pcbs ?s2)) ?s2 = Some (x, s3)"
    "klists s3 qs (xs @ ys) zs" "same_core ?s2 s3"
    using lru_remove [OF k2 r l2] by blast
  have "length ls < 2 ^ 31" using k unfolding klists_def nrep_def by blast
  then have "int_room (length (xs @ ys))" using s3(1) by (simp add: int_room_def)
  then obtain s4 where s4: "on_lru (add_head x) s3 = Some (0, s4)" "klists s4 qs (x # xs @ ys) zs" "same_core s3 s4"
    using lru_add [OF s3(3)] by blast
  have "run_proc parse b i j s = Some (Done 0, s4)"
    using cpu s1(2) s3(2) s4(1) by (simp add: run_proc_def)
  moreover have "set (x # xs @ ys) = set ls" "length (x # xs @ ys) = length ls" using s3(1) by auto
  moreover have "k_pcbs s4 = (k_pcbs s)(b \<mapsto> ?p')" "k_mem s4 = k_mem s" "k_out s4 = k_out s @ [Print (snd lt)]"
    using s3(4) s4(3) f1 by (simp_all add: same_core_def put_pcb_a3_def)
  moreover have "live s4 ls" using l page_at_step [of ?p' p "k_pcbs s" b, OF pt p] calculation(4) by simp
  ultimately show ?thesis using s4(2) by (intro exI [of _ s4] exI [of _ "x # xs @ ys"]) simp
qed

lemma run_next_quiet:
  assumes k: "klists s qs ls zs" and l: "live s ls" and p: "k_pcbs s b = Some p"
    and sc: "script_at (k_mem s) p d (fst lt # lns)" and q: "quiet_a3 parse lt" and r: "PageRef b (d div 3) \<in> set ls"
  shows "\<exists>s' ls'. run_next parse b s = Some (Done 0, s') \<and> klists s' qs ls' zs \<and> set ls' = set ls \<and> live s' ls' \<and>
    k_pcbs s' = (k_pcbs s)(b \<mapsto> step_pcb_a3 (d div 3) p) \<and> k_mem s' = k_mem s \<and> k_out s' = k_out s @ [Print (snd lt)]"
proof -
  note st = script_at_step [OF sc]
  obtain pg v x where line: "at (page_table p) (d div 3) = Some pg" "at (valid_bit pg) (d mod 3) = Some v" "v \<noteq> 0"
    "at (index pg) (d mod 3) = Some x" "mem_get_value_at x (k_mem s) = Some (fst lt)"
    using script_at_line [OF sc] by blast
  have "d div 3 < length (program_counter p)" using st(4) by (auto simp: at_def split: if_splits)
  from run_proc_quiet [OF k l p line this q r] show ?thesis using p st(3,4) by (auto simp: run_next_def)
qed

subsection \<open>Round robin on the queue\<close>

type_synonym job_a3 = "nat \<times> (string \<times> string) list"

definition proc_ok :: "'z kparser \<Rightarrow> 'z kernel_scheme \<Rightarrow> kref set \<Rightarrow> job_a3 \<Rightarrow> bool" where
  "proc_ok parse s L j \<longleftrightarrow>
     (\<exists>p d. k_pcbs s (fst j) = Some p \<and> script_at (k_mem s) p d (map fst (snd j)) \<and>
        (\<forall>t < length (snd j). PageRef (fst j) ((d + t) div 3) \<in> L)) \<and>
     (\<forall>lt \<in> set (snd j). quiet_a3 parse lt)"

text \<open>The queue holds the jobs, the list of pages their pages, and all processes can be freed at the end.\<close>

definition jobs_ok_a3 :: "'z kparser \<Rightarrow> kref list \<Rightarrow> 'z kernel_scheme \<Rightarrow> job_a3 list \<Rightarrow> bool" where
  "jobs_ok_a3 parse zs s jobs \<longleftrightarrow>
     (\<exists>ls. klists s (map (\<lambda>j. PcbRef (fst j)) jobs) ls zs \<and> live s ls \<and> (\<forall>j \<in> set jobs. proc_ok parse s (set ls) j)) \<and>
     distinct (map fst jobs) \<and> distinct zs \<and> (\<forall>z \<in> set zs. freeable s z)"

text \<open>The state after some lines of the process \<open>b\<close>.\<close>

definition ran :: "nat \<Rightarrow> pcb_a3 \<Rightarrow> string list \<Rightarrow> 'z kernel_scheme \<Rightarrow> 'z kernel_scheme \<Rightarrow> bool" where
  "ran b p ts s s' \<longleftrightarrow> k_pcbs s' = (k_pcbs s)(b \<mapsto> p) \<and> k_mem s' = k_mem s \<and> k_out s' = k_out s @ map Print ts \<and>
     (\<exists>p0. k_pcbs s b = Some p0 \<and> page_table p = page_table p0)"

lemma proc_ok_other: "proc_ok parse s L j \<Longrightarrow> ran b p ts s s' \<Longrightarrow> fst j \<noteq> b \<Longrightarrow> proc_ok parse s' L j"
  by (auto simp: proc_ok_def ran_def)

lemma freeable_ran: "freeable s z \<Longrightarrow> ran b p ts s s' \<Longrightarrow> freeable s' z"
  unfolding freeable_def ran_def by (auto split: if_splits)

lemma live_ran: "live s ls \<Longrightarrow> ran b p ts s s' \<Longrightarrow> live s' ls"
  unfolding ran_def using page_at_step by fastforce

lemma run_lines:
  assumes "klists s qs ls zs" and "live s ls" and "proc_ok parse s (set ls) (b, lt # lts)"
  shows "\<exists>s' ls' p. run_next parse b s = Some (Done 0, s') \<and> klists s' qs ls' zs \<and> set ls' = set ls \<and>
    ran b p [snd lt] s s' \<and> proc_ok parse s' (set ls) (b, lts)"
proof -
  obtain p d where p: "k_pcbs s b = Some p" "script_at (k_mem s) p d (fst lt # map fst lts)"
    "\<And>t. t < Suc (length lts) \<Longrightarrow> PageRef b ((d + t) div 3) \<in> set ls" "\<forall>x \<in> set (lt # lts). quiet_a3 parse x"
    using assms(3) by (auto simp: proc_ok_def)
  obtain s' ls' where s': "run_next parse b s = Some (Done 0, s')" "klists s' qs ls' zs" "set ls' = set ls"
    "k_pcbs s' = (k_pcbs s)(b \<mapsto> step_pcb_a3 (d div 3) p)" "k_mem s' = k_mem s" "k_out s' = k_out s @ [Print (snd lt)]"
    using run_next_quiet [OF assms(1,2) p(1,2), of parse] p(3) [of 0] p(4) by auto
  have "\<forall>t < length lts. PageRef b ((Suc d + t) div 3) \<in> set ls"
    using p(3) [of "Suc t" for t] by simp
  then have "proc_ok parse s' (set ls) (b, lts)"
    using s'(4,5) script_at_step(1) [OF p(2)] p(4) unfolding proc_ok_def
    by (auto intro!: exI [of _ "step_pcb_a3 (d div 3) p"] exI [of _ "Suc d"])
  then show ?thesis
    using s' p(1) by (intro exI [of _ s'] exI [of _ ls'] exI) (auto simp: ran_def step_pcb_a3_def)
qed

lemma ran_trans: "ran b p ts s s1 \<Longrightarrow> ran b p' us s1 s2 \<Longrightarrow> ran b p' (ts @ us) s s2"
  by (auto simp: ran_def)

lemma same_core_ran: "same_core s1 s2 \<Longrightarrow> ran b p ts s s1 \<Longrightarrow> ran b p ts s s2" "same_core s s1 \<Longrightarrow> ran b p ts s1 s2 \<Longrightarrow> ran b p ts s s2"
  by (simp_all add: ran_def same_core_def)

lemma proc_ok_core: "same_core s s' \<Longrightarrow> proc_ok parse s' L j = proc_ok parse s L j"
  by (simp add: proc_ok_def same_core_def)

lemma jobs_ok_ran:
  assumes "jobs_ok_a3 parse zs s jobs" and "ran b p ts s s'" and "klists s' (map (\<lambda>j. PcbRef (fst j)) jobs') ls' zs" and "live s' ls'"
    and "distinct (map fst jobs')" and "\<forall>j \<in> set jobs'. proc_ok parse s' (set ls') j"
  shows "jobs_ok_a3 parse zs s' jobs'"
  using assms freeable_ran unfolding jobs_ok_a3_def by blast

lemma proc_ok_size: "proc_ok parse s L (b, lts) \<Longrightarrow> \<exists>p. k_pcbs s b = Some p \<and> lines_a3 p = int (length lts)"
  by (auto simp: proc_ok_def script_at_def)

lemma jobs_queue_done:
  assumes "jobs_ok_a3 parse zs s jobs"
  shows "\<exists>d. queue_done s = Some d \<and> (d \<longrightarrow> (\<forall>j \<in> set jobs. snd j = []))" "jobs = [] \<Longrightarrow> queue_done s = Some True"
proof -
  obtain ls where k: "klists s (map (\<lambda>j. PcbRef (fst j)) jobs) ls zs" and j: "\<forall>j \<in> set jobs. proc_ok parse s (set ls) j"
    using assms by (auto simp: jobs_ok_a3_def)
  have "\<forall>d \<in> set (map (\<lambda>j. PcbRef (fst j)) jobs). pcb_at (k_pcbs s) d \<noteq> None"
    using j by (auto simp: pcb_at_def proc_ok_def)
  from queue_done_ok [OF k this]
  have qd: "queue_done s = Some (\<forall>j \<in> set jobs. PCB_done (the (k_pcbs s (fst j))))" by (simp add: pcb_at_def)
  have "snd x = []" if x: "x \<in> set jobs" "PCB_done (the (k_pcbs s (fst x)))" for x
  proof -
    obtain p d where p: "k_pcbs s (fst x) = Some p" "script_at (k_mem s) p d (map fst (snd x))" using j x(1) by (auto simp: proc_ok_def)
    then have "PCB_done p" using x(2) by simp
    from PCB_done_script [OF p(2) this] show ?thesis by simp
  qed
  then show "\<exists>d. queue_done s = Some d \<and> (d \<longrightarrow> (\<forall>j \<in> set jobs. snd j = []))" using qd by simp
  show "queue_done s = Some True" if "jobs = []" using qd that by simp
qed

lemma rr_turn_a3_ok:
  assumes ok: "jobs_ok_a3 parse zs s ((b, lts) # jobs)"
  shows "\<exists>s'. rr_turn_a3 parse s = Some (Done (), s') \<and>
    jobs_ok_a3 parse zs s' (if length lts < 2 then jobs else jobs @ [(b, drop 2 lts)]) \<and>
    k_out s' = k_out s @ map (\<lambda>lt. Print (snd lt)) (take 2 lts)"
proof -
  obtain ls where k: "klists s (PcbRef b # map (\<lambda>j. PcbRef (fst j)) jobs) ls zs" and l: "live s ls"
    and j: "proc_ok parse s (set ls) (b, lts)" "\<forall>j \<in> set jobs. proc_ok parse s (set ls) j"
    and d: "distinct (map fst jobs)" "b \<notin> fst ` set jobs"
    using ok by (auto simp: jobs_ok_a3_def)
  obtain s1 where s1: "on_ready pop_head s = Some (Done (PcbRef b), s1)" "klists s1 (map (\<lambda>j. PcbRef (fst j)) jobs) ls zs" "same_core s s1"
    using ready_pop [OF k] by blast
  have l1: "live s1 ls" using l s1(3) by (simp add: same_core_def)
  have j1: "proc_ok parse s1 (set ls) (b, lts)" "\<forall>j \<in> set jobs. proc_ok parse s1 (set ls) j"
    using j s1(3) proc_ok_core by blast+
  obtain p where p: "k_pcbs s1 b = Some p" "lines_a3 p = int (length lts)" using proc_ok_size [OF j1(1)] by blast
  have other: "\<forall>x \<in> set jobs. proc_ok parse s' (set ls) x" if "ran b p' ts s1 s'" for p' ts s'
    using proc_ok_other [OF _ that] j1(2) d(2) by (auto simp: image_iff)
  consider "lts = []" | x where "lts = [x]" | x y lts' where "lts = x # y # lts'" by (cases lts rule: list.exhaust) (metis list.exhaust)+
  then show ?thesis
  proof cases
    case 1
    then have "rr_turn_a3 parse s = Some (Done (), s1)" using s1(1) p by (simp add: rr_turn_a3_def)
    moreover have "ran b p [] s s1" using p(1) s1(3) by (auto simp: ran_def same_core_def)
    from jobs_ok_ran [OF ok this s1(2) l1 d(1) j1(2)] have "jobs_ok_a3 parse zs s1 jobs" .
    ultimately show ?thesis using 1 s1(3) by (simp add: same_core_def)
  next
    case 2
    obtain s2 ls2 p2 where s2: "run_next parse b s1 = Some (Done 0, s2)" "klists s2 (map (\<lambda>j. PcbRef (fst j)) jobs) ls2 zs"
      "set ls2 = set ls" "ran b p2 [snd x] s1 s2"
      using run_lines [OF s1(2) l1 j1(1) [unfolded 2]] by blast
    have "rr_turn_a3 parse s = Some (Done (), s2)" using s1(1) p 2 s2(1) by (simp add: rr_turn_a3_def)
    moreover have r: "ran b p2 [snd x] s s2" using same_core_ran(2) [OF s1(3) s2(4)] .
    have "live s2 ls2" using live_ran [OF l1 s2(4)] s2(3) by simp
    from jobs_ok_ran [OF ok r s2(2) this d(1)] have "jobs_ok_a3 parse zs s2 jobs" using other [OF s2(4)] s2(3) by simp
    ultimately show ?thesis using 2 r by (simp add: ran_def)
  next
    case 3
    obtain s2 ls2 p2 where s2: "run_next parse b s1 = Some (Done 0, s2)" "klists s2 (map (\<lambda>j. PcbRef (fst j)) jobs) ls2 zs"
      "set ls2 = set ls" "ran b p2 [snd x] s1 s2" "proc_ok parse s2 (set ls) (b, y # lts')"
      using run_lines [OF s1(2) l1 j1(1) [unfolded 3]] by blast
    have l2: "live s2 ls2" using live_ran [OF l1 s2(4)] s2(3) by simp
    obtain s3 ls3 p3 where s3: "run_next parse b s2 = Some (Done 0, s3)" "klists s3 (map (\<lambda>j. PcbRef (fst j)) jobs) ls3 zs"
      "set ls3 = set ls2" "ran b p3 [snd y] s2 s3" "proc_ok parse s3 (set ls) (b, lts')"
      using run_lines [OF s2(2) l2, of parse b y lts'] s2(3,5) by auto
    have "length (PcbRef b # map (\<lambda>j. PcbRef (fst j)) jobs) < 2 ^ 31" using k unfolding klists_def nrep_def by blast
    then have "int_room (length (map (\<lambda>j. PcbRef (fst j)) jobs))" by (simp add: int_room_def)
    then obtain s4 where s4: "on_ready (add_tail (PcbRef b)) s3 = Some (0, s4)"
      "klists s4 (map (\<lambda>j. PcbRef (fst j)) jobs @ [PcbRef b]) ls3 zs" "same_core s3 s4"
      using ready_add [OF s3(2)] by blast
    have turn: "rr_turn_a3 parse s = Some (Done (), s4)" using s1(1) p 3 s2(1) s3(1) s4(1) by (simp add: rr_turn_a3_def)
    have r14: "ran b p3 ([snd x] @ [snd y]) s1 s4" using same_core_ran(1) [OF s4(3) ran_trans [OF s2(4) s3(4)]] .
    have r: "ran b p3 ([snd x] @ [snd y]) s s4" using same_core_ran(2) [OF s1(3) r14] .
    have "proc_ok parse s4 (set ls3) (b, lts')" using s3(3,5) s2(3) proc_ok_core [OF s4(3)] by simp
    moreover have "\<forall>x \<in> set jobs. proc_ok parse s4 (set ls3) x" using other [OF r14] s3(3) s2(3) by simp
    moreover have "live s4 ls3" using live_ran [OF l1 r14] s3(3) s2(3) by simp
    ultimately have "jobs_ok_a3 parse zs s4 (jobs @ [(b, lts')])"
      using d s4(2) by (intro jobs_ok_ran [OF ok r, of _ ls3]) auto
    then show ?thesis using turn 3 r by (simp add: ran_def)
  qed
qed

interpretation a3_rr: round_robin "jobs_ok_a3 parse zs" k_out "\<lambda>lt. Print (snd lt)" 2 "\<lambda>s. queue_done s = Some True"
  "\<lambda>s. ended (rr_turn_a3 parse s)" "\<lambda>s. ended (rr_loop parse s)" for parse zs
proof
  fix s :: "'a kernel_scheme" and jobs :: "job_a3 list"
  assume ok: "jobs_ok_a3 parse zs s jobs"
  obtain d where d: "queue_done s = Some d" "d \<longrightarrow> (\<forall>j \<in> set jobs. snd j = [])" using jobs_queue_done(1) [OF ok] by blast
  then show "ended (rr_loop parse s) = (if queue_done s = Some True then Some s else ended (rr_turn_a3 parse s) \<bind> (\<lambda>s. ended (rr_loop parse s)))"
    by (subst rr_loop.simps) (auto simp: ended_def split: bind_splits option.split outcome.splits)
  show "\<forall>j \<in> set jobs. snd j = []" if "queue_done s = Some True" using d that by simp
next
  fix s :: "'a kernel_scheme" assume "jobs_ok_a3 parse zs s []"
  then show "queue_done s = Some True" using jobs_queue_done(2) by blast
next
  fix s :: "'a kernel_scheme" and b xs and jobs :: "job_a3 list"
  assume "jobs_ok_a3 parse zs s ((b, xs) # jobs)"
  then show "\<exists>s'. ended (rr_turn_a3 parse s) = Some s' \<and> jobs_ok_a3 parse zs s' (if length xs < 2 then jobs else jobs @ [(b, drop 2 xs)]) \<and>
      k_out s' = k_out s @ map (\<lambda>lt. Print (snd lt)) (take 2 xs)"
    using rr_turn_a3_ok by (fastforce simp: ended_Some)
qed simp

lemma run_proc_RR_finishes:
  assumes "jobs_ok_a3 parse zs s jobs"
  shows "\<exists>s'. run_proc_RR parse s = Some (Done 0, s') \<and> klists s' [] [] [] \<and>
    k_out s' = k_out s @ map Print (interleave 2 (map (\<lambda>j. map snd (snd j)) jobs)) \<and> (\<forall>b. PcbRef b \<in> set zs \<longrightarrow> k_pcbs s' b = None)"
proof -
  have "map Print (interleave 2 (map (\<lambda>j. map snd (snd j)) jobs)) = map (\<lambda>lt. Print (snd lt)) (interleave 2 (map snd jobs))"
    using interleave_map [of 2 snd "map snd jobs"] by (simp add: comp_def)
  with a3_rr.finishes [OF assms] obtain s1 jobs1 where s1: "rr_loop parse s = Some (Done (), s1)" "jobs_ok_a3 parse zs s1 jobs1"
    "k_out s1 = k_out s @ map Print (interleave 2 (map (\<lambda>j. map snd (snd j)) jobs))"
    by (auto simp: ended_Some)
  obtain ls where k: "klists s1 (map (\<lambda>j. PcbRef (fst j)) jobs1) ls zs" and z: "distinct zs" "\<forall>z \<in> set zs. freeable s1 z"
    using s1(2) by (auto simp: jobs_ok_a3_def)
  obtain cs where cs: "nrep (k_heap s1) (ALL_PCB s1) cs zs" using k unfolding klists_def by blast
  obtain m where m: "free_procs (Some ((cs @ [dummy_tail (ALL_PCB s1)]) ! 0)) s1 =
      Some (s1\<lparr>k_mem := m, k_pcbs := (\<lambda>b. if PcbRef b \<in> set zs then None else k_pcbs s1 b)\<rparr>)"
    using free_procs_ok [OF cs, of 0] z by auto
  let ?s2 = "s1\<lparr>k_mem := m, k_pcbs := (\<lambda>b. if PcbRef b \<in> set zs then None else k_pcbs s1 b)\<rparr>"
  have "klists ?s2 (map (\<lambda>j. PcbRef (fst j)) jobs1) ls zs" using k by (simp add: klists_def on_own_nodes_def)
  from clear_lists_ok [OF this] obtain s3 where s3: "clear_lists ?s2 = Some s3" "klists s3 [] [] []" "same_core ?s2 s3" by blast
  have "run_proc_RR parse s = Some (Done 0, s3)"
    using s1(1) nrep_first [OF cs] m s3(1) by (simp add: run_proc_RR_def)
  then show ?thesis using s3(2,3) s1(3) by (simp add: same_core_def)
qed

end
