(* ===== verification/Kernel_Invariant.thy ===== *)
theory Kernel_Invariant
  imports A3_Kernel
begin

text \<open>
  What every operation of the kernel of the third shell leaves alone. No operation changes the size of the shell memory or the part of
  the state that belongs to the shell; so a property of these is kept by the kernel whenever the parser keeps it
  (locale \<open>kernel_invariant\<close>). A parser that is defined on more lines gives the same results on those that were defined
  (\<open>parser_extends\<close>).
\<close>

subsection \<open>The size of the memory\<close>

text \<open>The memory has its size, and if no variable had two cells, none has.\<close>

definition same_size :: "memory_a3 \<Rightarrow> memory_a3 \<Rightarrow> bool" where
  "same_size m m' \<longleftrightarrow> border m' = border m \<and> length (mcells m') = length (mcells m) \<and>
     (wf_named (border m) (mcells m) \<longrightarrow> wf_named (border m) (mcells m'))"

named_theorems sizes

lemma same_size_refl [simp]: "same_size m m"
  by (simp add: same_size_def)

lemma same_size_trans: "same_size m m1 \<Longrightarrow> same_size m1 m2 \<Longrightarrow> same_size m m2"
  by (simp add: same_size_def)

lemma mem_set_value_at_size [sizes]: "mem_set_value_at i p v m = Some (x, m') \<Longrightarrow> nat i < border m \<Longrightarrow> same_size m m'"
  by (auto simp: mem_set_value_at_def same_size_def wf_named_below split: if_splits)

lemma mem_free_at_size [sizes]: "mem_free_at i m = Some m' \<Longrightarrow> same_size m m'"
  by (auto simp: mem_free_at_def same_size_def wf_named_clear split: if_splits)

lemma mem_set_value_a3_size [sizes]: "same_size m (mem_set_value_a3 s v m)"
  by (simp add: same_size_def mem_set_value_a3_eq wf_set_named)

lemma frame_alloc_size [sizes]:
  assumes "frame_alloc p m = (r, w, m')"
  shows "same_size m m'" "w = Some (idx, v) \<Longrightarrow> \<forall>i < 3. nat (idx ! i) < border m'"
proof -
  have f: "k + 3 \<le> border m" if "find (run_free m) [0..<0 + border m] = Some k" for k
    using that by (auto simp: find_Some_iff run_free_def)
  show "same_size m m'" using assms f
    by (auto simp: frame_alloc_def frame_loop_ok marked_def same_size_def wf_named_below split: option.splits)
  show "\<forall>i < 3. nat (idx ! i) < border m'" if "w = Some (idx, v)"
    using assms f that by (auto simp: frame_alloc_def frame_loop_ok marked_def less_Suc_eq numeral_3_eq_3 split: option.splits)
qed

lemma page_lines_size:
  assumes "page_lines j n p pg fp m = Some (pg', fp', m')" and "\<forall>i < 3. nat (index pg ! i) < border m" and "j + n \<le> 3"
  shows "same_size m m'"
  using assms
proof (induction n arbitrary: j pg fp m)
  case (Suc n)
  show ?case
  proof (cases "fgets 999 fp")
    case (Pair l fp1)
    show ?thesis
    proof (cases l)
      case None
      then show ?thesis using Suc.prems(1) Pair by simp
    next
      case (Some t)
      then obtain v m1 where s: "mem_set_value_at (index pg ! j) p t m = Some (v, m1)"
        and r: "page_lines (Suc j) n p (pg\<lparr>valid_bit := (valid_bit pg)[j := v]\<rparr>) fp1 m1 = Some (pg', fp', m')"
        using Suc.prems(1) Pair by (auto split: bind_splits)
      have "same_size m m1" using mem_set_value_at_size [OF s] Suc.prems(2,3) by simp
      moreover from this have "same_size m1 m'" using Suc.IH [OF r] Suc.prems(2,3) by (simp add: same_size_def)
      ultimately show ?thesis by (rule same_size_trans)
    qed
  qed
qed simp

lemma fill_page_size [sizes]:
  assumes "fill_page p pg fp m = Some (ok, pg', fp', m')"
  shows "same_size m m'"
proof -
  obtain r w m1 where a: "frame_alloc p m = (r, w, m1)" by (cases "frame_alloc p m") auto
  show ?thesis
  proof (cases "r = 1")
    case True
    then show ?thesis using assms a frame_alloc_size(1) [OF a] by (simp add: fill_page_def)
  next
    case False
    then obtain idx v where w: "w = Some (idx, v)" "page_lines 0 3 p (pg\<lparr>index := idx, valid_bit := v\<rparr>) fp m1 = Some (pg', fp', m')"
      using assms a by (auto simp: fill_page_def split: option.splits bind_splits)
    have "same_size m1 m'" using page_lines_size [OF w(2)] frame_alloc_size(2) [OF a w(1)] by simp
    then show ?thesis using frame_alloc_size(1) [OF a] same_size_trans by blast
  qed
qed

lemma init_pages_size: "init_pages i n p m t = Some (r, m', t') \<Longrightarrow> same_size m m'"
proof (induction n arbitrary: i p m)
  case (Suc n)
  then show ?case by (auto split: bind_splits if_splits dest!: fill_page_size intro: same_size_trans)
qed simp

lemma PCB_init_size [sizes]: "PCB_init k f t m ot = Some (r, m', ot') \<Longrightarrow> same_size m m'"
  by (auto simp: PCB_init_def Let_def split: option.splits dest: init_pages_size)

lemma load_PAGE_size [sizes]: "load_PAGE p i m = Some (e, p', m') \<Longrightarrow> same_size m m'"
  by (auto simp: load_PAGE_def split: if_splits bind_splits dest: fill_page_size)

lemma free_run_size [sizes]: "free_run i n m = Some m' \<Longrightarrow> same_size m m'"
  by (induction n arbitrary: i m) (auto split: bind_splits dest!: mem_free_at_size intro: same_size_trans)

lemma clear_page_size: "clear_page ks m = Some m' \<Longrightarrow> same_size m m'"
  by (induction ks arbitrary: m) (auto simp: clear_frame_def split: bind_splits dest!: free_run_size intro: same_size_trans)

lemma clear_pages_size: "clear_pages pgs m = Some m' \<Longrightarrow> same_size m m'"
  by (induction pgs arbitrary: m) (auto split: bind_splits dest!: clear_page_size intro: same_size_trans)

lemma free_PCB_size [sizes]: "free_PCB p m = Some m' \<Longrightarrow> same_size m m'"
  by (simp add: free_PCB_def clear_pages_size)

lemma evict_lines_size: "evict_lines i n pg m t = Some (pg', m', t') \<Longrightarrow> same_size m m'"
  by (induction n arbitrary: i pg m t) (auto split: bind_splits dest!: mem_free_at_size intro: same_size_trans)

lemma PAGE_evict_size [sizes]: "PAGE_evict p i m t = Some (p', m', t') \<Longrightarrow> same_size m m'"
  by (auto simp: PAGE_evict_def split: if_splits bind_splits dest: evict_lines_size)

subsection \<open>Invariants of the kernel\<close>

text \<open>The shape of the memory and the part of the state that belongs to the shell are as before.\<close>

definition same_shape :: "'z kernel_scheme \<Rightarrow> 'z kernel_scheme \<Rightarrow> bool" where
  "same_shape s s' \<longleftrightarrow> same_size (k_mem s) (k_mem s') \<and> kernel.more s' = kernel.more s"

lemma same_shape_trans: "same_shape s s1 \<Longrightarrow> same_shape s1 s2 \<Longrightarrow> same_shape s s2"
  by (auto simp: same_shape_def intro: same_size_trans)

lemma same_shape_updates [simp]:
  "same_shape s s" "same_shape s (put_pcb_a3 b p s') = same_shape s s'" "same_shape s (set_out t s') = same_shape s s'"
  "same_shape s (s'\<lparr>k_pcbs := k\<rparr>) = same_shape s s'" "same_shape s (s'\<lparr>k_brk := c\<rparr>) = same_shape s s'"
  "same_shape s (s'\<lparr>PID_counter := i\<rparr>) = same_shape s s'" "same_shape s (s'\<lparr>k_heap := h\<rparr>) = same_shape s s'"
  "same_shape s (s'\<lparr>QUEUE := l\<rparr>) = same_shape s s'" "same_shape s (s'\<lparr>LRU_CACHE := l\<rparr>) = same_shape s s'"
  "same_shape s (s'\<lparr>ALL_PCB := l\<rparr>) = same_shape s s'"
  by (simp_all add: same_shape_def put_pcb_a3_def set_out_def)

lemma same_shape_updates_left [simp]:
  "same_shape (put_pcb_a3 b p s) s' = same_shape s s'" "same_shape (set_out t s) s' = same_shape s s'"
  "same_shape (s\<lparr>k_brk := c\<rparr>) s' = same_shape s s'" "same_shape (s\<lparr>PID_counter := i\<rparr>) s' = same_shape s s'"
  by (simp_all add: same_shape_def put_pcb_a3_def set_out_def)

lemma same_shape_mem [simp]: "same_shape s (s\<lparr>k_mem := m\<rparr>) = same_size (k_mem s) m"
  by (simp add: same_shape_def)

lemma on_list_shape:
  "on_ready f s = Some (x, s') \<Longrightarrow> same_shape s s'" "on_lru f s = Some (x, s') \<Longrightarrow> same_shape s s'"
  "on_all f s = Some (x, s') \<Longrightarrow> same_shape s s'"
  by (auto simp: on_ready_def on_lru_def on_all_def split: bind_splits)

lemma load_in_shape: "load_in b i s = Some (e, s') \<Longrightarrow> same_shape s s'"
  by (auto simp: load_in_def split: bind_splits dest: load_PAGE_size)

lemma free_proc_shape: "free_proc r s = Some s' \<Longrightarrow> same_shape s s'"
  by (auto simp: free_proc_def split: kref.splits bind_splits dest: free_PCB_size)

lemma add_pages_shape: "add_pages b i n s = Some s' \<Longrightarrow> same_shape s s'"
proof (induction n arbitrary: i s)
  case (Suc n)
  then show ?case by (auto split: bind_splits dest!: on_list_shape) (blast intro: same_shape_trans)
qed simp

lemma evict_for_shape: "evict_for b i s = Some (r, s') \<Longrightarrow> same_shape s s'"
proof -
  have evicted: "same_shape s s'"
    if "same_shape s s1" "PAGE_evict p i (k_mem s1) t = Some (p', m, t')" "load_in b j (set_out t' (put_pcb_a3 c p' (s1\<lparr>k_mem := m\<rparr>))) = Some (e, s')"
    for s1 s' p i t p' m t' b j c e
  proof -
    have "same_shape s1 (set_out t' (put_pcb_a3 c p' (s1\<lparr>k_mem := m\<rparr>)))" using PAGE_evict_size [OF that(2)] by simp
    then show ?thesis using load_in_shape [OF that(3)] that(1) same_shape_trans by blast
  qed
  assume "evict_for b i s = Some (r, s')"
  then show ?thesis
    by (auto simp: evict_for_def split: bind_splits outcome.splits if_splits kref.splits dest!: on_list_shape)
      (blast intro: evicted)
qed

lemma new_proc_shape: "new_proc fls f s = Some (r, s') \<Longrightarrow> same_shape s s'"
proof -
  assume a: "new_proc fls f s = Some (r, s')"
  then obtain x m t where pm: "PCB_init (PID_counter s) f (fls f) (k_mem s) (k_out s) = Some (x, m, t)"
    by (auto simp: new_proc_def split: bind_splits)
  let ?s = "set_out t (s\<lparr>k_mem := m, PID_counter := PID_counter s + 1\<rparr>)"
  have s: "same_shape s ?s" using PCB_init_size [OF pm] by (simp add: same_shape_def set_out_def)
  show ?thesis
  proof (cases x)
    case (Exit c)
    then show ?thesis using a pm s by (auto simp: new_proc_def)
  next
    case (Done p)
    then have "same_shape ?s s'"
      using a pm by (auto simp: new_proc_def Let_def split: bind_splits if_splits dest!: on_list_shape add_pages_shape)
        (blast intro: same_shape_trans)+
    then show ?thesis using s same_shape_trans by blast
  qed
qed

lemma free_procs_shape: "free_procs cur s = Some s' \<Longrightarrow> same_shape s s'"
proof (rule free_procs.raw_induct [where P = "\<lambda>cur s s'. same_shape s s'"], goal_cases)
  case (1 f cur s s')
  then show ?case by (auto split: bind_splits if_splits dest!: free_proc_shape) (blast intro: same_shape_trans)
qed

lemma clear_lists_shape: "clear_lists s = Some s' \<Longrightarrow> same_shape s s'"
  by (auto simp: clear_lists_def split: bind_splits)

lemmas shapes = on_list_shape load_in_shape free_proc_shape add_pages_shape evict_for_shape new_proc_shape free_procs_shape clear_lists_shape

text \<open>A property of the state that depends on its shape only. The kernel keeps it when the parser does.\<close>

definition parser_keeps :: "('z kernel_scheme \<Rightarrow> bool) \<Rightarrow> 'z kparser \<Rightarrow> bool" where
  "parser_keeps I parse \<longleftrightarrow> (\<forall>ln s r s'. parse ln s = Some (r, s') \<longrightarrow> I s \<longrightarrow> I s')"

locale kernel_invariant =
  fixes I :: "'z kernel_scheme \<Rightarrow> bool"
  assumes shape: "same_shape s s' \<Longrightarrow> I s \<Longrightarrow> I s'"
begin

lemma cpu_run_keeps: "cpu_run parse b i j s = Some (r, s') \<Longrightarrow> parser_keeps I parse \<Longrightarrow> I s \<Longrightarrow> I s'"
  unfolding cpu_run_def parser_keeps_def
  by (auto split: bind_splits if_splits outcome.splits) (metis same_shape_updates(1,2) shape)+

lemma run_proc_keeps:
  assumes "run_proc parse b i j s = Some (r, s')" and "parser_keeps I parse" and "I s"
  shows "I s'"
proof -
  obtain r1 s1 where c: "cpu_run parse b i j s = Some (r1, s1)" using assms(1) by (auto simp: run_proc_def split: bind_splits)
  then have "I s1" using cpu_run_keeps assms(2,3) by blast
  moreover have "same_shape s1 s'"
    using assms(1) c by (auto simp: run_proc_def split: bind_splits outcome.splits if_splits dest!: shapes)
      (blast intro: same_shape_trans)+
  ultimately show ?thesis using shape by blast
qed

lemma run_next_keeps: "run_next parse b s = Some (r, s') \<Longrightarrow> parser_keeps I parse \<Longrightarrow> I s \<Longrightarrow> I s'"
  by (auto simp: run_next_def Let_def split: bind_splits dest: run_proc_keeps)

lemma rr_turn_keeps:
  assumes "rr_turn_a3 parse s = Some (r, s')" and "parser_keeps I parse" and "I s"
  shows "I s'"
proof -
  obtain r1 s1 where p: "on_ready pop_head s = Some (r1, s1)" using assms(1) by (auto simp: rr_turn_a3_def split: bind_splits)
  then have s1: "I s1" by (rule shape [OF shapes(1) assms(3)])
  have add: "I s'" if "on_ready (add_tail x) s = Some (u, s')" "I s" for s s' x u by (rule shape [OF shapes(1) [OF that(1)] that(2)])
  have nx: "I s'" if "run_next parse b s = Some (r, s')" "I s" for b s r s' using that run_next_keeps assms(2) by blast
  show ?thesis
    using assms(1) p s1 unfolding rr_turn_a3_def
    by (auto split: bind_splits outcome.splits kref.splits if_splits) (metis nx add)+
qed

lemma rr_loop_keeps:
  assumes "rr_loop parse s = Some (r, s')" and "parser_keeps I parse" and "I s"
  shows "I s'"
proof -
  have "case (r, s') of (r, s') \<Rightarrow> parser_keeps I parse \<longrightarrow> I s \<longrightarrow> I s'"
  proof (rule rr_loop.raw_induct [OF _ assms(1), where P = "\<lambda>parse s (r, s'). parser_keeps I parse \<longrightarrow> I s \<longrightarrow> I s'"], goal_cases)
    case (1 f parse s y)
    then show ?case by (auto split: bind_splits outcome.splits if_splits dest: rr_turn_keeps)
  qed
  then show ?thesis using assms(2,3) by simp
qed

lemma run_proc_RR_keeps:
  assumes "run_proc_RR parse s = Some (r, s')" and "parser_keeps I parse" and "I s"
  shows "I s'"
proof -
  obtain r1 s1 where p: "rr_loop parse s = Some (r1, s1)" using assms(1) by (auto simp: run_proc_RR_def split: bind_splits)
  then have "I s1" using rr_loop_keeps assms(2,3) by blast
  moreover have "same_shape s1 s'"
    using assms(1) p by (auto simp: run_proc_RR_def split: bind_splits outcome.splits dest!: shapes)
      (blast intro: same_shape_trans)+
  ultimately show ?thesis using shape by blast
qed

lemma fifo_lines_keeps:
  assumes "fifo_lines parse b s = Some (r, s')" and "parser_keeps I parse" and "I s"
  shows "I s'"
proof -
  have "case (r, s') of (r, s') \<Rightarrow> parser_keeps I parse \<longrightarrow> I s \<longrightarrow> I s'"
  proof (rule fifo_lines.raw_induct [OF _ assms(1), where P = "\<lambda>parse b s (r, s'). parser_keeps I parse \<longrightarrow> I s \<longrightarrow> I s'"], goal_cases)
    case (1 f parse b s y)
    then show ?case by (auto split: bind_splits outcome.splits if_splits) (metis run_proc_keeps)+
  qed
  then show ?thesis using assms(2,3) by simp
qed

lemma fifo_turn_keeps:
  assumes "fifo_turn parse s = Some (r, s')" and "parser_keeps I parse" and "I s"
  shows "I s'"
proof -
  obtain r1 s1 where p: "on_ready pop_head s = Some (r1, s1)" using assms(1) by (auto simp: fifo_turn_def split: bind_splits)
  then have s1: "I s1" by (rule shape [OF shapes(1) assms(3)])
  have fr: "I s'" if "free_proc x s = Some s'" "I s" for s s' x by (rule shape [OF shapes(5) [OF that(1)] that(2)])
  have ln: "I s'" if "fifo_lines parse b s = Some (r, s')" "I s" for b s r s' using that fifo_lines_keeps assms(2) by blast
  show ?thesis
    using assms(1) p s1 unfolding fifo_turn_def
    by (auto split: bind_splits outcome.splits kref.splits) (metis fr ln)+
qed

lemma fifo_loop_keeps:
  assumes "fifo_loop parse s = Some (r, s')" and "parser_keeps I parse" and "I s"
  shows "I s'"
proof -
  have "case (r, s') of (r, s') \<Rightarrow> parser_keeps I parse \<longrightarrow> I s \<longrightarrow> I s'"
  proof (rule fifo_loop.raw_induct [OF _ assms(1), where P = "\<lambda>parse s (r, s'). parser_keeps I parse \<longrightarrow> I s \<longrightarrow> I s'"], goal_cases)
    case (1 f parse s y)
    then show ?case by (auto split: bind_splits outcome.splits if_splits dest: fifo_turn_keeps)
  qed
  then show ?thesis using assms(2,3) by simp
qed

text \<open>A line that was run has established what the parser establishes.\<close>

lemma run_next_establishes:
  assumes "run_next parse b s = Some (Done 0, s')" and "\<And>ln s r s'. parse ln s = Some (r, s') \<Longrightarrow> I s'"
  shows "I s'"
proof -
  obtain i j where r: "run_proc parse b i j s = Some (Done 0, s')" using assms(1) by (auto simp: run_next_def Let_def split: bind_splits)
  then obtain ret s1 where c: "cpu_run parse b i j s = Some (Done ret, s1)" "ret \<noteq> 1" "same_shape s1 s'"
    by (auto simp: run_proc_def split: bind_splits outcome.splits if_splits dest!: shapes)
      (blast intro: same_shape_trans)+
  from c(1,2) obtain ln r2 s2 where "parse ln s = Some (r2, s2)" "same_shape s2 s1"
    by (auto simp: cpu_run_def split: bind_splits outcome.splits if_splits)
  then show ?thesis using assms(2) c(3) same_shape_trans shape by blast
qed

end

subsection \<open>Parsers that are defined more often\<close>

text \<open>Whatever the kernel does with a parser it does with every parser that extends it. The rules go through a body step by
  step.\<close>

definition le_opt :: "'a option \<Rightarrow> 'a option \<Rightarrow> bool" where
  "le_opt a b \<longleftrightarrow> (\<forall>r. a = Some r \<longrightarrow> b = Some r)"

named_theorems le_steps

lemma le_refl [le_steps]: "le_opt a a"
  by (simp add: le_opt_def)

lemma le_bind [le_steps]: "le_opt a b \<Longrightarrow> (\<And>x. le_opt (f x) (g x)) \<Longrightarrow> le_opt (a \<bind> f) (b \<bind> g)"
  by (cases a) (simp_all add: le_opt_def)

lemma le_if [le_steps]: "(c \<Longrightarrow> le_opt a b) \<Longrightarrow> (\<not> c \<Longrightarrow> le_opt a' b') \<Longrightarrow> le_opt (if c then a else a') (if c then b else b')"
  by simp

lemma le_prod [le_steps]: "(\<And>x y. le_opt (f x y) (g x y)) \<Longrightarrow> le_opt (case p of (x, y) \<Rightarrow> f x y) (case p of (x, y) \<Rightarrow> g x y)"
  by (cases p) simp

lemma le_outcome [le_steps]:
  "(\<And>x. le_opt (f x) (g x)) \<Longrightarrow> (\<And>c. le_opt (f' c) (g' c)) \<Longrightarrow>
    le_opt (case r of Done x \<Rightarrow> f x | Exit c \<Rightarrow> f' c) (case r of Done x \<Rightarrow> g x | Exit c \<Rightarrow> g' c)"
  by (cases r) simp_all

lemma le_kref [le_steps]:
  "(\<And>b. le_opt (f b) (g b)) \<Longrightarrow> (\<And>b i. le_opt (f' b i) (g' b i)) \<Longrightarrow>
    le_opt (case r of PcbRef b \<Rightarrow> f b | PageRef b i \<Rightarrow> f' b i) (case r of PcbRef b \<Rightarrow> g b | PageRef b i \<Rightarrow> g' b i)"
  by (cases r) simp_all

lemma le_option [le_steps]:
  "le_opt a b \<Longrightarrow> (\<And>x. le_opt (f x) (g x)) \<Longrightarrow> le_opt (case z of None \<Rightarrow> a | Some x \<Rightarrow> f x) (case z of None \<Rightarrow> b | Some x \<Rightarrow> g x)"
  by (cases z) simp_all

lemma le_Let [le_steps]: "(\<And>x. le_opt (f x) (g x)) \<Longrightarrow> le_opt (let x = a in f x) (let x = a in g x)"
  by simp

definition parser_extends :: "'z kparser \<Rightarrow> 'z kparser \<Rightarrow> bool" where
  "parser_extends p q \<longleftrightarrow> (\<forall>ln s. le_opt (p ln s) (q ln s))"

lemma cpu_run_extends: "parser_extends p q \<Longrightarrow> le_opt (cpu_run p b i j s) (cpu_run q b i j s)"
  unfolding cpu_run_def by (intro le_steps) (simp add: parser_extends_def)

lemma run_proc_extends: "parser_extends p q \<Longrightarrow> le_opt (run_proc p b i j s) (run_proc q b i j s)"
  unfolding run_proc_def by (intro le_steps cpu_run_extends)

lemma run_next_extends: "parser_extends p q \<Longrightarrow> le_opt (run_next p b s) (run_next q b s)"
  unfolding run_next_def by (intro le_steps run_proc_extends)

lemma rr_turn_extends: "parser_extends p q \<Longrightarrow> le_opt (rr_turn_a3 p s) (rr_turn_a3 q s)"
  unfolding rr_turn_a3_def by (intro le_steps run_next_extends)

lemma rr_loop_extends:
  assumes "parser_extends p q"
  shows "le_opt (rr_loop p s) (rr_loop q s)"
  unfolding le_opt_def
proof (intro allI impI)
  fix r assume "rr_loop p s = Some r"
  then have "parser_extends p q \<longrightarrow> rr_loop q s = Some r"
  proof (rule rr_loop.raw_induct [rotated, where P = "\<lambda>p s r. parser_extends p q \<longrightarrow> rr_loop q s = Some r"], goal_cases)
    case (1 f p s r)
    have "le_opt (queue_done s \<bind> (\<lambda>d. if d then Some (Done (), s) else rr_turn_a3 p s \<bind>
        (\<lambda>(r, s). case r of Done u \<Rightarrow> f p s | Exit c \<Rightarrow> Some (Exit c, s)))) (rr_loop q s)" if e: "parser_extends p q"
      unfolding rr_loop.simps [of q s] using 1(1) e by (intro le_steps rr_turn_extends) (auto simp: le_opt_def)
    then show ?case using 1(2) by (auto simp: le_opt_def)
  qed
  then show "rr_loop q s = Some r" using assms by simp
qed

lemma run_proc_RR_extends: "parser_extends p q \<Longrightarrow> le_opt (run_proc_RR p s) (run_proc_RR q s)"
  unfolding run_proc_RR_def by (intro le_steps rr_loop_extends)

lemma fifo_lines_extends:
  assumes "parser_extends p q"
  shows "le_opt (fifo_lines p b s) (fifo_lines q b s)"
  unfolding le_opt_def
proof (intro allI impI)
  fix r assume "fifo_lines p b s = Some r"
  then have "parser_extends p q \<longrightarrow> fifo_lines q b s = Some r"
  proof (rule fifo_lines.raw_induct [rotated, where P = "\<lambda>p b s r. parser_extends p q \<longrightarrow> fifo_lines q b s = Some r"], goal_cases)
    case (1 f p b s r)
    have "le_opt (k_pcbs s b \<bind> (\<lambda>c. if proc_done (lines_a3 c) then Some (Done (), s)
        else first_valid (page_table c) \<bind> (\<lambda>(i, j). run_proc p b i j s \<bind>
          (\<lambda>(r, s). case r of Done u \<Rightarrow> f p b s | Exit c \<Rightarrow> Some (Exit c, s))))) (fifo_lines q b s)" if e: "parser_extends p q"
      unfolding fifo_lines.simps [of q b s] using 1(1) e by (intro le_steps run_proc_extends) (auto simp: le_opt_def)
    then show ?case using 1(2) by (auto simp: le_opt_def)
  qed
  then show "fifo_lines q b s = Some r" using assms by simp
qed

lemma fifo_turn_extends: "parser_extends p q \<Longrightarrow> le_opt (fifo_turn p s) (fifo_turn q s)"
  unfolding fifo_turn_def by (intro le_steps fifo_lines_extends)

lemma fifo_loop_extends:
  assumes "parser_extends p q"
  shows "le_opt (fifo_loop p s) (fifo_loop q s)"
  unfolding le_opt_def
proof (intro allI impI)
  fix r assume "fifo_loop p s = Some r"
  then have "parser_extends p q \<longrightarrow> fifo_loop q s = Some r"
  proof (rule fifo_loop.raw_induct [rotated, where P = "\<lambda>p s r. parser_extends p q \<longrightarrow> fifo_loop q s = Some r"], goal_cases)
    case (1 f p s r)
    have "le_opt (if ll_size (QUEUE s) > 0 then fifo_turn p s \<bind>
        (\<lambda>(r, s). case r of Done u \<Rightarrow> f p s | Exit c \<Rightarrow> Some (Exit c, s)) else Some (Done 0, s)) (fifo_loop q s)" if e: "parser_extends p q"
      unfolding fifo_loop.simps [of q s] using 1(1) e by (intro le_steps fifo_turn_extends) (auto simp: le_opt_def)
    then show ?case using 1(2) by (auto simp: le_opt_def)
  qed
  then show "fifo_loop q s = Some r" using assms by simp
qed

lemma run_proc_FIFO_extends: "parser_extends p q \<Longrightarrow> le_opt (run_proc_FIFO p s) (run_proc_FIFO q s)"
  by (simp add: run_proc_FIFO_def fifo_loop_extends)

end
