(* ===== verification/A3_Start.thy ===== *)
theory A3_Start
  imports Kernel_Invariant
begin

text \<open>
  Starting processes in the third shell (\<^verbatim>\<open>new_proc\<close> of \<^verbatim>\<open>a3/kernel.c\<close> and \<^verbatim>\<open>PCB_init\<close> of \<^verbatim>\<open>a3/pcb.c\<close>): as long as the frame store
  has room and the scripts have at most six lines, every process finds all its lines in memory, in consecutive
  frames. The processes that are started from a kernel without any are then ready for round robin.
\<close>

subsection \<open>Starting a process\<close>

text \<open>Reading lines from the stream gives these, and then the end of the file.\<close>

fun yields :: "string list \<Rightarrow> stream \<Rightarrow> bool" where
  "yields [] fp \<longleftrightarrow> rest fp = []"
| "yields (l # ls) fp \<longleftrightarrow> (\<exists>fp'. fgets 999 fp = (Some l, fp') \<and> yields ls fp')"

text \<open>The first \<open>a\<close> frames of the memory are in use, the others are free.\<close>

definition frames_used :: "nat \<Rightarrow> memory_a3 \<Rightarrow> bool" where
  "frames_used a m \<longleftrightarrow> 3 * a \<le> border m \<and> border m \<le> length (mcells m) \<and>
     (\<forall>k < border m. fst (mcells m ! k) = ''none'' \<longleftrightarrow> 3 * a \<le> k)"

text \<open>Only cells from \<open>k\<close> up to \<open>k + 3\<close> differ.\<close>

definition same_cells :: "nat \<Rightarrow> memory_a3 \<Rightarrow> memory_a3 \<Rightarrow> bool" where
  "same_cells k m m' \<longleftrightarrow> border m' = border m \<and> length (mcells m') = length (mcells m) \<and>
     (\<forall>j. j < k \<or> k + 3 \<le> j \<longrightarrow> mcells m' ! j = mcells m ! j)"

lemma same_cells_trans: "same_cells k m m1 \<Longrightarrow> same_cells k m1 m2 \<Longrightarrow> same_cells k m m2"
  by (auto simp: same_cells_def)

abbreviation frame_index :: "nat \<Rightarrow> int list" where
  "frame_index a \<equiv> [int (3 * a), int (3 * a + 1), int (3 * a + 2)]"

lemma frame_index_nth: "j < 3 \<Longrightarrow> frame_index a ! j = int (3 * a + j)"
  by (auto simp: less_Suc_eq numeral_3_eq_3)

lemma page_lines_ok:
  assumes "yields lns fp" and "index pg = frame_index a" and "length (valid_bit pg) = 3" and "j + n = 3" and "3 * a + 3 \<le> length (mcells m)"
    and "\<forall>i < 3. fst (mcells m ! (3 * a + i)) = pid"
  shows "\<exists>pg' fp' m'. page_lines j n pid pg fp m = Some (pg', fp', m') \<and> index pg' = index pg \<and> length (valid_bit pg') = 3 \<and>
    page_index pg' = page_index pg \<and> page_pid pg' = page_pid pg \<and> yields (drop n lns) fp' \<and> same_cells (3 * a) m m' \<and>
    (\<forall>i < 3. fst (mcells m' ! (3 * a + i)) = pid) \<and> (\<forall>i < j. mcells m' ! (3 * a + i) = mcells m ! (3 * a + i) \<and> valid_bit pg' ! i = valid_bit pg ! i) \<and>
    (\<forall>t < min n (length lns). valid_bit pg' ! (j + t) = 1 \<and> mcells m' ! (3 * a + (j + t)) = (pid, lns ! t))"
  using assms
proof (induction n arbitrary: j lns fp pg m)
  case 0
  then show ?case by (auto simp: same_cells_def)
next
  case (Suc n)
  show ?case
  proof (cases lns)
    case Nil
    then have "fgets 999 fp = (None, fp\<lparr>eof := True\<rparr>)" using Suc.prems(1) by (simp add: fgets_def)
    then show ?thesis using Nil Suc.prems by (auto simp: same_cells_def)
  next
    case (Cons l ls)
    then obtain fp1 where fp1: "fgets 999 fp = (Some l, fp1)" "yields ls fp1" using Suc.prems(1) by auto
    have j: "j < 3" using Suc.prems(4) by simp
    let ?k = "3 * a + j"
    let ?m = "m\<lparr>mcells := (mcells m)[?k := (pid, l)]\<rparr>" and ?pg = "pg\<lparr>valid_bit := (valid_bit pg)[j := 1]\<rparr>"
    have "index pg ! j = int ?k" using Suc.prems(2) frame_index_nth [OF j] by (simp only:)
    then have idx: "0 \<le> index pg ! j" "nat (index pg ! j) = ?k" by (simp_all only: nat_int of_nat_0_le_iff)
    then have set: "mem_set_value_at (index pg ! j) pid l m = Some (1, ?m)"
      using Suc.prems(5) j unfolding mem_set_value_at_def in_mem_def idx(2) by simp
    have "\<forall>i < 3. fst (mcells ?m ! (3 * a + i)) = pid" using Suc.prems(5,6) j by (simp add: nth_list_update)
    then obtain pg' fp' m' where r: "page_lines (Suc j) n pid ?pg fp1 ?m = Some (pg', fp', m')" "index pg' = index ?pg" "length (valid_bit pg') = 3"
      "page_index pg' = page_index ?pg" "page_pid pg' = page_pid ?pg" "yields (drop n ls) fp'" "same_cells (3 * a) ?m m'"
      "\<forall>i < 3. fst (mcells m' ! (3 * a + i)) = pid"
      "\<forall>i < Suc j. mcells m' ! (3 * a + i) = mcells ?m ! (3 * a + i) \<and> valid_bit pg' ! i = valid_bit ?pg ! i"
      "\<forall>t < min n (length ls). valid_bit pg' ! (Suc j + t) = 1 \<and> mcells m' ! (3 * a + (Suc j + t)) = (pid, ls ! t)"
      using Suc.IH [OF fp1(2), of ?pg "Suc j" ?m] Suc.prems(2-5) by auto
    have "page_lines j (Suc n) pid pg fp m = Some (pg', fp', m')" using fp1(1) set r(1) by simp
    moreover have "same_cells (3 * a) m ?m" using j by (auto simp: same_cells_def)
    then have "same_cells (3 * a) m m'" using r(7) same_cells_trans by blast
    moreover have "valid_bit pg' ! (j + t) = 1 \<and> mcells m' ! (3 * a + (j + t)) = (pid, (l # ls) ! t)" if "t < min (Suc n) (Suc (length ls))" for t
    proof (cases t)
      case 0
      then show ?thesis using r(9) Suc.prems(3,5) j by (auto dest!: spec [of _ j])
    next
      case (Suc u)
      then show ?thesis using r(10) that by (auto dest!: spec [of _ u])
    qed
    ultimately show ?thesis using r(2-6,8,9) Cons by (auto simp: nth_list_update)
  qed
qed

lemma frame_alloc_next:
  assumes "frames_used a m" and "3 * a + 3 \<le> border m"
  shows "frame_alloc pid m = (0, Some (frame_index a, [0, 0, 0]), marked pid (3 * a) m)"
proof -
  have "run_free m (3 * a)" using assms by (auto simp: run_free_def frames_used_def)
  moreover have "\<not> run_free m k" if "k < 3 * a" for k
    using that assms by (auto simp: run_free_def frames_used_def intro!: exI [of _ k])
  ultimately have "find (run_free m) [0..<0 + border m] = Some (3 * a)" using assms(2) by (auto simp: find_Some_iff intro!: exI [of _ "3 * a"])
  then show ?thesis by (simp add: frame_alloc_def frame_loop_ok ac_simps del: add_0)
qed

lemma fill_page_ok:
  assumes "frames_used a m" and "3 * a + 3 \<le> border m" and "yields lns fp" and "pid \<noteq> ''none''"
  shows "\<exists>pg' fp' m'. fill_page pid pg fp m = Some (True, pg', fp', m') \<and> index pg' = frame_index a \<and> length (valid_bit pg') = 3 \<and>
    page_index pg' = page_index pg \<and> page_pid pg' = page_pid pg \<and> yields (drop 3 lns) fp' \<and> same_cells (3 * a) m m' \<and> frames_used (Suc a) m' \<and>
    (\<forall>t < min 3 (length lns). valid_bit pg' ! t = 1 \<and> snd (mcells m' ! (3 * a + t)) = lns ! t)"
proof -
  let ?m = "marked pid (3 * a) m" and ?pg = "pg\<lparr>index := frame_index a, valid_bit := [0, 0, 0]\<rparr>"
  have len: "3 * a + 3 \<le> length (mcells m)" using assms(1,2) by (simp add: frames_used_def)
  have "\<forall>i < 3. fst (mcells ?m ! (3 * a + i)) = pid"
    using len by (auto simp: marked_def nth_list_update less_Suc_eq numeral_3_eq_3)
  moreover have sm: "same_cells (3 * a) m ?m" by (auto simp: same_cells_def marked_def)
  ultimately obtain pg' fp' m' where r: "page_lines 0 3 pid ?pg fp ?m = Some (pg', fp', m')" "index pg' = index ?pg" "length (valid_bit pg') = 3"
    "page_index pg' = page_index ?pg" "page_pid pg' = page_pid ?pg" "yields (drop 3 lns) fp'" "same_cells (3 * a) ?m m'"
    "\<forall>i < 3. fst (mcells m' ! (3 * a + i)) = pid"
    "\<forall>t < min 3 (length lns). valid_bit pg' ! (0 + t) = 1 \<and> mcells m' ! (3 * a + (0 + t)) = (pid, lns ! t)"
    using page_lines_ok [OF assms(3), of ?pg a 0 3 ?m pid] len by (auto simp: same_cells_def)
  have sc: "same_cells (3 * a) m m'" using same_cells_trans [OF sm r(7)] .
  have "fst (mcells m' ! k) = ''none'' \<longleftrightarrow> 3 * Suc a \<le> k" if "k < border m" for k
  proof (cases "k < 3 * a \<or> 3 * a + 3 \<le> k")
    case True
    then show ?thesis using sc assms(1) that by (auto simp: same_cells_def frames_used_def)
  next
    case False
    then have "k = 3 * a + (k - 3 * a)" "k - 3 * a < 3" by linarith+
    then have "fst (mcells m' ! k) = pid" using r(8) by metis
    then show ?thesis using False assms(4) by simp
  qed
  then have "frames_used (Suc a) m'" using sc assms(1,2) by (simp add: frames_used_def same_cells_def)
  moreover have "fill_page pid pg fp m = Some (True, pg', fp', m')"
    using frame_alloc_next [OF assms(1,2)] r(1) by (simp add: fill_page_def)
  ultimately show ?thesis using r sc by auto
qed

text \<open>A script of lines that are not blank; the last one has no newline.\<close>

definition script_a3 :: "string list \<Rightarrow> string \<Rightarrow> bool" where
  "script_a3 ks t \<longleftrightarrow> (\<forall>k \<in> set ks. prog_line 999 k \<and> k \<noteq> [newline]) \<and> t \<noteq> [] \<and> newline \<notin> set t \<and> length t < 998"

lemma yields_script: "script_a3 ks t \<Longrightarrow> yields (ks @ [t]) \<lparr>rest = concat ks @ t, eof = False\<rparr>"
proof (induction ks)
  case Nil
  then show ?case using fgets_rest [of t 999 False] by (simp add: script_a3_def)
next
  case (Cons k ks)
  then show ?case using fgets_line [of 999 k "concat ks @ t" False] by (simp add: script_a3_def)
qed

lemma count_newlines_word: "newline \<notin> set w \<Longrightarrow> w \<noteq> [] \<or> c \<noteq> newline \<Longrightarrow> count_newlines c (w @ newline # r) = 1 + count_newlines newline r"
  by (induction w arbitrary: c) auto

lemma count_newlines_none: "newline \<notin> set w \<Longrightarrow> count_newlines c w = 0"
  by (induction w arbitrary: c) auto

lemma count_script: "script_a3 ks t \<Longrightarrow> count_newlines newline (concat ks @ t) = int (length ks)"
proof (induction ks)
  case Nil
  then show ?case by (simp add: script_a3_def count_newlines_none)
next
  case (Cons k ks)
  then obtain w where "k = w @ [newline]" "newline \<notin> set w" "w \<noteq> []" by (auto simp: script_a3_def prog_line_def)
  then show ?case using Cons count_newlines_word [of w newline "concat ks @ t"] by (simp add: script_a3_def)
qed

definition pages_for :: "nat \<Rightarrow> nat" where
  "pages_for n = (n + 2) div 3"

lemma PAGE_table_size_eq: "PAGE_table_size (int n) = int (pages_for n)"
proof -
  have "int n smod 3 = int (n mod 3)" "int n sdiv 3 = int (n div 3)" by (simp_all only: int_smod int_sdiv)
  moreover have "pages_for n = (if n mod 3 = 0 then n div 3 else n div 3 + 1)" unfolding pages_for_def by presburger
  ultimately show ?thesis by (simp add: PAGE_table_size_def)
qed

text \<open>Page \<open>k\<close> of the table has frame \<open>a + k\<close>, and the lines of the page are there.\<close>

definition loaded :: "nat \<Rightarrow> string list \<Rightarrow> page list \<Rightarrow> nat \<Rightarrow> memory_a3 \<Rightarrow> bool" where
  "loaded a lns pgs k m \<longleftrightarrow> index (pgs ! k) = frame_index (a + k) \<and> length (valid_bit (pgs ! k)) = 3 \<and>
     (\<forall>t < 3. 3 * k + t < length lns \<longrightarrow> valid_bit (pgs ! k) ! t \<noteq> 0 \<and> snd (mcells m ! (3 * (a + k) + t)) = lns ! (3 * k + t))"

lemma loaded_same: "loaded a lns pgs k m \<Longrightarrow> k < i \<Longrightarrow> same_cells (3 * (a + i)) m m' \<Longrightarrow> pgs' ! k = pgs ! k \<Longrightarrow> loaded a lns pgs' k m'"
  by (simp add: loaded_def same_cells_def)

text \<open>The cells below \<open>k\<close> and those of the variables are as before.\<close>

definition kept_cells :: "nat \<Rightarrow> memory_a3 \<Rightarrow> memory_a3 \<Rightarrow> bool" where
  "kept_cells k m m' \<longleftrightarrow> border m' = border m \<and> length (mcells m') = length (mcells m) \<and>
     (\<forall>j. j < k \<or> border m \<le> j \<longrightarrow> mcells m' ! j = mcells m ! j)"

lemma init_pages_ok:
  assumes "frames_used (a + i) m" and "3 * (a + i + n) \<le> border m" and "i + n \<le> length (page_table p)" and "yields (drop (3 * i) lns) (source_file p)"
    and "dec_int (pid_a3 p) \<noteq> ''none''" and "\<forall>k < i. loaded a lns (page_table p) k m"
  shows "\<exists>pgs fp m'. init_pages i n p m t = Some (Done (p\<lparr>page_table := pgs, source_file := fp\<rparr>), m', t) \<and>
    length pgs = length (page_table p) \<and> (\<forall>k < i + n. loaded a lns pgs k m') \<and> frames_used (a + i + n) m' \<and> kept_cells (3 * (a + i)) m m'"
  using assms
proof (induction n arbitrary: i p m)
  case 0
  then show ?case by (intro exI [of _ "page_table p"] exI [of _ "source_file p"]) (simp add: kept_cells_def)
next
  case (Suc n)
  have i: "i < length (page_table p)" and b: "3 * (a + i) + 3 \<le> border m" using Suc.prems(2,3) by auto
  obtain pg fp m1 where f: "fill_page (dec_int (pid_a3 p)) (page_table p ! i) (source_file p) m = Some (True, pg, fp, m1)"
    "index pg = frame_index (a + i)" "length (valid_bit pg) = 3" "yields (drop 3 (drop (3 * i) lns)) fp" "same_cells (3 * (a + i)) m m1"
    "frames_used (Suc (a + i)) m1" "\<forall>t < min 3 (length (drop (3 * i) lns)). valid_bit pg ! t = 1 \<and> snd (mcells m1 ! (3 * (a + i) + t)) = drop (3 * i) lns ! t"
    using fill_page_ok [OF Suc.prems(1) b Suc.prems(4,5)] by blast
  let ?pgs = "(page_table p)[i := pg]"
  let ?p = "p\<lparr>page_table := ?pgs, source_file := fp\<rparr>"
  have "loaded a lns ?pgs i m1" using f(2,3,7) i by (auto simp: loaded_def)
  moreover have "loaded a lns ?pgs k m1" if "k < i" for k
    using Suc.prems(6) that loaded_same [OF _ that f(5), of lns "page_table p" ?pgs] by simp
  ultimately have l: "\<forall>k < Suc i. loaded a lns ?pgs k m1" by (auto simp: less_Suc_eq)
  have bd: "border m1 = border m" "length (mcells m1) = length (mcells m)" using f(5) by (simp_all add: same_cells_def)
  obtain pgs fp' m' where r: "init_pages (Suc i) n ?p m1 t = Some (Done (?p\<lparr>page_table := pgs, source_file := fp'\<rparr>), m', t)"
    "length pgs = length (page_table p)" "\<forall>k < Suc i + n. loaded a lns pgs k m'" "frames_used (a + Suc i + n) m'" "kept_cells (3 * (a + Suc i)) m1 m'"
    using Suc.IH [of "Suc i" m1 ?p] f(4,6) l bd Suc.prems(2,3,5) by (auto simp: ac_simps)
  have "kept_cells (3 * (a + i)) m m'" using r(5) f(5) bd b by (auto simp: kept_cells_def same_cells_def)
  then show ?case using f(1) i r by auto
qed

lemma dec_digits: "c \<in> set (dec k) \<Longrightarrow> of_char c < (58 :: nat)"
proof (induction k rule: dec.induct)
  case (1 k)
  then show ?case by (subst (asm) (2) dec.simps) (auto split: if_splits)
qed

lemma dec_int_name: "dec_int n \<noteq> ''none''"
proof
  assume "dec_int n = ''none''"
  then have "CHR ''n'' \<in> set (dec (nat n))" by (auto simp: dec_int_def split: if_splits)
  then show False using dec_digits by fastforce
qed

lemma PCB_init_ok:
  assumes "script_a3 ks t" and "length ks < 6" and "frames_used a m" and "3 * (a + pages_for (Suc (length ks))) \<le> border m"
  shows "\<exists>p m'. PCB_init PID name (Some (concat ks @ t)) m ot = Some (Done p, m', ot) \<and>
    page_table_size p = int (pages_for (Suc (length ks))) \<and> length (page_table p) = pages_for (Suc (length ks)) \<and>
    lines_a3 p = int (Suc (length ks)) \<and> program_counter p = replicate (pages_for (Suc (length ks))) 0 \<and>
    (\<forall>k < pages_for (Suc (length ks)). loaded a (ks @ [t]) (page_table p) k m') \<and>
    frames_used (a + pages_for (Suc (length ks))) m' \<and> kept_cells (3 * a) m m'"
proof -
  let ?n = "pages_for (Suc (length ks))"
  have c: "count_lines (Some (concat ks @ t)) = int (Suc (length ks))" using count_script [OF assms(1)] by (simp add: count_lines_def)
  have n: "?n \<le> 2" using assms(2) by (simp add: pages_for_def)
  let ?p = "\<lparr>pid_a3 = PID, lines_a3 = int (Suc (length ks)), program_counter = replicate ?n 0,
    page_table = map (\<lambda>i. PAGE_init PID (int i)) [0..<?n], page_table_size = int ?n, source_file = \<lparr>rest = concat ks @ t, eof = False\<rparr>\<rparr>"
  have "PCB_init PID name (Some (concat ks @ t)) m ot = init_pages 0 ?n ?p m ot"
    unfolding PCB_init_def c PAGE_table_size_eq Let_def using n by (simp del: of_nat_Suc)
  moreover obtain pgs fp m' where "init_pages 0 ?n ?p m ot = Some (Done (?p\<lparr>page_table := pgs, source_file := fp\<rparr>), m', ot)"
    "length pgs = length (page_table ?p)" "\<forall>k < 0 + ?n. loaded a (ks @ [t]) pgs k m'" "frames_used (a + 0 + ?n) m'" "kept_cells (3 * (a + 0)) m m'"
    using init_pages_ok [of a 0 m ?n ?p "ks @ [t]" ot] assms(3,4) yields_script [OF assms(1)] dec_int_name by fastforce
  ultimately show ?thesis by (auto simp del: of_nat_Suc)
qed

lemma same_core_trans: "same_core s s1 \<Longrightarrow> same_core s1 s2 \<Longrightarrow> same_core s s2"
  by (simp add: same_core_def)

lemma add_pages_ok:
  assumes "klists s qs ls zs" and "int_room (length ls + n)"
  shows "\<exists>s'. add_pages b i n s = Some s' \<and> klists s' qs (rev (map (PageRef b) [i..<i + n]) @ ls) zs \<and> same_core s s'"
  using assms
proof (induction n arbitrary: i ls s)
  case 0
  then show ?case by (simp add: same_core_def)
next
  case (Suc n)
  obtain s1 where s1: "on_lru (add_head (PageRef b i)) s = Some (0, s1)" "klists s1 qs (PageRef b i # ls) zs" "same_core s s1"
    using lru_add [OF Suc.prems(1), of "PageRef b i"] Suc.prems(2) by (auto simp: int_room_def)
  obtain s2 where s2: "add_pages b (Suc i) n s1 = Some s2" "klists s2 qs (rev (map (PageRef b) [Suc i..<Suc i + n]) @ PageRef b i # ls) zs"
    "same_core s1 s2"
    using Suc.IH [OF s1(2), of "Suc i"] Suc.prems(2) by auto
  have "[i..<i + Suc n] = i # [Suc i..<Suc i + n]" by (simp add: upt_conv_Cons del: upt_Suc)
  then show ?case using s1(1) s2 same_core_trans [OF s1(3) s2(3)] by (auto simp del: upt_Suc)
qed

text \<open>The jobs are all the processes there are; they have the first \<open>a\<close> frames.\<close>

definition procs_in :: "nat \<Rightarrow> 'z kparser \<Rightarrow> 'z kernel_scheme \<Rightarrow> job_a3 list \<Rightarrow> bool" where
  "procs_in a parse s jobs \<longleftrightarrow>
     (\<exists>ls. klists s (map (\<lambda>j. PcbRef (fst j)) jobs) ls (map (\<lambda>j. PcbRef (fst j)) jobs) \<and> live s ls \<and> length ls \<le> 2 * length jobs \<and>
        (\<forall>j \<in> set jobs. proc_ok parse s (set ls) j)) \<and>
     distinct (map fst jobs) \<and> (\<forall>b. k_pcbs s b \<noteq> None \<longrightarrow> b < k_brk s) \<and> frames_used a (k_mem s) \<and> border (k_mem s) + 2 \<le> length (mcells (k_mem s)) \<and>
     (\<forall>j \<in> set jobs. \<forall>p. k_pcbs s (fst j) = Some p \<longrightarrow> (\<forall>pg \<in> set (page_table p). \<forall>k \<in> set (index pg). 0 \<le> k \<and> k < int (3 * a)))"

lemma procs_in_jobs_ok:
  assumes "procs_in a parse s jobs"
  shows "jobs_ok_a3 parse (map (\<lambda>j. PcbRef (fst j)) jobs) s jobs"
proof -
  have "freeable s (PcbRef (fst j))" if j: "j \<in> set jobs" for j
  proof -
    obtain p where p: "k_pcbs s (fst j) = Some p" using assms j by (auto simp: procs_in_def proc_ok_def)
    then have "\<forall>pg \<in> set (page_table p). \<forall>k \<in> set (index pg). 0 \<le> k \<and> k < int (3 * a)" using assms j by (auto simp: procs_in_def)
    moreover have "3 * a + 2 \<le> length (mcells (k_mem s))" using assms by (auto simp: procs_in_def frames_used_def)
    ultimately show ?thesis using p unfolding freeable_def by fastforce
  qed
  moreover have "distinct (map (\<lambda>j. PcbRef (fst j)) jobs)" using assms by (auto simp: procs_in_def distinct_map inj_on_def)
  ultimately show ?thesis using assms unfolding procs_in_def jobs_ok_a3_def by auto
qed

lemma procs_in_fresh:
  assumes "klists s [] [] []" and "\<forall>b. k_pcbs s b \<noteq> None \<longrightarrow> b < k_brk s" and "frames_used 0 (k_mem s)" and "border (k_mem s) + 2 \<le> length (mcells (k_mem s))"
  shows "procs_in 0 parse s []"
  using assms by (auto simp: procs_in_def)

text \<open>Lines that are in memory stay there when the cells of their frames do.\<close>

lemma mem_get_kept:
  assumes "kept_cells b m m'" and "0 \<le> x" and "x < int b"
  shows "mem_get_value_at x m' = mem_get_value_at x m"
proof -
  have "nat x < b" using assms(2,3) by simp
  then show ?thesis using assms(1) by (simp add: kept_cells_def mem_get_value_at_def in_mem_def)
qed

lemma script_at_kept:
  assumes "script_at m p d lns" and "kept_cells (3 * a) m m'" and "\<forall>pg \<in> set (page_table p). \<forall>k \<in> set (index pg). 0 \<le> k \<and> k < int (3 * a)"
  shows "script_at m' p d lns"
proof -
  have "mem_get_value_at (index (page_table p ! ((d + t) div 3)) ! ((d + t) mod 3)) m' = mem_get_value_at (index (page_table p ! ((d + t) div 3)) ! ((d + t) mod 3)) m"
    if t: "t < length lns" for t
  proof -
    have pg: "page_table p ! ((d + t) div 3) \<in> set (page_table p)" using assms(1) t by (intro nth_mem) (auto simp: script_at_def)
    moreover have "index (page_table p ! ((d + t) div 3)) ! ((d + t) mod 3) \<in> set (index (page_table p ! ((d + t) div 3)))"
      using assms(1) pg by (intro nth_mem) (auto simp: script_at_def)
    ultimately have "0 \<le> index (page_table p ! ((d + t) div 3)) ! ((d + t) mod 3) \<and> index (page_table p ! ((d + t) div 3)) ! ((d + t) mod 3) < int (3 * a)"
      using assms(3) by blast
    then show ?thesis using mem_get_kept [OF assms(2)] by blast
  qed
  then show ?thesis using assms(1) by (simp add: script_at_def Let_def)
qed

lemma script_at_loaded:
  assumes "page_table_size p = int n" and "length (page_table p) = n" and "lines_a3 p = int (length lns)" and "program_counter p = replicate n 0"
    and "length lns \<le> 3 * n" and "\<forall>k < n. loaded a lns (page_table p) k m" and "3 * (a + n) \<le> length (mcells m)"
  shows "script_at m p 0 lns" "\<forall>pg \<in> set (page_table p). \<forall>k \<in> set (index pg). 0 \<le> k \<and> k < int (3 * (a + n))"
proof -
  have ix: "index (page_table p ! k) = frame_index (a + k)" "length (valid_bit (page_table p ! k)) = 3" if "k < n" for k
    using assms(6) that by (auto simp: loaded_def)
  show "\<forall>pg \<in> set (page_table p). \<forall>k \<in> set (index pg). 0 \<le> k \<and> k < int (3 * (a + n))"
  proof (intro ballI)
    fix pg k assume "pg \<in> set (page_table p)" "k \<in> set (index pg)"
    moreover then obtain i where "pg = page_table p ! i" "i < n" using assms(2) by (auto simp: in_set_conv_nth)
    ultimately show "0 \<le> k \<and> k < int (3 * (a + n))" using ix(1) by auto
  qed
  have "let pg = page_table p ! (t div 3) in valid_bit pg ! (t mod 3) \<noteq> 0 \<and> mem_get_value_at (index pg ! (t mod 3)) m = Some (lns ! t)"
    if t: "t < length lns" for t
  proof -
    have k: "t div 3 < n" and e: "3 * (t div 3) + t mod 3 = t" and r: "t mod 3 < 3" using t assms(5) by auto
    have "\<forall>u < 3. 3 * (t div 3) + u < length lns \<longrightarrow> valid_bit (page_table p ! (t div 3)) ! u \<noteq> 0 \<and>
        snd (mcells m ! (3 * (a + t div 3) + u)) = lns ! (3 * (t div 3) + u)"
      using assms(6) k unfolding loaded_def by blast
    from this [rule_format, OF r] have v: "valid_bit (page_table p ! (t div 3)) ! (t mod 3) \<noteq> 0"
      "snd (mcells m ! (3 * (a + t div 3) + t mod 3)) = lns ! t"
      unfolding e using t by simp_all
    have "index (page_table p ! (t div 3)) ! (t mod 3) = int (3 * (a + t div 3) + t mod 3)" using ix(1) [OF k] frame_index_nth [OF r] by (simp only:)
    moreover have "3 * (a + t div 3) + t mod 3 = 3 * a + t" using e by (simp only: distrib_left add.assoc)
    then have "3 * (a + t div 3) + t mod 3 < length (mcells m)" using t assms(5,7) by simp
    ultimately have "mem_get_value_at (index (page_table p ! (t div 3)) ! (t mod 3)) m = Some (snd (mcells m ! (3 * (a + t div 3) + t mod 3)))"
      by (simp only: mem_get_value_at_def in_mem_def nat_int of_nat_0_le_iff simp_thms if_True)
    then show ?thesis using v by (simp add: Let_def)
  qed
  moreover have "\<forall>pg \<in> set (page_table p). length (index pg) = 3 \<and> length (valid_bit pg) = 3" using ix assms(2) by (auto simp: in_set_conv_nth)
  ultimately show "script_at m p 0 lns" using assms(1-5) by (simp add: script_at_def map_replicate_const)
qed

lemma page_at_fresh: "k b = None \<Longrightarrow> page_at k r \<noteq> None \<Longrightarrow> page_at (k(b \<mapsto> p)) r \<noteq> None"
  by (auto simp: page_at_def split: kref.splits)

lemma new_proc_ok:
  assumes "procs_in a parse s jobs" and "files script = Some (concat ks @ t)" and "script_a3 ks t" and "map fst lts = ks @ [t]"
    and "length ks < 6" and "\<forall>lt \<in> set lts. quiet_a3 parse lt" and "3 * (a + pages_for (length lts)) \<le> border (k_mem s)" and "length jobs < 1000"
  shows "\<exists>s'. new_proc files script s = Some (Done 0, s') \<and> procs_in (a + pages_for (length lts)) parse s' (jobs @ [(k_brk s, lts)]) \<and>
    k_out s' = k_out s \<and> kernel.more s' = kernel.more s \<and> kept_cells (3 * a) (k_mem s) (k_mem s') \<and>
    (\<exists>p. k_pcbs s' (k_brk s) = Some p \<and> script_at (k_mem s') p 0 (map fst lts))"
proof -
  let ?b = "k_brk s" and ?n = "pages_for (length lts)"
  have len: "length lts = Suc (length ks)" using arg_cong [OF assms(4), of length] by simp
  have n: "?n \<le> 2" "length lts \<le> 3 * ?n" using assms(5) len by (auto simp: pages_for_def)
  obtain ls where k: "klists s (map (\<lambda>j. PcbRef (fst j)) jobs) ls (map (\<lambda>j. PcbRef (fst j)) jobs)" "live s ls" "length ls \<le> 2 * length jobs"
    and j: "\<forall>j \<in> set jobs. proc_ok parse s (set ls) j" and dj: "distinct (map fst jobs)" and fr: "\<forall>b. k_pcbs s b \<noteq> None \<longrightarrow> b < ?b"
    and f: "frames_used a (k_mem s)" "border (k_mem s) + 2 \<le> length (mcells (k_mem s))"
    and ix: "\<forall>j \<in> set jobs. \<forall>p. k_pcbs s (fst j) = Some p \<longrightarrow> (\<forall>pg \<in> set (page_table p). \<forall>k \<in> set (index pg). 0 \<le> k \<and> k < int (3 * a))"
    using assms(1) unfolding procs_in_def by blast
  have nb: "k_pcbs s ?b = None" using fr by blast
  have "\<forall>j \<in> set jobs. fst j < ?b" using j fr by (auto simp: proc_ok_def)
  then have d: "distinct (map fst jobs)" "\<forall>j \<in> set jobs. fst j < ?b" using dj by simp_all
  obtain p m where pm: "PCB_init (PID_counter s) script (files script) (k_mem s) (k_out s) = Some (Done p, m, k_out s)"
    "page_table_size p = int ?n" "length (page_table p) = ?n" "lines_a3 p = int (length lts)" "program_counter p = replicate ?n 0"
    "\<forall>k < ?n. loaded a (map fst lts) (page_table p) k m" "frames_used (a + ?n) m" "kept_cells (3 * a) (k_mem s) m"
    using PCB_init_ok [OF assms(3,5) f(1)] assms(2,4,7) unfolding len by fastforce
  define s1 where "s1 = put_pcb_a3 ?b p ((set_out (k_out s) (s\<lparr>k_mem := m, PID_counter := PID_counter s + 1\<rparr>))\<lparr>k_brk := ?b + 1\<rparr>)"
  have s1: "klists s1 qs us zs = klists s qs us zs" "k_pcbs s1 = (k_pcbs s)(?b \<mapsto> p)" "k_mem s1 = m" "k_out s1 = k_out s" "k_brk s1 = ?b + 1"
    "kernel.more s1 = kernel.more s" for qs us zs
    by (simp_all add: s1_def put_pcb_a3_def set_out_def klists_def on_own_nodes_def)
  have room: "int_room (length (map (\<lambda>j. PcbRef (fst j)) jobs))" "int_room (length ls + ?n)" using assms(8) k(3) n(1) by (simp_all add: int_room_def)
  obtain s2 where s2: "on_all (add_tail (PcbRef ?b)) s1 = Some (0, s2)"
    "klists s2 (map (\<lambda>j. PcbRef (fst j)) jobs) ls (map (\<lambda>j. PcbRef (fst j)) jobs @ [PcbRef ?b])" "same_core s1 s2"
    using all_add [OF k(1) [folded s1(1)] room(1)] by blast
  obtain s3 where s3: "on_ready (add_tail (PcbRef ?b)) s2 = Some (0, s3)"
    "klists s3 (map (\<lambda>j. PcbRef (fst j)) jobs @ [PcbRef ?b]) ls (map (\<lambda>j. PcbRef (fst j)) jobs @ [PcbRef ?b])" "same_core s2 s3"
    using ready_add [OF s2(2) room(1)] by blast
  obtain s4 where s4: "add_pages ?b 0 ?n s3 = Some s4"
    "klists s4 (map (\<lambda>j. PcbRef (fst j)) jobs @ [PcbRef ?b]) (rev (map (PageRef ?b) [0..<0 + ?n]) @ ls) (map (\<lambda>j. PcbRef (fst j)) jobs @ [PcbRef ?b])" "same_core s3 s4"
    using add_pages_ok [OF s3(2) room(2)] by blast
  have c: "same_core s1 s4" using same_core_trans s2(3) s3(3) s4(3) by blast
  then have c': "k_pcbs s4 = (k_pcbs s)(?b \<mapsto> p)" "k_mem s4 = m" "k_out s4 = k_out s" "k_brk s4 = ?b + 1" "kernel.more s4 = kernel.more s"
    using s1 by (simp_all add: same_core_def)
  have "k_brk (set_out (k_out s) (s\<lparr>k_mem := m, PID_counter := PID_counter s + 1\<rparr>)) = ?b" by (simp add: set_out_def)
  then have "new_proc files script s = Some (Done 0, s4)"
    using pm(1,2) s2(1) s3(1) s4(1) n(1) by (cases "?n = 2") (simp_all add: new_proc_def s1_def Let_def)
  moreover have sc: "script_at m p 0 (map fst lts)" "\<forall>pg \<in> set (page_table p). \<forall>k \<in> set (index pg). 0 \<le> k \<and> k < int (3 * (a + ?n))"
    using script_at_loaded [of p ?n "map fst lts" a m] pm(2-6) n(2) assms(7) f(2) pm(8) by (auto simp: kept_cells_def)
  moreover have "procs_in (a + ?n) parse s4 (jobs @ [(?b, lts)])"
  proof -
    let ?ls = "rev (map (PageRef ?b) [0..<0 + ?n]) @ ls"
    have "PageRef ?b (t div 3) \<in> set ?ls" if "t < length lts" for t using that n(2) by auto
    then have pr: "\<forall>u < length (snd (?b, lts)). PageRef (fst (?b, lts)) ((0 + u) div 3) \<in> set ?ls" by simp
    have "k_pcbs s4 (fst (?b, lts)) = Some p" "script_at (k_mem s4) p 0 (map fst (snd (?b, lts)))" using sc(1) c'(1,2) by simp_all
    with pr have nj: "proc_ok parse s4 (set ?ls) (?b, lts)" using assms(6) unfolding proc_ok_def by (metis snd_conv)
    have oj: "proc_ok parse s4 (set ?ls) x" if x: "x \<in> set jobs" for x
    proof -
      obtain q e where q: "k_pcbs s (fst x) = Some q" "script_at (k_mem s) q e (map fst (snd x))"
        "\<forall>t < length (snd x). PageRef (fst x) ((e + t) div 3) \<in> set ls" "\<forall>lt \<in> set (snd x). quiet_a3 parse lt"
        using j x unfolding proc_ok_def by blast
      have "k_pcbs s4 (fst x) = Some q" using c'(1) q(1) d(2) x by auto
      moreover have "script_at m q e (map fst (snd x))" using script_at_kept [OF q(2) pm(8)] ix x q(1) by blast
      ultimately show ?thesis using q(3,4) c'(2) unfolding proc_ok_def by auto
    qed
    have "live s4 ls" using k(2) page_at_fresh [of "k_pcbs s" ?b, OF nb] unfolding c'(1) by blast
    moreover have "live s4 (map (PageRef ?b) [0..<?n])" using c'(1) pm(3) by (auto simp: page_at_def at_def)
    moreover have "border m + 2 \<le> length (mcells m)" using f(2) pm(8) by (simp add: kept_cells_def)
    ultimately have "live s4 ?ls" "border (k_mem s4) + 2 \<le> length (mcells (k_mem s4))" using c'(2) by auto
    moreover have "klists s4 (map (\<lambda>j. PcbRef (fst j)) (jobs @ [(?b, lts)])) ?ls (map (\<lambda>j. PcbRef (fst j)) (jobs @ [(?b, lts)]))"
      using s4(2) by simp
    moreover have "length ?ls \<le> 2 * length (jobs @ [(?b, lts)])" using k(3) n(1) by simp
    moreover have "\<forall>j \<in> set (jobs @ [(?b, lts)]). proc_ok parse s4 (set ?ls) j" using nj oj by simp
    moreover have "distinct (map fst (jobs @ [(?b, lts)]))" using d by auto
    moreover have "\<forall>c. k_pcbs s4 c \<noteq> None \<longrightarrow> c < k_brk s4" using fr unfolding c'(1,4) by (auto simp: less_Suc_eq)
    moreover have "frames_used (a + ?n) (k_mem s4)" using pm(7) c'(2) by simp
    moreover have "\<forall>j \<in> set (jobs @ [(?b, lts)]). \<forall>p. k_pcbs s4 (fst j) = Some p \<longrightarrow>
        (\<forall>pg \<in> set (page_table p). \<forall>k \<in> set (index pg). 0 \<le> k \<and> k < int (3 * (a + ?n)))"
    proof (intro ballI allI impI)
      fix j q assume j: "j \<in> set (jobs @ [(?b, lts)])" and q: "k_pcbs s4 (fst j) = Some q"
      fix pg k assume pg: "pg \<in> set (page_table q)" "k \<in> set (index pg)"
      show "0 \<le> k \<and> k < int (3 * (a + ?n))"
      proof (cases "fst j = ?b")
        case True
        then show ?thesis using q sc(2) pg c'(1) by simp
      next
        case False
        then have "j \<in> set jobs" "k_pcbs s (fst j) = Some q" using j q c'(1) by auto
        then show ?thesis using ix pg by fastforce
      qed
    qed
    ultimately show ?thesis unfolding procs_in_def by blast
  qed
  ultimately show ?thesis using c'(1,2,3,5) pm(8) by auto
qed

subsection \<open>What the lines of a program establish\<close>

text \<open>The parser on some lines only.\<close>

definition only :: "string set \<Rightarrow> 'z kparser \<Rightarrow> 'z kparser" where
  "only L parse ln s = (if ln \<in> L then parse ln s else None)"

lemma only_extends: "parser_extends (only L parse) parse"
  by (simp add: parser_extends_def le_opt_def only_def)

lemma jobs_ok_only:
  assumes "jobs_ok_a3 parse zs s jobs" and "\<forall>j \<in> set jobs. fst ` set (snd j) \<subseteq> L"
  shows "jobs_ok_a3 (only L parse) zs s jobs"
proof -
  have "proc_ok (only L parse) s M j" if "proc_ok parse s M j" "j \<in> set jobs" for M j
    using that assms(2) by (fastforce simp: proc_ok_def quiet_a3_def only_def image_subset_iff)
  then show ?thesis using assms(1) unfolding jobs_ok_a3_def by blast
qed

context kernel_invariant
begin

lemma rr_turn_establishes:
  assumes ok: "jobs_ok_a3 parse zs s ((b, lt # lts) # jobs)" and t: "rr_turn_a3 parse s = Some (r, s')"
    and est: "\<And>ln s r s'. parse ln s = Some (r, s') \<Longrightarrow> I s'"
  shows "I s'"
proof -
  obtain ls where k: "klists s (PcbRef b # map (\<lambda>j. PcbRef (fst j)) jobs) ls zs" and l: "live s ls" and j: "proc_ok parse s (set ls) (b, lt # lts)"
    using ok by (auto simp: jobs_ok_a3_def)
  obtain s1 where s1: "on_ready pop_head s = Some (Done (PcbRef b), s1)" "klists s1 (map (\<lambda>j. PcbRef (fst j)) jobs) ls zs" "same_core s s1"
    using ready_pop [OF k] by blast
  have "live s1 ls" using l s1(3) by (simp add: same_core_def)
  moreover have j1: "proc_ok parse s1 (set ls) (b, lt # lts)" unfolding proc_ok_core [OF s1(3)] by (rule j)
  ultimately obtain s2 where s2: "run_next parse b s1 = Some (Done 0, s2)" using run_lines [OF s1(2)] by blast
  obtain p where p: "k_pcbs s1 b = Some p" "lines_a3 p = int (Suc (length lts))"
    using proc_ok_size [OF j1] by auto
  have I2: "I s2" using run_next_establishes [OF s2 est] .
  have nx: "I s'" if "run_next parse b s = Some (r, s')" "I s" for s r s' using run_next_keeps [OF that(1) _ that(2)] est by (auto simp: parser_keeps_def)
  have add: "I s'" if "on_ready (add_tail x) s = Some (u, s')" "I s" for s s' x u by (rule shape [OF on_list_shape(1) [OF that(1)] that(2)])
  show ?thesis
    using t s1(1) p s2 I2 unfolding rr_turn_a3_def
    by (auto split: bind_splits outcome.splits if_splits) (metis nx add)+
qed

lemma run_proc_RR_establishes:
  assumes ok: "jobs_ok_a3 parse zs s ((b, lt # lts) # jobs)" and r: "run_proc_RR parse s = Some (r, s')"
    and est: "\<And>ln s r s'. parse ln s = Some (r, s') \<Longrightarrow> I s'"
  shows "I s'"
proof -
  have k: "parser_keeps I parse" using est by (auto simp: parser_keeps_def)
  obtain x s1 where l: "rr_loop parse s = Some (x, s1)" using r by (auto simp: run_proc_RR_def split: bind_splits)
  have "queue_done s = Some False" using jobs_queue_done(1) [OF ok] by (cases "queue_done s = Some True") auto
  moreover obtain s2 where s2: "rr_turn_a3 parse s = Some (Done (), s2)" using rr_turn_a3_ok [OF ok] by blast
  ultimately have "rr_loop parse s2 = Some (x, s1)" using l by (subst (asm) rr_loop.simps) simp
  moreover have "I s2" by (rule rr_turn_establishes [OF ok s2]) (rule est)
  ultimately have "I s1" using rr_loop_keeps k by blast
  moreover have "same_shape s1 s'"
    using r l by (auto simp: run_proc_RR_def split: bind_splits outcome.splits dest!: shapes) (blast intro: same_shape_trans)+
  ultimately show ?thesis using shape by blast
qed

end

text \<open>A kernel without processes, with all frames free.\<close>

definition idle_a3 :: "'z kernel_scheme \<Rightarrow> bool" where
  "idle_a3 s \<longleftrightarrow> klists s [] [] [] \<and> (\<forall>b. k_pcbs s b \<noteq> None \<longrightarrow> b < k_brk s) \<and> frames_used 0 (k_mem s) \<and>
     border (k_mem s) + 2 \<le> length (mcells (k_mem s))"

lemma idle_procs: "idle_a3 s \<Longrightarrow> procs_in 0 parse s []"
  by (auto simp: idle_a3_def intro!: procs_in_fresh)

lemma fresh_pair: "heap_ok h \<Longrightarrow> nrep h l as ds \<Longrightarrow> {brk h, brk h + 1} \<inter> node_set l as = {}"
  using nrep_alive [of h l as ds "brk h"] nrep_alive [of h l as ds "brk h + 1"] by (auto simp: heap_ok_def)

lemma kernel_setup_idle:
  assumes "heap_ok (k_heap s)" and "k_pcbs s = Map.empty" and "k_mem s = mem_init_a3 m" and "border m + 2 \<le> length (mcells m)"
  shows "\<exists>s'. kernel_setup s = Some s' \<and> idle_a3 s' \<and> same_core s s'"
proof -
  obtain q h1 where q: "list_init PCB_equal_at (k_heap s) = Some (q, h1)" "nrep h1 q [] []" "heap_ok h1"
    "same_nodes {brk (k_heap s), brk (k_heap s) + 1} (k_heap s) h1" "node_set q [] = {brk (k_heap s), brk (k_heap s) + 1}"
    using list_init_ok [OF assms(1)] by blast
  obtain l h2 where l: "list_init PAGE_equal_at h1 = Some (l, h2)" "nrep h2 l [] []" "heap_ok h2" "equal_fn l = PAGE_equal_at"
    "same_nodes {brk h1, brk h1 + 1} h1 h2" "node_set l [] = {brk h1, brk h1 + 1}"
    using list_init_ok [OF q(3)] by blast
  obtain a h3 where a: "list_init PCB_equal_at h2 = Some (a, h3)" "nrep h3 a [] []" "heap_ok h3"
    "same_nodes {brk h2, brk h2 + 1} h2 h3" "node_set a [] = {brk h2, brk h2 + 1}"
    using list_init_ok [OF l(3)] by blast
  have q2: "nrep h2 q [] []" by (rule nrep_frame [OF q(2) l(5) fresh_pair [OF q(3,2)]])
  have q3: "nrep h3 q [] []" by (rule nrep_frame [OF q2 a(4) fresh_pair [OF l(3) q2]])
  have l3: "nrep h3 l [] []" by (rule nrep_frame [OF l(2) a(4) fresh_pair [OF l(3) l(2)]])
  let ?s = "s\<lparr>QUEUE := q, LRU_CACHE := l, ALL_PCB := a, k_heap := h3\<rparr>"
  have "on_own_nodes ?s [] [] []"
    using fresh_pair [OF q(3,2)] fresh_pair [OF l(3) q2] fresh_pair [OF l(3) l(2)] l(6) a(5) by (auto simp: on_own_nodes_def)
  then have "klists ?s [] [] []" using a(2,3) l(4) q3 l3 by (intro klistsI [of _ "[]" _ "[]" _ "[]"]) simp_all
  moreover have "frames_used 0 (k_mem s)" using assms(3,4) by (simp add: frames_used_def mem_init_a3_def)
  ultimately have "idle_a3 ?s" using assms by (simp add: idle_a3_def mem_init_a3_def)
  moreover have "same_core s ?s" using q(4) l(5) a(4) by (simp add: same_core_def same_nodes_def)
  moreover have "kernel_setup s = Some ?s" using q(1) l(1) a(1) by (simp add: kernel_setup_def)
  ultimately show ?thesis by blast
qed

subsection \<open>First in, first out\<close>

text \<open>The first valid line of a process that was just started is its first line, and running it does not change that.\<close>

lemma fifo_lines_repeats:
  assumes "klists s qs ls zs" and "live s ls" and "k_pcbs s b = Some p" and "page_table p = pg # pgs" and "length (valid_bit pg) = 3"
    and "valid_bit pg ! 0 \<noteq> 0" and "at (index pg) 0 = Some x" and "mem_get_value_at x (k_mem s) = Some (fst lt)"
    and "program_counter p \<noteq> []" and "quiet_a3 parse lt" and "PageRef b 0 \<in> set ls" and "lines_a3 p = int n"
  shows "\<exists>s' ls' p'. fifo_lines parse b s = Some (Done (), s') \<and> klists s' qs ls' zs \<and> k_pcbs s' = (k_pcbs s)(b \<mapsto> p') \<and>
    page_table p' = page_table p \<and> k_mem s' = k_mem s \<and> k_out s' = k_out s @ replicate n (Print (snd lt))"
  using assms(1-3,4,9,11,12) assms(8)
proof (induction n arbitrary: s p ls)
  case 0
  then have "fifo_lines parse b s = Some (Done (), s)" by (subst fifo_lines.simps) (simp add: proc_done_def)
  moreover have "k_pcbs s = (k_pcbs s)(b \<mapsto> p)" using 0(3) by (auto simp: fun_eq_iff)
  ultimately show ?case using 0(1) by fastforce
next
  case (Suc n)
  have "[0..<length (page_table p)] = 0 # [Suc 0..<length (page_table p)]" using Suc.prems(4) by (intro upt_conv_Cons) simp
  moreover have "[0..<3] = [0, Suc 0, 2]" by (simp add: upt_rec)
  ultimately have fv: "first_valid (page_table p) = Some (0, 0)"
    using Suc.prems(4) assms(6) by (auto simp: first_valid_def simp del: upt_Suc)
  have at0: "at (page_table p) 0 = Some pg" "at (valid_bit pg) 0 = Some (valid_bit pg ! 0)" "0 < length (program_counter p)"
    using Suc.prems(4,5) assms(5) by (simp_all add: at_def)
  obtain s1 ls1 where s1: "run_proc parse b 0 0 s = Some (Done 0, s1)" "klists s1 qs ls1 zs" "set ls1 = set ls" "live s1 ls1"
    "k_pcbs s1 = (k_pcbs s)(b \<mapsto> step_pcb_a3 0 p)" "k_mem s1 = k_mem s" "k_out s1 = k_out s @ [Print (snd lt)]"
    using run_proc_quiet [OF Suc.prems(1-3) at0(1,2) assms(6,7) Suc.prems(8) at0(3) assms(10) Suc.prems(6)] by blast
  have q: "k_pcbs s1 b = Some (step_pcb_a3 0 p)" "page_table (step_pcb_a3 0 p) = pg # pgs" "program_counter (step_pcb_a3 0 p) \<noteq> []"
    "lines_a3 (step_pcb_a3 0 p) = int n"
    using s1(5) Suc.prems(4,5,7) by (simp_all add: step_pcb_a3_def)
  have pr: "PageRef b 0 \<in> set ls1" "mem_get_value_at x (k_mem s1) = Some (fst lt)" using s1(3,6) Suc.prems(6,8) by simp_all
  obtain s' ls' p' where s': "fifo_lines parse b s1 = Some (Done (), s')" "klists s' qs ls' zs" "k_pcbs s' = (k_pcbs s1)(b \<mapsto> p')"
    "page_table p' = pg # pgs" "k_mem s' = k_mem s1" "k_out s' = k_out s1 @ replicate n (Print (snd lt))"
    using Suc.IH [OF s1(2,4) q(1-3) pr(1) q(4) pr(2)] unfolding q(2) by blast
  have "\<not> proc_done (lines_a3 p)" using Suc.prems(7) by (simp add: proc_done_def)
  then have "fifo_lines parse b s = Some (Done (), s')"
    using Suc.prems(3) fv s1(1) s'(1) by (subst fifo_lines.simps) simp
  then show ?case using s' s1(5-7) Suc.prems(4) by (intro exI [of _ s'] exI [of _ ls'] exI [of _ p']) simp
qed

lemma klists_ready_size: "klists s qs ls zs \<Longrightarrow> ll_size (QUEUE s) = int (length qs)"
  by (auto simp: klists_def nrep_def)

lemma run_proc_FIFO_repeats:
  assumes "procs_in a parse s [(b, lt # lts)]" and "k_pcbs s b = Some p" and "script_at (k_mem s) p 0 (map fst (lt # lts))"
  shows "\<exists>s'. run_proc_FIFO parse s = Some (Done 0, s') \<and> k_out s' = k_out s @ replicate (Suc (length lts)) (Print (snd lt)) \<and>
    k_pcbs s' b = None"
proof -
  obtain ls where k: "klists s [PcbRef b] ls [PcbRef b]" "live s ls" and j: "proc_ok parse s (set ls) (b, lt # lts)"
    and fr: "freeable s (PcbRef b)"
    using assms(1) procs_in_jobs_ok [OF assms(1)] by (auto simp: procs_in_def jobs_ok_a3_def)
  obtain s1 where s1: "on_ready pop_head s = Some (Done (PcbRef b), s1)" "klists s1 [] ls [PcbRef b]" "same_core s s1"
    using ready_pop [OF k(1)] by blast
  obtain pg v x where line: "at (page_table p) (0 div 3) = Some pg" "at (valid_bit pg) (0 mod 3) = Some v" "v \<noteq> 0"
    "at (index pg) (0 mod 3) = Some x" "mem_get_value_at x (k_mem s) = Some (fst lt)"
    using script_at_line [of "k_mem s" p 0 "fst lt" "map fst lts"] assms(3) by auto
  then obtain pgs where pgs: "page_table p = pg # pgs" by (cases "page_table p") (auto simp: at_def)
  have sc: "length (valid_bit pg) = 3" "program_counter p \<noteq> []" "lines_a3 p = int (Suc (length lts))"
    using assms(3) pgs by (auto simp: script_at_def)
  obtain d where d: "script_at (k_mem s) p d (map fst (lt # lts))" "\<forall>t < length (lt # lts). PageRef b ((d + t) div 3) \<in> set ls"
    and q: "quiet_a3 parse lt"
    using j assms(2) by (auto simp: proc_ok_def)
  have "program_counter p ! 0 = int (min 3 e)" if "script_at (k_mem s) p e l" for e l
    using that pgs unfolding script_at_def by (simp del: upt_Suc)
  from this [OF d(1)] this [OF assms(3)] have "d = 0" by simp
  then have p0: "PageRef b 0 \<in> set ls" using d(2) by (auto dest: spec [of _ 0])
  have s1p: "live s1 ls" "k_pcbs s1 b = Some p" "mem_get_value_at x (k_mem s1) = Some (fst lt)" "k_out s1 = k_out s" "k_mem s1 = k_mem s"
    using k(2) s1(3) assms(2) line(5) by (simp_all add: same_core_def)
  obtain s2 ls2 p2 where s2: "fifo_lines parse b s1 = Some (Done (), s2)" "klists s2 [] ls2 [PcbRef b]" "k_pcbs s2 = (k_pcbs s1)(b \<mapsto> p2)"
    "page_table p2 = page_table p" "k_mem s2 = k_mem s1" "k_out s2 = k_out s1 @ replicate (Suc (length lts)) (Print (snd lt))"
    using fifo_lines_repeats [OF s1(2) s1p(1,2) pgs sc(1) _ _ s1p(3) sc(2) q p0 sc(3)] line pgs sc(1) by (auto simp: at_def split: if_splits)
  have "freeable s2 (PcbRef b)" using fr s2(3-5) s1p(5) assms(2) by (simp add: freeable_def)
  then obtain m where m: "free_proc (PcbRef b) s2 = Some (s2\<lparr>k_mem := m, k_pcbs := (k_pcbs s2)(b := None)\<rparr>)" using free_proc_ok by blast
  let ?s3 = "s2\<lparr>k_mem := m, k_pcbs := (k_pcbs s2)(b := None)\<rparr>"
  have "fifo_turn parse s = Some (Done (), ?s3)" using s1(1) s2(1) m by (simp add: fifo_turn_def)
  moreover have "ll_size (QUEUE s) > 0" "ll_size (QUEUE ?s3) = 0" using klists_ready_size [OF k(1)] klists_ready_size [OF s2(2)] by simp_all
  ultimately have "run_proc_FIFO parse s = Some (Done 0, ?s3)"
    unfolding run_proc_FIFO_def by (subst fifo_loop.simps, simp, subst fifo_loop.simps) simp
  then show ?thesis using s2(6) s1p(4) by simp
qed

end
