(* ===== verification/A3_Faults.thy ===== *)
theory A3_Faults
  imports A3_Start
begin

text \<open>
  Page faults of the third shell. A script that ends with a newline is taken to have one line more than it has
  (\<^verbatim>\<open>count_lines\<close>), so its process comes to wait for a line that the file cannot give: every round faults, loads an empty page, with a
  frame taken from the page used least recently when none is free, and puts the process back in the queue. The rounds
  never end.
\<close>

subsection \<open>Frames\<close>

text \<open>The cells of the frame store that nobody has.\<close>

definition free_count :: "memory_a3 \<Rightarrow> nat" where
  "free_count m = card {i. i < border m \<and> fst (mcells m ! i) = ''none''}"

definition cleared :: "nat \<Rightarrow> memory_a3 \<Rightarrow> memory_a3" where
  "cleared k m = m\<lparr>mcells := (mcells m)[k := (''none'', ''none''), k + 1 := (''none'', ''none''), k + 2 := (''none'', ''none'')]\<rparr>"

lemma free_count_le: "free_count m \<le> border m"
proof -
  have "{i. i < border m \<and> fst (mcells m ! i) = ''none''} \<subseteq> {..<border m}" by auto
  from card_mono [OF _ this] show ?thesis by (simp add: free_count_def)
qed

lemma marked_count:
  assumes "run_free m k" and "border m \<le> length (mcells m)" and "pid \<noteq> ''none''"
  shows "free_count (marked pid k m) + 3 = free_count m"
proof -
  let ?F = "\<lambda>m. {i. i < border m \<and> fst (mcells m ! i) = ''none''}"
  have "k + 3 \<le> border m" using assms(1) by (simp add: run_free_def)
  then have "?F m = ?F (marked pid k m) \<union> {k, k + 1, k + 2}" "?F (marked pid k m) \<inter> {k, k + 1, k + 2} = {}"
    using assms by (auto simp: marked_def run_free_def nth_list_update split: if_splits)
  then show ?thesis by (simp add: free_count_def card_Un_disjoint)
qed

lemma cleared_count: "free_count (cleared k m) \<le> free_count m + 3"
proof -
  let ?F = "\<lambda>m. {i. i < border m \<and> fst (mcells m ! i) = ''none''}"
  have "?F (cleared k m) \<subseteq> ?F m \<union> {k, k + 1, k + 2}"
    by (auto simp: cleared_def nth_list_update split: if_splits)
  then have "card (?F (cleared k m)) \<le> card (?F m \<union> {k, k + 1, k + 2})" by (intro card_mono) auto
  also have "\<dots> \<le> card (?F m) + card {k, k + 1, k + 2}" by (rule card_Un_le)
  finally show ?thesis by (simp add: free_count_def)
qed

lemma run_free_cleared: "k + 3 \<le> border m \<Longrightarrow> border m \<le> length (mcells m) \<Longrightarrow> run_free (cleared k m) k"
  by (auto simp: run_free_def cleared_def nth_list_update less_Suc_eq numeral_3_eq_3)

subsection \<open>A page fault at the end of the file\<close>

abbreviation frame_at :: "nat \<Rightarrow> int list" where
  "frame_at k \<equiv> [int k, int k + 1, int k + 2]"

lemma fill_page_end:
  assumes "rest fp = []" and "run_free m i" and "border m \<le> length (mcells m)"
  shows "\<exists>k. run_free m k \<and> fill_page pid pg fp m =
    Some (True, pg\<lparr>index := frame_at k, valid_bit := [0, 0, 0]\<rparr>, fp\<lparr>eof := True\<rparr>, marked pid k m)"
proof -
  have "i < border m" using assms(2) by (simp add: run_free_def)
  then obtain k where k: "find (run_free m) [0..<0 + border m] = Some k"
    using assms(2) by (cases "find (run_free m) [0..<0 + border m]") (auto simp: find_None_iff)
  then have "run_free m k" by (auto simp: find_Some_iff)
  then show ?thesis
    using k assms(1) by (auto simp: fill_page_def frame_alloc_def frame_loop_ok numeral_3_eq_3 fgets_def)
qed

lemma fill_page_full: "\<forall>k. \<not> run_free m k \<Longrightarrow> fill_page pid pg fp m = Some (False, pg, fp, m)"
  by (auto simp: fill_page_def frame_alloc_def frame_loop_ok find_Some_iff split: option.split)

lemma evict_lines_frame:
  assumes "index pg = frame_at k" and "length (valid_bit pg) = 3" and "k + 3 \<le> length (mcells m)"
  shows "\<exists>t'. evict_lines 0 3 pg m t = Some (pg\<lparr>index := [0, 0, 0], valid_bit := [0, 0, 0]\<rparr>, cleared k m, t')"
proof -
  obtain x y z where "valid_bit pg = [x, y, z]" using assms(2) by (auto simp: numeral_3_eq_3 length_Suc_conv)
  moreover have "nat (int k + 1) = Suc k" "nat (int k + 2) = Suc (Suc k)" by simp_all
  ultimately show ?thesis using assms(1,3)
    by (simp add: numeral_3_eq_3 mem_get_value_at_def mem_free_at_def in_mem_def cleared_def)
qed

text \<open>The process waits for a line that its file does not have: it has run one of two lines, and the second is not in memory.\<close>

definition waiting :: "pcb_a3 \<Rightarrow> page \<Rightarrow> nat \<Rightarrow> memory_a3 \<Rightarrow> bool" where
  "waiting p pg k m \<longleftrightarrow> page_table p = [pg] \<and> page_table_size p = 1 \<and> program_counter p = [1] \<and> lines_a3 p = 1 \<and>
     rest (source_file p) = [] \<and> length (valid_bit pg) = 3 \<and> valid_bit pg ! 1 = 0 \<and> index pg = frame_at k \<and>
     page_pid pg = pid_a3 p \<and> page_index pg = 0 \<and> k + 3 \<le> border m \<and> border m \<le> length (mcells m)"

lemma load_waiting:
  assumes "k_pcbs s b = Some p" and "page_table p = [pg]" and "rest (source_file p) = []" and "run_free (k_mem s) i"
    and "border (k_mem s) \<le> length (mcells (k_mem s))" and "page_table_size p = 1" and "program_counter p = [1]" and "lines_a3 p = 1"
    and "page_pid pg = pid_a3 p" and "page_index pg = 0"
  shows "\<exists>p' pg' k m. load_in b 0 s = Some (0, put_pcb_a3 b p' (s\<lparr>k_mem := m\<rparr>)) \<and> waiting p' pg' k m \<and> free_count m + 3 = free_count (k_mem s)"
proof -
  obtain k where k: "run_free (k_mem s) k" "fill_page (dec_int (pid_a3 p)) pg (source_file p) (k_mem s) =
      Some (True, pg\<lparr>index := frame_at k, valid_bit := [0, 0, 0]\<rparr>, (source_file p)\<lparr>eof := True\<rparr>, marked (dec_int (pid_a3 p)) k (k_mem s))"
    using fill_page_end [OF assms(3,4,5)] by blast
  let ?pg = "pg\<lparr>index := frame_at k, valid_bit := [0, 0, 0]\<rparr>" and ?m = "marked (dec_int (pid_a3 p)) k (k_mem s)"
  let ?p = "p\<lparr>page_table := [?pg], source_file := (source_file p)\<lparr>eof := True\<rparr>\<rparr>"
  have "waiting ?p ?pg k ?m" using assms k(1) by (simp add: waiting_def marked_def run_free_def)
  moreover have "load_in b 0 s = Some (0, put_pcb_a3 b ?p (s\<lparr>k_mem := ?m\<rparr>))" using assms(1,2) k(2) by (simp add: load_in_def load_PAGE_def)
  ultimately show ?thesis using marked_count [OF k(1) assms(5) dec_int_name] by blast
qed

lemma lru_pop:
  assumes "klists s qs (ls @ [r]) zs"
  shows "\<exists>s'. on_lru pop_tail s = Some (Done r, s') \<and> klists s' qs ls zs \<and> same_core s s'"
proof -
  from assms obtain as bs' cs where q: "nrep (k_heap s) (QUEUE s) as qs" and l': "nrep (k_heap s) (LRU_CACHE s) bs' (ls @ [r])"
    and z: "nrep (k_heap s) (ALL_PCB s) cs zs" and d': "on_own_nodes s as bs' cs"
    and e: "heap_ok (k_heap s)" "equal_fn (LRU_CACHE s) = PAGE_equal_at"
    unfolding klists_def by blast
  obtain bs x where "bs' = bs @ [x]" using nrep_length [OF l'] by (cases bs' rule: rev_cases) auto
  then have l: "nrep (k_heap s) (LRU_CACHE s) (bs @ [x]) (ls @ [r])" and d: "on_own_nodes s as (bs @ [x]) cs" using l' d' by auto
  obtain h' where h': "pop_tail (LRU_CACHE s) (k_heap s) = Some (Done r, resized (LRU_CACHE s) ls, h')" "nrep h' (resized (LRU_CACHE s) ls) bs ls"
    "heap_ok h'" "same_nodes (node_set (LRU_CACHE s) bs) (k_heap s) h'"
    using pop_tail_ok [OF l] e(1) by auto
  let ?s = "s\<lparr>LRU_CACHE := resized (LRU_CACHE s) ls, k_heap := h'\<rparr>"
  have d': "on_own_nodes ?s as bs cs" using d by (auto simp: on_own_nodes_def node_set_def)
  have "nrep h' (QUEUE s) as qs" "nrep h' (ALL_PCB s) cs zs"
    using nrep_frame [OF q h'(4)] nrep_frame [OF z h'(4)] d' by (auto simp: on_own_nodes_def)
  then have "klists ?s qs ls zs" using h' e d' by (intro klistsI [of _ as _ bs _ cs]) simp_all
  then show ?thesis using h' by (auto simp: on_lru_def same_core_def same_nodes_out)
qed

text \<open>The search for the owner of a page of the first process ends at that process.\<close>

lemma owner_first:
  assumes "klists s qs ls (PcbRef b # zs)" and "k_pcbs s b = Some p"
  shows "\<exists>cur. get_next (Some (dummy_head (ALL_PCB s))) (k_heap s) = Some (Some cur) \<and> get_data (Some cur) (k_heap s) = Some (PcbRef b) \<and>
    owner_loop (dummy_tail (QUEUE s)) (pid_a3 p) (Some cur) (k_pcbs s) (k_heap s) = Some (Some cur)"
proof -
  obtain as bs cs where z: "nrep (k_heap s) (ALL_PCB s) cs (PcbRef b # zs)" and d: "on_own_nodes s as bs cs"
    using assms(1) unfolding klists_def by blast
  obtain c cs' where cs: "cs = c # cs'" using nrep_length [OF z] by (cases cs) auto
  have "get_next (Some (dummy_head (ALL_PCB s))) (k_heap s) = Some (Some c)" using nrep_first [OF z] cs by simp
  moreover have g: "get_data (Some c) (k_heap s) = Some (PcbRef b)" using nrep_nth [OF z, of 0] cs by simp
  moreover have "c \<noteq> dummy_tail (QUEUE s)" using d cs by (auto simp: on_own_nodes_def node_set_def)
  ultimately show ?thesis using assms(2) by (subst owner_loop.simps) (simp add: pcb_at_def)
qed

lemma evict_waiting:
  assumes k: "klists s qs (ls @ [PageRef b 0]) (PcbRef b # zs)" and p: "k_pcbs s b = Some p" and w: "waiting p pg k (k_mem s)"
  shows "\<exists>s' p' pg' k'. evict_for b 0 s = Some (Done (), s') \<and> klists s' qs ls (PcbRef b # zs) \<and> k_pcbs s' = (k_pcbs s)(b \<mapsto> p') \<and>
    waiting p' pg' k' (k_mem s') \<and> free_count (k_mem s') \<le> free_count (k_mem s)"
proof -
  obtain s1 where s1: "on_lru pop_tail s = Some (Done (PageRef b 0), s1)" "klists s1 qs ls (PcbRef b # zs)" "same_core s s1"
    using lru_pop [OF k] by blast
  have s1c: "k_pcbs s1 = k_pcbs s" "k_mem s1 = k_mem s" "k_brk s1 = k_brk s" using s1(3) by (simp_all add: same_core_def)
  note w' = w [unfolded waiting_def]
  obtain cur where cur: "get_next (Some (dummy_head (ALL_PCB s1))) (k_heap s1) = Some (Some cur)" "get_data (Some cur) (k_heap s1) = Some (PcbRef b)"
    "owner_loop (dummy_tail (QUEUE s1)) (pid_a3 p) (Some cur) (k_pcbs s1) (k_heap s1) = Some (Some cur)"
    using owner_first [OF s1(2)] p s1c by auto
  let ?pg = "pg\<lparr>index := [0, 0, 0], valid_bit := [0, 0, 0]\<rparr>" and ?m = "cleared k (k_mem s)"
  obtain t where t: "evict_lines 0 3 pg (k_mem s) (k_out s1 @ [Print ''Page fault! Victim page contents:'']) = Some (?pg, ?m, t)"
    using evict_lines_frame [of pg k "k_mem s"] w' by auto
  let ?p = "p\<lparr>page_table := [?pg]\<rparr>" and ?t = "t @ [Print ''End of victim page contents.'']"
  have ev: "PAGE_evict p 0 (k_mem s) (k_out s1) = Some (?p, ?m, ?t)" using t w' by (simp add: PAGE_evict_def)
  let ?s2 = "set_out ?t (put_pcb_a3 b ?p (s1\<lparr>k_mem := ?m\<rparr>))"
  have s2: "k_pcbs ?s2 b = Some ?p" "k_mem ?s2 = ?m" by (simp_all add: set_out_def put_pcb_a3_def)
  have run: "run_free ?m k" using run_free_cleared w' by blast
  have bd: "border ?m = border (k_mem s)" "length (mcells ?m) = length (mcells (k_mem s))" by (simp_all add: cleared_def)
  obtain p' pg' k' m' where ld: "load_in b 0 ?s2 = Some (0, put_pcb_a3 b p' (?s2\<lparr>k_mem := m'\<rparr>))" "waiting p' pg' k' m'"
    "free_count m' + 3 = free_count ?m"
    using load_waiting [OF s2(1), of ?pg k] s2(2) run bd w' by auto
  define s3 where "s3 = put_pcb_a3 b p' (?s2\<lparr>k_mem := m'\<rparr>)"
  have "page_at (k_pcbs s1) (PageRef b 0) = Some pg" using p s1c w' by (simp add: page_at_def at_def)
  then have "evict_for b 0 s = Some (Done (), s3)"
    using s1(1) cur p s1c ev ld(1) w' by (simp add: evict_for_def s3_def)
  moreover have "klists s3 qs ls (PcbRef b # zs)"
    using s1(2) klists_same(1) [of ?s2 "?t" "put_pcb_a3 b ?p (s1\<lparr>k_mem := ?m\<rparr>)"] by (simp add: put_pcb_a3_def s3_def)
  moreover have "k_pcbs s3 = (k_pcbs s)(b \<mapsto> p')" "k_mem s3 = m'"
    using s1c by (simp_all add: put_pcb_a3_def set_out_def s3_def)
  moreover have "free_count m' \<le> free_count (k_mem s)" using ld(3) cleared_count [of k "k_mem s"] by simp
  ultimately show ?thesis using ld(2) by blast
qed

text \<open>Each round ends with a page fault and the process back in the queue.\<close>

definition stuck :: "nat \<Rightarrow> 'z kernel_scheme \<Rightarrow> bool" where
  "stuck b s \<longleftrightarrow> (\<exists>ls p pg k. klists s [PcbRef b] ls [PcbRef b] \<and> ls \<noteq> [] \<and> set ls = {PageRef b 0} \<and> k_pcbs s b = Some p \<and>
     waiting p pg k (k_mem s) \<and> length ls + free_count (k_mem s) < 2 ^ 31 - 2)"

lemma stuck_not_done: "stuck b s \<Longrightarrow> queue_done s = Some False"
  using queue_done_ok [of s "[PcbRef b]"] by (auto simp: stuck_def pcb_at_def waiting_def PCB_done_def)

lemma fault_waiting:
  assumes k: "klists s [] ls [PcbRef b]" and ls: "ls \<noteq> []" "set ls = {PageRef b 0}" and p: "k_pcbs s b = Some p" and w: "waiting p pg k (k_mem s)"
    and n: "length ls + free_count (k_mem s) < 2 ^ 31 - 2"
  shows "\<exists>s'. run_proc parse b 0 1 s = Some (Done 1, s') \<and> stuck b s'"
proof -
  note w' = w [unfolded waiting_def]
  have cpu: "cpu_run parse b 0 1 s = Some (Done 1, s)" using p w' by (simp add: cpu_run_def at_def)
  have "\<exists>s2 ls2 p2 pg2 k2. (do { (e, s) \<leftarrow> load_in b 0 s; if e = 1 then evict_for b 0 s else Some (Done (), s) }) = Some (Done (), s2) \<and>
      klists s2 [] ls2 [PcbRef b] \<and> set ls2 \<subseteq> {PageRef b 0} \<and> k_pcbs s2 b = Some p2 \<and> waiting p2 pg2 k2 (k_mem s2) \<and>
      Suc (length ls2) + free_count (k_mem s2) < 2 ^ 31 - 2"
  proof (cases "\<exists>i. run_free (k_mem s) i")
    case True
    then obtain i where i: "run_free (k_mem s) i" by blast
    obtain p' pg' k' m where ld: "load_in b 0 s = Some (0, put_pcb_a3 b p' (s\<lparr>k_mem := m\<rparr>))" "waiting p' pg' k' m"
      "free_count m + 3 = free_count (k_mem s)"
      using load_waiting [OF p _ _ i] w' by auto
    have "klists (put_pcb_a3 b p' (s\<lparr>k_mem := m\<rparr>)) [] ls [PcbRef b]" using k by (simp add: put_pcb_a3_def)
    then show ?thesis using ld n ls by (intro exI [of _ "put_pcb_a3 b p' (s\<lparr>k_mem := m\<rparr>)"] exI [of _ ls]) (auto simp: put_pcb_a3_def)
  next
    case False
    then have ld: "load_in b 0 s = Some (1, put_pcb_a3 b p (s\<lparr>k_mem := k_mem s\<rparr>))"
      using p w' fill_page_full [of "k_mem s"] by (simp add: load_in_def load_PAGE_def)
    let ?s = "put_pcb_a3 b p (s\<lparr>k_mem := k_mem s\<rparr>)"
    obtain us u where us: "ls = us @ [u]" using ls(1) by (cases ls rule: rev_cases) auto
    then have "u = PageRef b 0" "set us \<subseteq> {PageRef b 0}" using ls(2) by auto
    moreover have "klists ?s [] ls [PcbRef b]" using k by (simp add: put_pcb_a3_def)
    ultimately have ks: "klists ?s [] (us @ [PageRef b 0]) (PcbRef b # [])" using us by simp
    have "k_pcbs ?s b = Some p" "waiting p pg k (k_mem ?s)" using w by (simp_all add: put_pcb_a3_def)
    from evict_waiting [OF ks this] obtain s' p' pg' k' where "evict_for b 0 ?s = Some (Done (), s')" "klists s' [] us [PcbRef b]"
      "k_pcbs s' = (k_pcbs ?s)(b \<mapsto> p')" "waiting p' pg' k' (k_mem s')" "free_count (k_mem s') \<le> free_count (k_mem ?s)" by blast
    then show ?thesis using ld n us \<open>set us \<subseteq> _\<close> by (intro exI [of _ s'] exI [of _ us]) (auto simp: put_pcb_a3_def)
  qed
  then obtain s2 ls2 p2 pg2 k2 where s2: "(do { (e, s) \<leftarrow> load_in b 0 s; if e = 1 then evict_for b 0 s else Some (Done (), s) }) = Some (Done (), s2)"
    "klists s2 [] ls2 [PcbRef b]" "set ls2 \<subseteq> {PageRef b 0}" "k_pcbs s2 b = Some p2" "waiting p2 pg2 k2 (k_mem s2)"
    "Suc (length ls2) + free_count (k_mem s2) < 2 ^ 31 - 2" by blast
  have "int_room (length ls2)" using s2(6) by (simp add: int_room_def)
  then obtain s3 where s3: "on_lru (add_head (PageRef b 0)) s2 = Some (0, s3)" "klists s3 [] (PageRef b 0 # ls2) [PcbRef b]" "same_core s2 s3"
    using lru_add [OF s2(2)] by blast
  have "int_room (length ([] :: kref list))" by (simp add: int_room_def)
  from ready_add [OF s3(2) this, of "PcbRef b"] obtain s4 where s4: "on_ready (add_tail (PcbRef b)) s3 = Some (0, s4)"
    "klists s4 [PcbRef b] (PageRef b 0 # ls2) [PcbRef b]" "same_core s3 s4" by auto
  have "run_proc parse b 0 1 s = Some (Done 1, s4)"
    using cpu s2(1) s3(1) s4(1) by (auto simp: run_proc_def split: bind_splits)
  moreover have "k_pcbs s4 = k_pcbs s2" "k_mem s4 = k_mem s2" using s3(3) s4(3) by (simp_all add: same_core_def)
  then have "stuck b s4" unfolding stuck_def using s4(2) s2(3-6) by (intro exI [of _ "PageRef b 0 # ls2"] exI [of _ p2] exI [of _ pg2] exI [of _ k2]) auto
  ultimately show ?thesis by blast
qed

lemma run_next_waiting:
  assumes "k_pcbs s b = Some p" and "waiting p pg k m"
  shows "run_next parse b s = run_proc parse b 0 1 s"
  using assms by (simp add: run_next_def waiting_def at_def)

lemma stuck_turn:
  assumes "stuck b s"
  shows "\<exists>s'. rr_turn_a3 parse s = Some (Done (), s') \<and> stuck b s'"
proof -
  obtain ls p pg k where k: "klists s [PcbRef b] ls [PcbRef b]" "ls \<noteq> []" "set ls = {PageRef b 0}" "k_pcbs s b = Some p"
    "waiting p pg k (k_mem s)" "length ls + free_count (k_mem s) < 2 ^ 31 - 2"
    using assms unfolding stuck_def by blast
  obtain s1 where s1: "on_ready pop_head s = Some (Done (PcbRef b), s1)" "klists s1 [] ls [PcbRef b]" "same_core s s1"
    using ready_pop [OF k(1)] by blast
  have c: "k_pcbs s1 b = Some p" "k_mem s1 = k_mem s" using s1(3) k(4) by (simp_all add: same_core_def)
  obtain s2 where s2: "run_proc parse b 0 1 s1 = Some (Done 1, s2)" "stuck b s2"
    using fault_waiting [OF s1(2) k(2,3) c(1), of pg k parse] k(5,6) c(2) by auto
  have "lines_a3 p = 1" using k(5) by (simp add: waiting_def)
  then have "rr_turn_a3 parse s = Some (Done (), s2)"
    using s1(1) c(1) s2(1) run_next_waiting [OF c(1) k(5), of parse] by (simp add: rr_turn_a3_def)
  then show ?thesis using s2(2) by blast
qed

text \<open>So many rounds.\<close>

fun rr_rounds :: "'z kparser \<Rightarrow> nat \<Rightarrow> 'z kernel_scheme \<Rightarrow> 'z kernel_scheme option" where
  "rr_rounds parse 0 s = Some s"
| "rr_rounds parse (Suc n) s =
     do { d \<leftarrow> queue_done s;
          if d then None
          else do { (r, s) \<leftarrow> rr_turn_a3 parse s; case r of Exit c \<Rightarrow> None | Done u \<Rightarrow> rr_rounds parse n s } }"

lemma stuck_rounds: "stuck b s \<Longrightarrow> \<exists>s'. rr_rounds parse n s = Some s' \<and> stuck b s'"
proof (induction n arbitrary: s)
  case (Suc n)
  obtain s1 where "rr_turn_a3 parse s = Some (Done (), s1)" "stuck b s1" using stuck_turn [OF Suc.prems] by blast
  then show ?case using Suc.IH stuck_not_done [OF Suc.prems] by simp
qed simp

lemma stuck_diverges:
  assumes "stuck b s"
  shows "rr_loop parse s = None"
proof (rule ccontr)
  assume "rr_loop parse s \<noteq> None"
  then obtain r where "rr_loop parse s = Some r" by blast
  then have "\<not> stuck b s"
  proof (rule rr_loop.raw_induct [rotated, where P = "\<lambda>parse s r. \<not> stuck b s"], goal_cases)
    case (1 f parse s r)
    show ?case
    proof
      assume st: "stuck b s"
      obtain s1 where "rr_turn_a3 parse s = Some (Done (), s1)" "stuck b s1" using stuck_turn [OF st] by blast
      then show False using 1 stuck_not_done [OF st] by auto
    qed
  qed
  then show False using assms by simp
qed

subsection \<open>A script that ends with a newline\<close>

lemma fill_page_one:
  assumes "prog_line 999 l" and "run_free m i" and "border m \<le> length (mcells m)"
  shows "\<exists>k m'. k + 3 \<le> border m \<and> border m' = border m \<and> length (mcells m') = length (mcells m) \<and> mcells m' ! k = (pid, l) \<and>
    fill_page pid pg \<lparr>rest = l, eof = False\<rparr> m =
      Some (True, pg\<lparr>index := frame_at k, valid_bit := [1, 0, 0]\<rparr>, \<lparr>rest = [], eof = True\<rparr>, m')"
proof -
  obtain k where k: "find (run_free m) [0..<0 + border m] = Some k"
    using assms(2) by (cases "find (run_free m) [0..<0 + border m]") (auto simp: find_None_iff run_free_def)
  then have kb: "k + 3 \<le> border m" by (auto simp: find_Some_iff run_free_def)
  let ?m = "(marked pid k m)\<lparr>mcells := (mcells (marked pid k m))[k := (pid, l)]\<rparr>"
  have "fgets 999 \<lparr>rest = l, eof = False\<rparr> = (Some l, \<lparr>rest = [], eof = False\<rparr>)" using fgets_line [OF assms(1), of "[]" False] by simp
  then have "fill_page pid pg \<lparr>rest = l, eof = False\<rparr> m =
      Some (True, pg\<lparr>index := frame_at k, valid_bit := [1, 0, 0]\<rparr>, \<lparr>rest = [], eof = True\<rparr>, ?m)"
    using k kb assms(3)
    by (simp add: fill_page_def frame_alloc_def frame_loop_ok numeral_3_eq_3 fgets_end mem_set_value_at_def in_mem_def marked_def)
  then show ?thesis using kb assms(3) by (intro exI [of _ k] exI [of _ ?m]) (simp add: marked_def)
qed

lemma PCB_init_newline:
  assumes "prog_line 999 l" and "l \<noteq> [newline]" and "frames_used 0 m" and "3 \<le> border m"
  shows "\<exists>p pg k m'. PCB_init PID name (Some l) m t = Some (Done p, m', t) \<and> page_table p = [pg] \<and> page_table_size p = 1 \<and>
    program_counter p = [0] \<and> lines_a3 p = 2 \<and> rest (source_file p) = [] \<and> valid_bit pg = [1, 0, 0] \<and> index pg = frame_at k \<and>
    page_pid pg = pid_a3 p \<and> page_index pg = 0 \<and> k + 3 \<le> border m' \<and> border m' = border m \<and> border m' \<le> length (mcells m') \<and> snd (mcells m' ! k) = l"
proof -
  obtain w where w: "l = w @ [newline]" "newline \<notin> set w" "w \<noteq> []" using assms(1,2) by (auto simp: prog_line_def)
  have c: "count_lines (Some l) = int 2" using count_newlines_word [of w newline "[]"] w by (simp add: count_lines_def)
  have n: "PAGE_table_size (int 2) = 1" unfolding PAGE_table_size_eq by (simp add: pages_for_def)
  have "run_free m 0" using assms(3,4) by (auto simp: run_free_def frames_used_def)
  moreover have b: "border m \<le> length (mcells m)" using assms(3) by (simp add: frames_used_def)
  ultimately obtain k m' where f: "k + 3 \<le> border m" "border m' = border m" "length (mcells m') = length (mcells m)" "mcells m' ! k = (dec_int PID, l)"
    "fill_page (dec_int PID) (PAGE_init PID 0) \<lparr>rest = l, eof = False\<rparr> m =
      Some (True, (PAGE_init PID 0)\<lparr>index := frame_at k, valid_bit := [1, 0, 0]\<rparr>, \<lparr>rest = [], eof = True\<rparr>, m')"
    using fill_page_one [OF assms(1)] by blast
  let ?p = "\<lparr>pid_a3 = PID, lines_a3 = 2, program_counter = [0], page_table = [(PAGE_init PID 0)\<lparr>index := frame_at k, valid_bit := [1, 0, 0]\<rparr>],
    page_table_size = 1, source_file = \<lparr>rest = [], eof = True\<rparr>\<rparr>"
  have "PCB_init PID name (Some l) m t = Some (Done ?p, m', t)"
    unfolding PCB_init_def c n Let_def using f(5) by simp
  then show ?thesis using f(1-4) b by (intro exI [of _ ?p]) (simp add: PAGE_init_def)
qed

lemma newline_script_stuck:
  assumes "idle_a3 s" and "fls script = Some l" and "prog_line 999 l" and "l \<noteq> [newline]" and "quiet_a3 parse (l, w)"
    and "3 \<le> border (k_mem s)" and "border (k_mem s) < 2 ^ 30"
  shows "\<exists>s1 s2. new_proc fls script s = Some (Done 0, s1) \<and> queue_done s1 = Some False \<and> rr_turn_a3 parse s1 = Some (Done (), s2) \<and> stuck (k_brk s) s2"
proof -
  let ?b = "k_brk s"
  have i: "klists s [] [] []" "frames_used 0 (k_mem s)" using assms(1) by (simp_all add: idle_a3_def)
  obtain p pg k m where pm: "PCB_init (PID_counter s) script (fls script) (k_mem s) (k_out s) = Some (Done p, m, k_out s)"
    "page_table p = [pg]" "page_table_size p = 1" "program_counter p = [0]" "lines_a3 p = 2" "rest (source_file p) = []" "valid_bit pg = [1, 0, 0]"
    "index pg = frame_at k" "page_pid pg = pid_a3 p" "page_index pg = 0" "k + 3 \<le> border m" "border m = border (k_mem s)" "border m \<le> length (mcells m)"
    "snd (mcells m ! k) = l"
    using PCB_init_newline [OF assms(3,4) i(2) assms(6)] unfolding assms(2) by blast
  define s1 where "s1 = put_pcb_a3 ?b p ((set_out (k_out s) (s\<lparr>k_mem := m, PID_counter := PID_counter s + 1\<rparr>))\<lparr>k_brk := ?b + 1\<rparr>)"
  have s1: "klists s1 [] [] []" "k_pcbs s1 ?b = Some p" "k_mem s1 = m"
    using i(1) by (simp_all add: s1_def put_pcb_a3_def set_out_def klists_def on_own_nodes_def)
  have room: "int_room (length ([] :: kref list))" by (simp add: int_room_def)
  obtain s2 where s2: "on_all (add_tail (PcbRef ?b)) s1 = Some (0, s2)" "klists s2 [] [] [PcbRef ?b]" "same_core s1 s2"
    using all_add [OF s1(1) room] by force
  obtain s3 where s3: "on_ready (add_tail (PcbRef ?b)) s2 = Some (0, s3)" "klists s3 [PcbRef ?b] [] [PcbRef ?b]" "same_core s2 s3"
    using ready_add [OF s2(2) room] by force
  obtain s4 where s4: "on_lru (add_head (PageRef ?b 0)) s3 = Some (0, s4)" "klists s4 [PcbRef ?b] [PageRef ?b 0] [PcbRef ?b]" "same_core s3 s4"
    using lru_add [OF s3(2) room] by force
  have "k_brk (set_out (k_out s) (s\<lparr>k_mem := m, PID_counter := PID_counter s + 1\<rparr>)) = ?b" by (simp add: set_out_def)
  then have new: "new_proc fls script s = Some (Done 0, s4)"
    using pm(1,3) s2(1) s3(1) s4(1) by (simp add: new_proc_def s1_def Let_def)
  have c: "k_pcbs s4 ?b = Some p" "k_mem s4 = m" using s1(2,3) s2(3) s3(3) s4(3) by (simp_all add: same_core_def)
  obtain s5 where s5: "on_ready pop_head s4 = Some (Done (PcbRef ?b), s5)" "klists s5 [] [PageRef ?b 0] [PcbRef ?b]" "same_core s4 s5"
    using ready_pop [OF s4(2)] by blast
  have c5: "k_pcbs s5 ?b = Some p" "k_mem s5 = m" using c s5(3) by (simp_all add: same_core_def)
  have "live s5 [PageRef ?b 0]" using c5(1) pm(2) by (simp add: page_at_def at_def)
  moreover have "mem_get_value_at (int k) (k_mem s5) = Some (fst (l, w))" using c5(2) pm(11,13,14) by (simp add: mem_get_value_at_def in_mem_def)
  ultimately obtain s6 ls6 where s6: "run_proc parse ?b 0 0 s5 = Some (Done 0, s6)" "klists s6 [] ls6 [PcbRef ?b]" "set ls6 = {PageRef ?b 0}"
    "k_pcbs s6 = (k_pcbs s5)(?b \<mapsto> step_pcb_a3 0 p)" "k_mem s6 = k_mem s5" "length ls6 = 1"
    using run_proc_quiet [OF s5(2) _ c5(1), of 0 pg 0 1 "int k" "(l, w)" parse] pm(2,4,7,8) assms(5) by (auto simp: at_def)
  have w: "waiting (step_pcb_a3 0 p) pg k (k_mem s6)" using pm c5(2) s6(5) by (simp add: waiting_def step_pcb_a3_def)
  have "length ls6 + free_count (k_mem s6) < 2 ^ 31 - 2" using s6(5,6) c5(2) pm(12) assms(7) free_count_le [of m] by simp
  then obtain s7 where s7: "run_proc parse ?b 0 1 s6 = Some (Done 1, s7)" "stuck ?b s7"
    using fault_waiting [OF s6(2) _ s6(3) _ w, of parse] s6(3,4) by fastforce
  have "run_next parse ?b s5 = Some (Done 0, s6)" using c5(1) pm(3,4) s6(1) by (simp add: run_next_def at_def)
  moreover have "run_next parse ?b s6 = Some (Done 1, s7)"
    using run_next_waiting [of s6 ?b "step_pcb_a3 0 p" pg k "k_mem s6" parse] s6(4) w s7(1) by simp
  ultimately have "rr_turn_a3 parse s4 = Some (Done (), s7)" using s5(1) c5(1) pm(5) by (simp add: rr_turn_a3_def)
  moreover have "queue_done s4 = Some False" using queue_done_ok [OF s4(2)] c(1) pm(3,4) by (simp add: pcb_at_def PCB_done_def)
  ultimately show ?thesis using new s7(2) by blast
qed

end
