(* ===== verification/Bitmap.thy ===== *)
theory Bitmap
  imports Prelude
begin

text \<open>
  The bitmap of \<^verbatim>\<open>a3/fs/bitmap.c\<close>: an array of bits kept in 64-bit elements
  (\<^verbatim>\<open>unsigned long\<close> of the LP64 target). The first part translates the C functions; the
  abstraction \<open>bits_of\<close> reads a bitmap as a list of booleans, and the lemmas show that each
  function is the corresponding list operation.
\<close>

subsection \<open>Representation\<close>

record bitmap =
  bit_cnt :: nat
  bits :: "u64 list"

definition ELEM_BITS :: nat where
  "ELEM_BITS = 64"

definition BITMAP_ERROR :: nat where
  "BITMAP_ERROR = 4294967295"

definition elem_idx :: "nat \<Rightarrow> nat" where
  "elem_idx bit_idx = bit_idx div ELEM_BITS"

definition bit_mask :: "nat \<Rightarrow> u64" where
  "bit_mask bit_idx = push_bit (bit_idx mod ELEM_BITS) 1"

definition elem_cnt :: "nat \<Rightarrow> nat" where
  "elem_cnt cnt = DIV_ROUND_UP cnt ELEM_BITS"

definition byte_cnt :: "nat \<Rightarrow> nat" where
  "byte_cnt cnt = sz (8 * elem_cnt cnt)"

definition last_mask :: "bitmap \<Rightarrow> u64" where
  "last_mask b =
     (let last_bits = bit_cnt b mod ELEM_BITS
      in if last_bits \<noteq> 0 then push_bit last_bits 1 - 1 else - 1)"

definition bitmap_size :: "bitmap \<Rightarrow> nat" where
  "bitmap_size b = bit_cnt b"

definition bitmap_get_bits :: "bitmap \<Rightarrow> u64 list" where
  "bitmap_get_bits b = bits b"

definition bitmap_buf_size :: "nat \<Rightarrow> nat" where
  "bitmap_buf_size cnt = sz (16 + byte_cnt cnt)"

definition bitmap_file_size :: "bitmap \<Rightarrow> nat" where
  "bitmap_file_size b = byte_cnt (bit_cnt b)"

subsection \<open>Single bits\<close>

definition upd_elem :: "(u64 \<Rightarrow> u64) \<Rightarrow> bitmap \<Rightarrow> nat \<Rightarrow> bitmap option" where
  "upd_elem f b idx =
     (if idx < length (bits b) then Some (b\<lparr>bits := (bits b)[idx := f (bits b ! idx)]\<rparr>)
      else None)"

definition bitmap_mark :: "bitmap \<Rightarrow> nat \<Rightarrow> bitmap option" where
  "bitmap_mark b bit_idx =
     (let idx = elem_idx bit_idx; mask = bit_mask bit_idx
      in upd_elem (\<lambda>e. e OR mask) b idx)"

definition bitmap_reset :: "bitmap \<Rightarrow> nat \<Rightarrow> bitmap option" where
  "bitmap_reset b bit_idx =
     (let idx = elem_idx bit_idx; mask = bit_mask bit_idx
      in upd_elem (\<lambda>e. e AND NOT mask) b idx)"

definition bitmap_flip :: "bitmap \<Rightarrow> nat \<Rightarrow> bitmap option" where
  "bitmap_flip b bit_idx =
     (let idx = elem_idx bit_idx; mask = bit_mask bit_idx
      in upd_elem (\<lambda>e. e XOR mask) b idx)"

definition bitmap_set :: "bitmap \<Rightarrow> nat \<Rightarrow> bool \<Rightarrow> console \<Rightarrow> (bitmap \<times> console) option" where
  "bitmap_set b idx value lg =
     (let lg = ASSERT (idx < bit_cnt b) ''bitmap_set'' lg
      in do { b' \<leftarrow> (if value then bitmap_mark b idx else bitmap_reset b idx);
              Some (b', lg) })"

definition bitmap_test :: "bitmap \<Rightarrow> nat \<Rightarrow> console \<Rightarrow> (bool \<times> console) option" where
  "bitmap_test b idx lg =
     (let lg = ASSERT (idx < bit_cnt b) ''bitmap_test'' lg
      in if elem_idx idx < length (bits b)
         then Some ((bits b ! elem_idx idx) AND bit_mask idx \<noteq> 0, lg)
         else None)"

subsection \<open>Runs of bits\<close>

text \<open>The \<^verbatim>\<open>for\<close> loops count up from \<open>i\<close>; the last argument but one of each loop function
  is the number of iterations left.\<close>

fun set_loop :: "bitmap \<Rightarrow> nat \<Rightarrow> nat \<Rightarrow> nat \<Rightarrow> bool \<Rightarrow> console \<Rightarrow> (bitmap \<times> console) option" where
  "set_loop b start i 0 value lg = Some (b, lg)"
| "set_loop b start i (Suc n) value lg =
     do { (b', lg') \<leftarrow> bitmap_set b (sz (start + i)) value lg;
          set_loop b' start (Suc i) n value lg' }"

definition bitmap_set_multiple ::
  "bitmap \<Rightarrow> nat \<Rightarrow> nat \<Rightarrow> bool \<Rightarrow> console \<Rightarrow> (bitmap \<times> console) option" where
  "bitmap_set_multiple b start cnt value lg =
     (let lg = ASSERT (start \<le> bit_cnt b) ''bitmap_set_multiple'' lg;
          lg = ASSERT (sz (start + cnt) \<le> bit_cnt b) ''bitmap_set_multiple'' lg
      in set_loop b start 0 cnt value lg)"

definition bitmap_set_all :: "bitmap \<Rightarrow> bool \<Rightarrow> console \<Rightarrow> (bitmap \<times> console) option" where
  "bitmap_set_all b value lg = bitmap_set_multiple b 0 (bitmap_size b) value lg"

fun count_loop ::
  "bitmap \<Rightarrow> nat \<Rightarrow> nat \<Rightarrow> nat \<Rightarrow> bool \<Rightarrow> nat \<Rightarrow> console \<Rightarrow> (nat \<times> console) option" where
  "count_loop b start i 0 value acc lg = Some (acc, lg)"
| "count_loop b start i (Suc n) value acc lg =
     do { (t, lg') \<leftarrow> bitmap_test b (sz (start + i)) lg;
          count_loop b start (Suc i) n value (if t = value then Suc acc else acc) lg' }"

definition bitmap_count ::
  "bitmap \<Rightarrow> nat \<Rightarrow> nat \<Rightarrow> bool \<Rightarrow> console \<Rightarrow> (nat \<times> console) option" where
  "bitmap_count b start cnt value lg =
     (let lg = ASSERT (start \<le> bit_cnt b) ''bitmap_count'' lg;
          lg = ASSERT (sz (start + cnt) \<le> bit_cnt b) ''bitmap_count'' lg
      in count_loop b start 0 cnt value 0 lg)"

fun contains_loop ::
  "bitmap \<Rightarrow> nat \<Rightarrow> nat \<Rightarrow> nat \<Rightarrow> bool \<Rightarrow> console \<Rightarrow> (bool \<times> console) option" where
  "contains_loop b start i 0 value lg = Some (False, lg)"
| "contains_loop b start i (Suc n) value lg =
     do { (t, lg') \<leftarrow> bitmap_test b (sz (start + i)) lg;
          if t = value then Some (True, lg') else contains_loop b start (Suc i) n value lg' }"

definition bitmap_contains ::
  "bitmap \<Rightarrow> nat \<Rightarrow> nat \<Rightarrow> bool \<Rightarrow> console \<Rightarrow> (bool \<times> console) option" where
  "bitmap_contains b start cnt value lg =
     (let lg = ASSERT (start \<le> bit_cnt b) ''bitmap_contains'' lg;
          lg = ASSERT (sz (start + cnt) \<le> bit_cnt b) ''bitmap_contains'' lg
      in contains_loop b start 0 cnt value lg)"

definition bitmap_any :: "bitmap \<Rightarrow> nat \<Rightarrow> nat \<Rightarrow> console \<Rightarrow> (bool \<times> console) option" where
  "bitmap_any b start cnt lg = bitmap_contains b start cnt True lg"

definition bitmap_none :: "bitmap \<Rightarrow> nat \<Rightarrow> nat \<Rightarrow> console \<Rightarrow> (bool \<times> console) option" where
  "bitmap_none b start cnt lg =
     do { (c, lg') \<leftarrow> bitmap_contains b start cnt True lg; Some (\<not> c, lg') }"

definition bitmap_all :: "bitmap \<Rightarrow> nat \<Rightarrow> nat \<Rightarrow> console \<Rightarrow> (bool \<times> console) option" where
  "bitmap_all b start cnt lg =
     do { (c, lg') \<leftarrow> bitmap_contains b start cnt False lg; Some (\<not> c, lg') }"

subsection \<open>Searching\<close>

fun scan_loop ::
  "bitmap \<Rightarrow> nat \<Rightarrow> nat \<Rightarrow> nat \<Rightarrow> bool \<Rightarrow> console \<Rightarrow> (nat \<times> console) option" where
  "scan_loop b i 0 cnt value lg = Some (BITMAP_ERROR, lg)"
| "scan_loop b i (Suc n) cnt value lg =
     do { (c, lg') \<leftarrow> bitmap_contains b i cnt (\<not> value) lg;
          if \<not> c then Some (i, lg') else scan_loop b (Suc i) n cnt value lg' }"

definition bitmap_scan ::
  "bitmap \<Rightarrow> nat \<Rightarrow> nat \<Rightarrow> bool \<Rightarrow> console \<Rightarrow> (nat \<times> console) option" where
  "bitmap_scan b start cnt value lg =
     (let lg = ASSERT (start \<le> bit_cnt b) ''bitmap_scan'' lg
      in if cnt \<le> bit_cnt b
         then let last = bit_cnt b - cnt in scan_loop b start (Suc last - start) cnt value lg
         else Some (BITMAP_ERROR, lg))"

definition bitmap_scan_and_flip ::
  "bitmap \<Rightarrow> nat \<Rightarrow> nat \<Rightarrow> bool \<Rightarrow> console \<Rightarrow> (nat \<times> bitmap \<times> console) option" where
  "bitmap_scan_and_flip b start cnt value lg =
     do { (idx, lg) \<leftarrow> bitmap_scan b start cnt value lg;
          if idx \<noteq> BITMAP_ERROR
          then do { (b', lg) \<leftarrow> bitmap_set_multiple b idx cnt (\<not> value) lg; Some (idx, b', lg) }
          else Some (idx, b, lg) }"

subsection \<open>Creation\<close>

text \<open>\<^verbatim>\<open>malloc\<close> is the environment: the two flags say whether the descriptor and the element
  array were obtained. \<^verbatim>\<open>bitmap_create\<close> returns a null pointer (\<open>None\<close> inside the result)
  when it gets no memory.\<close>

definition bitmap_create ::
  "bool \<Rightarrow> bool \<Rightarrow> nat \<Rightarrow> console \<Rightarrow> (bitmap option \<times> console) option" where
  "bitmap_create got_desc got_bits cnt lg =
     (if got_desc \<and> (got_bits \<or> cnt = 0)
      then do { (b, lg') \<leftarrow>
                  bitmap_set_all
                    \<lparr>bit_cnt = cnt, bits = words_of_bytes 8 (byte_cnt cnt div 8)
                                             (replicate (byte_cnt cnt) 0)\<rparr> False lg;
                Some (Some b, lg') }
      else Some (None, lg))"

text \<open>\<^verbatim>\<open>bitmap_create_in_buf\<close> lays the descriptor and the elements out in storage the caller
  owns: \<open>storage\<close> holds the elements that follow the 16-byte descriptor.\<close>

definition bitmap_create_in_buf ::
  "nat \<Rightarrow> u64 list \<Rightarrow> nat \<Rightarrow> console \<Rightarrow> (bitmap \<times> console) option" where
  "bitmap_create_in_buf cnt storage block_size lg =
     (let lg = ASSERT (block_size \<ge> bitmap_buf_size cnt) ''bitmap_create_in_buf'' lg
      in bitmap_set_all \<lparr>bit_cnt = cnt, bits = storage\<rparr> False lg)"

definition bitmap_create_from_buf ::
  "bool \<Rightarrow> bool \<Rightarrow> nat \<Rightarrow> byte list \<Rightarrow> console \<Rightarrow> (bitmap \<times> console) option" where
  "bitmap_create_from_buf got_desc got_bits cnt buf lg =
     do { (r, lg) \<leftarrow> bitmap_create got_desc got_bits cnt lg;
          case r of
            None \<Rightarrow> None
          | Some b \<Rightarrow>
              if byte_cnt cnt \<le> length buf
              then Some (b\<lparr>bits := words_of_bytes 8 (elem_cnt cnt) buf\<rparr>, lg)
              else None }"

text \<open>What \<^verbatim>\<open>bitmap_write\<close> hands to the file layer, and what \<^verbatim>\<open>bitmap_read\<close> does with the
  bytes it gets back (the file operations themselves are in the file layer).\<close>

definition bitmap_bytes :: "bitmap \<Rightarrow> byte list" where
  "bitmap_bytes b = bytes_of_words 8 (bits b)"

definition bitmap_load :: "bitmap \<Rightarrow> byte list \<Rightarrow> bitmap option" where
  "bitmap_load b buf =
     (if 0 < bit_cnt b
      then upd_elem (\<lambda>e. e AND last_mask b)
             (b\<lparr>bits := words_of_bytes 8 (length (bits b)) buf\<rparr>) (elem_cnt (bit_cnt b) - 1)
      else Some b)"

subsection \<open>Abstraction\<close>

definition wf_bitmap :: "bitmap \<Rightarrow> bool" where
  "wf_bitmap b \<longleftrightarrow> length (bits b) = elem_cnt (bit_cnt b) \<and> bit_cnt b + 64 \<le> 2 ^ 64"

definition bits_of :: "bitmap \<Rightarrow> bool list" where
  "bits_of b = map (\<lambda>i. bit (bits b ! elem_idx i) (i mod ELEM_BITS)) [0..<bit_cnt b]"

text \<open>The abstract operations: overwriting a run, finding the first run.\<close>

definition is_run :: "bool list \<Rightarrow> nat \<Rightarrow> nat \<Rightarrow> bool \<Rightarrow> bool" where
  "is_run xs i cnt v \<longleftrightarrow> i + cnt \<le> length xs \<and> (\<forall>j < cnt. xs ! (i + j) = v)"

definition first_run :: "bool list \<Rightarrow> nat \<Rightarrow> nat \<Rightarrow> bool \<Rightarrow> nat option" where
  "first_run xs start cnt v = find (\<lambda>i. is_run xs i cnt v) [start..<Suc (length xs)]"

lemma length_bits_of [simp]: "length (bits_of b) = bit_cnt b"
  by (simp add: bits_of_def)

lemma nth_bits_of: "i < bit_cnt b \<Longrightarrow> bits_of b ! i = bit (bits b ! elem_idx i) (i mod ELEM_BITS)"
  by (simp add: bits_of_def)

lemma elem_idx_less:
  assumes "wf_bitmap b" and "i < bit_cnt b"
  shows "elem_idx i < length (bits b)"
proof -
  have "bit_cnt b \<le> DIV_ROUND_UP (bit_cnt b) 64 * 64"
    using assms(1) by (intro DIV_ROUND_UP_bounds) (auto simp: wf_bitmap_def)
  with assms(2) have "i < DIV_ROUND_UP (bit_cnt b) 64 * 64" by simp
  then have "i div 64 < DIV_ROUND_UP (bit_cnt b) 64"
    by (simp add: less_mult_imp_div_less)
  then show ?thesis
    using assms(1) by (simp add: wf_bitmap_def elem_idx_def elem_cnt_def ELEM_BITS_def)
qed

lemma sz_in_range: "wf_bitmap b \<Longrightarrow> n \<le> bit_cnt b \<Longrightarrow> sz n = n"
  by (rule sz_less) (simp add: wf_bitmap_def)

lemma bit_bit_mask: "n < 64 \<Longrightarrow> bit (bit_mask i) n \<longleftrightarrow> n = i mod ELEM_BITS"
  by (auto simp: bit_mask_def ELEM_BITS_def bit_exp_iff)

lemma and_bit_mask: "(e AND bit_mask i) \<noteq> 0 \<longleftrightarrow> bit e (i mod ELEM_BITS)"
  by (simp add: bit_mask_def bit_iff_and_push_bit_not_eq_0)

text \<open>Updating one element with a function that acts on one bit updates one bit of the list.\<close>

lemma upd_elem_bit:
  assumes wf: "wf_bitmap b" and i: "i < bit_cnt b"
    and f: "\<And>e n. n < 64 \<Longrightarrow> bit (f e) n = (if n = i mod ELEM_BITS then g (bit e n) else bit e n)"
  shows "\<exists>b'. upd_elem f b (elem_idx i) = Some b' \<and> wf_bitmap b' \<and> bit_cnt b' = bit_cnt b \<and>
    bits_of b' = (bits_of b)[i := g (bits_of b ! i)]"
proof -
  let ?b = "b\<lparr>bits := (bits b)[elem_idx i := f (bits b ! elem_idx i)]\<rparr>"
  have l: "elem_idx i < length (bits b)"
    by (rule elem_idx_less [OF wf i])
  have "bits_of ?b = (bits_of b)[i := g (bits_of b ! i)]"
  proof (rule list_eq_nthI)
    fix j assume "j < length (bits_of ?b)"
    then have j: "j < bit_cnt b" by simp
    have m: "j mod ELEM_BITS < 64" by (simp add: ELEM_BITS_def)
    show "bits_of ?b ! j = (bits_of b)[i := g (bits_of b ! i)] ! j"
    proof (cases "elem_idx j = elem_idx i")
      case True
      then have "i = j \<longleftrightarrow> j mod ELEM_BITS = i mod ELEM_BITS"
        by (metis div_mult_mod_eq elem_idx_def)
      with True l i j m f show ?thesis
        by (simp add: nth_bits_of nth_update_if)
    next
      case False
      with l i j show ?thesis
        by (auto simp: nth_bits_of nth_update_if)
    qed
  qed simp
  then show ?thesis
    using l wf by (simp add: upd_elem_def wf_bitmap_def)
qed

text \<open>The three single-bit updates and the test, as list operations.\<close>

lemma bitmap_mark_correct:
  assumes "wf_bitmap b" and "i < bit_cnt b"
  shows "\<exists>b'. bitmap_mark b i = Some b' \<and> wf_bitmap b' \<and> bit_cnt b' = bit_cnt b \<and>
    bits_of b' = (bits_of b)[i := True]"
  unfolding bitmap_mark_def Let_def using assms
  by (intro upd_elem_bit [where g = "\<lambda>_. True"]) (auto simp: bit_or_iff bit_bit_mask)

lemma bitmap_reset_correct:
  assumes "wf_bitmap b" and "i < bit_cnt b"
  shows "\<exists>b'. bitmap_reset b i = Some b' \<and> wf_bitmap b' \<and> bit_cnt b' = bit_cnt b \<and>
    bits_of b' = (bits_of b)[i := False]"
  unfolding bitmap_reset_def Let_def using assms
  by (intro upd_elem_bit [where g = "\<lambda>_. False"])
    (auto simp: bit_and_iff bit_not_iff bit_bit_mask)

lemma bitmap_flip_correct:
  assumes "wf_bitmap b" and "i < bit_cnt b"
  shows "\<exists>b'. bitmap_flip b i = Some b' \<and> wf_bitmap b' \<and> bit_cnt b' = bit_cnt b \<and>
    bits_of b' = (bits_of b)[i := \<not> bits_of b ! i]"
  unfolding bitmap_flip_def Let_def using assms
  by (intro upd_elem_bit [where g = Not]) (auto simp: bit_xor_iff bit_bit_mask)

lemma bitmap_set_correct:
  assumes "wf_bitmap b" and "i < bit_cnt b"
  shows "\<exists>b'. bitmap_set b i v lg = Some (b', lg) \<and> wf_bitmap b' \<and> bit_cnt b' = bit_cnt b \<and>
    bits_of b' = (bits_of b)[i := v]"
  using bitmap_mark_correct [OF assms] bitmap_reset_correct [OF assms] assms(2)
  by (auto simp: bitmap_set_def)

lemma bitmap_test_correct:
  assumes "wf_bitmap b" and "i < bit_cnt b"
  shows "bitmap_test b i lg = Some (bits_of b ! i, lg)"
  using elem_idx_less [OF assms] assms(2)
  by (simp add: bitmap_test_def and_bit_mask nth_bits_of)

text \<open>The loops.\<close>

lemma overwrite_replicate_Suc:
  assumes "k + Suc n \<le> length xs"
  shows "overwrite k (replicate (Suc n) v) xs = overwrite (Suc k) (replicate n v) (xs[k := v])"
  using assms by (intro list_eq_nthI) (auto simp: nth_overwrite nth_update_if nth_Cons')

lemma set_loop_correct:
  assumes "wf_bitmap b" and "start + i + n \<le> bit_cnt b"
  shows "\<exists>b'. set_loop b start i n v lg = Some (b', lg) \<and> wf_bitmap b' \<and> bit_cnt b' = bit_cnt b \<and>
    bits_of b' = overwrite (start + i) (replicate n v) (bits_of b)"
  using assms
proof (induction n arbitrary: b i)
  case 0
  then show ?case by (simp add: overwrite_def)
next
  case (Suc n)
  have s: "sz (start + i) = start + i"
    using Suc.prems by (intro sz_in_range) auto
  obtain b1 where b1: "bitmap_set b (start + i) v lg = Some (b1, lg)" "wf_bitmap b1"
    "bit_cnt b1 = bit_cnt b" "bits_of b1 = (bits_of b)[start + i := v]"
    using bitmap_set_correct [of b "start + i" v lg] Suc.prems by auto
  obtain b2 where "set_loop b1 start (Suc i) n v lg = Some (b2, lg)" "wf_bitmap b2"
    "bit_cnt b2 = bit_cnt b1" "bits_of b2 = overwrite (start + Suc i) (replicate n v) (bits_of b1)"
    using Suc.IH [of b1 "Suc i"] b1 Suc.prems by auto
  then show ?case
    using b1 s Suc.prems by (simp add: overwrite_replicate_Suc del: replicate_Suc)
qed

lemma bitmap_set_multiple_correct:
  assumes "wf_bitmap b" and "start + cnt \<le> bit_cnt b"
  shows "\<exists>b'. bitmap_set_multiple b start cnt v lg = Some (b', lg) \<and> wf_bitmap b' \<and>
    bit_cnt b' = bit_cnt b \<and> bits_of b' = overwrite start (replicate cnt v) (bits_of b)"
  using set_loop_correct [of b start 0 cnt v lg] assms sz_in_range [of b "start + cnt"]
  by (simp add: bitmap_set_multiple_def)

lemma contains_loop_correct:
  assumes "wf_bitmap b" and "start + i + n \<le> bit_cnt b"
  shows "contains_loop b start i n v lg = Some (\<exists>j < n. bits_of b ! (start + i + j) = v, lg)"
  using assms
proof (induction n arbitrary: i)
  case 0
  then show ?case by simp
next
  case (Suc n)
  have s: "sz (start + i) = start + i"
    using Suc.prems by (intro sz_in_range) auto
  have "(\<exists>j < Suc n. bits_of b ! (start + i + j) = v) \<longleftrightarrow>
      bits_of b ! (start + i) = v \<or> (\<exists>j < n. bits_of b ! (start + Suc i + j) = v)"
    by (simp add: Ex_less_Suc2)
  then show ?case
    using Suc s by (auto simp: bitmap_test_correct)
qed

lemma bitmap_contains_correct:
  assumes "wf_bitmap b" and "start + cnt \<le> bit_cnt b"
  shows "bitmap_contains b start cnt v lg = Some (\<exists>j < cnt. bits_of b ! (start + j) = v, lg)"
  using contains_loop_correct [of b start 0 cnt v lg] assms sz_in_range [of b "start + cnt"]
  by (simp add: bitmap_contains_def)

lemma count_loop_correct:
  assumes "wf_bitmap b" and "start + i + n \<le> bit_cnt b"
  shows "count_loop b start i n v acc lg =
    Some (acc + count_list (take n (drop (start + i) (bits_of b))) v, lg)"
  using assms
proof (induction n arbitrary: i acc)
  case 0
  then show ?case by simp
next
  case (Suc n)
  have s: "sz (start + i) = start + i"
    using Suc.prems by (intro sz_in_range) auto
  have "drop (start + i) (bits_of b) = bits_of b ! (start + i) # drop (start + Suc i) (bits_of b)"
    using Suc.prems by (simp add: Cons_nth_drop_Suc)
  then show ?case
    using Suc s by (simp add: bitmap_test_correct)
qed

lemma bitmap_count_correct:
  assumes "wf_bitmap b" and "start + cnt \<le> bit_cnt b"
  shows "bitmap_count b start cnt v lg =
    Some (count_list (take cnt (drop start (bits_of b))) v, lg)"
  using count_loop_correct [of b start 0 cnt v 0 lg] assms sz_in_range [of b "start + cnt"]
  by (simp add: bitmap_count_def)

subsection \<open>Searching, abstractly\<close>

lemma first_run_unfold:
  assumes "start \<le> length xs"
  shows "first_run xs start cnt v =
    (if is_run xs start cnt v then Some start else first_run xs (Suc start) cnt v)"
  using assms by (simp add: first_run_def upt_conv_Cons del: upt_Suc)

lemma first_run_Some:
  "first_run xs start cnt v = Some i \<longleftrightarrow>
     start \<le> i \<and> is_run xs i cnt v \<and> (\<forall>k. start \<le> k \<and> k < i \<longrightarrow> \<not> is_run xs k cnt v)"
proof (induction "Suc (length xs) - start" arbitrary: start)
  case 0
  then show ?case by (auto simp: first_run_def is_run_def)
next
  case (Suc d)
  have IH: "first_run xs (Suc start) cnt v = Some i \<longleftrightarrow> Suc start \<le> i \<and> is_run xs i cnt v \<and>
      (\<forall>k. Suc start \<le> k \<and> k < i \<longrightarrow> \<not> is_run xs k cnt v)"
    using Suc.hyps by simp
  show ?case
  proof (cases "is_run xs start cnt v")
    case True
    then show ?thesis
      using Suc.hyps(2) first_run_unfold [of start xs cnt v] by (auto intro: le_neq_implies_less)
  next
    case False
    then have "first_run xs start cnt v = first_run xs (Suc start) cnt v"
      using Suc.hyps(2) first_run_unfold [of start xs cnt v] by simp
    then show ?thesis
      using IH False by (metis Suc_le_eq le_neq_implies_less less_imp_le_nat)
  qed
qed

lemma first_run_None:
  "first_run xs start cnt v = None \<longleftrightarrow> (\<forall>i \<ge> start. \<not> is_run xs i cnt v)"
  by (auto simp: first_run_def find_None_iff is_run_def simp del: upt_Suc)

lemma first_run_beyond: "length xs < start + cnt \<Longrightarrow> first_run xs start cnt v = None"
  by (simp add: first_run_None is_run_def)

definition scan_result :: "nat option \<Rightarrow> nat" where
  "scan_result r = (case r of Some i \<Rightarrow> i | None \<Rightarrow> BITMAP_ERROR)"

lemma scan_result_simps [simp]:
  "scan_result (Some i) = i" "scan_result None = BITMAP_ERROR"
  by (simp_all add: scan_result_def)

lemma scan_loop_correct:
  assumes "wf_bitmap b" and "i + n + cnt = Suc (bit_cnt b)"
  shows "scan_loop b i n cnt v lg = Some (scan_result (first_run (bits_of b) i cnt v), lg)"
  using assms
proof (induction n arbitrary: i)
  case 0
  then show ?case by (simp add: first_run_beyond)
next
  case (Suc n)
  have c: "bitmap_contains b i cnt (\<not> v) lg = Some (\<not> is_run (bits_of b) i cnt v, lg)"
    using Suc.prems by (auto simp: bitmap_contains_correct is_run_def)
  have "first_run (bits_of b) i cnt v =
      (if is_run (bits_of b) i cnt v then Some i else first_run (bits_of b) (Suc i) cnt v)"
    using Suc.prems by (intro first_run_unfold) simp
  then show ?case
    using c Suc by simp
qed

lemma bitmap_scan_correct:
  assumes "wf_bitmap b" and "start \<le> bit_cnt b"
  shows "bitmap_scan b start cnt v lg =
    Some (scan_result (first_run (bits_of b) start cnt v), lg)"
proof (cases "start + cnt \<le> bit_cnt b")
  case True
  then show ?thesis
    using assms scan_loop_correct [of b start "Suc (bit_cnt b - cnt) - start" cnt v lg]
    by (simp add: bitmap_scan_def)
next
  case False
  then have "Suc (bit_cnt b - cnt) - start = 0" if "cnt \<le> bit_cnt b"
    using that by linarith
  with False assms show ?thesis
    by (auto simp: bitmap_scan_def first_run_beyond)
qed

text \<open>A bitmap of at most \<open>2^32 - 1\<close> bits never has a run that starts at \<^const>\<open>BITMAP_ERROR\<close>
  (unless the run is empty), so the sentinel is unambiguous.\<close>

lemma first_run_not_error:
  assumes "length xs \<le> BITMAP_ERROR" and "0 < cnt"
  shows "first_run xs start cnt v \<noteq> Some BITMAP_ERROR"
  using assms by (auto simp: first_run_Some is_run_def)

lemma bitmap_scan_and_flip_correct:
  assumes wf: "wf_bitmap b" and start: "start \<le> bit_cnt b"
    and small: "bit_cnt b \<le> BITMAP_ERROR" and cnt: "0 < cnt"
  shows "case first_run (bits_of b) start cnt v of
      None \<Rightarrow> bitmap_scan_and_flip b start cnt v lg = Some (BITMAP_ERROR, b, lg)
    | Some i \<Rightarrow> (\<exists>b'. bitmap_scan_and_flip b start cnt v lg = Some (i, b', lg) \<and> wf_bitmap b' \<and>
        bit_cnt b' = bit_cnt b \<and> bits_of b' = overwrite i (replicate cnt (\<not> v)) (bits_of b))"
proof (cases "first_run (bits_of b) start cnt v")
  case None
  then show ?thesis
    using bitmap_scan_correct [OF wf start] by (simp add: bitmap_scan_and_flip_def)
next
  case (Some i)
  then have "i \<noteq> BITMAP_ERROR"
    using first_run_not_error [of "bits_of b" cnt start v] small cnt by auto
  moreover have "i + cnt \<le> bit_cnt b"
    using Some by (simp add: first_run_Some is_run_def)
  ultimately show ?thesis
    using bitmap_scan_correct [OF wf start, of cnt v lg]
      bitmap_set_multiple_correct [OF wf, of i cnt "\<not> v" lg] Some
    by (auto simp: bitmap_scan_and_flip_def)
qed

subsection \<open>Creation and the byte image\<close>

lemma elem_cnt_bound: "cnt + 64 \<le> 2 ^ 64 \<Longrightarrow> 8 * elem_cnt cnt < 2 ^ 64"
  using DIV_ROUND_UP_bounds(2) [of 64 cnt] by (simp add: elem_cnt_def ELEM_BITS_def)

lemma byte_cnt_eq: "cnt + 64 \<le> 2 ^ 64 \<Longrightarrow> byte_cnt cnt = 8 * elem_cnt cnt"
  using elem_cnt_bound by (simp add: byte_cnt_def)

lemma bitmap_set_all_correct:
  assumes "wf_bitmap b"
  shows "\<exists>b'. bitmap_set_all b v lg = Some (b', lg) \<and> wf_bitmap b' \<and> bit_cnt b' = bit_cnt b \<and>
    bits_of b' = replicate (bit_cnt b) v"
  using bitmap_set_multiple_correct [of b 0 "bit_cnt b" v lg] assms
  by (auto simp: bitmap_set_all_def bitmap_size_def overwrite_all)

lemma bitmap_create_correct:
  assumes "cnt + 64 \<le> 2 ^ 64"
  shows "\<exists>b. bitmap_create True True cnt lg = Some (Some b, lg) \<and> wf_bitmap b \<and>
    bit_cnt b = cnt \<and> bits_of b = replicate cnt False"
proof -
  let ?b = "\<lparr>bit_cnt = cnt, bits = words_of_bytes 8 (byte_cnt cnt div 8) (replicate (byte_cnt cnt) 0)\<rparr>"
  have "wf_bitmap ?b"
    using assms by (simp add: wf_bitmap_def byte_cnt_eq)
  then show ?thesis
    using bitmap_set_all_correct [of ?b False lg] by (auto simp: bitmap_create_def)
qed

text \<open>\<^verbatim>\<open>bitmap_read\<close> masks the unused bits of the last element; the used ones are kept.\<close>

lemma bit_last_mask:
  "n < 64 \<Longrightarrow> bit (last_mask b) n \<longleftrightarrow> bit_cnt b mod 64 = 0 \<or> n < bit_cnt b mod 64"
proof -
  assume n: "n < 64"
  have "push_bit k 1 - 1 = (mask k :: u64)" for k
    by (simp add: mask_eq_exp_minus_1)
  then show ?thesis
    using n by (simp add: last_mask_def ELEM_BITS_def Let_def bit_mask_iff)
qed

lemma last_elem_bits:
  assumes "wf_bitmap b" and "0 < bit_cnt b" and "i < bit_cnt b"
    and "elem_idx i = elem_cnt (bit_cnt b) - 1"
  shows "bit (last_mask b) (i mod 64)"
proof -
  let ?n = "bit_cnt b" and ?e = "elem_cnt (bit_cnt b)"
  have "?n \<le> ?e * 64"
    using assms(1) DIV_ROUND_UP_bounds [of 64 ?n]
    by (simp add: wf_bitmap_def elem_cnt_def ELEM_BITS_def)
  with assms(2) have e: "0 < ?e" by (cases ?e) auto
  have u: "?e * 64 < ?n + 64"
    using assms(1) DIV_ROUND_UP_bounds [of 64 ?n]
    by (simp add: wf_bitmap_def elem_cnt_def ELEM_BITS_def)
  have i: "i div 64 = ?e - 1"
    using assms(4) by (simp add: elem_idx_def ELEM_BITS_def)
  have "?n mod 64 = 0 \<or> i mod 64 < ?n mod 64"
  proof (cases "?n mod 64 = 0")
    case False
    have "(?e - 1) * 64 < ?n" using u e by (simp add: diff_mult_distrib)
    then have "?n div 64 \<ge> ?e - 1" by (simp add: less_eq_div_iff_mult_less_eq)
    then have "i div 64 \<le> ?n div 64" using i by simp
    moreover have "?n < ?e * 64"
      using False \<open>?n \<le> ?e * 64\<close> by (metis le_neq_implies_less mod_mult_self2_is_0)
    then have "?n div 64 \<le> i div 64"
      using i less_mult_imp_div_less [of ?n ?e 64] by linarith
    ultimately have "i div 64 = ?n div 64" by simp
    then show ?thesis
      using assms(3) by (metis div_mult_mod_eq nat_add_left_cancel_less)
  qed simp
  then show ?thesis
    by (simp add: bit_last_mask)
qed

lemma bitmap_load_bytes:
  assumes wf: "wf_bitmap b" and wf': "wf_bitmap b'" and same: "bit_cnt b' = bit_cnt b"
  shows "\<exists>r. bitmap_load b (bitmap_bytes b') = Some r \<and> wf_bitmap r \<and>
    bit_cnt r = bit_cnt b \<and> bits_of r = bits_of b'"
proof (cases "bit_cnt b = 0")
  case True
  then show ?thesis
    using wf same by (simp add: bitmap_load_def bits_of_def)
next
  case False
  let ?k = "elem_cnt (bit_cnt b) - 1"
  have w: "words_of_bytes 8 (length (bits b)) (bitmap_bytes b') = bits b'"
    using words_of_bytes_of_words [of 8 "bits b'" "length (bits b)" "[]"] wf wf' same
    by (simp add: bitmap_bytes_def wf_bitmap_def)
  have len: "length (bits b') = elem_cnt (bit_cnt b)"
    using wf' same by (simp add: wf_bitmap_def)
  have k: "?k < length (bits b')"
    using elem_idx_less [OF wf', of 0] False same len by simp
  let ?r = "b\<lparr>bits := (bits b')[?k := bits b' ! ?k AND last_mask b]\<rparr>"
  have "bits_of ?r = bits_of b'"
  proof (rule list_eq_nthI)
    fix i assume "i < length (bits_of ?r)"
    then have i: "i < bit_cnt b" by simp
    show "bits_of ?r ! i = bits_of b' ! i"
      using i same k last_elem_bits [OF wf, of i] False
      by (auto simp: nth_bits_of nth_update_if bit_and_iff ELEM_BITS_def)
  qed (simp add: same)
  then show ?thesis
    using False w k wf len
    by (simp add: bitmap_load_def upd_elem_def wf_bitmap_def last_mask_def Let_def)
qed

subsection \<open>Properties\<close>

text \<open>A small bitmap for the witnesses: three bits, the middle one clear.\<close>

definition sample_bitmap :: bitmap where
  "sample_bitmap = \<lparr>bit_cnt = 3, bits = [5]\<rparr>"

lemma sample_bitmap_facts:
  "wf_bitmap sample_bitmap" "bit_cnt sample_bitmap = 3" "bits_of sample_bitmap = [True, False, True]"
  by (simp_all add: sample_bitmap_def wf_bitmap_def elem_cnt_def DIV_ROUND_UP_def ELEM_BITS_def
      bits_of_def elem_idx_def upt_rec bit_numeral_rec)

text \<open>Setting bit \<open>i\<close> of a bitmap is updating element \<open>i\<close> of the list of booleans it stands for:
  testing any bit afterwards gives the new value at \<open>i\<close> and the old one elsewhere, the bitmap stays
  well-formed and no assertion fails.\<close>

theorem bitmap_set_test_refines:
  assumes "wf_bitmap b" and "i < bit_cnt b"
  shows "\<exists>b'. bitmap_set b i v lg = Some (b', lg) \<and> wf_bitmap b' \<and>
    bits_of b' = (bits_of b)[i := v] \<and>
    (\<forall>j < bit_cnt b. bitmap_test b' j lg = Some (if j = i then v else bits_of b ! j, lg))"
proof -
  obtain b' where "bitmap_set b i v lg = Some (b', lg)" "wf_bitmap b'" "bit_cnt b' = bit_cnt b"
    "bits_of b' = (bits_of b)[i := v]"
    using bitmap_set_correct [OF assms] by blast
  then show ?thesis
    using assms(2) bitmap_test_correct [of b'] by (auto simp: nth_update_if)
qed

theorem bitmap_set_test_refines_witness:
  "\<exists>b'. bitmap_set sample_bitmap 1 True [] = Some (b', []) \<and> bits_of b' = [True, True, True]"
  using bitmap_set_test_refines [of sample_bitmap 1 True "[]"] by (auto simp: sample_bitmap_facts)

text \<open>\<^verbatim>\<open>bitmap_mark\<close>, \<^verbatim>\<open>bitmap_reset\<close> and \<^verbatim>\<open>bitmap_flip\<close> set, clear and negate exactly the bit they
  are given, and \<^verbatim>\<open>bitmap_set_multiple\<close> overwrites exactly the run it is given.\<close>

theorem bitmap_updates_refine:
  assumes "wf_bitmap b" and "i < bit_cnt b" and "start + cnt \<le> bit_cnt b"
  shows "(\<exists>r. bitmap_mark b i = Some r \<and> wf_bitmap r \<and> bits_of r = (bits_of b)[i := True]) \<and>
    (\<exists>r. bitmap_reset b i = Some r \<and> wf_bitmap r \<and> bits_of r = (bits_of b)[i := False]) \<and>
    (\<exists>r. bitmap_flip b i = Some r \<and> wf_bitmap r \<and> bits_of r = (bits_of b)[i := \<not> bits_of b ! i]) \<and>
    (\<exists>r. bitmap_set_multiple b start cnt v lg = Some (r, lg) \<and> wf_bitmap r \<and>
       bits_of r = overwrite start (replicate cnt v) (bits_of b))"
  using bitmap_mark_correct [OF assms(1,2)] bitmap_reset_correct [OF assms(1,2)]
    bitmap_flip_correct [OF assms(1,2)] bitmap_set_multiple_correct [OF assms(1,3)]
  by blast

theorem bitmap_updates_refine_witness:
  "(\<exists>r. bitmap_flip sample_bitmap 2 = Some r \<and> bits_of r = [True, False, False]) \<and>
   (\<exists>r. bitmap_set_multiple sample_bitmap 1 2 True [] = Some (r, []) \<and> bits_of r = [True, True, True])"
  using bitmap_updates_refine [of sample_bitmap 2 1 2 True "[]"]
  by (auto simp: sample_bitmap_facts overwrite_def numeral_2_eq_2)

text \<open>The queries on a run of bits count, find and quantify over exactly the bits of that run.\<close>

theorem bitmap_queries_refine:
  assumes "wf_bitmap b" and "start + cnt \<le> bit_cnt b"
  shows "bitmap_count b start cnt v lg = Some (count_list (take cnt (drop start (bits_of b))) v, lg) \<and>
    bitmap_contains b start cnt v lg = Some (v \<in> set (take cnt (drop start (bits_of b))), lg) \<and>
    bitmap_any b start cnt lg = Some (True \<in> set (take cnt (drop start (bits_of b))), lg) \<and>
    bitmap_none b start cnt lg = Some (True \<notin> set (take cnt (drop start (bits_of b))), lg) \<and>
    bitmap_all b start cnt lg = Some (False \<notin> set (take cnt (drop start (bits_of b))), lg)"
proof -
  have "(\<exists>j < cnt. bits_of b ! (start + j) = u) \<longleftrightarrow> u \<in> set (take cnt (drop start (bits_of b)))" for u
    using assms(2) by (auto simp: in_set_conv_nth)
  then show ?thesis
    using bitmap_contains_correct [OF assms] bitmap_count_correct [OF assms]
    by (simp add: bitmap_any_def bitmap_none_def bitmap_all_def)
qed

theorem bitmap_queries_refine_witness:
  "bitmap_count sample_bitmap 0 3 True [] = Some (2, []) \<and>
   bitmap_all sample_bitmap 0 2 [] = Some (False, [])"
  using bitmap_queries_refine [of sample_bitmap 0 3 True "[]"]
    bitmap_queries_refine [of sample_bitmap 0 2 True "[]"]
  by (simp add: sample_bitmap_facts eval_nat_numeral)

text \<open>\<^verbatim>\<open>bitmap_scan\<close> returns the position of the first run of \<open>cnt\<close> bits equal to \<open>v\<close> at or after
  \<open>start\<close>, and \<^const>\<open>BITMAP_ERROR\<close> exactly when there is none.\<close>

theorem bitmap_scan_finds_first_run:
  assumes "wf_bitmap b" and "start \<le> bit_cnt b" and "bit_cnt b \<le> BITMAP_ERROR" and "0 < cnt"
  shows "\<exists>r. bitmap_scan b start cnt v lg = Some (r, lg) \<and>
    (r = BITMAP_ERROR \<longleftrightarrow> (\<forall>i \<ge> start. \<not> is_run (bits_of b) i cnt v)) \<and>
    (r \<noteq> BITMAP_ERROR \<longrightarrow> start \<le> r \<and> is_run (bits_of b) r cnt v \<and>
       (\<forall>k. start \<le> k \<and> k < r \<longrightarrow> \<not> is_run (bits_of b) k cnt v))"
proof (cases "first_run (bits_of b) start cnt v")
  case None
  then show ?thesis
    using bitmap_scan_correct [OF assms(1,2), of cnt v lg] first_run_None [of "bits_of b" start cnt v]
    by simp
next
  case (Some i)
  then have "i \<noteq> BITMAP_ERROR" and "\<not> (\<forall>i \<ge> start. \<not> is_run (bits_of b) i cnt v)"
    using first_run_not_error [of "bits_of b" cnt start v] assms(3,4) first_run_None [of "bits_of b" start cnt v]
    by auto
  then show ?thesis
    using bitmap_scan_correct [OF assms(1,2), of cnt v lg] first_run_Some [of "bits_of b" start cnt v i] Some
    by auto
qed

theorem bitmap_scan_finds_first_run_witness:
  "\<exists>r. bitmap_scan sample_bitmap 0 1 False [] = Some (r, []) \<and>
     (r \<noteq> BITMAP_ERROR \<longrightarrow> is_run (bits_of sample_bitmap) r 1 False)"
  using bitmap_scan_finds_first_run [of sample_bitmap 0 1 False "[]"]
  by (auto simp: sample_bitmap_facts BITMAP_ERROR_def)

text \<open>C18: \<^verbatim>\<open>bitmap_scan_and_flip\<close> takes the first run of \<open>cnt\<close> bits equal to \<open>v\<close> and complements exactly
  that run; when there is none it reports \<^const>\<open>BITMAP_ERROR\<close> and changes nothing.\<close>

theorem bitmap_scan_and_flip_takes_first_run:
  assumes "wf_bitmap b" and "start \<le> bit_cnt b" and "bit_cnt b \<le> BITMAP_ERROR" and "0 < cnt"
  shows "case first_run (bits_of b) start cnt v of
      None \<Rightarrow> bitmap_scan_and_flip b start cnt v lg = Some (BITMAP_ERROR, b, lg)
    | Some i \<Rightarrow> (\<exists>b'. bitmap_scan_and_flip b start cnt v lg = Some (i, b', lg) \<and> wf_bitmap b' \<and>
        bits_of b' = overwrite i (replicate cnt (\<not> v)) (bits_of b))"
  using bitmap_scan_and_flip_correct [OF assms, of v lg] by (auto split: option.splits)

theorem bitmap_scan_and_flip_takes_first_run_witness:
  "\<exists>b'. bitmap_scan_and_flip sample_bitmap 0 1 False [] = Some (1, b', []) \<and> bits_of b' = [True, True, True]"
proof -
  have "first_run [True, False, True] 0 1 False = Some 1" by code_simp
  then show ?thesis
    using bitmap_scan_and_flip_takes_first_run [of sample_bitmap 0 1 False "[]"]
    by (auto simp: sample_bitmap_facts BITMAP_ERROR_def overwrite_def)
qed

text \<open>Reading back the byte image that \<^verbatim>\<open>bitmap_write\<close> stores gives the same bits, and the loaded
  bitmap is well-formed.\<close>

theorem bitmap_image_roundtrip:
  assumes "wf_bitmap b" and "wf_bitmap b'" and "bit_cnt b' = bit_cnt b"
  shows "\<exists>r. bitmap_load b (bitmap_bytes b') = Some r \<and> wf_bitmap r \<and>
    bit_cnt r = bit_cnt b \<and> bits_of r = bits_of b'"
  by (rule bitmap_load_bytes [OF assms])

theorem bitmap_image_roundtrip_witness:
  "\<exists>r. bitmap_load \<lparr>bit_cnt = 3, bits = [0]\<rparr> (bitmap_bytes sample_bitmap) = Some r \<and>
     bits_of r = [True, False, True]"
proof -
  have "wf_bitmap \<lparr>bit_cnt = 3, bits = [0]\<rparr>"
    by (simp add: wf_bitmap_def elem_cnt_def DIV_ROUND_UP_def ELEM_BITS_def)
  then show ?thesis
    using bitmap_image_roundtrip [of "\<lparr>bit_cnt = 3, bits = [0]\<rparr>" sample_bitmap]
    by (auto simp: sample_bitmap_facts)
qed

end
