(* ===== verification/Block.thy ===== *)
theory Block
  imports Prelude
begin

text \<open>
  Block devices: the driver of the host file (\<^verbatim>\<open>a3/fs/ide.c\<close>), the device table and the checked
  sector operations (\<^verbatim>\<open>a3/fs/block.c\<close>) and the partition layer (\<^verbatim>\<open>a3/fs/partition.c\<close>).

  A \<^verbatim>\<open>struct block *\<close> is an index into the table of registered devices. The driver table
  (\<^verbatim>\<open>ide_operations\<close>, \<^verbatim>\<open>partition_operations\<close>) and the driver's \<^verbatim>\<open>aux\<close> pointer are the datatype
  \<open>driver\<close>. The disk image on the host is a list of bytes; \<^verbatim>\<open>lseek\<close>, \<^verbatim>\<open>read\<close> and \<^verbatim>\<open>write\<close> act on
  it as POSIX describes (a read past the end of the file is short and leaves the rest of the
  buffer alone, a write past the end extends the file), host I/O errors other than a failed
  \<^verbatim>\<open>open\<close> apart.
\<close>

definition BLOCK_SECTOR_SIZE :: nat where
  "BLOCK_SECTOR_SIZE = 512"

datatype driver = Ide_operations | Partition_operations (part_block: nat) (part_start: u32)

record block =
  block_name :: string
  block_fname :: string
  block_size :: u32
  block_ops :: driver
  read_cnt :: u64
  write_cnt :: u64

record dstate =
  console :: console
  hd_fd :: int
  hd_file :: "byte list"
  blocks :: "block list"
  hard_drive :: "nat option"

abbreviation emit :: "event \<Rightarrow> dstate \<Rightarrow> dstate" where
  "emit e s \<equiv> s\<lparr>console := console s @ [e]\<rparr>"

abbreviation printf :: "string \<Rightarrow> dstate \<Rightarrow> dstate" where
  "printf msg s \<equiv> emit (Print msg) s"

abbreviation PANIC :: "string \<Rightarrow> dstate \<Rightarrow> dstate" where
  "PANIC fn s \<equiv> s\<lparr>console := debug_panic fn (console s)\<rparr>"

subsection \<open>The host file driver: ide.c\<close>

text \<open>The byte offset \<^verbatim>\<open>sec_no * BLOCK_SECTOR_SIZE\<close> is a 32-bit product.\<close>

definition ide_offset :: "u32 \<Rightarrow> nat" where
  "ide_offset sec_no = unat (sec_no * 512)"

definition ide_read :: "u32 \<Rightarrow> byte list \<Rightarrow> dstate \<Rightarrow> (byte list \<times> dstate) option" where
  "ide_read sec_no buf s =
     (if length buf < BLOCK_SECTOR_SIZE then None
      else if hd_fd s < 0 then Some (buf, s)
      else let data = take BLOCK_SECTOR_SIZE (drop (ide_offset sec_no) (hd_file s))
           in Some (data @ drop (length data) buf, s))"

definition ide_write :: "u32 \<Rightarrow> byte list \<Rightarrow> dstate \<Rightarrow> dstate option" where
  "ide_write sec_no buf s =
     (if length buf < BLOCK_SECTOR_SIZE then None
      else if hd_fd s < 0 then Some s
      else let off = ide_offset sec_no;
               file = hd_file s @ replicate (off - length (hd_file s)) 0
           in Some (s\<lparr>hd_file := take off file @ take BLOCK_SECTOR_SIZE buf @
                                   drop (off + BLOCK_SECTOR_SIZE) file\<rparr>))"

subsection \<open>The device table: block.c\<close>

definition block_get_hd :: "dstate \<Rightarrow> nat option" where
  "block_get_hd s = hard_drive s"

definition block_set_hd :: "nat \<Rightarrow> dstate \<Rightarrow> dstate" where
  "block_set_hd b s = s\<lparr>hard_drive := Some b\<rparr>"

definition check_sector :: "block \<Rightarrow> u32 \<Rightarrow> dstate \<Rightarrow> dstate" where
  "check_sector blk sector s = (if sector \<ge> block_size blk then PANIC ''check_sector'' s else s)"

definition bump_read :: "nat \<Rightarrow> dstate \<Rightarrow> dstate" where
  "bump_read b s =
     s\<lparr>blocks := (blocks s)[b := (blocks s ! b)\<lparr>read_cnt := read_cnt (blocks s ! b) + 1\<rparr>]\<rparr>"

definition bump_write :: "nat \<Rightarrow> dstate \<Rightarrow> dstate" where
  "bump_write b s =
     s\<lparr>blocks := (blocks s)[b := (blocks s ! b)\<lparr>write_cnt := write_cnt (blocks s ! b) + 1\<rparr>]\<rparr>"

text \<open>\<^verbatim>\<open>block_read\<close> and \<^verbatim>\<open>partition_read\<close> call each other down the chain of devices. The first
  argument bounds the depth of that chain; the number of registered devices is enough for
  every chain without a cycle, and a cycle would exhaust the C stack.\<close>

fun block_read_n :: "nat \<Rightarrow> nat \<Rightarrow> u32 \<Rightarrow> byte list \<Rightarrow> dstate \<Rightarrow> (byte list \<times> dstate) option" where
  "block_read_n 0 b sector buf s = None"
| "block_read_n (Suc n) b sector buf s =
     (if b < length (blocks s)
      then let s = check_sector (blocks s ! b) sector s
           in do { (buf, s) \<leftarrow> (case block_ops (blocks s ! b) of
                       Ide_operations \<Rightarrow> ide_read sector buf s
                     | Partition_operations p start \<Rightarrow> block_read_n n p (start + sector + 1) buf s);
                   Some (buf, bump_read b s) }
      else None)"

fun block_write_n :: "nat \<Rightarrow> nat \<Rightarrow> u32 \<Rightarrow> byte list \<Rightarrow> dstate \<Rightarrow> dstate option" where
  "block_write_n 0 b sector buf s = None"
| "block_write_n (Suc n) b sector buf s =
     (if b < length (blocks s)
      then let s = check_sector (blocks s ! b) sector s
           in do { s \<leftarrow> (case block_ops (blocks s ! b) of
                       Ide_operations \<Rightarrow> ide_write sector buf s
                     | Partition_operations p start \<Rightarrow> block_write_n n p (start + sector + 1) buf s);
                   Some (bump_write b s) }
      else None)"

definition block_read :: "nat \<Rightarrow> u32 \<Rightarrow> byte list \<Rightarrow> dstate \<Rightarrow> (byte list \<times> dstate) option" where
  "block_read b sector buf s = block_read_n (length (blocks s)) b sector buf s"

definition block_write :: "nat \<Rightarrow> u32 \<Rightarrow> byte list \<Rightarrow> dstate \<Rightarrow> dstate option" where
  "block_write b sector buf s = block_write_n (length (blocks s)) b sector buf s"

definition partition_read ::
  "nat \<Rightarrow> u32 \<Rightarrow> u32 \<Rightarrow> byte list \<Rightarrow> dstate \<Rightarrow> (byte list \<times> dstate) option" where
  "partition_read p start sector buf s = block_read p (start + sector + 1) buf s"

definition partition_write ::
  "nat \<Rightarrow> u32 \<Rightarrow> u32 \<Rightarrow> byte list \<Rightarrow> dstate \<Rightarrow> dstate option" where
  "partition_write p start sector buf s = block_write p (start + sector + 1) buf s"

fun human_loop :: "nat \<Rightarrow> string list \<Rightarrow> nat \<times> string" where
  "human_loop len [] = (len, '''')"
| "human_loop len [f] = (len, f)"
| "human_loop len (f # g # fs) =
     (if len \<ge> 1024 then human_loop (len div 1024) (g # fs) else (len, f))"

definition print_human_readable_size :: "nat \<Rightarrow> dstate \<Rightarrow> dstate" where
  "print_human_readable_size len s =
     (if len = 1 then printf ''1 byte'' s
      else let (n, f) = human_loop len [''bytes'', ''kB'', ''MB'', ''GB'', ''TB'']
           in printf (dec n @ '' '' @ f) s)"

definition block_register ::
  "string \<Rightarrow> string \<Rightarrow> u32 \<Rightarrow> driver \<Rightarrow> dstate \<Rightarrow> nat \<times> dstate" where
  "block_register name fname len ops s =
     (let b = length (blocks s);
          blk = \<lparr>block_name = take 16 name, block_fname = take 100 fname, block_size = len,
                 block_ops = ops, read_cnt = 0, write_cnt = 0\<rparr>;
          s = s\<lparr>blocks := blocks s @ [blk]\<rparr>;
          s = printf (block_name blk @ '': '' @ dec (unat len) @ '' sectors ('') s;
          s = print_human_readable_size (unat len * BLOCK_SECTOR_SIZE) s;
          s = printf '')'' s
      in (b, block_set_hd b s))"

subsection \<open>Partition tables: partition.c\<close>

record partition_table_entry =
  pe_bootable :: byte
  pe_type :: byte
  pe_offset :: u32
  pe_size :: u32

definition parse_entry :: "byte list \<Rightarrow> partition_table_entry" where
  "parse_entry bs =
     \<lparr>pe_bootable = bs ! 0, pe_type = bs ! 4,
      pe_offset = of_nat (le_decode (take 4 (drop 8 bs))),
      pe_size = of_nat (le_decode (take 4 (drop 12 bs)))\<rparr>"

definition pt_partitions :: "byte list \<Rightarrow> partition_table_entry list" where
  "pt_partitions sec = map parse_entry (chunks 16 4 (drop 446 sec))"

definition pt_signature :: "byte list \<Rightarrow> nat" where
  "pt_signature sec = le_decode (take 2 (drop 510 sec))"

definition found_partition ::
  "nat \<Rightarrow> u32 \<Rightarrow> u32 \<Rightarrow> nat \<Rightarrow> string \<Rightarrow> dstate \<Rightarrow> dstate" where
  "found_partition b start len part_nr fname s =
     (let blk = blocks s ! b
      in if start \<ge> block_size blk
         then printf (block_name blk @ dec part_nr @ '': Partition starts past end of device (sector ''
                        @ dec (unat start) @ '')'') s
         else if start + len < start \<or> start + len > block_size blk
         then printf (block_name blk @ dec part_nr @ '': Partition end ('' @ dec (unat (start + len))
                        @ '') past end of device ('' @ dec (unat (block_size blk)) @ '')'') s
         else snd (block_register (take 15 (block_name blk @ dec part_nr)) fname len
                     (Partition_operations b start) s))"

definition is_extended :: "byte \<Rightarrow> bool" where
  "is_extended t \<longleftrightarrow> t = 0x05 \<or> t = 0x0f \<or> t = 0x85 \<or> t = 0xc5"

text \<open>\<^verbatim>\<open>read_partition_table\<close> calls itself for extended partitions. The recursion need not end, so
  the first argument is fuel: the depth of the calls. \<open>buf\<close> is the uninitialised buffer that
  \<^verbatim>\<open>malloc\<close> returns. Whatever \<open>sector\<close> is, the code reads sector 0 of the device.\<close>

fun read_partition_table ::
    "nat \<Rightarrow> byte list \<Rightarrow> nat \<Rightarrow> u32 \<Rightarrow> u32 \<Rightarrow> nat \<Rightarrow> string \<Rightarrow> dstate \<Rightarrow> (nat \<times> dstate) option"
  and parse_partitions ::
    "nat \<Rightarrow> byte list \<Rightarrow> partition_table_entry list \<Rightarrow> nat \<Rightarrow> u32 \<Rightarrow> u32 \<Rightarrow> nat \<Rightarrow> string \<Rightarrow>
     dstate \<Rightarrow> (nat \<times> dstate) option" where
  "read_partition_table 0 buf b sector primary part_nr fname s = None"
| "read_partition_table (Suc n) buf b sector primary part_nr fname s =
     (let blk = blocks s ! b
      in if sector \<ge> block_size blk
         then Some (part_nr, printf (block_name blk @ '': Partition table at sector ''
                       @ dec (unat sector) @ '' past end of device.'') s)
         else do { (pt, s) \<leftarrow> block_read b 0 buf s;
                   if pt_signature pt \<noteq> 0xaa55
                   then Some (part_nr,
                          if primary = 0
                          then printf (block_name blk @ '': Invalid partition table signature'') s
                          else printf (block_name blk @ '': Invalid extended partition table in sector ''
                                 @ dec (unat sector)) s)
                   else parse_partitions n buf (pt_partitions pt) b sector primary part_nr fname s })"
| "parse_partitions n buf [] b sector primary part_nr fname s = Some (part_nr, s)"
| "parse_partitions n buf (e # es) b sector primary part_nr fname s =
     (if pe_size e = 0 \<or> pe_type e = 0
      then parse_partitions n buf es b sector primary part_nr fname s
      else if is_extended (pe_type e)
      then let s = printf (block_name (blocks s ! b) @ '': Extended partition in sector ''
                     @ dec (unat sector)) s
           in do { (part_nr, s) \<leftarrow>
                     (if sector = 0
                      then read_partition_table n buf b (pe_offset e) (pe_offset e) part_nr fname s
                      else read_partition_table n buf b (pe_offset e + primary) primary part_nr fname s);
                   parse_partitions n buf es b sector primary part_nr fname s }
      else parse_partitions n buf es b sector primary (Suc part_nr) fname
             (found_partition b (pe_offset e + sector) (pe_size e) (Suc part_nr) fname s))"

definition partition_scan :: "nat \<Rightarrow> byte list \<Rightarrow> nat \<Rightarrow> string \<Rightarrow> dstate \<Rightarrow> dstate option" where
  "partition_scan fuel buf b fname s =
     do { (part_nr, s) \<leftarrow> read_partition_table fuel buf b 0 0 0 fname s;
          Some (if part_nr = 0
                then printf (block_name (blocks s ! b) @ '': Device contains no partitions'') s
                else s) }"

text \<open>\<^verbatim>\<open>ide_init\<close> tests the descriptor against 1, where \<^verbatim>\<open>open\<close> reports failure as -1. The size
  of the disk comes from \<^verbatim>\<open>stat\<close>; without a file \<^verbatim>\<open>st\<close> stays uninitialised.\<close>

definition identify_ata_device ::
  "nat \<Rightarrow> byte list \<Rightarrow> string \<Rightarrow> byte list option \<Rightarrow> dstate \<Rightarrow> dstate option" where
  "identify_ata_device fuel buf fname img s =
     (case img of
        None \<Rightarrow> None
      | Some file \<Rightarrow>
          let capacity = of_nat (length file div BLOCK_SECTOR_SIZE);
              (b, s) = block_register ''hda'' fname capacity Ide_operations s
          in partition_scan fuel buf b fname s)"

definition ide_init ::
  "nat \<Rightarrow> byte list \<Rightarrow> string \<Rightarrow> int \<Rightarrow> byte list option \<Rightarrow> dstate \<Rightarrow> dstate option" where
  "ide_init fuel buf fname fd img s =
     (let s = s\<lparr>hd_fd := fd, hd_file := (case img of None \<Rightarrow> [] | Some file \<Rightarrow> file)\<rparr>;
          s = (if fd = 1 then PANIC ''ide_init'' s else s)
      in identify_ata_device fuel buf fname img s)"

subsection \<open>The interface of a sector device\<close>

text \<open>What a client of a device relies on: \<open>rd\<close> and \<open>wr\<close> work on sectors below \<open>nsec\<close>, a read
  returns what the sector holds, a write changes that sector and no other, neither reports an
  assertion (\<open>lg\<close> is the console) and both keep the invariant.\<close>

locale sector_device =
  fixes inv :: "'d \<Rightarrow> bool"
    and nsec :: "'d \<Rightarrow> nat"
    and view :: "'d \<Rightarrow> u32 \<Rightarrow> byte list"
    and lg :: "'d \<Rightarrow> console"
    and rd :: "u32 \<Rightarrow> byte list \<Rightarrow> 'd \<Rightarrow> (byte list \<times> 'd) option"
    and wr :: "u32 \<Rightarrow> byte list \<Rightarrow> 'd \<Rightarrow> 'd option"
  assumes rd_ok: "inv d \<Longrightarrow> unat k < nsec d \<Longrightarrow> length buf = 512 \<Longrightarrow>
      \<exists>d'. rd k buf d = Some (view d k, d') \<and> inv d' \<and> nsec d' = nsec d \<and> lg d' = lg d \<and>
        (\<forall>j. unat j < nsec d \<longrightarrow> view d' j = view d j)"
    and wr_ok: "inv d \<Longrightarrow> unat k < nsec d \<Longrightarrow> length buf = 512 \<Longrightarrow>
      \<exists>d'. wr k buf d = Some d' \<and> inv d' \<and> nsec d' = nsec d \<and> lg d' = lg d \<and>
        (\<forall>j. unat j < nsec d \<longrightarrow> view d' j = (if j = k then buf else view d j))"
    and view_length: "inv d \<Longrightarrow> unat k < nsec d \<Longrightarrow> length (view d k) = 512"
begin

text \<open>A write is read back, and writes to different sectors do not disturb each other.\<close>

lemma read_after_write:
  assumes "inv d" and "unat k < nsec d" and "unat j < nsec d"
    and "length buf = 512" and "length src = 512" and "wr k src d = Some d1"
  shows "\<exists>d2. rd j buf d1 = Some (if j = k then src else view d j, d2)"
proof -
  have "inv d1" "nsec d1 = nsec d" "view d1 j = (if j = k then src else view d j)"
    using wr_ok [of d k src] assms by auto
  then show ?thesis
    using rd_ok [of d1 j buf] assms(3,4) by auto
qed

end

subsection \<open>The registered devices satisfy it\<close>

definition geom :: "dstate \<Rightarrow> (u32 \<times> driver) list" where
  "geom s = map (\<lambda>blk. (block_size blk, block_ops blk)) (blocks s)"

definition wf_block :: "(u32 \<times> driver) list \<Rightarrow> nat \<Rightarrow> u32 \<times> driver \<Rightarrow> bool" where
  "wf_block g filelen blk = (case blk of
     (len, Ide_operations) \<Rightarrow> unat len * 512 \<le> filelen \<and> unat len * 512 < 2 ^ 32
   | (len, Partition_operations p start) \<Rightarrow>
       p < length g \<and> snd (g ! p) = Ide_operations \<and> unat start + unat len \<le> unat (fst (g ! p)))"

definition wf_dev :: "dstate \<Rightarrow> bool" where
  "wf_dev s \<longleftrightarrow> 0 \<le> hd_fd s \<and> (\<forall>blk \<in> set (geom s). wf_block (geom s) (length (hd_file s)) blk)"

definition dev_nsec :: "nat \<Rightarrow> dstate \<Rightarrow> nat" where
  "dev_nsec b s = (case geom s ! b of
     (len, Ide_operations) \<Rightarrow> unat len
   | (len, Partition_operations p start) \<Rightarrow> unat len - 1)"

definition dev_sector :: "nat \<Rightarrow> dstate \<Rightarrow> u32 \<Rightarrow> nat" where
  "dev_sector b s k = (case geom s ! b of
     (len, Ide_operations) \<Rightarrow> unat k
   | (len, Partition_operations p start) \<Rightarrow> unat start + unat k + 1)"

definition dev_view :: "nat \<Rightarrow> dstate \<Rightarrow> u32 \<Rightarrow> byte list" where
  "dev_view b s k = take 512 (drop (512 * dev_sector b s k) (hd_file s))"

definition dev_inv :: "nat \<Rightarrow> dstate \<Rightarrow> bool" where
  "dev_inv b s \<longleftrightarrow> wf_dev s \<and> b < length (blocks s)"

lemma length_geom [simp]: "length (geom s) = length (blocks s)"
  by (simp add: geom_def)

lemma geom_upd [simp]: "geom (s\<lparr>hd_file := f\<rparr>) = geom s" "geom (s\<lparr>console := c\<rparr>) = geom s"
  by (simp_all add: geom_def)

lemma nth_geom: "b < length (blocks s) \<Longrightarrow> geom s ! b = (block_size (blocks s ! b), block_ops (blocks s ! b))"
  by (simp add: geom_def)

lemma bump_frame [frame_simps]:
  "geom (bump_read b s) = geom s" "geom (bump_write b s) = geom s"
  "hd_file (bump_read b s) = hd_file s" "hd_file (bump_write b s) = hd_file s"
  "hd_fd (bump_read b s) = hd_fd s" "hd_fd (bump_write b s) = hd_fd s"
  "console (bump_read b s) = console s" "console (bump_write b s) = console s"
  by (cases "b < length (blocks s)";
      simp add: geom_def bump_read_def bump_write_def map_update list_update_same_conv
        list_update_beyond)+

lemma geom_length_blocks: "geom s' = geom s \<Longrightarrow> length (blocks s') = length (blocks s)"
  by (metis length_geom)

lemma ide_offset_eq: "unat k * 512 < 2 ^ 32 \<Longrightarrow> ide_offset k = 512 * unat k"
  by (simp add: ide_offset_def unat_word_ariths)

lemma ide_read_ok:
  assumes "0 \<le> hd_fd s" and "length buf = 512" and "unat k * 512 < 2 ^ 32"
    and "unat k * 512 + 512 \<le> length (hd_file s)"
  shows "ide_read k buf s = Some (take 512 (drop (512 * unat k) (hd_file s)), s)"
  using assms by (simp add: ide_read_def BLOCK_SECTOR_SIZE_def ide_offset_eq mult.commute)

lemma ide_write_ok:
  assumes "0 \<le> hd_fd s" and "length buf = 512" and "unat k * 512 < 2 ^ 32"
    and "unat k * 512 + 512 \<le> length (hd_file s)"
  shows "ide_write k buf s = Some (s\<lparr>hd_file := overwrite (512 * unat k) buf (hd_file s)\<rparr>)"
  using assms
  by (simp add: ide_write_def BLOCK_SECTOR_SIZE_def ide_offset_eq mult.commute overwrite_def Let_def)

text \<open>Where a checked sector of a well-formed device lies on the disk.\<close>

lemma wf_dev_nth:
  "dev_inv b s \<Longrightarrow> wf_block (geom s) (length (hd_file s)) (geom s ! b)"
  by (simp add: dev_inv_def wf_dev_def)

lemma dev_sector_in_file:
  assumes "dev_inv b s" and "unat k < dev_nsec b s"
  shows "512 * dev_sector b s k + 512 \<le> length (hd_file s)"
proof -
  obtain len drv where g: "geom s ! b = (len, drv)" by (cases "geom s ! b")
  show ?thesis
  proof (cases drv)
    case Ide_operations
    then show ?thesis
      using wf_dev_nth [OF assms(1)] assms(2) g
      by (simp add: wf_block_def dev_nsec_def dev_sector_def)
  next
    case (Partition_operations p start)
    then have p: "p < length (blocks s)" "snd (geom s ! p) = Ide_operations"
      "unat start + unat len \<le> unat (fst (geom s ! p))"
      using wf_dev_nth [OF assms(1)] g by (auto simp: wf_block_def)
    then have "unat (fst (geom s ! p)) * 512 \<le> length (hd_file s)"
      using wf_dev_nth [of p s] assms(1) p(1)
      by (auto simp: wf_block_def dev_inv_def split: prod.splits driver.splits)
    then show ?thesis
      using p(3) assms(2) g Partition_operations by (simp add: dev_nsec_def dev_sector_def)
  qed
qed

lemma read_ide_device:
  assumes "dev_inv b s" and "block_ops (blocks s ! b) = Ide_operations"
    and "unat k < unat (block_size (blocks s ! b))" and "length buf = 512"
  shows "block_read_n (Suc n) b k buf s =
    Some (take 512 (drop (512 * unat k) (hd_file s)), bump_read b s)"
proof -
  have b: "b < length (blocks s)" "0 \<le> hd_fd s" using assms(1) by (auto simp: dev_inv_def wf_dev_def)
  have "unat (block_size (blocks s ! b)) * 512 \<le> length (hd_file s)"
    "unat (block_size (blocks s ! b)) * 512 < 2 ^ 32"
    using wf_dev_nth [OF assms(1)] b assms(2) by (auto simp: nth_geom wf_block_def)
  then have "ide_read k buf s = Some (take 512 (drop (512 * unat k) (hd_file s)), s)"
    using assms(3,4) b by (intro ide_read_ok) auto
  moreover have "check_sector (blocks s ! b) k s = s"
    using assms(3) by (simp add: check_sector_def word_le_nat_alt)
  ultimately show ?thesis
    using b assms(2) by simp
qed

lemma write_ide_device:
  assumes "dev_inv b s" and "block_ops (blocks s ! b) = Ide_operations"
    and "unat k < unat (block_size (blocks s ! b))" and "length buf = 512"
  shows "block_write_n (Suc n) b k buf s =
    Some (bump_write b (s\<lparr>hd_file := overwrite (512 * unat k) buf (hd_file s)\<rparr>))"
proof -
  have b: "b < length (blocks s)" "0 \<le> hd_fd s" using assms(1) by (auto simp: dev_inv_def wf_dev_def)
  have "unat (block_size (blocks s ! b)) * 512 \<le> length (hd_file s)"
    "unat (block_size (blocks s ! b)) * 512 < 2 ^ 32"
    using wf_dev_nth [OF assms(1)] b assms(2) by (auto simp: nth_geom wf_block_def)
  then have "ide_write k buf s = Some (s\<lparr>hd_file := overwrite (512 * unat k) buf (hd_file s)\<rparr>)"
    using assms(3,4) b by (intro ide_write_ok) auto
  moreover have "check_sector (blocks s ! b) k s = s"
    using assms(3) by (simp add: check_sector_def word_le_nat_alt)
  ultimately show ?thesis
    using b assms(2) by simp
qed

text \<open>A partition's sector, seen from its disk.\<close>

lemma partition_parent:
  assumes "dev_inv b s" and "block_ops (blocks s ! b) = Partition_operations p start"
    and "unat k < dev_nsec b s"
  shows "dev_inv p s" "p \<noteq> b" "block_ops (blocks s ! p) = Ide_operations"
    "unat (start + k + 1) = dev_sector b s k" "dev_sector b s k < unat (block_size (blocks s ! p))"
    "check_sector (blocks s ! b) k s = s"
proof -
  have b: "b < length (blocks s)" using assms(1) by (simp add: dev_inv_def)
  have p: "p < length (blocks s)" "block_ops (blocks s ! p) = Ide_operations"
    "unat start + unat (block_size (blocks s ! b)) \<le> unat (block_size (blocks s ! p))"
    using wf_dev_nth [OF assms(1)] b assms(2) by (auto simp: nth_geom wf_block_def)
  have k: "unat k + 1 < unat (block_size (blocks s ! b))"
    using assms(2,3) b by (simp add: dev_nsec_def nth_geom)
  have "unat start + unat k + 1 < 2 ^ 32"
    using p(3) k u32_less [of "block_size (blocks s ! p)"] by simp
  then have "unat (start + k + 1) = unat start + unat k + 1"
    by (simp add: unat_word_ariths)
  then show "unat (start + k + 1) = dev_sector b s k"
    using assms(2) b by (simp add: dev_sector_def nth_geom)
  show "dev_sector b s k < unat (block_size (blocks s ! p))"
    using assms(2) b p(3) k by (simp add: dev_sector_def nth_geom)
  show "dev_inv p s" using assms(1) p(1) by (simp add: dev_inv_def)
  show "p \<noteq> b" using p(2) assms(2) by auto
  show "block_ops (blocks s ! p) = Ide_operations" by (rule p(2))
  show "check_sector (blocks s ! b) k s = s"
    using k by (simp add: check_sector_def word_le_nat_alt)
qed

lemma two_devices: "p < n \<Longrightarrow> b < n \<Longrightarrow> p \<noteq> b \<Longrightarrow> \<exists>m. n = Suc (Suc m)"
  by (cases n; cases "n - 1") auto

definition same_but_file :: "dstate \<Rightarrow> dstate \<Rightarrow> bool" where
  "same_but_file s s' \<longleftrightarrow> geom s' = geom s \<and> hd_fd s' = hd_fd s \<and> console s' = console s"

lemma block_read_ok:
  assumes "dev_inv b s" and "unat k < dev_nsec b s" and "length buf = 512"
  shows "\<exists>s'. block_read b k buf s = Some (dev_view b s k, s') \<and> same_but_file s s' \<and>
    hd_file s' = hd_file s"
proof -
  have b: "b < length (blocks s)" using assms(1) by (simp add: dev_inv_def)
  then obtain m where m: "length (blocks s) = Suc m" by (cases "length (blocks s)") auto
  show ?thesis
  proof (cases "block_ops (blocks s ! b)")
    case Ide_operations
    then show ?thesis
      using read_ide_device [OF assms(1) _ _ assms(3), of k m] assms(2) b m
      by (simp add: block_read_def dev_view_def dev_sector_def dev_nsec_def nth_geom
          same_but_file_def frame_simps)
  next
    case (Partition_operations p start)
    note pp = partition_parent [OF assms(1) Partition_operations assms(2)]
    then obtain n where n: "length (blocks s) = Suc (Suc n)"
      using two_devices [of p "length (blocks s)" b] b by (auto simp: dev_inv_def)
    have "block_read_n (Suc n) p (start + k + 1) buf s =
        Some (take 512 (drop (512 * dev_sector b s k) (hd_file s)), bump_read p s)"
      using read_ide_device [OF pp(1,3) _ assms(3), of "start + k + 1" n] pp(4,5) by simp
    then show ?thesis
      using n b pp(6) Partition_operations
      by (simp add: block_read_def dev_view_def same_but_file_def frame_simps)
  qed
qed

lemma block_write_ok:
  assumes "dev_inv b s" and "unat k < dev_nsec b s" and "length buf = 512"
  shows "\<exists>s'. block_write b k buf s = Some s' \<and> same_but_file s s' \<and>
    hd_file s' = overwrite (512 * dev_sector b s k) buf (hd_file s)"
proof -
  have b: "b < length (blocks s)" using assms(1) by (simp add: dev_inv_def)
  then obtain m where m: "length (blocks s) = Suc m" by (cases "length (blocks s)") auto
  show ?thesis
  proof (cases "block_ops (blocks s ! b)")
    case Ide_operations
    then show ?thesis
      using write_ide_device [OF assms(1) _ _ assms(3), of k m] assms(2) b m
      by (simp add: block_write_def dev_sector_def dev_nsec_def nth_geom same_but_file_def
          frame_simps)
  next
    case (Partition_operations p start)
    note pp = partition_parent [OF assms(1) Partition_operations assms(2)]
    then obtain n where n: "length (blocks s) = Suc (Suc n)"
      using two_devices [of p "length (blocks s)" b] b by (auto simp: dev_inv_def)
    have "block_write_n (Suc n) p (start + k + 1) buf s =
        Some (bump_write p (s\<lparr>hd_file := overwrite (512 * dev_sector b s k) buf (hd_file s)\<rparr>))"
      using write_ide_device [OF pp(1,3) _ assms(3), of "start + k + 1" n] pp(4,5) by simp
    then show ?thesis
      using n b pp(6) Partition_operations
      by (simp add: block_write_def same_but_file_def frame_simps)
  qed
qed

lemma dev_sector_inj:
  "dev_sector b s k = dev_sector b s j \<Longrightarrow> k = j"
  by (simp add: dev_sector_def word_unat_eq_iff split: prod.splits driver.splits)

lemma take_drop_overwrite_sector:
  assumes "length buf = 512" and "512 * i + 512 \<le> length file" and "512 * j + 512 \<le> length file"
  shows "take 512 (drop (512 * j) (overwrite (512 * i) buf file)) =
    (if j = i then buf else take 512 (drop (512 * j) file))"
proof (rule list_eq_nthI)
  show "length (take 512 (drop (512 * j) (overwrite (512 * i) buf file))) =
    length (if j = i then buf else take 512 (drop (512 * j) file))"
    using assms by simp
next
  fix n assume "n < length (take 512 (drop (512 * j) (overwrite (512 * i) buf file)))"
  then have n: "n < 512" by simp
  have "512 * j + n < 512 * i \<or> 512 * i + 512 \<le> 512 * j + n" if "j \<noteq> i"
  proof (cases "j < i")
    case True
    then have "j + 1 \<le> i" by simp
    then show ?thesis using n by linarith
  next
    case False
    with that have "i + 1 \<le> j" by simp
    then show ?thesis using n by linarith
  qed
  then show "take 512 (drop (512 * j) (overwrite (512 * i) buf file)) ! n =
      (if j = i then buf else take 512 (drop (512 * j) file)) ! n"
    using assms n by (auto simp: nth_overwrite)
qed

interpretation disk: sector_device "dev_inv b" "dev_nsec b" "dev_view b" console
  "block_read b" "block_write b" for b
proof
  fix d :: dstate and k :: u32 and buf :: "byte list"
  assume h: "dev_inv b d" "unat k < dev_nsec b d" "length buf = 512"
  obtain d' where d': "block_read b k buf d = Some (dev_view b d k, d')" "same_but_file d d'"
    "hd_file d' = hd_file d"
    using block_read_ok [OF h] by blast
  then have "dev_inv b d'" "dev_nsec b d' = dev_nsec b d" "dev_view b d' j = dev_view b d j" for j
    using h(1) geom_length_blocks [of d' d]
    by (simp_all add: dev_inv_def wf_dev_def same_but_file_def dev_nsec_def dev_view_def dev_sector_def)
  then show "\<exists>d'. block_read b k buf d = Some (dev_view b d k, d') \<and> dev_inv b d' \<and>
      dev_nsec b d' = dev_nsec b d \<and> console d' = console d \<and>
      (\<forall>j. unat j < dev_nsec b d \<longrightarrow> dev_view b d' j = dev_view b d j)"
    using d' by (auto simp: same_but_file_def)
next
  fix d :: dstate and k :: u32 and buf :: "byte list"
  assume h: "dev_inv b d" "unat k < dev_nsec b d" "length buf = 512"
  obtain d' where d': "block_write b k buf d = Some d'" "same_but_file d d'"
    "hd_file d' = overwrite (512 * dev_sector b d k) buf (hd_file d)"
    using block_write_ok [OF h] by blast
  have fits: "512 * dev_sector b d j + 512 \<le> length (hd_file d)" if "unat j < dev_nsec b d" for j
    using dev_sector_in_file [OF h(1) that] .
  have sec: "dev_sector b d' j = dev_sector b d j" for j
    using d'(2) by (simp add: dev_sector_def same_but_file_def)
  have "length (hd_file d') = length (hd_file d)"
    using d'(3) fits [OF h(2)] h(3) by simp
  then have inv: "dev_inv b d'" "dev_nsec b d' = dev_nsec b d"
    using h(1) d'(2) geom_length_blocks [of d' d]
    by (simp_all add: dev_inv_def wf_dev_def same_but_file_def dev_nsec_def)
  have "dev_view b d' j = (if j = k then buf else dev_view b d j)" if "unat j < dev_nsec b d" for j
    using take_drop_overwrite_sector [OF h(3) fits [OF h(2)] fits [OF that]] d'(3) sec
      dev_sector_inj [of b d j k]
    by (auto simp: dev_view_def)
  then show "\<exists>d'. block_write b k buf d = Some d' \<and> dev_inv b d' \<and>
      dev_nsec b d' = dev_nsec b d \<and> console d' = console d \<and>
      (\<forall>j. unat j < dev_nsec b d \<longrightarrow> dev_view b d' j = (if j = k then buf else dev_view b d j))"
    using d' inv by (auto simp: same_but_file_def)
next
  fix d :: dstate and k :: u32
  assume "dev_inv b d" "unat k < dev_nsec b d"
  then show "length (dev_view b d k) = 512"
    using dev_sector_in_file [of b d k] by (simp add: dev_view_def)
qed

subsection \<open>Properties\<close>

text \<open>A disk of four sectors whose only partition is its last three, for the witnesses.\<close>

definition sample_disk :: "byte list \<Rightarrow> dstate" where
  "sample_disk sec0 = \<lparr>console = [], hd_fd = 3, hd_file = sec0 @ replicate 1536 0,
     blocks = [\<lparr>block_name = ''hda'', block_fname = ''img'', block_size = 4,
                block_ops = Ide_operations, read_cnt = 0, write_cnt = 0\<rparr>,
               \<lparr>block_name = ''hda1'', block_fname = ''img'', block_size = 3,
                block_ops = Partition_operations 0 1, read_cnt = 0, write_cnt = 0\<rparr>],
     hard_drive = Some 1\<rparr>"

lemma sample_disk_inv:
  assumes "length sec0 = 512"
  shows "dev_inv 0 (sample_disk sec0)" "dev_inv (Suc 0) (sample_disk sec0)"
    "dev_nsec 0 (sample_disk sec0) = 4" "dev_nsec (Suc 0) (sample_disk sec0) = 2"
  using assms
  by (simp_all add: sample_disk_def dev_inv_def wf_dev_def geom_def wf_block_def dev_nsec_def)

text \<open>C20: On a registered device, a sector that was written is read back unchanged, every other sector
  of the device reads as before, and no assertion fails.\<close>

theorem block_read_after_write:
  assumes "dev_inv b s" and "unat k < dev_nsec b s" and "unat j < dev_nsec b s"
    and "length buf = 512" and "length src = 512"
  shows "\<exists>s1 s2. block_write b k src s = Some s1 \<and> console s1 = console s \<and>
    block_read b j buf s1 = Some (if j = k then src else dev_view b s j, s2) \<and> console s2 = console s"
proof -
  obtain s1 where s1: "block_write b k src s = Some s1" "dev_inv b s1" "dev_nsec b s1 = dev_nsec b s"
    "console s1 = console s" "dev_view b s1 j = (if j = k then src else dev_view b s j)"
    using disk.wr_ok [OF assms(1,2,5)] assms(3) by auto
  then show ?thesis
    using disk.rd_ok [of b s1 j buf] assms(3,4) by auto
qed

theorem block_read_after_write_witness:
  "\<exists>s1 s2. block_write 1 0 (replicate 512 7) (sample_disk (replicate 512 0)) = Some s1 \<and>
     block_read 1 0 (replicate 512 0) s1 = Some (replicate 512 7, s2)"
  using block_read_after_write [of 1 "sample_disk (replicate 512 0)" 0 0 "replicate 512 0" "replicate 512 7"]
  by (auto simp: sample_disk_inv)

lemma word_pred_less: "0 < x \<Longrightarrow> x - 1 < (x :: u32)"
  by (metis diff_0_right less_imp_le measure_unat not_less_iff_gr_or_eq unat_0 word_less_nat_alt
      word_not_simps(1))

text \<open>C34: The partition layer adds one to every sector number, so the last sector of a partition
  that ends with its disk is outside the disk: reading it passes the partition's own check and fails
  the check of the disk.\<close>

theorem partition_last_sector_off_disk:
  assumes "dev_inv b s" and "block_ops (blocks s ! b) = Partition_operations p start"
    and "unat start + unat (block_size (blocks s ! b)) = unat (block_size (blocks s ! p))"
    and "0 < block_size (blocks s ! b)" and "length buf = 512"
  shows "\<exists>bs s'. block_read b (block_size (blocks s ! b) - 1) buf s = Some (bs, s') \<and>
    console s' = console s @ [Panic ''check_sector'']"
proof -
  let ?len = "block_size (blocks s ! b)" and ?disk = "block_size (blocks s ! p)"
  have b: "b < length (blocks s)" and fd: "0 \<le> hd_fd s"
    using assms(1) by (auto simp: dev_inv_def wf_dev_def)
  have p: "p < length (blocks s)" "block_ops (blocks s ! p) = Ide_operations"
    using wf_dev_nth [OF assms(1)] b assms(2) by (auto simp: nth_geom wf_block_def)
  have "p \<noteq> b" using p(2) assms(2) by auto
  then obtain n where n: "length (blocks s) = Suc (Suc n)"
    using two_devices [of p "length (blocks s)" b] b p(1) by auto
  have last: "?len - 1 < ?len" using assms(4) by (intro word_pred_less)
  have sum: "start + ?len = ?disk" using word_arith_nat_add [of start ?len] assms(3) by simp
  obtain bs where "ide_read ?disk buf (PANIC ''check_sector'' s) = Some (bs, PANIC ''check_sector'' s)"
    using assms(5) fd by (auto simp: ide_read_def BLOCK_SECTOR_SIZE_def Let_def)
  then have "block_read_n (Suc n) p ?disk buf s = Some (bs, bump_read p (PANIC ''check_sector'' s))"
    using p by (simp add: check_sector_def)
  moreover have "check_sector (blocks s ! b) (?len - 1) s = s"
    using last by (simp add: check_sector_def not_le)
  ultimately have "block_read b (?len - 1) buf s =
      Some (bs, bump_read b (bump_read p (PANIC ''check_sector'' s)))"
    using b assms(2) unfolding block_read_def n
    by (subst block_read_n.simps(2)) (simp add: sum n Let_def del: block_read_n.simps)
  then show ?thesis
    by (simp add: frame_simps debug_panic_def)
qed

theorem partition_last_sector_off_disk_witness:
  "\<exists>bs s'. block_read 1 2 (replicate 512 0) (sample_disk (replicate 512 0)) = Some (bs, s') \<and>
     console s' = [Panic ''check_sector'']"
proof -
  let ?s = "sample_disk (replicate 512 0)"
  have inv: "dev_inv (Suc 0) ?s" by (simp add: sample_disk_inv)
  have f: "block_ops (blocks ?s ! Suc 0) = Partition_operations 0 1" "block_size (blocks ?s ! Suc 0) = 3"
    "block_size (blocks ?s ! 0) = 4" "console ?s = []"
    by (simp_all add: sample_disk_def)
  show ?thesis
    using partition_last_sector_off_disk [OF inv f(1), of "replicate 512 0"] by (simp add: f)
qed

text \<open>The scan of an extended partition. Every call reads sector 0 again, so every call finds the
  same extended entry.\<close>

lemma scan_extended_stuck:
  assumes "dev_inv b s" and "0 < dev_nsec b s" and "length buf = 512"
    and "pt_signature (dev_view b s 0) = 0xaa55" and "pt_partitions (dev_view b s 0) = e # es"
    and "pe_size e \<noteq> 0" and "is_extended (pe_type e)"
    and "sector < fst (geom s ! b)" and "pe_offset e < fst (geom s ! b)"
    and "pe_offset e + pe_offset e < fst (geom s ! b)" and "sector \<noteq> 0 \<longrightarrow> primary = pe_offset e"
  shows "read_partition_table n buf b sector primary part_nr fname s = None"
  using assms
proof (induction n arbitrary: sector primary part_nr s)
  case 0
  then show ?case by simp
next
  case (Suc n)
  have b: "b < length (blocks s)" using Suc.prems(1) by (simp add: dev_inv_def)
  obtain s1 where s1: "block_read b 0 buf s = Some (dev_view b s 0, s1)" "same_but_file s s1"
    "hd_file s1 = hd_file s"
    using block_read_ok [OF Suc.prems(1), of 0 buf] Suc.prems(2,3) by auto
  let ?t = "printf (block_name (blocks s1 ! b) @ '': Extended partition in sector '' @ dec (unat sector)) s1"
  have g: "geom ?t = geom s" "hd_file ?t = hd_file s" "hd_fd ?t = hd_fd s"
    using s1 by (simp_all add: same_but_file_def)
  then have same: "dev_view b ?t 0 = dev_view b s 0" "dev_nsec b ?t = dev_nsec b s" "dev_inv b ?t"
    using Suc.prems(1) geom_length_blocks [OF g(1)]
    by (simp_all only: dev_view_def dev_sector_def dev_nsec_def dev_inv_def wf_dev_def) simp_all
  let ?o = "pe_offset e"
  have rec: "read_partition_table n buf b sec prim part_nr fname ?t = None"
    if "sec < fst (geom s ! b)" "sec \<noteq> 0 \<longrightarrow> prim = ?o" for sec prim
    using Suc.prems(2-10) that same g(1) by (intro Suc.IH) simp_all
  have "pe_type e \<noteq> 0" using Suc.prems(7) by (auto simp: is_extended_def)
  moreover have "read_partition_table n buf b ?o ?o part_nr fname ?t = None"
    using Suc.prems(9) by (intro rec) simp_all
  moreover have "read_partition_table n buf b (?o + primary) primary part_nr fname ?t = None"
    if "sector \<noteq> 0"
    using Suc.prems(10,11) that by (intro rec) simp_all
  moreover have "\<not> block_size (blocks s ! b) \<le> sector"
    using Suc.prems(8) b by (simp add: nth_geom)
  ultimately show ?case
    using s1(1) Suc.prems(4-7) by (cases "sector = 0") (simp_all add: Let_def)
qed

text \<open>C33: \<^verbatim>\<open>read_partition_table\<close> reads sector 0 whatever sector it is asked for. So on a disk with a valid partition
  table whose first entry is an extended partition that is not empty, with twice its offset inside the disk (sector
  numbers are added to the offset at the second level), the scan of \<^verbatim>\<open>partition_scan\<close> never returns: no depth of
  recursion is enough.\<close>

theorem partition_scan_extended_diverges:
  assumes "dev_inv b s" and "0 < dev_nsec b s" and "length buf = 512"
    and "pt_signature (dev_view b s 0) = 0xaa55" and "pt_partitions (dev_view b s 0) = e # es"
    and "pe_size e \<noteq> 0" and "is_extended (pe_type e)"
    and "pe_offset e < block_size (blocks s ! b)"
    and "pe_offset e + pe_offset e < block_size (blocks s ! b)"
  shows "\<forall>fuel. partition_scan fuel buf b fname s = None"
proof -
  have b: "b < length (blocks s)" using assms(1) by (simp add: dev_inv_def)
  have "0 < block_size (blocks s ! b)" using assms(8) by (simp add: word_neq_0_conv [symmetric] word_less_nat_alt)
  then have "read_partition_table n buf b 0 0 0 fname s = None" for n
    using assms b by (intro scan_extended_stuck) (simp_all add: nth_geom)
  then show ?thesis by (simp add: partition_scan_def)
qed

definition sample_extended :: "byte list" where
  "sample_extended = replicate 446 0 @ ([0, 0, 0, 0, 5, 0, 0, 0] @ le_encode 4 1 @ le_encode 4 2)
     @ replicate 48 0 @ le_encode 2 0xaa55"

theorem partition_scan_extended_diverges_witness:
  "\<forall>fuel. partition_scan fuel (replicate 512 0) 0 ''img'' (sample_disk sample_extended) = None"
proof -
  let ?s = "sample_disk sample_extended"
  let ?e = "\<lparr>pe_bootable = 0, pe_type = 5, pe_offset = 1, pe_size = 2\<rparr>"
  have len: "length sample_extended = 512" by (simp add: sample_extended_def)
  have view: "dev_view 0 ?s 0 = sample_extended"
    using len by (simp add: dev_view_def dev_sector_def geom_def sample_disk_def)
  have sig: "pt_signature sample_extended = 0xaa55"
    by (simp add: pt_signature_def sample_extended_def le_decode_encode)
  have "take 16 (drop 446 sample_extended) = [0, 0, 0, 0, 5, 0, 0, 0] @ le_encode 4 1 @ le_encode 4 2"
    by (simp add: sample_extended_def)
  moreover have "parse_entry ([0, 0, 0, 0, 5, 0, 0, 0] @ le_encode 4 1 @ le_encode 4 2) = ?e"
    by code_simp
  ultimately obtain es where pt: "pt_partitions sample_extended = ?e # es"
    using chunks.simps(2) [of 16 3 "drop 446 sample_extended"] by (simp add: pt_partitions_def)
  have "block_size (blocks ?s ! 0) = 4" by (simp add: sample_disk_def)
  then show ?thesis
    using len sig pt by (intro partition_scan_extended_diverges [where e = ?e and es = es])
      (simp_all add: sample_disk_inv view is_extended_def)
qed

end
