(* ===== verification/Cache.thy ===== *)
theory Cache
  imports Block
begin

text \<open>
  The buffer cache of \<^verbatim>\<open>a3/fs/cache.c\<close>: 64 entries, write-back, clock replacement.

  The cache works on any device: its operations take the device's read and write operations
  and the report of a failed assertion as arguments (\<open>rd\<close>, \<open>wr\<close>, \<open>pnc\<close>). The lemmas are proved once,
  for every device that satisfies the locale \<open>sector_device\<close>; the file system uses the
  cache on the registered device \<^verbatim>\<open>fs_device\<close>. The state of the cache (the array and the static
  \<^verbatim>\<open>clock\<close>) and the state of the device are passed and returned explicitly.
\<close>

definition BUFFER_CACHE_SIZE :: nat where
  "BUFFER_CACHE_SIZE = 64"

record cache_entry =
  occupied :: bool
  disk_sector :: u32
  buffer :: "byte list"
  dirty :: bool
  access :: bool

record cache =
  entries :: "cache_entry list"
  clock :: nat

type_synonym 'd reader = "u32 \<Rightarrow> byte list \<Rightarrow> 'd \<Rightarrow> (byte list \<times> 'd) option"
type_synonym 'd writer = "u32 \<Rightarrow> byte list \<Rightarrow> 'd \<Rightarrow> 'd option"
type_synonym 'd panicker = "string \<Rightarrow> 'd \<Rightarrow> 'd"

abbreviation upd_entry :: "nat \<Rightarrow> cache_entry \<Rightarrow> cache \<Rightarrow> cache" where
  "upd_entry i e c \<equiv> c\<lparr>entries := (entries c)[i := e]\<rparr>"

subsection \<open>Operations\<close>

text \<open>The static array starts zeroed; \<^verbatim>\<open>buffer_cache_init\<close> marks every entry free and clean.\<close>

definition cache_zero :: cache where
  "cache_zero = \<lparr>entries = replicate BUFFER_CACHE_SIZE
       \<lparr>occupied = False, disk_sector = 0, buffer = replicate 512 0, dirty = False, access = False\<rparr>,
     clock = 0\<rparr>"

definition buffer_cache_init :: "cache \<Rightarrow> cache" where
  "buffer_cache_init c = c\<lparr>entries := map (\<lambda>e. e\<lparr>occupied := False, dirty := False\<rparr>) (entries c)\<rparr>"

definition buffer_cache_flush ::
  "'d writer \<Rightarrow> 'd panicker \<Rightarrow> nat \<Rightarrow> cache \<Rightarrow> 'd \<Rightarrow> (cache \<times> 'd) option" where
  "buffer_cache_flush wr pnc i c d =
     (if i < length (entries c)
      then let e = entries c ! i;
               d = (if occupied e then d else pnc ''buffer_cache_flush'' d)
           in if dirty e
              then do { d \<leftarrow> wr (disk_sector e) (buffer e) d;
                        Some (upd_entry i (e\<lparr>dirty := False\<rparr>) c, d) }
              else Some (c, d)
      else None)"

fun close_loop ::
  "'d writer \<Rightarrow> 'd panicker \<Rightarrow> nat \<Rightarrow> nat \<Rightarrow> cache \<Rightarrow> 'd \<Rightarrow> (cache \<times> 'd) option" where
  "close_loop wr pnc i 0 c d = Some (c, d)"
| "close_loop wr pnc i (Suc n) c d =
     (if i < length (entries c)
      then if \<not> occupied (entries c ! i)
           then close_loop wr pnc (Suc i) n c d
           else do { (c, d) \<leftarrow> buffer_cache_flush wr pnc i c d;
                     close_loop wr pnc (Suc i) n c d }
      else None)"

definition buffer_cache_close ::
  "'d writer \<Rightarrow> 'd panicker \<Rightarrow> cache \<Rightarrow> 'd \<Rightarrow> (cache \<times> 'd) option" where
  "buffer_cache_close wr pnc c d = close_loop wr pnc 0 BUFFER_CACHE_SIZE c d"

fun lookup_from :: "nat \<Rightarrow> cache_entry list \<Rightarrow> u32 \<Rightarrow> nat option" where
  "lookup_from i [] sector = None"
| "lookup_from i (e # es) sector =
     (if \<not> occupied e then lookup_from (Suc i) es sector
      else if disk_sector e = sector then Some i
      else lookup_from (Suc i) es sector)"

definition buffer_cache_lookup :: "cache \<Rightarrow> u32 \<Rightarrow> nat option" where
  "buffer_cache_lookup c sector = lookup_from 0 (entries c) sector"

lemma clear_access_decreases:
  "i < length es \<Longrightarrow> access (es ! i) \<Longrightarrow>
    length (filter access (es[i := (es ! i)\<lparr>access := False\<rparr>])) < length (filter access es)"
proof (induction es arbitrary: i)
  case Nil
  then show ?case by simp
next
  case (Cons e es)
  then show ?case by (cases i) auto
qed

text \<open>The clock loop ends because every iteration that goes on clears a reference bit. It
  stops at a free entry (\<open>True\<close>) or at a victim (\<open>False\<close>).\<close>

function evict_loop :: "cache_entry list \<Rightarrow> nat \<Rightarrow> (bool \<times> cache_entry list \<times> nat) option" where
  "evict_loop es clk =
     (if clk < length es
      then if \<not> occupied (es ! clk) then Some (True, es, clk)
           else if access (es ! clk)
           then evict_loop (es[clk := (es ! clk)\<lparr>access := False\<rparr>]) ((clk + 1) mod BUFFER_CACHE_SIZE)
           else Some (False, es, clk)
      else None)"
  by pat_completeness auto

termination
  by (relation "measure (\<lambda>(es, clk). length (filter access es))") (auto simp: clear_access_decreases)

declare evict_loop.simps [simp del]

definition buffer_cache_evict ::
  "'d writer \<Rightarrow> 'd panicker \<Rightarrow> cache \<Rightarrow> 'd \<Rightarrow> (nat \<times> cache \<times> 'd) option" where
  "buffer_cache_evict wr pnc c d =
     do { (free, es, clk) \<leftarrow> evict_loop (entries c) (clock c);
          let c = c\<lparr>entries := es, clock := clk\<rparr>;
          if free then Some (clk, c, d)
          else do { (c, d) \<leftarrow> (if dirty (entries c ! clk) then buffer_cache_flush wr pnc clk c d
                              else Some (c, d));
                    Some (clk, upd_entry clk ((entries c ! clk)\<lparr>occupied := False\<rparr>) c, d) } }"

text \<open>The common first half of \<^verbatim>\<open>buffer_cache_read\<close> and \<^verbatim>\<open>buffer_cache_write\<close>: the entry of the
  sector, filled from the device on a miss.\<close>

definition cache_slot ::
  "'d reader \<Rightarrow> 'd writer \<Rightarrow> 'd panicker \<Rightarrow> u32 \<Rightarrow> cache \<Rightarrow> 'd \<Rightarrow> (nat \<times> cache \<times> 'd) option" where
  "cache_slot rd wr pnc sector c d =
     (case buffer_cache_lookup c sector of
        Some i \<Rightarrow> Some (i, c, d)
      | None \<Rightarrow>
          do { (i, c, d) \<leftarrow> buffer_cache_evict wr pnc c d;
               let d = (if \<not> occupied (entries c ! i) then d else pnc ''buffer_cache'' d);
               let e = (entries c ! i)\<lparr>occupied := True, disk_sector := sector, dirty := False\<rparr>;
               (buf, d) \<leftarrow> rd sector (buffer e) d;
               Some (i, upd_entry i (e\<lparr>buffer := buf\<rparr>) c, d) })"

definition buffer_cache_read ::
  "'d reader \<Rightarrow> 'd writer \<Rightarrow> 'd panicker \<Rightarrow> u32 \<Rightarrow> cache \<Rightarrow> 'd \<Rightarrow> (byte list \<times> cache \<times> 'd) option" where
  "buffer_cache_read rd wr pnc sector c d =
     do { (i, c, d) \<leftarrow> cache_slot rd wr pnc sector c d;
          let e = (entries c ! i)\<lparr>access := True\<rparr>;
          Some (buffer e, upd_entry i e c, d) }"

definition buffer_cache_write ::
  "'d reader \<Rightarrow> 'd writer \<Rightarrow> 'd panicker \<Rightarrow> u32 \<Rightarrow> byte list \<Rightarrow> cache \<Rightarrow> 'd \<Rightarrow> (cache \<times> 'd) option" where
  "buffer_cache_write rd wr pnc sector src c d =
     do { (i, c, d) \<leftarrow> cache_slot rd wr pnc sector c d;
          if length src < BLOCK_SECTOR_SIZE then None
          else Some (upd_entry i ((entries c ! i)\<lparr>access := True, dirty := True,
                                     buffer := take BLOCK_SECTOR_SIZE src\<rparr>) c, d) }"

subsection \<open>What the cache presents\<close>

definition entry_ok :: "('d \<Rightarrow> nat) \<Rightarrow> ('d \<Rightarrow> u32 \<Rightarrow> byte list) \<Rightarrow> 'd \<Rightarrow> cache_entry \<Rightarrow> bool" where
  "entry_ok nsec view d e \<longleftrightarrow> length (buffer e) = 512 \<and>
     (occupied e \<longrightarrow> unat (disk_sector e) < nsec d \<and> (\<not> dirty e \<longrightarrow> buffer e = view d (disk_sector e)))"

definition no_alias :: "cache_entry list \<Rightarrow> bool" where
  "no_alias es \<longleftrightarrow> (\<forall>i < length es. \<forall>j < length es.
     occupied (es ! i) \<and> occupied (es ! j) \<and> disk_sector (es ! i) = disk_sector (es ! j) \<longrightarrow> i = j)"

definition cache_inv ::
  "('d \<Rightarrow> bool) \<Rightarrow> ('d \<Rightarrow> nat) \<Rightarrow> ('d \<Rightarrow> u32 \<Rightarrow> byte list) \<Rightarrow> cache \<Rightarrow> 'd \<Rightarrow> bool" where
  "cache_inv ok nsec view c d \<longleftrightarrow> ok d \<and> length (entries c) = BUFFER_CACHE_SIZE \<and>
     clock c < BUFFER_CACHE_SIZE \<and> (\<forall>e \<in> set (entries c). entry_ok nsec view d e) \<and>
     no_alias (entries c)"

text \<open>The contents of a sector as a client of the cache sees them.\<close>

definition cache_view :: "('d \<Rightarrow> u32 \<Rightarrow> byte list) \<Rightarrow> cache \<Rightarrow> 'd \<Rightarrow> u32 \<Rightarrow> byte list" where
  "cache_view view c d k = (case buffer_cache_lookup c k of
     Some i \<Rightarrow> buffer (entries c ! i) | None \<Rightarrow> view d k)"

lemma lookup_from_Some:
  "lookup_from n es k = Some i \<Longrightarrow>
     n \<le> i \<and> i < n + length es \<and> occupied (es ! (i - n)) \<and> disk_sector (es ! (i - n)) = k"
proof (induction n es k rule: lookup_from.induct)
  case (2 n e es k)
  then show ?case
    by (cases "occupied e \<and> disk_sector e = k") (auto simp: nth_Cons' split: if_splits)
qed simp

lemma lookup_from_None:
  "lookup_from n es k = None \<longleftrightarrow> (\<forall>e \<in> set es. occupied e \<longrightarrow> disk_sector e \<noteq> k)"
  by (induction n es k rule: lookup_from.induct) auto

lemma lookup_Some:
  "buffer_cache_lookup c k = Some i \<Longrightarrow>
     i < length (entries c) \<and> occupied (entries c ! i) \<and> disk_sector (entries c ! i) = k"
  using lookup_from_Some [of 0 "entries c" k i] by (simp add: buffer_cache_lookup_def)

lemma lookup_None:
  "buffer_cache_lookup c k = None \<longleftrightarrow>
     (\<forall>i < length (entries c). occupied (entries c ! i) \<longrightarrow> disk_sector (entries c ! i) \<noteq> k)"
  by (auto simp: buffer_cache_lookup_def lookup_from_None all_set_conv_all_nth)

lemma cache_view_miss:
  "(\<And>i. i < length (entries c) \<Longrightarrow> occupied (entries c ! i) \<Longrightarrow> disk_sector (entries c ! i) \<noteq> k) \<Longrightarrow>
     cache_view view c d k = view d k"
  using lookup_None [of c k] by (auto simp: cache_view_def)

lemma cache_view_hit:
  assumes "no_alias (entries c)" and "i < length (entries c)" and "occupied (entries c ! i)"
    and "disk_sector (entries c ! i) = k"
  shows "cache_view view c d k = buffer (entries c ! i)"
proof (cases "buffer_cache_lookup c k")
  case None
  with lookup_None [of c k] assms show ?thesis by auto
next
  case (Some j)
  with lookup_Some [OF this] assms have "j = i"
    by (auto simp: no_alias_def)
  with Some show ?thesis by (simp add: cache_view_def)
qed

text \<open>Replacing one entry.\<close>

definition fresh_for :: "nat \<Rightarrow> cache_entry \<Rightarrow> cache_entry list \<Rightarrow> bool" where
  "fresh_for i e es \<longleftrightarrow> (occupied e \<longrightarrow> (\<forall>j < length es. j \<noteq> i \<and> occupied (es ! j) \<longrightarrow>
     disk_sector (es ! j) \<noteq> disk_sector e))"

lemma no_alias_update:
  "no_alias es \<Longrightarrow> fresh_for i e es \<Longrightarrow> no_alias (es[i := e])"
  by (cases "i < length es") (auto simp: no_alias_def fresh_for_def nth_list_update list_update_beyond)

lemma cache_inv_update [wf_intros]:
  "cache_inv ok nsec view c d \<Longrightarrow> entry_ok nsec view d e \<Longrightarrow> fresh_for i e (entries c) \<Longrightarrow>
     cache_inv ok nsec view (upd_entry i e c) d"
  using set_update_subset_insert [of "entries c" i e]
  by (auto simp: cache_inv_def no_alias_update)

lemma cache_view_update:
  assumes "no_alias (entries c)" and "i < length (entries c)" and "fresh_for i e (entries c)"
  shows "cache_view view (upd_entry i e c) d k =
    (if occupied e \<and> disk_sector e = k then buffer e
     else if occupied (entries c ! i) \<and> disk_sector (entries c ! i) = k then view d k
     else cache_view view c d k)"
proof -
  have na: "no_alias (entries (upd_entry i e c))"
    using assms by (simp add: no_alias_update)
  consider (new) "occupied e" "disk_sector e = k"
    | (old) "\<not> (occupied e \<and> disk_sector e = k)" "occupied (entries c ! i)" "disk_sector (entries c ! i) = k"
    | (other) "\<not> (occupied e \<and> disk_sector e = k)"
        "\<not> (occupied (entries c ! i) \<and> disk_sector (entries c ! i) = k)"
    by blast
  then show ?thesis
  proof cases
    case new
    then show ?thesis
      using cache_view_hit [OF na, of i k] assms(2) by simp
  next
    case old
    then have "cache_view view (upd_entry i e c) d k = view d k"
      using assms(1,2) by (intro cache_view_miss) (auto simp: nth_list_update no_alias_def)
    with old show ?thesis by auto
  next
    case other
    show ?thesis
    proof (cases "buffer_cache_lookup c k")
      case None
      then have "cache_view view (upd_entry i e c) d k = view d k"
        using other lookup_None [of c k] assms(2)
        by (intro cache_view_miss) (auto simp: nth_list_update)
      with None other show ?thesis by (auto simp: cache_view_def)
    next
      case (Some j)
      note j = lookup_Some [OF Some]
      with other have "j \<noteq> i" by auto
      with j have "cache_view view (upd_entry i e c) d k = buffer (entries c ! j)"
        using cache_view_hit [OF na, of j k] by simp
      with Some other show ?thesis by (auto simp: cache_view_def)
    qed
  qed
qed

subsection \<open>The clock\<close>

definition drop_access :: "cache_entry \<Rightarrow> cache_entry" where
  "drop_access e = e\<lparr>access := False\<rparr>"

text \<open>Two arrays that differ in reference bits only present the same sectors.\<close>

lemma drop_access_eq:
  "drop_access e = drop_access e' \<longleftrightarrow> occupied e = occupied e' \<and> disk_sector e = disk_sector e' \<and>
     buffer e = buffer e' \<and> dirty e = dirty e'"
  by (cases e; cases e') (auto simp: drop_access_def)

lemma lookup_from_drop_access:
  "map drop_access es = map drop_access es' \<Longrightarrow> lookup_from n es k = lookup_from n es' k"
proof (induction es arbitrary: es' n)
  case Nil
  then show ?case by simp
next
  case (Cons e es)
  then show ?case by (cases es') (auto simp: drop_access_eq)
qed

lemma drop_access_nth:
  assumes "map drop_access es = map drop_access es'" and "i < length es"
  shows "drop_access (es ! i) = drop_access (es' ! i)"
  using assms by (metis length_map nth_map)

lemma cache_inv_drop_access:
  assumes "cache_inv ok nsec view c d" and "map drop_access es = map drop_access (entries c)"
    and "clk < BUFFER_CACHE_SIZE"
  shows "cache_inv ok nsec view (c\<lparr>entries := es, clock := clk\<rparr>) d"
    and "cache_view view (c\<lparr>entries := es, clock := clk\<rparr>) d k = cache_view view c d k"
proof -
  have len: "length es = length (entries c)"
    using assms(2) by (metis length_map)
  have nth: "occupied (es ! i) = occupied (entries c ! i)" "disk_sector (es ! i) = disk_sector (entries c ! i)"
    "buffer (es ! i) = buffer (entries c ! i)" "dirty (es ! i) = dirty (entries c ! i)"
    if "i < length (entries c)" for i
    using drop_access_nth [OF assms(2), of i] that len by (simp_all add: drop_access_eq)
  show "cache_inv ok nsec view (c\<lparr>entries := es, clock := clk\<rparr>) d"
    using assms(1,3) len nth
    by (simp add: cache_inv_def no_alias_def all_set_conv_all_nth entry_ok_def)
  have "lookup_from 0 es k = lookup_from 0 (entries c) k"
    by (rule lookup_from_drop_access [OF assms(2)])
  then show "cache_view view (c\<lparr>entries := es, clock := clk\<rparr>) d k = cache_view view c d k"
    using nth lookup_Some [of c k]
    by (auto simp: cache_view_def buffer_cache_lookup_def split: option.splits)
qed

lemma evict_loop_result:
  assumes "length es = BUFFER_CACHE_SIZE" and "clk < BUFFER_CACHE_SIZE"
  shows "\<exists>free es' clk'. evict_loop es clk = Some (free, es', clk') \<and>
    map drop_access es' = map drop_access es \<and> clk' < BUFFER_CACHE_SIZE \<and>
    (free \<longleftrightarrow> \<not> occupied (es' ! clk')) \<and> (\<not> free \<longrightarrow> \<not> access (es' ! clk'))"
  using assms
proof (induction es clk rule: evict_loop.induct)
  case (1 es clk)
  show ?case
  proof (cases "occupied (es ! clk) \<and> access (es ! clk)")
    case True
    let ?es = "es[clk := (es ! clk)\<lparr>access := False\<rparr>]"
    have "map drop_access ?es = map drop_access es"
      using "1.prems" by (simp add: map_update drop_access_def list_update_same_conv)
    moreover have "evict_loop es clk = evict_loop ?es ((clk + 1) mod BUFFER_CACHE_SIZE)"
      using True "1.prems" by (simp add: evict_loop.simps [of es clk])
    moreover have "(clk + 1) mod BUFFER_CACHE_SIZE < BUFFER_CACHE_SIZE"
      by (simp add: BUFFER_CACHE_SIZE_def)
    ultimately show ?thesis
      using "1.IH" "1.prems" True by auto
  next
    case False
    then show ?thesis
      using "1.prems" by (auto simp: evict_loop.simps [of es clk])
  qed
qed

subsection \<open>Correctness on every sector device\<close>

text \<open>\<open>presents c d c' d'\<close>: the invariant holds and every sector reads as before.\<close>

definition presents ::
  "('d \<Rightarrow> bool) \<Rightarrow> ('d \<Rightarrow> nat) \<Rightarrow> ('d \<Rightarrow> u32 \<Rightarrow> byte list) \<Rightarrow> ('d \<Rightarrow> console) \<Rightarrow>
   cache \<Rightarrow> 'd \<Rightarrow> cache \<Rightarrow> 'd \<Rightarrow> bool" where
  "presents ok nsec view lg c d c' d' \<longleftrightarrow> cache_inv ok nsec view c' d' \<and> nsec d' = nsec d \<and>
     lg d' = lg d \<and> (\<forall>k. unat k < nsec d \<longrightarrow> cache_view view c' d' k = cache_view view c d k)"

lemma presents_trans:
  "presents ok nsec view lg c d c1 d1 \<Longrightarrow> presents ok nsec view lg c1 d1 c2 d2 \<Longrightarrow>
     presents ok nsec view lg c d c2 d2"
  by (simp add: presents_def)

lemma presents_refl:
  "cache_inv ok nsec view c d \<Longrightarrow> presents ok nsec view lg c d c d"
  by (simp add: presents_def)

lemma clean_entry: "\<not> dirty e \<Longrightarrow> e\<lparr>dirty := False\<rparr> = e"
  by (cases e) simp

text \<open>Every sector cached in \<open>es'\<close> was cached in \<open>es\<close>, at the same place.\<close>

definition shrinks :: "cache_entry list \<Rightarrow> cache_entry list \<Rightarrow> bool" where
  "shrinks es es' \<longleftrightarrow> length es' = length es \<and> (\<forall>j < length es. occupied (es' ! j) \<longrightarrow>
     occupied (es ! j) \<and> disk_sector (es' ! j) = disk_sector (es ! j))"

lemma shrinks_drop_access:
  "map drop_access es' = map drop_access es \<Longrightarrow> shrinks es es'"
  using drop_access_nth [of es' es] map_eq_imp_length_eq [of drop_access es' drop_access es]
  by (auto simp: shrinks_def drop_access_eq)

lemma shrinks_update:
  "shrinks es es' \<Longrightarrow> (occupied e \<Longrightarrow> occupied (es' ! i) \<and> disk_sector e = disk_sector (es' ! i)) \<Longrightarrow>
     shrinks es (es'[i := e])"
  by (cases "i < length es'") (auto simp: shrinks_def nth_list_update list_update_beyond)

lemma shrinks_absent:
  assumes "shrinks (entries c) (entries c')" and "buffer_cache_lookup c k = None"
  shows "buffer_cache_lookup c' k = None"
  using assms by (auto simp: shrinks_def lookup_None)

lemma cache_inv_entry:
  "cache_inv ok nsec view c d \<Longrightarrow> i < length (entries c) \<Longrightarrow> entry_ok nsec view d (entries c ! i)"
  by (simp add: cache_inv_def)

context sector_device
begin

lemma flush_ok:
  assumes ci: "cache_inv inv nsec view c d" and i: "i < length (entries c)"
    and occ: "occupied (entries c ! i)"
  shows "\<exists>c' d'. buffer_cache_flush wr pnc i c d = Some (c', d') \<and>
    presents inv nsec view lg c d c' d' \<and> \<not> dirty (entries c' ! i) \<and>
    c' = upd_entry i ((entries c ! i)\<lparr>dirty := False\<rparr>) c"
proof (cases "dirty (entries c ! i)")
  case False
  then show ?thesis
    using i occ presents_refl [OF ci]
    by (auto simp: buffer_cache_flush_def clean_entry)
next
  case True
  let ?e = "entries c ! i"
  let ?c = "upd_entry i (?e\<lparr>dirty := False\<rparr>) c"
  have e: "length (buffer ?e) = 512" "unat (disk_sector ?e) < nsec d"
    using cache_inv_entry [OF ci i] occ by (auto simp: entry_ok_def)
  have "inv d" using ci by (simp add: cache_inv_def)
  then obtain d' where d': "wr (disk_sector ?e) (buffer ?e) d = Some d'" "inv d'"
    "nsec d' = nsec d" "lg d' = lg d"
    "\<And>j. unat j < nsec d \<Longrightarrow> view d' j = (if j = disk_sector ?e then buffer ?e else view d j)"
    using wr_ok [of d "disk_sector ?e" "buffer ?e"] e by auto
  have na: "no_alias (entries c)" using ci by (simp add: cache_inv_def)
  have fresh: "fresh_for i (?e\<lparr>dirty := False\<rparr>) (entries c)"
    using na i occ by (auto simp: fresh_for_def no_alias_def)
  have "entry_ok nsec view d' (entries ?c ! j)" if "j < length (entries c)" for j
    using cache_inv_entry [OF ci that] na i occ that d' e
    by (cases "j = i") (auto simp: entry_ok_def no_alias_def nth_list_update)
  then have inv': "cache_inv inv nsec view ?c d'"
    using ci d'(2) fresh by (simp add: cache_inv_def all_set_conv_all_nth no_alias_update)
  have view': "cache_view view ?c d' k = cache_view view c d k" if "unat k < nsec d" for k
  proof (cases "buffer_cache_lookup c k")
    case None
    then have "disk_sector ?e \<noteq> k" using occ i by (auto simp: lookup_None)
    then have "cache_view view ?c d' k = cache_view view c d' k"
      using cache_view_update [OF na i fresh, of view d' k] by simp
    with None \<open>disk_sector ?e \<noteq> k\<close> show ?thesis
      using d'(5) [OF that] by (auto simp: cache_view_def)
  next
    case (Some j)
    then have "cache_view view c d' k = cache_view view c d k" by (simp add: cache_view_def)
    moreover have "cache_view view c d k = buffer ?e" if "disk_sector ?e = k"
      using cache_view_hit [OF na i occ that] .
    ultimately show ?thesis
      using cache_view_update [OF na i fresh, of view d' k] occ by auto
  qed
  show ?thesis
    using True i occ d' inv' view' by (auto simp: buffer_cache_flush_def presents_def)
qed

lemma evict_ok:
  assumes ci: "cache_inv inv nsec view c d"
  shows "\<exists>i c' d'. buffer_cache_evict wr pnc c d = Some (i, c', d') \<and>
    presents inv nsec view lg c d c' d' \<and> i < BUFFER_CACHE_SIZE \<and>
    \<not> occupied (entries c' ! i) \<and> shrinks (entries c) (entries c')"
proof -
  obtain free es clk where ev: "evict_loop (entries c) (clock c) = Some (free, es, clk)"
    and es: "map drop_access es = map drop_access (entries c)" and clk: "clk < BUFFER_CACHE_SIZE"
    and free: "free \<longleftrightarrow> \<not> occupied (es ! clk)"
    using evict_loop_result [of "entries c" "clock c"] ci by (auto simp: cache_inv_def)
  let ?c = "c\<lparr>entries := es, clock := clk\<rparr>"
  have p1: "presents inv nsec view lg c d ?c d"
    using cache_inv_drop_access [OF ci es clk] by (simp add: presents_def)
  have ci1: "cache_inv inv nsec view ?c d" using p1 by (simp add: presents_def)
  have len: "clk < length (entries ?c)"
    using ci1 clk by (simp add: cache_inv_def)
  have sh: "shrinks (entries c) es" by (rule shrinks_drop_access [OF es])
  show ?thesis
  proof (cases free)
    case True
    then show ?thesis
      using ev p1 clk free sh by (simp add: buffer_cache_evict_def)
  next
    case False
    then have occ: "occupied (entries ?c ! clk)" using free by simp
    obtain c2 d2 where fl: "buffer_cache_flush wr pnc clk ?c d = Some (c2, d2)"
      and p2: "presents inv nsec view lg ?c d c2 d2" and cl: "\<not> dirty (entries c2 ! clk)"
      and c2: "c2 = upd_entry clk ((entries ?c ! clk)\<lparr>dirty := False\<rparr>) ?c"
      using flush_ok [OF ci1 len occ] by blast
    have skip: "(if dirty (entries ?c ! clk) then buffer_cache_flush wr pnc clk ?c d else Some (?c, d))
        = Some (c2, d2)"
      using fl len occ by (auto simp: buffer_cache_flush_def split: if_splits)
    have ci2: "cache_inv inv nsec view c2 d2" using p2 by (simp add: presents_def)
    have len2: "clk < length (entries c2)" using ci2 clk by (simp add: cache_inv_def)
    let ?e = "(entries c2 ! clk)\<lparr>occupied := False\<rparr>"
    let ?c3 = "upd_entry clk ?e c2"
    have fresh: "fresh_for clk ?e (entries c2)" by (simp add: fresh_for_def)
    have "entry_ok nsec view d2 ?e"
      using cache_inv_entry [OF ci2 len2] by (simp add: entry_ok_def)
    then have ci3: "cache_inv inv nsec view ?c3 d2"
      by (rule cache_inv_update [OF ci2 _ fresh])
    have na: "no_alias (entries c2)" using ci2 by (simp add: cache_inv_def)
    have "cache_view view ?c3 d2 k = cache_view view c2 d2 k" for k
      using cache_view_update [OF na len2 fresh, of view d2 k] cache_inv_entry [OF ci2 len2] cl
        cache_view_hit [OF na len2, of k view d2]
      by (auto simp: entry_ok_def)
    with ci3 have "presents inv nsec view lg c2 d2 ?c3 d2" by (simp add: presents_def)
    with p1 p2 have "presents inv nsec view lg c d ?c3 d2"
      by (blast intro: presents_trans)
    moreover have "shrinks (entries c) (entries ?c3)"
      using sh occ unfolding c2 by (auto intro!: shrinks_update simp: nth_list_update)
    ultimately show ?thesis
      using ev False skip clk len2 by (auto simp: buffer_cache_evict_def)
  qed
qed

lemma slot_ok:
  assumes ci: "cache_inv inv nsec view c d" and k: "unat k < nsec d"
  shows "\<exists>i c' d'. cache_slot rd wr pnc k c d = Some (i, c', d') \<and>
    presents inv nsec view lg c d c' d' \<and> i < length (entries c') \<and>
    occupied (entries c' ! i) \<and> disk_sector (entries c' ! i) = k"
proof (cases "buffer_cache_lookup c k")
  case (Some i)
  then show ?thesis
    using lookup_Some [OF Some] presents_refl [OF ci] by (simp add: cache_slot_def)
next
  case None
  obtain i c1 d1 where ev: "buffer_cache_evict wr pnc c d = Some (i, c1, d1)"
    and p1: "presents inv nsec view lg c d c1 d1" and i: "i < BUFFER_CACHE_SIZE"
    and un: "\<not> occupied (entries c1 ! i)" and sh: "shrinks (entries c) (entries c1)"
    using evict_ok [OF ci] by blast
  have ci1: "cache_inv inv nsec view c1 d1" and n1: "nsec d1 = nsec d"
    using p1 by (simp_all add: presents_def)
  have len: "i < length (entries c1)" using ci1 i by (simp add: cache_inv_def)
  have "inv d1" using ci1 by (simp add: cache_inv_def)
  then obtain d2 where d2: "rd k (buffer (entries c1 ! i)) d1 = Some (view d1 k, d2)" "inv d2"
    "nsec d2 = nsec d1" "lg d2 = lg d1" "\<And>j. unat j < nsec d1 \<Longrightarrow> view d2 j = view d1 j"
    using rd_ok [of d1 k "buffer (entries c1 ! i)"] k n1 cache_inv_entry [OF ci1 len]
    by (auto simp: entry_ok_def)
  have ci2: "cache_inv inv nsec view c1 d2"
    using ci1 d2 by (auto simp: cache_inv_def entry_ok_def)
  have v2: "cache_view view c1 d2 j = cache_view view c1 d1 j" if "unat j < nsec d1" for j
    using d2(5) [OF that] by (simp add: cache_view_def split: option.splits)
  have miss: "disk_sector (entries c1 ! j) \<noteq> k" if "j < length (entries c1)" "occupied (entries c1 ! j)" for j
    using shrinks_absent [OF sh None] that by (simp add: lookup_None)
  let ?e = "(entries c1 ! i)\<lparr>occupied := True, disk_sector := k, dirty := False, buffer := view d1 k\<rparr>"
  have fresh: "fresh_for i ?e (entries c1)"
    using miss by (auto simp: fresh_for_def)
  have "entry_ok nsec view d2 ?e"
    using view_length [of d1 k] \<open>inv d1\<close> k n1 d2 by (simp add: entry_ok_def)
  then have ci3: "cache_inv inv nsec view (upd_entry i ?e c1) d2"
    using ci2 fresh by (intro cache_inv_update)
  have na: "no_alias (entries c1)" using ci1 by (simp add: cache_inv_def)
  have "cache_view view (upd_entry i ?e c1) d2 j = cache_view view c1 d1 j" if "unat j < nsec d1" for j
    using cache_view_update [OF na len fresh, of view d2 j] un v2 [OF that]
      cache_view_miss [of c1 k view d1] miss
    by auto
  then have "presents inv nsec view lg c1 d1 (upd_entry i ?e c1) d2"
    using ci3 d2 by (simp add: presents_def)
  then have "presents inv nsec view lg c d (upd_entry i ?e c1) d2"
    by (rule presents_trans [OF p1])
  then show ?thesis
    using None ev un d2(1) len by (auto simp: cache_slot_def)
qed

lemma read_ok:
  assumes "cache_inv inv nsec view c d" and "unat k < nsec d"
  shows "\<exists>c' d'. buffer_cache_read rd wr pnc k c d = Some (cache_view view c d k, c', d') \<and>
    presents inv nsec view lg c d c' d'"
proof -
  obtain i c1 d1 where sl: "cache_slot rd wr pnc k c d = Some (i, c1, d1)"
    and p: "presents inv nsec view lg c d c1 d1" and i: "i < length (entries c1)"
    and hit: "occupied (entries c1 ! i)" "disk_sector (entries c1 ! i) = k"
    using slot_ok [OF assms] by blast
  have ci: "cache_inv inv nsec view c1 d1" using p by (simp add: presents_def)
  have na: "no_alias (entries c1)" using ci by (simp add: cache_inv_def)
  let ?e = "(entries c1 ! i)\<lparr>access := True\<rparr>"
  have fresh: "fresh_for i ?e (entries c1)"
    using na i hit by (auto simp: fresh_for_def no_alias_def)
  have "entry_ok nsec view d1 ?e"
    using cache_inv_entry [OF ci i] by (simp add: entry_ok_def)
  then have "cache_inv inv nsec view (upd_entry i ?e c1) d1"
    by (rule cache_inv_update [OF ci _ fresh])
  moreover have "cache_view view (upd_entry i ?e c1) d1 j = cache_view view c1 d1 j" for j
    using cache_view_update [OF na i fresh, of view d1 j] cache_view_hit [OF na i hit(1), of j view d1] by auto
  moreover have "buffer (entries c1 ! i) = cache_view view c d k"
    using cache_view_hit [OF na i hit, of view d1] p assms(2) by (simp add: presents_def)
  ultimately show ?thesis
    using sl p by (auto simp: buffer_cache_read_def presents_def)
qed

lemma write_ok:
  assumes "cache_inv inv nsec view c d" and "unat k < nsec d" and "length src = 512"
  shows "\<exists>c' d'. buffer_cache_write rd wr pnc k src c d = Some (c', d') \<and>
    cache_inv inv nsec view c' d' \<and> nsec d' = nsec d \<and> lg d' = lg d \<and>
    (\<forall>j. unat j < nsec d \<longrightarrow> cache_view view c' d' j = (if j = k then src else cache_view view c d j))"
proof -
  obtain i c1 d1 where sl: "cache_slot rd wr pnc k c d = Some (i, c1, d1)"
    and p: "presents inv nsec view lg c d c1 d1" and i: "i < length (entries c1)"
    and hit: "occupied (entries c1 ! i)" "disk_sector (entries c1 ! i) = k"
    using slot_ok [OF assms(1,2)] by blast
  have ci: "cache_inv inv nsec view c1 d1" using p by (simp add: presents_def)
  have na: "no_alias (entries c1)" using ci by (simp add: cache_inv_def)
  let ?e = "(entries c1 ! i)\<lparr>access := True, dirty := True, buffer := src\<rparr>"
  have fresh: "fresh_for i ?e (entries c1)"
    using na i hit by (auto simp: fresh_for_def no_alias_def)
  have "entry_ok nsec view d1 ?e"
    using cache_inv_entry [OF ci i] assms(3) by (simp add: entry_ok_def)
  then have "cache_inv inv nsec view (upd_entry i ?e c1) d1"
    by (rule cache_inv_update [OF ci _ fresh])
  moreover have "cache_view view (upd_entry i ?e c1) d1 j =
      (if j = k then src else cache_view view c1 d1 j)" for j
    using cache_view_update [OF na i fresh, of view d1 j] hit by auto
  ultimately show ?thesis
    using sl p assms(3) by (auto simp: buffer_cache_write_def presents_def BLOCK_SECTOR_SIZE_def)
qed

lemma close_loop_ok:
  assumes "cache_inv inv nsec view c d" and "i + n = BUFFER_CACHE_SIZE"
    and "\<forall>j < i. occupied (entries c ! j) \<longrightarrow> \<not> dirty (entries c ! j)"
  shows "\<exists>c' d'. close_loop wr pnc i n c d = Some (c', d') \<and> presents inv nsec view lg c d c' d' \<and>
    (\<forall>e \<in> set (entries c'). occupied e \<longrightarrow> \<not> dirty e)"
  using assms
proof (induction n arbitrary: i c d)
  case 0
  then show ?case
    using presents_refl [OF "0.prems"(1)] by (auto simp: cache_inv_def all_set_conv_all_nth)
next
  case (Suc n)
  have i: "i < length (entries c)" using Suc.prems by (simp add: cache_inv_def)
  show ?case
  proof (cases "occupied (entries c ! i)")
    case False
    then show ?thesis
      using Suc.IH [of c d "Suc i"] Suc.prems i by (auto simp: less_Suc_eq)
  next
    case True
    obtain c1 d1 where fl: "buffer_cache_flush wr pnc i c d = Some (c1, d1)"
      and p: "presents inv nsec view lg c d c1 d1" and cl: "\<not> dirty (entries c1 ! i)"
      and c1: "c1 = upd_entry i ((entries c ! i)\<lparr>dirty := False\<rparr>) c"
      using flush_ok [OF Suc.prems(1) i True] by blast
    have "\<forall>j < Suc i. occupied (entries c1 ! j) \<longrightarrow> \<not> dirty (entries c1 ! j)"
      using Suc.prems(3) cl c1 i by (auto simp: less_Suc_eq)
    then obtain c2 d2 where "close_loop wr pnc (Suc i) n c1 d1 = Some (c2, d2)"
      "presents inv nsec view lg c1 d1 c2 d2" "\<forall>e \<in> set (entries c2). occupied e \<longrightarrow> \<not> dirty e"
      using Suc.IH [of c1 d1 "Suc i"] Suc.prems(2) p by (auto simp: presents_def)
    then show ?thesis
      using True i fl p by (auto intro: presents_trans)
  qed
qed

text \<open>After \<^verbatim>\<open>buffer_cache_close\<close> the device itself holds what the cache presented.\<close>

lemma close_ok:
  assumes "cache_inv inv nsec view c d"
  shows "\<exists>c' d'. buffer_cache_close wr pnc c d = Some (c', d') \<and>
    presents inv nsec view lg c d c' d' \<and>
    (\<forall>k. unat k < nsec d \<longrightarrow> view d' k = cache_view view c d k)"
proof -
  obtain c' d' where cl: "buffer_cache_close wr pnc c d = Some (c', d')"
    and p: "presents inv nsec view lg c d c' d'"
    and clean: "\<forall>e \<in> set (entries c'). occupied e \<longrightarrow> \<not> dirty e"
    using close_loop_ok [OF assms, of 0 BUFFER_CACHE_SIZE pnc] by (auto simp: buffer_cache_close_def)
  have ci: "cache_inv inv nsec view c' d'" using p by (simp add: presents_def)
  have "cache_view view c' d' k = view d' k" for k
  proof (cases "buffer_cache_lookup c' k")
    case (Some i)
    then show ?thesis
      using lookup_Some [OF Some] cache_inv_entry [OF ci] clean
      by (auto simp: cache_view_def entry_ok_def)
  qed (simp add: cache_view_def)
  then show ?thesis
    using cl p by (auto simp: presents_def)
qed

end

subsection \<open>The cache of the file system device\<close>

text \<open>The state below the file system: the cache and the devices; \<^verbatim>\<open>fs_device\<close> is the registered
  device the file system lives on.\<close>

record cstate =
  ccache :: cache
  cdev :: dstate
  fs_device :: nat

definition bc_read :: "u32 \<Rightarrow> cstate \<Rightarrow> (byte list \<times> cstate) option" where
  "bc_read sector s =
     do { (buf, c, d) \<leftarrow> buffer_cache_read (block_read (fs_device s)) (block_write (fs_device s)) PANIC
                          sector (ccache s) (cdev s);
          Some (buf, s\<lparr>ccache := c, cdev := d\<rparr>) }"

definition bc_write :: "u32 \<Rightarrow> byte list \<Rightarrow> cstate \<Rightarrow> cstate option" where
  "bc_write sector src s =
     do { (c, d) \<leftarrow> buffer_cache_write (block_read (fs_device s)) (block_write (fs_device s)) PANIC
                      sector src (ccache s) (cdev s);
          Some (s\<lparr>ccache := c, cdev := d\<rparr>) }"

definition bc_close :: "cstate \<Rightarrow> cstate option" where
  "bc_close s =
     do { (c, d) \<leftarrow> buffer_cache_close (block_write (fs_device s)) PANIC (ccache s) (cdev s);
          Some (s\<lparr>ccache := c, cdev := d\<rparr>) }"

definition bc_inv :: "cstate \<Rightarrow> bool" where
  "bc_inv s \<longleftrightarrow> cache_inv (dev_inv (fs_device s)) (dev_nsec (fs_device s)) (dev_view (fs_device s))
     (ccache s) (cdev s)"

definition bc_nsec :: "cstate \<Rightarrow> nat" where
  "bc_nsec s = dev_nsec (fs_device s) (cdev s)"

definition bc_view :: "cstate \<Rightarrow> u32 \<Rightarrow> byte list" where
  "bc_view s k = cache_view (dev_view (fs_device s)) (ccache s) (cdev s) k"

definition bc_console :: "cstate \<Rightarrow> console" where
  "bc_console s = console (cdev s)"

subsection \<open>The interface the file layers use\<close>

locale sector_store =
  fixes sinv :: "'s \<Rightarrow> bool"
    and nsec :: "'s \<Rightarrow> nat"
    and view :: "'s \<Rightarrow> u32 \<Rightarrow> byte list"
    and lg :: "'s \<Rightarrow> console"
    and rd :: "u32 \<Rightarrow> 's \<Rightarrow> (byte list \<times> 's) option"
    and wr :: "u32 \<Rightarrow> byte list \<Rightarrow> 's \<Rightarrow> 's option"
  assumes sread_ok: "sinv s \<Longrightarrow> unat k < nsec s \<Longrightarrow>
      \<exists>s'. rd k s = Some (view s k, s') \<and> sinv s' \<and> nsec s' = nsec s \<and> lg s' = lg s \<and>
        (\<forall>j. unat j < nsec s \<longrightarrow> view s' j = view s j)"
    and swrite_ok: "sinv s \<Longrightarrow> unat k < nsec s \<Longrightarrow> length src = 512 \<Longrightarrow>
      \<exists>s'. wr k src s = Some s' \<and> sinv s' \<and> nsec s' = nsec s \<and> lg s' = lg s \<and>
        (\<forall>j. unat j < nsec s \<longrightarrow> view s' j = (if j = k then src else view s j))"
    and sview_length: "sinv s \<Longrightarrow> unat k < nsec s \<Longrightarrow> length (view s k) = 512"

lemma cache_view_length:
  assumes "cache_inv ok nsec view c d" and "length (view d k) = 512"
  shows "length (cache_view view c d k) = 512"
proof (cases "buffer_cache_lookup c k")
  case (Some i)
  then show ?thesis
    using lookup_Some [OF Some] cache_inv_entry [OF assms(1), of i]
    by (simp add: cache_view_def entry_ok_def)
qed (simp add: cache_view_def assms(2))

lemma bc_read_ok:
  assumes "bc_inv s" and "unat k < bc_nsec s"
  shows "\<exists>s'. bc_read k s = Some (bc_view s k, s') \<and> bc_inv s' \<and> bc_nsec s' = bc_nsec s \<and>
    bc_console s' = bc_console s \<and> fs_device s' = fs_device s \<and>
    (\<forall>j. unat j < bc_nsec s \<longrightarrow> bc_view s' j = bc_view s j)"
proof -
  obtain c d where "buffer_cache_read (block_read (fs_device s)) (block_write (fs_device s)) PANIC k
      (ccache s) (cdev s) = Some (bc_view s k, c, d)"
    "presents (dev_inv (fs_device s)) (dev_nsec (fs_device s)) (dev_view (fs_device s)) console
       (ccache s) (cdev s) c d"
    using disk.read_ok [of "fs_device s" "ccache s" "cdev s" k PANIC] assms
    by (auto simp: bc_inv_def bc_nsec_def bc_view_def)
  then show ?thesis
    by (simp add: bc_read_def presents_def bc_inv_def bc_nsec_def bc_view_def bc_console_def)
qed

lemma bc_write_ok:
  assumes "bc_inv s" and "unat k < bc_nsec s" and "length src = 512"
  shows "\<exists>s'. bc_write k src s = Some s' \<and> bc_inv s' \<and> bc_nsec s' = bc_nsec s \<and>
    bc_console s' = bc_console s \<and> fs_device s' = fs_device s \<and>
    (\<forall>j. unat j < bc_nsec s \<longrightarrow> bc_view s' j = (if j = k then src else bc_view s j))"
proof -
  obtain c d where "buffer_cache_write (block_read (fs_device s)) (block_write (fs_device s)) PANIC k src
      (ccache s) (cdev s) = Some (c, d)"
    "cache_inv (dev_inv (fs_device s)) (dev_nsec (fs_device s)) (dev_view (fs_device s)) c d"
    "dev_nsec (fs_device s) d = dev_nsec (fs_device s) (cdev s)" "console d = console (cdev s)"
    "\<forall>j. unat j < dev_nsec (fs_device s) (cdev s) \<longrightarrow> cache_view (dev_view (fs_device s)) c d j =
       (if j = k then src else cache_view (dev_view (fs_device s)) (ccache s) (cdev s) j)"
    using disk.write_ok [of "fs_device s" "ccache s" "cdev s" k src PANIC] assms
    by (auto simp: bc_inv_def bc_nsec_def)
  then show ?thesis
    by (simp add: bc_write_def bc_inv_def bc_nsec_def bc_view_def bc_console_def)
qed

interpretation cached: sector_store bc_inv bc_nsec bc_view bc_console bc_read bc_write
proof
  fix s :: cstate and k :: u32
  assume "bc_inv s" "unat k < bc_nsec s"
  then show "\<exists>s'. bc_read k s = Some (bc_view s k, s') \<and> bc_inv s' \<and> bc_nsec s' = bc_nsec s \<and>
      bc_console s' = bc_console s \<and> (\<forall>j. unat j < bc_nsec s \<longrightarrow> bc_view s' j = bc_view s j)"
    using bc_read_ok [of s k] by blast
next
  fix s :: cstate and k :: u32 and src :: "byte list"
  assume "bc_inv s" "unat k < bc_nsec s" "length src = 512"
  then show "\<exists>s'. bc_write k src s = Some s' \<and> bc_inv s' \<and> bc_nsec s' = bc_nsec s \<and>
      bc_console s' = bc_console s \<and>
      (\<forall>j. unat j < bc_nsec s \<longrightarrow> bc_view s' j = (if j = k then src else bc_view s j))"
    using bc_write_ok [of s k src] by blast
next
  fix s :: cstate and k :: u32
  assume "bc_inv s" "unat k < bc_nsec s"
  then have ci: "cache_inv (dev_inv (fs_device s)) (dev_nsec (fs_device s)) (dev_view (fs_device s))
      (ccache s) (cdev s)" and "length (dev_view (fs_device s) (cdev s) k) = 512"
    using disk.view_length [of "fs_device s" "cdev s" k]
    by (auto simp: bc_inv_def bc_nsec_def cache_inv_def)
  then show "length (bc_view s k) = 512"
    by (simp add: bc_view_def cache_view_length [OF ci])
qed

subsection \<open>Properties\<close>

abbreviation dev_cache_inv :: "nat \<Rightarrow> cache \<Rightarrow> dstate \<Rightarrow> bool" where
  "dev_cache_inv b \<equiv> cache_inv (dev_inv b) (dev_nsec b) (dev_view b)"

lemma cache_inv_init:
  assumes "ok d" and "length (entries c) = BUFFER_CACHE_SIZE" and "clock c < BUFFER_CACHE_SIZE"
    and "\<forall>e \<in> set (entries c). length (buffer e) = 512"
  shows "cache_inv ok nsec view (buffer_cache_init c) d"
  using assms by (auto simp: cache_inv_def buffer_cache_init_def entry_ok_def no_alias_def)

lemma cache_view_init: "cache_view view (buffer_cache_init c) d k = view d k"
  by (rule cache_view_miss) (simp add: buffer_cache_init_def)

lemma sample_cache_inv:
  "dev_cache_inv 1 (buffer_cache_init cache_zero) (sample_disk (replicate 512 0))"
  by (rule cache_inv_init) (simp_all add: sample_disk_inv cache_zero_def BUFFER_CACHE_SIZE_def)

text \<open>\<^verbatim>\<open>buffer_cache_init\<close> gives a cache that satisfies the invariant (no sector is cached twice, a clean
  entry equals its sector) and presents exactly the contents of the device.\<close>

theorem buffer_cache_init_presents_device:
  assumes "dev_inv b d" and "length (entries c) = BUFFER_CACHE_SIZE" and "clock c < BUFFER_CACHE_SIZE"
    and "\<forall>e \<in> set (entries c). length (buffer e) = 512"
  shows "dev_cache_inv b (buffer_cache_init c) d \<and>
    cache_view (dev_view b) (buffer_cache_init c) d k = dev_view b d k"
  using cache_inv_init [of "dev_inv b" d c] assms by (simp add: cache_view_init)

theorem buffer_cache_init_presents_device_witness:
  "cache_view (dev_view 1) (buffer_cache_init cache_zero) (sample_disk (replicate 512 0)) 0 = replicate 512 0"
proof -
  let ?d = "sample_disk (replicate 512 0)"
  have "dev_view 1 ?d 0 = replicate 512 0"
    by (simp add: dev_view_def dev_sector_def geom_def sample_disk_def)
  then show ?thesis
    using buffer_cache_init_presents_device [of 1 ?d cache_zero 0]
    by (simp add: sample_disk_inv cache_zero_def BUFFER_CACHE_SIZE_def)
qed

text \<open>C4: The cache is coherent: after \<^verbatim>\<open>buffer_cache_write\<close> of a sector, \<^verbatim>\<open>buffer_cache_read\<close> returns the
  written contents for that sector and the former contents for every other one, whatever was evicted
  in between; the invariant is kept and no assertion fails.\<close>

theorem buffer_cache_coherent:
  assumes "dev_cache_inv b c d" and "unat k < dev_nsec b d" and "unat j < dev_nsec b d"
    and "length src = 512"
  shows "\<exists>c1 d1 c2 d2.
    buffer_cache_write (block_read b) (block_write b) PANIC k src c d = Some (c1, d1) \<and>
    buffer_cache_read (block_read b) (block_write b) PANIC j c1 d1 =
      Some (if j = k then src else cache_view (dev_view b) c d j, c2, d2) \<and>
    dev_cache_inv b c2 d2 \<and> console d2 = console d"
proof -
  obtain c1 d1 where w: "buffer_cache_write (block_read b) (block_write b) PANIC k src c d = Some (c1, d1)"
    "dev_cache_inv b c1 d1" "dev_nsec b d1 = dev_nsec b d" "console d1 = console d"
    "cache_view (dev_view b) c1 d1 j = (if j = k then src else cache_view (dev_view b) c d j)"
    using disk.write_ok [OF assms(1,2,4), of PANIC] assms(3) by auto
  then show ?thesis
    using disk.read_ok [of b c1 d1 j PANIC] assms(3) by (auto simp: presents_def)
qed

theorem buffer_cache_coherent_witness:
  "\<exists>c1 d1 c2 d2.
    buffer_cache_write (block_read 1) (block_write 1) PANIC 0 (replicate 512 7)
      (buffer_cache_init cache_zero) (sample_disk (replicate 512 0)) = Some (c1, d1) \<and>
    buffer_cache_read (block_read 1) (block_write 1) PANIC 0 c1 d1 = Some (replicate 512 7, c2, d2)"
  using buffer_cache_coherent [OF sample_cache_inv, of 0 0 "replicate 512 7"]
  by (auto simp: sample_disk_inv)

text \<open>The clock of \<^verbatim>\<open>buffer_cache_evict\<close> always stops: it returns an entry that is free, after
  writing back what was dirty, so that every sector still presents the same contents.\<close>

theorem buffer_cache_evict_frees_entry:
  assumes "dev_cache_inv b c d"
  shows "\<exists>i c' d'. buffer_cache_evict (block_write b) PANIC c d = Some (i, c', d') \<and>
    i < BUFFER_CACHE_SIZE \<and> \<not> occupied (entries c' ! i) \<and> dev_cache_inv b c' d' \<and>
    console d' = console d \<and>
    (\<forall>k. unat k < dev_nsec b d \<longrightarrow> cache_view (dev_view b) c' d' k = cache_view (dev_view b) c d k)"
  using disk.evict_ok [OF assms, of PANIC] by (auto simp: presents_def)

theorem buffer_cache_evict_frees_entry_witness:
  "\<exists>i c' d'. buffer_cache_evict (block_write 1) PANIC (buffer_cache_init cache_zero)
     (sample_disk (replicate 512 0)) = Some (i, c', d') \<and> \<not> occupied (entries c' ! i)"
  using buffer_cache_evict_frees_entry [OF sample_cache_inv] by blast

text \<open>C9: \<^verbatim>\<open>buffer_cache_close\<close> makes everything durable: afterwards the device itself holds, for every
  sector, the contents the cache presented.\<close>

theorem buffer_cache_close_durable:
  assumes "dev_cache_inv b c d" and "unat k < dev_nsec b d" and "length buf = 512"
  shows "\<exists>c' d' d2. buffer_cache_close (block_write b) PANIC c d = Some (c', d') \<and>
    console d' = console d \<and> block_read b k buf d' = Some (cache_view (dev_view b) c d k, d2)"
proof -
  obtain c' d' where cl: "buffer_cache_close (block_write b) PANIC c d = Some (c', d')"
    "presents (dev_inv b) (dev_nsec b) (dev_view b) console c d c' d'"
    "dev_view b d' k = cache_view (dev_view b) c d k"
    using disk.close_ok [OF assms(1), of PANIC] assms(2) by auto
  then have "dev_inv b d'" "dev_nsec b d' = dev_nsec b d" "console d' = console d"
    by (auto simp: presents_def cache_inv_def)
  then show ?thesis
    using cl disk.rd_ok [of b d' k buf] assms(2,3) by auto
qed

theorem buffer_cache_close_durable_witness:
  "\<exists>c' d' d2. buffer_cache_close (block_write 1) PANIC (buffer_cache_init cache_zero)
      (sample_disk (replicate 512 0)) = Some (c', d') \<and>
    block_read 1 0 (replicate 512 1) d' =
      Some (cache_view (dev_view 1) (buffer_cache_init cache_zero) (sample_disk (replicate 512 0)) 0, d2)"
  using buffer_cache_close_durable [OF sample_cache_inv, of 0 "replicate 512 1"]
  by (auto simp: sample_disk_inv)

end
