(* ===== verification/Inode_Data.thy ===== *)
theory Inode_Data
  imports Cache
begin

text \<open>
  The data side of \<^verbatim>\<open>a3/fs/inode.c\<close>: the on-disk inode, the map from a byte offset to the sector
  that holds it (direct, indirect and doubly indirect blocks), and the loops of
  \<^verbatim>\<open>inode_read_at\<close> and \<^verbatim>\<open>inode_write_at\<close>. The functions take the sector operations as arguments
  (\<open>rd\<close>, \<open>wr\<close>), and the lemmas are proved for every \<open>sector_store\<close>; the file system uses the
  buffer cache.
\<close>

definition INODE_MAGIC :: u32 where
  "INODE_MAGIC = 0x494e4f44"

definition DIRECT_BLOCKS_COUNT :: nat where
  "DIRECT_BLOCKS_COUNT = 123"

definition INDIRECT_BLOCKS_PER_SECTOR :: nat where
  "INDIRECT_BLOCKS_PER_SECTOR = 128"

subsection \<open>The on-disk inode\<close>

text \<open>\<^verbatim>\<open>bool is_dir\<close> is one byte followed by three bytes of padding; the struct is copied to and
  from the disk as a whole, so the padding travels with it.\<close>

record inode_disk =
  direct_blocks :: "u32 list"
  indirect_block :: u32
  doubly_indirect_block :: u32
  is_dir :: byte
  id_pad :: "byte list"
  id_length :: int
  magic :: u32

definition idisk_zero :: inode_disk where
  "idisk_zero = \<lparr>direct_blocks = replicate DIRECT_BLOCKS_COUNT 0, indirect_block = 0,
     doubly_indirect_block = 0, is_dir = 0, id_pad = [0, 0, 0], id_length = 0, magic = 0\<rparr>"

definition encode_inode :: "inode_disk \<Rightarrow> byte list" where
  "encode_inode d =
     bytes_of_words 4 (direct_blocks d @ [indirect_block d, doubly_indirect_block d]) @
     is_dir d # id_pad d @ bytes_of_words 4 [word_of_int (id_length d) :: u32, magic d]"

definition decode_inode :: "byte list \<Rightarrow> inode_disk" where
  "decode_inode bs =
     (let ptrs = words_of_bytes 4 125 bs; tail = words_of_bytes 4 2 (drop 504 bs)
      in \<lparr>direct_blocks = take DIRECT_BLOCKS_COUNT ptrs, indirect_block = ptrs ! 123,
          doubly_indirect_block = ptrs ! 124, is_dir = bs ! 500, id_pad = take 3 (drop 501 bs),
          id_length = sint (tail ! 0 :: u32), magic = tail ! 1\<rparr>)"

definition wf_idisk :: "inode_disk \<Rightarrow> bool" where
  "wf_idisk d \<longleftrightarrow> length (direct_blocks d) = DIRECT_BLOCKS_COUNT \<and> length (id_pad d) = 3 \<and>
     - (2 ^ 31) \<le> id_length d \<and> id_length d < 2 ^ 31"

subsection \<open>From offsets to sectors\<close>

text \<open>\<^verbatim>\<open>bytes_to_sectors\<close> computes \<^verbatim>\<open>(size + 512 - 1) / 512\<close> in \<^verbatim>\<open>int\<close> arithmetic; the sum must not overflow. The result is
  converted to \<^verbatim>\<open>size_t\<close>.\<close>

definition bytes_to_sectors :: "int \<Rightarrow> nat option" where
  "bytes_to_sectors len =
     (if len + 512 < 2 ^ 31 then Some (nat (((len + 511) sdiv 512) mod 2 ^ 64)) else None)"

definition indirect_blocks :: "byte list \<Rightarrow> u32 list" where
  "indirect_blocks blk = words_of_bytes 4 INDIRECT_BLOCKS_PER_SECTOR blk"

definition index_to_sector ::
  "(u32 \<Rightarrow> 's \<Rightarrow> (byte list \<times> 's) option) \<Rightarrow> inode_disk \<Rightarrow> int \<Rightarrow> 's \<Rightarrow> (u32 \<times> 's) option" where
  "index_to_sector rd idisk index s =
     (if index < 123
      then if 0 \<le> index then Some (direct_blocks idisk ! nat index, s) else None
      else if index < 123 + 128
      then do { (blk, s) \<leftarrow> rd (indirect_block idisk) s;
                Some (indirect_blocks blk ! nat (index - 123), s) }
      else if index < 123 + 128 + 128 * 128
      then let index_first = (index - 251) sdiv 128; index_second = (index - 251) smod 128
           in do { (blk, s) \<leftarrow> rd (doubly_indirect_block idisk) s;
                   (blk, s) \<leftarrow> rd (indirect_blocks blk ! nat index_first) s;
                   Some (indirect_blocks blk ! nat index_second, s) }
      else Some (- 1, s))"

definition byte_to_sector ::
  "(u32 \<Rightarrow> 's \<Rightarrow> (byte list \<times> 's) option) \<Rightarrow> inode_disk \<Rightarrow> int \<Rightarrow> 's \<Rightarrow> (u32 \<times> 's) option" where
  "byte_to_sector rd idisk pos s =
     (if 0 \<le> pos \<and> pos < id_length idisk then index_to_sector rd idisk (pos sdiv 512) s
      else Some (- 1, s))"

subsection \<open>The read loop\<close>

text \<open>\<open>acc\<close> holds the bytes already copied to the caller's buffer, so \<^verbatim>\<open>bytes_read\<close> is its length.
  The test \<^verbatim>\<open>sector_idx < 0\<close> of the source is on an unsigned value and never holds. A negative
  \<open>sector_ofs\<close> would copy from before the bounce buffer.\<close>

function read_loop ::
  "(u32 \<Rightarrow> 's \<Rightarrow> (byte list \<times> 's) option) \<Rightarrow> inode_disk \<Rightarrow> int \<Rightarrow> int \<Rightarrow> byte list \<Rightarrow> 's \<Rightarrow>
   (byte list \<times> 's) option" where
  "read_loop rd idisk len offset acc s =
     (let sector_ofs = offset smod 512;
          inode_left = id_length idisk - offset;
          sector_left = 512 - sector_ofs;
          min_left = (if inode_left < sector_left then inode_left else sector_left);
          chunk_size = (if len < min_left then len else min_left)
      in if len > 0
         then do { (sector_idx, s) \<leftarrow> byte_to_sector rd idisk offset s;
                   if chunk_size \<le> 0 then Some (acc, s)
                   else if sector_ofs = 0 \<and> chunk_size = 512
                   then do { (buf, s) \<leftarrow> rd sector_idx s;
                             read_loop rd idisk (len - chunk_size) (offset + chunk_size) (acc @ buf) s }
                   else if sector_ofs < 0 then None
                   else do { (bounce, s) \<leftarrow> rd sector_idx s;
                             read_loop rd idisk (len - chunk_size) (offset + chunk_size)
                               (acc @ take (nat chunk_size) (drop (nat sector_ofs) bounce)) s } }
         else Some (acc, s))"
  by pat_completeness auto
termination
  by (relation "measure (\<lambda>(rd, idisk, len, offset, acc, s). nat len)") (auto simp: Let_def split: if_splits)

subsection \<open>The write loop\<close>

text \<open>\<open>written\<close> is \<^verbatim>\<open>bytes_written\<close>; the source buffer has to hold the bytes that are copied from it.\<close>

function write_loop ::
  "(u32 \<Rightarrow> 's \<Rightarrow> (byte list \<times> 's) option) \<Rightarrow> (u32 \<Rightarrow> byte list \<Rightarrow> 's \<Rightarrow> 's option) \<Rightarrow> inode_disk \<Rightarrow>
   byte list \<Rightarrow> int \<Rightarrow> int \<Rightarrow> nat \<Rightarrow> 's \<Rightarrow> (nat \<times> 's) option" where
  "write_loop rd wr idisk src len offset written s =
     (let sector_ofs = offset smod 512;
          inode_left = id_length idisk - offset;
          sector_left = 512 - sector_ofs;
          min_left = (if inode_left < sector_left then inode_left else sector_left);
          chunk_size = (if len < min_left then len else min_left)
      in if len > 0
         then do { (sector_idx, s) \<leftarrow> byte_to_sector rd idisk offset s;
                   if chunk_size \<le> 0 then Some (written, s)
                   else if sector_ofs < 0 \<or> length src < written + nat chunk_size then None
                   else do { s \<leftarrow>
                       (if sector_ofs = 0 \<and> chunk_size = 512
                        then wr sector_idx (take 512 (drop written src)) s
                        else do { (bounce, s) \<leftarrow>
                                    (if sector_ofs > 0 \<or> chunk_size < sector_left
                                     then rd sector_idx s else Some (replicate 512 0, s));
                                  wr sector_idx
                                    (overwrite (nat sector_ofs)
                                       (take (nat chunk_size) (drop written src)) bounce) s });
                       write_loop rd wr idisk src (len - chunk_size) (offset + chunk_size)
                         (written + nat chunk_size) s } }
         else Some (written, s))"
  by pat_completeness auto
termination
  by (relation "measure (\<lambda>(rd, wr, idisk, src, len, offset, written, s). nat len)")
    (auto simp: Let_def split: if_splits)

declare read_loop.simps [simp del] write_loop.simps [simp del]

subsection \<open>Encoding\<close>

lemma length_encode_inode:
  "wf_idisk d \<Longrightarrow> length (encode_inode d) = 512"
  by (simp add: encode_inode_def wf_idisk_def DIRECT_BLOCKS_COUNT_def)

lemma sint_word_of_int_i32:
  assumes "- (2 ^ 31) \<le> z" and "z < 2 ^ 31"
  shows "sint (word_of_int z :: u32) = z"
  using assms by (simp add: sint_sbintrunc' signed_take_bit_int_eq_self)

lemma decode_encode_inode:
  assumes "wf_idisk d"
  shows "decode_inode (encode_inode d) = d"
proof -
  let ?p = "direct_blocks d @ [indirect_block d, doubly_indirect_block d]"
  let ?t = "[word_of_int (id_length d), magic d] :: u32 list"
  have lp: "length ?p = 125" and l: "length (direct_blocks d) = 123" "length (id_pad d) = 3"
    using assms by (simp_all add: wf_idisk_def DIRECT_BLOCKS_COUNT_def)
  have ptrs: "words_of_bytes 4 125 (encode_inode d) = ?p"
    unfolding encode_inode_def by (rule words_of_bytes_of_words) (simp_all add: l)
  have front: "length (bytes_of_words 4 ?p) = 500" using lp by simp
  have "drop 504 (encode_inode d) = bytes_of_words 4 ?t @ []"
    using front l(2) by (simp add: encode_inode_def)
  then have tail: "words_of_bytes 4 2 (drop 504 (encode_inode d)) = ?t"
    using words_of_bytes_of_words [of 4 ?t 2 "[]"] by simp
  have "encode_inode d ! 500 = is_dir d"
    using front by (simp add: encode_inode_def nth_append)
  moreover have "take 3 (drop 501 (encode_inode d)) = id_pad d"
    using front l(2) by (simp add: encode_inode_def)
  ultimately show ?thesis
    using ptrs tail l assms
    by (simp add: decode_inode_def Let_def nth_append DIRECT_BLOCKS_COUNT_def wf_idisk_def
        sint_word_of_int_i32)
qed

lemma length_indirect_blocks [simp]: "length (indirect_blocks blk) = 128"
  by (simp add: indirect_blocks_def INDIRECT_BLOCKS_PER_SECTOR_def)

subsection \<open>A file as a list of bytes\<close>

text \<open>The sector of block \<open>i\<close> of a file, and the index blocks consulted to find it.\<close>

definition blk_sector :: "('s \<Rightarrow> u32 \<Rightarrow> byte list) \<Rightarrow> inode_disk \<Rightarrow> 's \<Rightarrow> nat \<Rightarrow> u32" where
  "blk_sector view d s i =
     (if i < 123 then direct_blocks d ! i
      else if i < 251 then indirect_blocks (view s (indirect_block d)) ! (i - 123)
      else indirect_blocks (view s (indirect_blocks (view s (doubly_indirect_block d)) ! ((i - 251) div 128)))
             ! ((i - 251) mod 128))"

definition blk_meta :: "('s \<Rightarrow> u32 \<Rightarrow> byte list) \<Rightarrow> inode_disk \<Rightarrow> 's \<Rightarrow> nat \<Rightarrow> u32 list" where
  "blk_meta view d s i =
     (if i < 123 then []
      else if i < 251 then [indirect_block d]
      else [doubly_indirect_block d,
            indirect_blocks (view s (doubly_indirect_block d)) ! ((i - 251) div 128)])"

definition MAX_BLOCKS :: nat where
  "MAX_BLOCKS = 123 + 128 + 128 * 128"

text \<open>The first \<open>n\<close> blocks are mapped: every sector consulted or reached exists.\<close>

definition mapped ::
  "('s \<Rightarrow> nat) \<Rightarrow> ('s \<Rightarrow> u32 \<Rightarrow> byte list) \<Rightarrow> inode_disk \<Rightarrow> 's \<Rightarrow> nat \<Rightarrow> bool" where
  "mapped nsec view d s n \<longleftrightarrow> length (direct_blocks d) = 123 \<and> n \<le> MAX_BLOCKS \<and>
     (\<forall>i < n. \<forall>k \<in> set (blk_sector view d s i # blk_meta view d s i). unat k < nsec s)"

text \<open>No two blocks share a sector and no data sector is an index block.\<close>

definition separate :: "('s \<Rightarrow> u32 \<Rightarrow> byte list) \<Rightarrow> inode_disk \<Rightarrow> 's \<Rightarrow> nat \<Rightarrow> bool" where
  "separate view d s n \<longleftrightarrow> inj_on (blk_sector view d s) {..<n} \<and>
     (\<forall>i < n. \<forall>j < n. blk_sector view d s i \<notin> set (blk_meta view d s j))"

definition nblocks :: "inode_disk \<Rightarrow> nat" where
  "nblocks d = (nat (id_length d) + 511) div 512"

definition file_byte :: "('s \<Rightarrow> u32 \<Rightarrow> byte list) \<Rightarrow> inode_disk \<Rightarrow> 's \<Rightarrow> nat \<Rightarrow> byte" where
  "file_byte view d s p = view s (blk_sector view d s (p div 512)) ! (p mod 512)"

definition file_data :: "('s \<Rightarrow> u32 \<Rightarrow> byte list) \<Rightarrow> inode_disk \<Rightarrow> 's \<Rightarrow> byte list" where
  "file_data view d s = map (file_byte view d s) [0..<nat (id_length d)]"

definition store_same ::
  "('s \<Rightarrow> bool) \<Rightarrow> ('s \<Rightarrow> nat) \<Rightarrow> ('s \<Rightarrow> u32 \<Rightarrow> byte list) \<Rightarrow> ('s \<Rightarrow> console) \<Rightarrow> 's \<Rightarrow> 's \<Rightarrow> bool" where
  "store_same ok nsec view lg s s' \<longleftrightarrow> ok s' \<and> nsec s' = nsec s \<and> lg s' = lg s \<and>
     (\<forall>j. unat j < nsec s \<longrightarrow> view s' j = view s j)"

lemma length_file_data [simp]: "length (file_data view d s) = nat (id_length d)"
  by (simp add: file_data_def)

lemma nth_file_data: "p < nat (id_length d) \<Longrightarrow> file_data view d s ! p = file_byte view d s p"
  by (simp add: file_data_def)

lemma block_in_file: "p < nat (id_length d) \<Longrightarrow> p div 512 < nblocks d"
  by (simp add: nblocks_def less_eq_div_iff_mult_less_eq Suc_le_eq [symmetric])

lemma store_same_trans:
  "store_same ok nsec view lg s s1 \<Longrightarrow> store_same ok nsec view lg s1 s2 \<Longrightarrow>
     store_same ok nsec view lg s s2"
  by (simp add: store_same_def)

text \<open>The map depends on the index blocks only.\<close>

lemma blk_sector_cong:
  assumes "\<And>k. k \<in> set (blk_meta view d s i) \<Longrightarrow> view s' k = view s k"
  shows "blk_sector view d s' i = blk_sector view d s i" "blk_meta view d s' i = blk_meta view d s i"
  using assms by (auto simp: blk_sector_def blk_meta_def split: if_splits)

lemma mapped_same:
  assumes "mapped nsec view d s n" and "store_same ok nsec view lg s s'" and "i < n"
  shows "blk_sector view d s' i = blk_sector view d s i" "blk_meta view d s' i = blk_meta view d s i"
  using assms by (auto intro!: blk_sector_cong simp: mapped_def store_same_def)

lemma mapped_store_same:
  assumes "mapped nsec view d s n" and "store_same ok nsec view lg s s'"
  shows "mapped nsec view d s' n"
  using assms mapped_same [OF assms] by (simp add: mapped_def store_same_def)

lemma file_data_same:
  assumes "mapped nsec view d s (nblocks d)" and "store_same ok nsec view lg s s'"
  shows "file_data view d s' = file_data view d s"
proof -
  have "file_byte view d s' p = file_byte view d s p" if "p < nat (id_length d)" for p
    using mapped_same(1) [OF assms block_in_file [OF that]] assms block_in_file [OF that]
    by (simp add: file_byte_def mapped_def store_same_def)
  then show ?thesis by (simp add: file_data_def)
qed

text \<open>One chunk: it ends at the end of the sector, of the file, or of the request.\<close>

definition chunk :: "inode_disk \<Rightarrow> nat \<Rightarrow> nat \<Rightarrow> nat" where
  "chunk d n p = min n (min (nat (id_length d) - p) (512 - p mod 512))"

lemma chunk_bounds:
  assumes "0 < n" and "p < nat (id_length d)"
  shows "0 < chunk d n p" "chunk d n p \<le> n" "p mod 512 + chunk d n p \<le> 512"
    "p + chunk d n p \<le> nat (id_length d)"
  using assms mod_less_divisor [of 512 p] unfolding chunk_def by linarith+

lemma chunk_int:
  assumes "p \<le> nat (id_length d)" and "0 \<le> id_length d"
  shows "min (int n) (min (id_length d - int p) (512 - int (p mod 512))) = int (chunk d n p)"
proof -
  have "int (nat (id_length d) - p) = id_length d - int p" using assms by linarith
  moreover have "int (512 - p mod 512) = 512 - int (p mod 512)"
    using mod_less_divisor [of 512 p] by linarith
  ultimately show ?thesis
    unfolding chunk_def of_nat_min by simp
qed

lemma div_mod_same_block:
  fixes p j :: nat
  assumes "p mod 512 + j < 512"
  shows "(p + j) div 512 = p div 512" "(p + j) mod 512 = p mod 512 + j"
proof -
  have eq: "p + j = (p mod 512 + j) + p div 512 * 512" by simp
  show "(p + j) div 512 = p div 512"
    by (subst eq, subst div_mult_self1) (simp_all add: assms)
  show "(p + j) mod 512 = p mod 512 + j"
    by (subst eq, subst mod_mult_self1) (simp add: assms)
qed

lemma chunk_data:
  assumes "0 < n" and "p < nat (id_length d)" and "length (view s (blk_sector view d s (p div 512))) = 512"
  shows "take (chunk d n p) (drop (p mod 512) (view s (blk_sector view d s (p div 512)))) =
    take (chunk d n p) (drop p (file_data view d s))"
proof (rule list_eq_nthI)
  note cb = chunk_bounds [OF assms(1,2)]
  let ?v = "view s (blk_sector view d s (p div 512))" and ?q = "chunk d n p"
  show "length (take ?q (drop (p mod 512) ?v)) = length (take ?q (drop p (file_data view d s)))"
    using cb assms(3) by simp
  fix j assume "j < length (take ?q (drop (p mod 512) ?v))"
  then have j: "j < ?q" by simp
  then have lt: "p mod 512 + j < 512" using cb by linarith
  show "take ?q (drop (p mod 512) ?v) ! j = take ?q (drop p (file_data view d s)) ! j"
    using j cb assms(3) by (simp add: nth_file_data file_byte_def div_mod_same_block [OF lt])
qed

text \<open>Writing one data sector of a file changes the bytes of that block and nothing else: the map
  of the file stays as it was.\<close>

definition store_upd ::
  "('s \<Rightarrow> bool) \<Rightarrow> ('s \<Rightarrow> nat) \<Rightarrow> ('s \<Rightarrow> u32 \<Rightarrow> byte list) \<Rightarrow> ('s \<Rightarrow> console) \<Rightarrow> u32 \<Rightarrow> byte list \<Rightarrow>
   's \<Rightarrow> 's \<Rightarrow> bool" where
  "store_upd ok nsec view lg k bs s s' \<longleftrightarrow> ok s' \<and> nsec s' = nsec s \<and> lg s' = lg s \<and>
     (\<forall>j. unat j < nsec s \<longrightarrow> view s' j = (if j = k then bs else view s j))"

definition same_map :: "('s \<Rightarrow> u32 \<Rightarrow> byte list) \<Rightarrow> inode_disk \<Rightarrow> 's \<Rightarrow> 's \<Rightarrow> nat \<Rightarrow> bool" where
  "same_map view d s s' n \<longleftrightarrow>
     (\<forall>i < n. blk_sector view d s' i = blk_sector view d s i \<and> blk_meta view d s' i = blk_meta view d s i)"

lemma same_map_upd:
  assumes m: "mapped nsec view d s n" and sep: "separate view d s n" and b: "b < n"
    and upd: "store_upd ok nsec view lg (blk_sector view d s b) bs s s'"
  shows "same_map view d s s' n"
  unfolding same_map_def
proof (intro allI impI)
  fix i assume "i < n"
  then have "view s' k = view s k" if "k \<in> set (blk_meta view d s i)" for k
    using that m sep b upd by (auto simp: mapped_def separate_def store_upd_def)
  then show "blk_sector view d s' i = blk_sector view d s i \<and> blk_meta view d s' i = blk_meta view d s i"
    using blk_sector_cong by metis
qed

lemma same_map_keeps:
  assumes "same_map view d s s' n"
  shows "separate view d s n \<Longrightarrow> separate view d s' n"
    and "nsec s' = nsec s \<Longrightarrow> mapped nsec view d s n \<Longrightarrow> mapped nsec view d s' n"
  using assms by (simp_all add: same_map_def separate_def mapped_def inj_on_def)

lemma file_data_upd:
  assumes m: "mapped nsec view d s (nblocks d)" and sep: "separate view d s (nblocks d)"
    and p: "p mod 512 + length bs \<le> 512" "p + length bs \<le> nat (id_length d)" "bs \<noteq> []"
    and len: "length (view s (blk_sector view d s (p div 512))) = 512"
    and upd: "store_upd ok nsec view lg (blk_sector view d s (p div 512))
        (overwrite (p mod 512) bs (view s (blk_sector view d s (p div 512)))) s s'"
  shows "file_data view d s' = overwrite p bs (file_data view d s)"
proof (rule list_eq_nthI)
  let ?k = "blk_sector view d s (p div 512)"
  have pb: "p div 512 < nblocks d"
    using p by (intro block_in_file) (simp add: less_le_trans [of p "p + length bs"])
  show "length (file_data view d s') = length (overwrite p bs (file_data view d s))"
    using p by simp
  fix r assume "r < length (file_data view d s')"
  then have r: "r < nat (id_length d)" by simp
  note rb = block_in_file [OF r]
  have kr: "blk_sector view d s' (r div 512) = blk_sector view d s (r div 512)"
    using same_map_upd [OF m sep pb upd] rb by (simp add: same_map_def)
  have lt: "unat (blk_sector view d s (r div 512)) < nsec s" using m rb by (simp add: mapped_def)
  have in_run: "p \<le> r \<and> r < p + length bs \<longleftrightarrow>
      r div 512 = p div 512 \<and> p mod 512 \<le> r mod 512 \<and> r mod 512 < p mod 512 + length bs"
  proof
    assume l: "p \<le> r \<and> r < p + length bs"
    then have "p mod 512 + (r - p) < 512" using p(1) by linarith
    from div_mod_same_block [OF this] l
    show "r div 512 = p div 512 \<and> p mod 512 \<le> r mod 512 \<and> r mod 512 < p mod 512 + length bs" by auto
  next
    assume "r div 512 = p div 512 \<and> p mod 512 \<le> r mod 512 \<and> r mod 512 < p mod 512 + length bs"
    then show "p \<le> r \<and> r < p + length bs"
      using div_mult_mod_eq [of r 512] div_mult_mod_eq [of p 512] by linarith
  qed
  have same: "blk_sector view d s (r div 512) = ?k \<longleftrightarrow> r div 512 = p div 512"
    using sep rb pb by (auto simp: separate_def dest: inj_onD)
  have byte: "file_byte view d s' r =
      (if r div 512 = p div 512 then overwrite (p mod 512) bs (view s ?k) ! (r mod 512)
       else file_byte view d s r)"
    using upd lt same kr by (simp add: file_byte_def store_upd_def)
  have off: "r mod 512 - p mod 512 = r - p" if "r div 512 = p div 512" "p mod 512 \<le> r mod 512"
    using that div_mult_mod_eq [of r 512] div_mult_mod_eq [of p 512] by linarith
  have "file_byte view d s' r = (if p \<le> r \<and> r < p + length bs then bs ! (r - p) else file_byte view d s r)"
    unfolding byte in_run using p(1) len off by (auto simp: nth_overwrite file_byte_def)
  then show "file_data view d s' ! r = overwrite p bs (file_data view d s) ! r"
    using r p(2) by (simp add: nth_file_data nth_overwrite)
qed

subsection \<open>The loops on every sector store\<close>

context sector_store
begin

lemma index_to_sector_ok:
  assumes inv: "sinv s" and m: "mapped nsec view d s n" and i: "i < n"
  shows "\<exists>s'. index_to_sector rd d (int i) s = Some (blk_sector view d s i, s') \<and>
    store_same sinv nsec view lg s s'"
proof -
  consider (direct) "i < 123" | (single) "123 \<le> i" "i < 251"
    | (double) "251 \<le> i" "i < 123 + 128 + 128 * 128"
    using m i unfolding mapped_def MAX_BLOCKS_def by linarith
  then show ?thesis
  proof cases
    case direct
    then show ?thesis
      using inv by (simp add: index_to_sector_def blk_sector_def store_same_def)
  next
    case single
    then have "unat (indirect_block d) < nsec s"
      using m i by (auto simp: mapped_def blk_meta_def)
    then obtain s' where s': "rd (indirect_block d) s = Some (view s (indirect_block d), s')"
      "store_same sinv nsec view lg s s'"
      using sread_ok [OF inv, of "indirect_block d"] unfolding store_same_def by blast
    have "nat (int i - 123) = i - 123" using single by simp
    then show ?thesis
      using single s' by (simp add: index_to_sector_def blk_sector_def)
  next
    case double
    let ?f = "(i - 251) div 128" and ?g = "(i - 251) mod 128" and ?k = "doubly_indirect_block d"
    let ?e = "indirect_blocks (view s ?k) ! ?f"
    have k: "unat ?k < nsec s" and e: "unat ?e < nsec s"
      using m i double by (auto simp: mapped_def blk_meta_def)
    obtain s1 where s1: "rd ?k s = Some (view s ?k, s1)" "store_same sinv nsec view lg s s1"
      using sread_ok [OF inv k] unfolding store_same_def by blast
    then obtain s2 where s2: "rd ?e s1 = Some (view s ?e, s2)" "store_same sinv nsec view lg s1 s2"
      using sread_ok [of s1 ?e] e by (auto simp: store_same_def)
    have "int i - 251 = int (i - 251)" using double by simp
    then have "nat ((int i - 251) sdiv 128) = ?f" "nat ((int i - 251) smod 128) = ?g"
      by (simp_all only: int_sdiv int_smod nat_int)
    then show ?thesis
      using double s1 s2 store_same_trans [OF s1(2) s2(2)]
      by (simp add: index_to_sector_def blk_sector_def Let_def)
  qed
qed

lemma byte_to_sector_ok:
  assumes "sinv s" and "mapped nsec view d s (nblocks d)" and "p < nat (id_length d)"
  shows "\<exists>s'. byte_to_sector rd d (int p) s = Some (blk_sector view d s (p div 512), s') \<and>
    store_same sinv nsec view lg s s'"
proof -
  have "int p < id_length d" using assms(3) by linarith
  then show ?thesis
    using index_to_sector_ok [OF assms(1,2) block_in_file [OF assms(3)]]
    by (simp add: byte_to_sector_def int_sdiv)
qed

text \<open>One round of the read loop copies one chunk of the file.\<close>

lemma read_step_ok:
  assumes "sinv s" and "mapped nsec view d s (nblocks d)" and "p < nat (id_length d)" and "0 < n"
  shows "\<exists>s'. read_loop rd d (int n) (int p) acc s =
      read_loop rd d (int (n - chunk d n p)) (int (p + chunk d n p))
        (acc @ take (chunk d n p) (drop p (file_data view d s))) s' \<and>
    store_same sinv nsec view lg s s'"
proof -
  let ?k = "blk_sector view d s (p div 512)" and ?q = "chunk d n p"
  note cb = chunk_bounds [OF assms(4,3)]
  obtain s1 where s1: "byte_to_sector rd d (int p) s = Some (?k, s1)" "store_same sinv nsec view lg s s1"
    using byte_to_sector_ok [OF assms(1-3)] by blast
  have k: "unat ?k < nsec s"
    using assms(2) block_in_file [OF assms(3)] by (simp add: mapped_def)
  obtain s2 where s2: "rd ?k s1 = Some (view s ?k, s2)" "store_same sinv nsec view lg s1 s2"
    using sread_ok [of s1 ?k] s1(2) k by (auto simp: store_same_def)
  have len: "length (view s ?k) = 512" by (rule sview_length [OF assms(1) k])
  note data = chunk_data [where view = view, OF assms(4,3) len]
  have ci: "min (int n) (min (id_length d - int p) (512 - int (p mod 512))) = int ?q"
    using assms(3) by (intro chunk_int) linarith+
  have adv: "int n - int ?q = int (n - ?q)" "int p + int ?q = int (p + ?q)" using cb by simp_all
  have full: "view s ?k = take ?q (drop p (file_data view d s))" if "p mod 512 = 0" "?q = 512"
    using data that len by simp
  have "read_loop rd d (int n) (int p) acc s =
      read_loop rd d (int (n - ?q)) (int (p + ?q)) (acc @ take ?q (drop p (file_data view d s))) s2"
    using assms(4) cb(1) s1(1) s2(1) full
    by (subst read_loop.simps, simp only: Let_def int_smod if_less_min ci adv) (simp add: data)
  then show ?thesis
    using store_same_trans [OF s1(2) s2(2)] by blast
qed

text \<open>Reading returns the bytes of the file in the requested range, cut at the end of the file.\<close>

lemma read_loop_ok:
  assumes "sinv s" and "mapped nsec view d s (nblocks d)" and "0 \<le> id_length d"
  shows "\<exists>s'. read_loop rd d (int n) (int p) acc s =
      Some (acc @ take n (drop p (file_data view d s)), s') \<and> store_same sinv nsec view lg s s'"
  using assms
proof (induction n arbitrary: p acc s rule: less_induct)
  case (less n)
  let ?q = "chunk d n p"
  consider (none) "n = 0" | (eof) "0 < n" "nat (id_length d) \<le> p" | (step) "0 < n" "p < nat (id_length d)"
    by linarith
  then show ?case
  proof cases
    case none
    then show ?thesis
      using less.prems(1) by (subst read_loop.simps) (simp add: Let_def store_same_def)
  next
    case eof
    have ge: "id_length d \<le> int p" using eof(2) by linarith
    then have "byte_to_sector rd d (int p) s = Some (- 1, s)" by (simp add: byte_to_sector_def)
    then show ?thesis
      using less.prems(1) eof ge
      by (subst read_loop.simps) (simp add: Let_def if_less_min min_le_iff_disj store_same_def)
  next
    case step
    note cb = chunk_bounds [OF step]
    obtain s1 where s1: "read_loop rd d (int n) (int p) acc s =
        read_loop rd d (int (n - ?q)) (int (p + ?q)) (acc @ take ?q (drop p (file_data view d s))) s1"
      "store_same sinv nsec view lg s s1"
      using read_step_ok [OF less.prems(1,2) step(2,1)] by blast
    have same: "file_data view d s1 = file_data view d s"
      by (rule file_data_same [OF less.prems(2) s1(2)])
    have "\<exists>s2. read_loop rd d (int (n - ?q)) (int (p + ?q))
          (acc @ take ?q (drop p (file_data view d s))) s1 =
        Some ((acc @ take ?q (drop p (file_data view d s))) @
          take (n - ?q) (drop (p + ?q) (file_data view d s1)), s2) \<and>
      store_same sinv nsec view lg s1 s2"
      using cb step(1) less.prems(3) s1(2) mapped_store_same [OF less.prems(2) s1(2)]
      by (intro less.IH) (simp_all add: store_same_def)
    then obtain s2 where s2: "read_loop rd d (int (n - ?q)) (int (p + ?q))
          (acc @ take ?q (drop p (file_data view d s))) s1 =
        Some ((acc @ take ?q (drop p (file_data view d s))) @
          take (n - ?q) (drop (p + ?q) (file_data view d s)), s2)"
      "store_same sinv nsec view lg s1 s2"
      unfolding same by blast
    have "take ?q (drop p (file_data view d s)) @ take (n - ?q) (drop (p + ?q) (file_data view d s)) =
        take n (drop p (file_data view d s))"
      using take_add [of ?q "n - ?q" "drop p (file_data view d s)"] cb(2) by (simp add: add.commute)
    then show ?thesis
      using s1(1) s2(1) store_same_trans [OF s1(2) s2(2)] by simp
  qed
qed

text \<open>One round of the write loop stores one chunk in the block that holds the current offset.\<close>

lemma write_step_ok:
  assumes "sinv s" and "mapped nsec view d s (nblocks d)" and "0 < n"
    and "p + n \<le> nat (id_length d)" and "w + n \<le> length src"
  shows "\<exists>s'. write_loop rd wr d src (int n) (int p) w s =
      write_loop rd wr d src (int (n - chunk d n p)) (int (p + chunk d n p)) (w + chunk d n p) s' \<and>
    store_upd sinv nsec view lg (blk_sector view d s (p div 512))
      (overwrite (p mod 512) (take (chunk d n p) (drop w src)) (view s (blk_sector view d s (p div 512)))) s s'"
proof -
  let ?k = "blk_sector view d s (p div 512)" and ?q = "chunk d n p"
  let ?new = "overwrite (p mod 512) (take ?q (drop w src)) (view s ?k)"
  have p: "p < nat (id_length d)" using assms(3,4) by linarith
  note cb = chunk_bounds [OF assms(3) p]
  obtain s1 where s1: "byte_to_sector rd d (int p) s = Some (?k, s1)" "store_same sinv nsec view lg s s1"
    using byte_to_sector_ok [OF assms(1,2) p] by blast
  have k: "unat ?k < nsec s" using assms(2) block_in_file [OF p] by (simp add: mapped_def)
  obtain s2 where s2: "rd ?k s1 = Some (view s ?k, s2)" "store_same sinv nsec view lg s1 s2"
    using sread_ok [of s1 ?k] s1(2) k by (auto simp: store_same_def)
  have len: "length (view s ?k) = 512" by (rule sview_length [OF assms(1) k])
  have ln: "length ?new = 512" using cb assms(5) len by simp
  have put: "\<exists>s'. wr ?k ?new t = Some s' \<and> store_upd sinv nsec view lg ?k ?new s s'"
    if "store_same sinv nsec view lg s t" for t
    using swrite_ok [of t ?k ?new] that k ln by (auto simp: store_same_def store_upd_def)
  have ci: "min (int n) (min (id_length d - int p) (512 - int (p mod 512))) = int ?q"
    using p by (intro chunk_int) linarith+
  have adv: "int n - int ?q = int (n - ?q)" "int p + int ?q = int (p + ?q)" using cb by simp_all
  have src: "\<not> length src < w + ?q" using assms(5) cb by linarith
  note unf = write_loop.simps [of rd wr d src "int n" "int p" w s, unfolded Let_def int_smod if_less_min ci adv]
  show ?thesis
  proof (cases "p mod 512 = 0 \<and> ?q = 512")
    case True
    then have full: "?new = take 512 (drop w src)"
      using assms(5) cb len by (simp add: overwrite_all)
    obtain s3 where "wr ?k ?new s1 = Some s3" "store_upd sinv nsec view lg ?k ?new s s3"
      using put [OF s1(2)] by blast
    then show ?thesis
      using True assms(3) s1(1) src full by (subst unf) auto
  next
    case False
    then have part: "0 < p mod 512 \<or> ?q < 512 - p mod 512" using cb by linarith
    obtain s3 where "wr ?k ?new s2 = Some s3" "store_upd sinv nsec view lg ?k ?new s s3"
      using put [OF store_same_trans [OF s1(2) s2(2)]] by blast
    moreover have "int (p mod 512) > 0 \<or> int ?q < 512 - int (p mod 512)" using part by linarith
    ultimately show ?thesis
      using False assms(3) s1(1) s2(1) src cb(1)
      by (subst unf) auto
  qed
qed

text \<open>Writing inside the file: every byte is written, the bytes of the file become the old ones with
  the run overwritten, and no sector outside the file's data sectors changes.\<close>

lemma write_loop_ok:
  assumes "sinv s" and "mapped nsec view d s (nblocks d)" and "separate view d s (nblocks d)"
    and "p + n \<le> nat (id_length d)" and "w + n \<le> length src"
  shows "\<exists>s'. write_loop rd wr d src (int n) (int p) w s = Some (w + n, s') \<and>
    sinv s' \<and> nsec s' = nsec s \<and> lg s' = lg s \<and> same_map view d s s' (nblocks d) \<and>
    file_data view d s' = overwrite p (take n (drop w src)) (file_data view d s) \<and>
    (\<forall>j. unat j < nsec s \<longrightarrow> j \<notin> blk_sector view d s ` {..<nblocks d} \<longrightarrow> view s' j = view s j)"
  using assms
proof (induction n arbitrary: p w s rule: less_induct)
  case (less n)
  show ?case
  proof (cases "n = 0")
    case True
    then show ?thesis
      using less.prems(1) by (subst write_loop.simps) (simp add: Let_def same_map_def)
  next
    case False
    let ?q = "chunk d n p" and ?k = "blk_sector view d s (p div 512)"
    let ?bs = "take ?q (drop w src)"
    have n: "0 < n" and p: "p < nat (id_length d)" using False less.prems(4) by linarith+
    note cb = chunk_bounds [OF n p]
    obtain s1 where s1: "write_loop rd wr d src (int n) (int p) w s =
        write_loop rd wr d src (int (n - ?q)) (int (p + ?q)) (w + ?q) s1"
      and upd: "store_upd sinv nsec view lg ?k (overwrite (p mod 512) ?bs (view s ?k)) s s1"
      using write_step_ok [OF less.prems(1,2) n less.prems(4,5)] by blast
    have map: "same_map view d s s1 (nblocks d)"
      by (rule same_map_upd [OF less.prems(2,3) block_in_file [OF p] upd])
    have inv1: "sinv s1" "nsec s1 = nsec s" "lg s1 = lg s" using upd by (simp_all add: store_upd_def)
    have lb: "length ?bs = ?q" using less.prems(5) cb by simp
    have k: "unat ?k < nsec s" using less.prems(2) block_in_file [OF p] by (simp add: mapped_def)
    have fd: "file_data view d s1 = overwrite p ?bs (file_data view d s)"
      using cb lb by (intro file_data_upd [OF less.prems(2,3) _ _ _ _ upd]) (auto simp: sview_length less.prems(1) k)
    have "\<exists>s'. write_loop rd wr d src (int (n - ?q)) (int (p + ?q)) (w + ?q) s1 = Some (w + ?q + (n - ?q), s') \<and>
      sinv s' \<and> nsec s' = nsec s1 \<and> lg s' = lg s1 \<and> same_map view d s1 s' (nblocks d) \<and>
      file_data view d s' = overwrite (p + ?q) (take (n - ?q) (drop (w + ?q) src)) (file_data view d s1) \<and>
      (\<forall>j. unat j < nsec s1 \<longrightarrow> j \<notin> blk_sector view d s1 ` {..<nblocks d} \<longrightarrow> view s' j = view s1 j)"
      using cb n less.prems(2-5) inv1 same_map_keeps [OF map] by (intro less.IH) auto
    then obtain s2 where s2: "write_loop rd wr d src (int (n - ?q)) (int (p + ?q)) (w + ?q) s1 = Some (w + n, s2)"
      "sinv s2" "nsec s2 = nsec s" "lg s2 = lg s" "same_map view d s1 s2 (nblocks d)"
      "file_data view d s2 = overwrite (p + ?q) (take (n - ?q) (drop (w + ?q) src)) (file_data view d s1)"
      "\<forall>j. unat j < nsec s \<longrightarrow> j \<notin> blk_sector view d s1 ` {..<nblocks d} \<longrightarrow> view s2 j = view s1 j"
      using cb(2) inv1 by (auto simp: add.assoc)
    have "take ?q (drop w src) @ take (n - ?q) (drop (w + ?q) src) = take n (drop w src)"
      using take_add [of ?q "n - ?q" "drop w src"] cb(2) by (simp add: add.commute)
    then have "file_data view d s2 = overwrite p (take n (drop w src)) (file_data view d s)"
      unfolding s2(6) fd using overwrite_append [of p ?bs "take (n - ?q) (drop (w + ?q) src)" "file_data view d s"]
        lb less.prems(4,5) cb by simp
    moreover have "blk_sector view d s1 ` {..<nblocks d} = blk_sector view d s ` {..<nblocks d}"
      using map by (simp add: same_map_def)
    ultimately show ?thesis
      using s1 s2 map upd block_in_file [OF p] by (auto simp: same_map_def store_upd_def)
  qed
qed

end

subsection \<open>Properties\<close>

text \<open>An inode written to its sector and read back is the same inode.\<close>

theorem inode_image_roundtrip:
  assumes "wf_idisk d"
  shows "length (encode_inode d) = BLOCK_SECTOR_SIZE \<and> decode_inode (encode_inode d) = d"
  using length_encode_inode [OF assms] decode_encode_inode [OF assms] by (simp add: BLOCK_SECTOR_SIZE_def)

definition sample_idisk :: inode_disk where
  "sample_idisk = idisk_zero\<lparr>direct_blocks := (direct_blocks idisk_zero)[0 := 1], id_length := 10,
     magic := INODE_MAGIC\<rparr>"

lemma sample_idisk_facts:
  "wf_idisk sample_idisk" "id_length sample_idisk = 10" "length (direct_blocks sample_idisk) = 123"
  "direct_blocks sample_idisk ! 0 = 1" "nblocks sample_idisk = 1"
  by (simp_all add: sample_idisk_def wf_idisk_def idisk_zero_def DIRECT_BLOCKS_COUNT_def nblocks_def)

theorem inode_image_roundtrip_witness: "decode_inode (encode_inode sample_idisk) = sample_idisk"
  using inode_image_roundtrip [OF sample_idisk_facts(1)] by blast

definition sample_cstate :: cstate where
  "sample_cstate = \<lparr>ccache = buffer_cache_init cache_zero, cdev = sample_disk (replicate 512 0), fs_device = 1\<rparr>"

lemma sample_cstate_facts:
  "bc_inv sample_cstate" "bc_nsec sample_cstate = 2"
  "mapped bc_nsec bc_view sample_idisk sample_cstate (nblocks sample_idisk)"
  "separate bc_view sample_idisk sample_cstate (nblocks sample_idisk)"
  using sample_cache_inv sample_idisk_facts
  by (simp_all add: sample_cstate_def bc_inv_def bc_nsec_def mapped_def MAX_BLOCKS_def blk_sector_def
      blk_meta_def sample_disk_inv separate_def inj_on_def)

text \<open>The loop of \<^verbatim>\<open>inode_read_at\<close> returns exactly the bytes of the file in the requested range, cut at the
  end of the file, through direct, indirect and doubly indirect blocks alike; reading changes no
  sector.\<close>

theorem inode_read_loop_returns_data:
  assumes "bc_inv s" and "mapped bc_nsec bc_view d s (nblocks d)" and "0 \<le> id_length d"
  shows "\<exists>s'. read_loop bc_read d (int n) (int p) [] s =
      Some (take n (drop p (file_data bc_view d s)), s') \<and>
    store_same bc_inv bc_nsec bc_view bc_console s s'"
  using cached.read_loop_ok [OF assms, of n p "[]"] by simp

theorem inode_read_loop_returns_data_witness:
  "\<exists>s'. read_loop bc_read sample_idisk 20 4 [] sample_cstate =
     Some (take 20 (drop 4 (file_data bc_view sample_idisk sample_cstate)), s')"
  using inode_read_loop_returns_data [OF sample_cstate_facts(1,3), of 20 4] by (auto simp: sample_idisk_facts)

text \<open>The loop of \<^verbatim>\<open>inode_write_at\<close> inside the file writes every byte: the contents of the file become the
  old ones with the run overwritten, and no sector that does not hold data of the file changes.\<close>

theorem inode_write_loop_stores_data:
  assumes "bc_inv s" and "mapped bc_nsec bc_view d s (nblocks d)" and "separate bc_view d s (nblocks d)"
    and "p + n \<le> nat (id_length d)" and "n \<le> length src"
  shows "\<exists>s'. write_loop bc_read bc_write d src (int n) (int p) 0 s = Some (n, s') \<and>
    bc_inv s' \<and> bc_console s' = bc_console s \<and>
    file_data bc_view d s' = overwrite p (take n src) (file_data bc_view d s) \<and>
    (\<forall>j. unat j < bc_nsec s \<longrightarrow> j \<notin> blk_sector bc_view d s ` {..<nblocks d} \<longrightarrow> bc_view s' j = bc_view s j)"
  using cached.write_loop_ok [OF assms(1-4), of 0 src] assms(5) by auto

theorem inode_write_loop_stores_data_witness:
  "\<exists>s'. write_loop bc_read bc_write sample_idisk [1, 2, 3] 3 4 0 sample_cstate = Some (3, s') \<and>
     file_data bc_view sample_idisk s' =
       overwrite 4 [1, 2, 3] (file_data bc_view sample_idisk sample_cstate)"
  using inode_write_loop_stores_data [OF sample_cstate_facts(1,3,4), of 4 3 "[1, 2, 3]"]
  by (auto simp: sample_idisk_facts)

end
