(* ===== verification/Inode.thy ===== *)
theory Inode
  imports Bitmap Inode_Data
begin

text \<open>
  The state of the file system and the operations of \<^verbatim>\<open>a3/fs/inode.c\<close>, \<^verbatim>\<open>a3/fs/free-map.c\<close> and
  \<^verbatim>\<open>a3/fs/file.c\<close> on it, with the file side of \<^verbatim>\<open>a3/fs/bitmap.c\<close>.

  Open inodes, files and directories are objects on the heap; a pointer is an address, and an
  access to an address without an object (never allocated, or freed) is undefined. \<^verbatim>\<open>malloc\<close> and
  \<^verbatim>\<open>calloc\<close> of a small object are taken to succeed. The list of open inodes is the list of their
  addresses.

  \<^verbatim>\<open>free_map_allocate\<close> writes the free map to its file, writing a file may extend it, and extending it
  allocates sectors: the functions are mutually recursive. \<open>alloc\<close> is \<^verbatim>\<open>free_map_allocate(1, .)\<close> as the
  functions below it call it, and \<open>free_map_allocate\<close> ties the knot with a bound on the depth of the
  recursion. The depth is 1 when the free map file has its full length, since then writing it does
  not extend it.
\<close>

type_synonym addr = nat

record inode =
  sector :: u32
  open_cnt :: int
  removed :: bool
  deny_write_cnt :: int
  data :: inode_disk

record file_obj =
  file_inode :: addr
  pos :: int
  deny_write :: bool

record dir =
  dir_inode :: addr
  dir_pos :: int
  dir_open_cnt :: int

record fs =
  cst :: cstate
  free_map :: bitmap
  free_map_file :: "addr option"
  inodes :: "addr \<rightharpoonup> inode"
  open_inodes :: "addr list"
  scratch :: "inode_disk option"
  files :: "addr \<rightharpoonup> file_obj"
  dirs :: "addr \<rightharpoonup> dir"
  cwd :: "addr option"
  file_table :: "(string \<times> addr) list"
  next_addr :: addr

type_synonym allocator = "fs \<Rightarrow> (u32 option \<times> fs) option"

definition FREE_MAP_SECTOR :: u32 where
  "FREE_MAP_SECTOR = 0"

definition ROOT_DIR_SECTOR :: u32 where
  "ROOT_DIR_SECTOR = 1"

subsection \<open>Access to the layers below\<close>

definition fs_log :: "fs \<Rightarrow> console" where
  "fs_log s = bc_console (cst s)"

definition set_log :: "console \<Rightarrow> fs \<Rightarrow> fs" where
  "set_log lg s = s\<lparr>cst := (cst s)\<lparr>cdev := (cdev (cst s))\<lparr>Block.console := lg\<rparr>\<rparr>\<rparr>"

definition fs_assert :: "bool \<Rightarrow> string \<Rightarrow> fs \<Rightarrow> fs" where
  "fs_assert c fn s = set_log (ASSERT c fn (fs_log s)) s"

definition fs_panic :: "string \<Rightarrow> fs \<Rightarrow> fs" where
  "fs_panic fn s = set_log (debug_panic fn (fs_log s)) s"

definition fs_print :: "string \<Rightarrow> fs \<Rightarrow> fs" where
  "fs_print msg s = set_log (fs_log s @ [Print msg]) s"

definition sector_read :: "u32 \<Rightarrow> fs \<Rightarrow> (byte list \<times> fs) option" where
  "sector_read k s = do { (b, c) \<leftarrow> bc_read k (cst s); Some (b, s\<lparr>cst := c\<rparr>) }"

definition sector_write :: "u32 \<Rightarrow> byte list \<Rightarrow> fs \<Rightarrow> fs option" where
  "sector_write k src s = do { c \<leftarrow> bc_write k src (cst s); Some (s\<lparr>cst := c\<rparr>) }"

definition zeros :: "byte list" where
  "zeros = replicate 512 0"

text \<open>A \<^verbatim>\<open>struct inode_disk *\<close> points into an open inode or to the object \<^verbatim>\<open>inode_create\<close> builds.\<close>

datatype disk_ref = Of_inode addr | Of_scratch

definition get_disk :: "disk_ref \<Rightarrow> fs \<Rightarrow> inode_disk option" where
  "get_disk r s = (case r of Of_inode p \<Rightarrow> map_option data (inodes s p) | Of_scratch \<Rightarrow> scratch s)"

definition upd_inode :: "addr \<Rightarrow> (inode \<Rightarrow> inode) \<Rightarrow> fs \<Rightarrow> fs option" where
  "upd_inode p f s = do { i \<leftarrow> inodes s p; Some (s\<lparr>inodes := (inodes s)(p \<mapsto> f i)\<rparr>) }"

definition upd_disk :: "disk_ref \<Rightarrow> (inode_disk \<Rightarrow> inode_disk) \<Rightarrow> fs \<Rightarrow> fs option" where
  "upd_disk r f s =
     (case r of
        Of_inode p \<Rightarrow> upd_inode p (\<lambda>i. i\<lparr>data := f (data i)\<rparr>) s
      | Of_scratch \<Rightarrow> do { d \<leftarrow> scratch s; Some (s\<lparr>scratch := Some (f d)\<rparr>) })"

subsection \<open>Growing a file: inode_reserve\<close>

text \<open>\<^verbatim>\<open>p_entry\<close> points into the inode in the outermost call and into a local array in the others. The
  functions pass and return the entry's value; \<open>commit\<close> stores it in the inode as soon as the code
  does. The level is at most 2. A failed allocation of an index block is not noticed: the
  entry is still 0 and sector 0 is used.\<close>

fun inode_reserve_indirect ::
    "allocator \<Rightarrow> nat \<Rightarrow> (u32 \<Rightarrow> fs \<Rightarrow> fs option) \<Rightarrow> u32 \<Rightarrow> nat \<Rightarrow> fs \<Rightarrow> (bool \<times> u32 \<times> fs) option"
  and reserve_entries ::
    "allocator \<Rightarrow> nat \<Rightarrow> nat \<Rightarrow> nat \<Rightarrow> nat \<Rightarrow> u32 list \<Rightarrow> nat \<Rightarrow> fs \<Rightarrow> (bool \<times> nat \<times> u32 list \<times> fs) option" where
  "inode_reserve_indirect alloc 0 commit entry num_sectors s =
     (if entry = 0
      then do { (r, s) \<leftarrow> alloc s;
                case r of
                  None \<Rightarrow> Some (False, entry, s)
                | Some entry \<Rightarrow> do { s \<leftarrow> commit entry s; s \<leftarrow> sector_write entry zeros s; Some (True, entry, s) } }
      else Some (True, entry, s))"
| "inode_reserve_indirect alloc (Suc level) commit entry num_sectors s =
     do { let s = fs_assert (Suc level \<le> 2) ''inode_reserve_indirect'' s;
          (entry, s) \<leftarrow>
            (if entry = 0
             then do { (r, s) \<leftarrow> alloc s;
                       (entry, s) \<leftarrow> (case r of
                           None \<Rightarrow> Some (entry, s)
                         | Some e \<Rightarrow> do { s \<leftarrow> commit e s; Some (e, s) });
                       s \<leftarrow> sector_write entry zeros s;
                       Some (entry, s) }
             else Some (entry, s));
          (blk, s) \<leftarrow> sector_read entry s;
          let unit = (if Suc level = 1 then 1 else INDIRECT_BLOCKS_PER_SECTOR);
          (ok, num_sectors, ents, s) \<leftarrow>
            reserve_entries alloc level unit (DIV_ROUND_UP num_sectors unit) 0 (indirect_blocks blk) num_sectors s;
          if \<not> ok then Some (False, entry, s)
          else do { let s = fs_assert (num_sectors = 0) ''inode_reserve_indirect'' s;
                    s \<leftarrow> sector_write entry (bytes_of_words 4 ents) s;
                    Some (True, entry, s) } }"
| "reserve_entries alloc level unit 0 i ents num_sectors s = Some (True, num_sectors, ents, s)"
| "reserve_entries alloc level unit (Suc l) i ents num_sectors s =
     (if i < length ents
      then do { let subsize = min num_sectors unit;
                (ok, entry, s) \<leftarrow> inode_reserve_indirect alloc level (\<lambda>_ s. Some s) (ents ! i) subsize s;
                let ents = ents[i := entry];
                if \<not> ok then Some (False, num_sectors, ents, s)
                else reserve_entries alloc level unit l (Suc i) ents (num_sectors - subsize) s }
      else None)"

text \<open>The loop over the direct blocks, from \<open>i\<close>, \<open>l\<close> blocks left.\<close>

fun reserve_direct :: "allocator \<Rightarrow> disk_ref \<Rightarrow> nat \<Rightarrow> nat \<Rightarrow> fs \<Rightarrow> (bool \<times> fs) option" where
  "reserve_direct alloc r i 0 s = Some (True, s)"
| "reserve_direct alloc r i (Suc l) s =
     do { d \<leftarrow> get_disk r s;
          if i < length (direct_blocks d)
          then if direct_blocks d ! i = 0
               then do { (e, s) \<leftarrow> alloc s;
                         case e of
                           None \<Rightarrow> Some (False, s)
                         | Some e \<Rightarrow>
                             do { s \<leftarrow> upd_disk r (\<lambda>d. d\<lparr>direct_blocks := (direct_blocks d)[i := e]\<rparr>) s;
                                  s \<leftarrow> sector_write e zeros s;
                                  reserve_direct alloc r (Suc i) l s } }
               else reserve_direct alloc r (Suc i) l s
          else None }"

definition inode_reserve :: "allocator \<Rightarrow> disk_ref \<Rightarrow> int \<Rightarrow> fs \<Rightarrow> (bool \<times> fs) option" where
  "inode_reserve alloc r len s =
     (if len < 0 then Some (False, s)
      else do {
        num_sectors \<leftarrow> bytes_to_sectors len;
        let l = min num_sectors DIRECT_BLOCKS_COUNT;
        (ok, s) \<leftarrow> reserve_direct alloc r 0 l s;
        if \<not> ok then Some (False, s)
        else let num_sectors = num_sectors - l in
        if num_sectors = 0 then Some (True, s)
        else do {
          let l = min num_sectors INDIRECT_BLOCKS_PER_SECTOR;
          d \<leftarrow> get_disk r s;
          (ok, e, s) \<leftarrow> inode_reserve_indirect alloc 1 (\<lambda>e. upd_disk r (\<lambda>d. d\<lparr>indirect_block := e\<rparr>))
                          (indirect_block d) l s;
          if \<not> ok then Some (False, s)
          else let num_sectors = num_sectors - l in
          if num_sectors = 0 then Some (True, s)
          else do {
            let l = min num_sectors (INDIRECT_BLOCKS_PER_SECTOR * INDIRECT_BLOCKS_PER_SECTOR);
            d \<leftarrow> get_disk r s;
            (ok, e, s) \<leftarrow> inode_reserve_indirect alloc 2 (\<lambda>e. upd_disk r (\<lambda>d. d\<lparr>doubly_indirect_block := e\<rparr>))
                            (doubly_indirect_block d) l s;
            if \<not> ok then Some (False, s)
            else let num_sectors = num_sectors - l in
            if num_sectors = 0 then Some (True, s)
            else Some (False, fs_assert (num_sectors = 0) ''inode_reserve'' s) } } })"

definition inode_allocate :: "allocator \<Rightarrow> disk_ref \<Rightarrow> fs \<Rightarrow> (bool \<times> fs) option" where
  "inode_allocate alloc r s = do { d \<leftarrow> get_disk r s; inode_reserve alloc r (id_length d) s }"

subsection \<open>Inodes: inode.c\<close>

definition inode_init :: "fs \<Rightarrow> fs" where
  "inode_init s = s\<lparr>open_inodes := []\<rparr>"

definition inode_create :: "allocator \<Rightarrow> u32 \<Rightarrow> int \<Rightarrow> bool \<Rightarrow> fs \<Rightarrow> (bool \<times> fs) option" where
  "inode_create alloc sec len isdir s =
     do { let s = fs_assert (len \<ge> 0) ''inode_create'' s;
          let s = s\<lparr>scratch := Some (idisk_zero\<lparr>id_length := len, magic := INODE_MAGIC,
                                               is_dir := (if isdir then 1 else 0)\<rparr>)\<rparr>;
          (ok, s) \<leftarrow> inode_allocate alloc Of_scratch s;
          d \<leftarrow> scratch s;
          s \<leftarrow> (if ok then sector_write sec (encode_inode d) s else Some s);
          Some (ok, s\<lparr>scratch := None\<rparr>) }"

definition inode_reopen :: "addr \<Rightarrow> addr" where
  "inode_reopen p = p"

fun find_open :: "u32 \<Rightarrow> addr list \<Rightarrow> fs \<Rightarrow> addr option option" where
  "find_open sec [] s = Some None"
| "find_open sec (p # ps) s =
     do { i \<leftarrow> inodes s p; if sector i = sec then Some (Some (inode_reopen p)) else find_open sec ps s }"

definition inode_open :: "u32 \<Rightarrow> fs \<Rightarrow> (addr \<times> fs) option" where
  "inode_open sec s =
     do { found \<leftarrow> find_open sec (open_inodes s) s;
          case found of
            Some p \<Rightarrow> Some (p, s)
          | None \<Rightarrow>
              do { let p = next_addr s;
                   (blk, s) \<leftarrow> sector_read sec s;
                   Some (p, s\<lparr>next_addr := next_addr s + 1, open_inodes := p # open_inodes s,
                              inodes := (inodes s)(p \<mapsto> \<lparr>sector = sec, open_cnt = 1, removed = False,
                                                       deny_write_cnt = 0, data = decode_inode blk\<rparr>)\<rparr>) } }"

definition inode_get_inumber :: "addr \<Rightarrow> fs \<Rightarrow> u32 option" where
  "inode_get_inumber p s = map_option sector (inodes s p)"

definition inode_remove :: "addr \<Rightarrow> fs \<Rightarrow> fs option" where
  "inode_remove p s = upd_inode p (\<lambda>i. i\<lparr>removed := True\<rparr>) s"

definition inode_length :: "addr \<Rightarrow> fs \<Rightarrow> int option" where
  "inode_length p s = map_option (\<lambda>i. id_length (data i)) (inodes s p)"

definition inode_is_directory :: "addr \<Rightarrow> fs \<Rightarrow> bool option" where
  "inode_is_directory p s = map_option (\<lambda>i. is_dir (data i) \<noteq> 0) (inodes s p)"

definition inode_is_removed :: "addr \<Rightarrow> fs \<Rightarrow> bool option" where
  "inode_is_removed p s = map_option removed (inodes s p)"

definition inode_deny_write :: "addr \<Rightarrow> fs \<Rightarrow> fs option" where
  "inode_deny_write p s =
     do { s \<leftarrow> upd_inode p (\<lambda>i. i\<lparr>deny_write_cnt := deny_write_cnt i + 1\<rparr>) s;
          i \<leftarrow> inodes s p;
          Some (fs_assert (deny_write_cnt i \<le> open_cnt i) ''inode_deny_write'' s) }"

definition inode_allow_write :: "addr \<Rightarrow> fs \<Rightarrow> fs option" where
  "inode_allow_write p s =
     do { i \<leftarrow> inodes s p;
          let s = fs_assert (deny_write_cnt i > 0) ''inode_allow_write'' s;
          let s = fs_assert (deny_write_cnt i \<le> open_cnt i) ''inode_allow_write'' s;
          upd_inode p (\<lambda>i. i\<lparr>deny_write_cnt := deny_write_cnt i - 1\<rparr>) s }"

definition inode_read_at :: "addr \<Rightarrow> int \<Rightarrow> int \<Rightarrow> fs \<Rightarrow> (byte list \<times> fs) option" where
  "inode_read_at p len offset s =
     do { i \<leftarrow> inodes s p;
          (bs, c) \<leftarrow> read_loop bc_read (data i) len offset [] (cst s);
          Some (bs, s\<lparr>cst := c\<rparr>) }"

text \<open>The end of the run, \<^verbatim>\<open>offset + size\<close>, is an \<^verbatim>\<open>int\<close> sum.\<close>

definition inode_write_at ::
  "allocator \<Rightarrow> addr \<Rightarrow> byte list \<Rightarrow> int \<Rightarrow> int \<Rightarrow> fs \<Rightarrow> (int \<times> fs) option" where
  "inode_write_at alloc p src len offset s =
     do { i \<leftarrow> inodes s p;
          if deny_write_cnt i \<noteq> 0 then Some (0, s)
          else if \<not> (- (2 ^ 31) < offset + len \<and> offset + len < 2 ^ 31) then None
          else do {
            (k, c) \<leftarrow> byte_to_sector bc_read (data i) (offset + len - 1) (cst s);
            let s = s\<lparr>cst := c\<rparr>;
            (ok, s) \<leftarrow>
              (if k = - 1
               then do { (ok, s) \<leftarrow> inode_reserve alloc (Of_inode p) (offset + len) s;
                         if \<not> ok then Some (False, s)
                         else do { s \<leftarrow> upd_disk (Of_inode p) (\<lambda>d. d\<lparr>id_length := offset + len\<rparr>) s;
                                   i \<leftarrow> inodes s p;
                                   s \<leftarrow> sector_write (sector i) (encode_inode (data i)) s;
                                   Some (True, s) } }
               else Some (True, s));
            if \<not> ok then Some (0, s)
            else do { i \<leftarrow> inodes s p;
                      (n, c) \<leftarrow> write_loop bc_read bc_write (data i) src len offset 0 (cst s);
                      Some (int n, s\<lparr>cst := c\<rparr>) } } }"

subsection \<open>Files: file.c\<close>

definition init_file_table :: "fs \<Rightarrow> fs" where
  "init_file_table s = s\<lparr>file_table := []\<rparr>"

definition get_file_by_fname :: "string \<Rightarrow> fs \<Rightarrow> addr option" where
  "get_file_by_fname fname s = map_option snd (find (\<lambda>e. fst e = fname) (file_table s))"

definition add_to_file_table :: "addr \<Rightarrow> string \<Rightarrow> fs \<Rightarrow> fs" where
  "add_to_file_table f fname s =
     (if get_file_by_fname fname s \<noteq> None then s else s\<lparr>file_table := file_table s @ [(fname, f)]\<rparr>)"

text \<open>The inode is given: a null pointer gives a null pointer and is closed without effect.\<close>

definition file_open :: "addr option \<Rightarrow> fs \<Rightarrow> addr option \<times> fs" where
  "file_open ino s =
     (case ino of
        None \<Rightarrow> (None, s)
      | Some p \<Rightarrow> (Some (next_addr s),
                   s\<lparr>next_addr := next_addr s + 1,
                     files := (files s)(next_addr s \<mapsto> \<lparr>file_inode = p, pos = 0, deny_write = False\<rparr>)\<rparr>))"

definition file_reopen :: "addr \<Rightarrow> fs \<Rightarrow> (addr option \<times> fs) option" where
  "file_reopen f s = do { x \<leftarrow> files s f; Some (file_open (Some (inode_reopen (file_inode x))) s) }"

definition file_get_inode :: "addr \<Rightarrow> fs \<Rightarrow> addr option" where
  "file_get_inode f s = map_option file_inode (files s f)"

definition file_read :: "addr \<Rightarrow> int \<Rightarrow> fs \<Rightarrow> (byte list \<times> fs) option" where
  "file_read f len s =
     do { x \<leftarrow> files s f;
          (bs, s) \<leftarrow> inode_read_at (file_inode x) len (pos x) s;
          Some (bs, s\<lparr>files := (files s)(f \<mapsto> x\<lparr>pos := pos x + int (length bs)\<rparr>)\<rparr>) }"

definition file_read_at :: "addr \<Rightarrow> int \<Rightarrow> int \<Rightarrow> fs \<Rightarrow> (byte list \<times> fs) option" where
  "file_read_at f len ofs s = do { x \<leftarrow> files s f; inode_read_at (file_inode x) len ofs s }"

text \<open>\<^verbatim>\<open>file_write\<close> stores a terminator at \<^verbatim>\<open>buffer[size - 1]\<close>; the buffer is returned. The position
  moves by two less than the number of bytes written.\<close>

definition file_write ::
  "allocator \<Rightarrow> addr \<Rightarrow> byte list \<Rightarrow> int \<Rightarrow> fs \<Rightarrow> (int \<times> byte list \<times> fs) option" where
  "file_write alloc f buf len s =
     (if 1 \<le> len \<and> len \<le> int (length buf)
      then do { let buf = buf[nat (len - 1) := 0];
                x \<leftarrow> files s f;
                (n, s) \<leftarrow> inode_write_at alloc (file_inode x) buf len (pos x) s;
                Some (n, buf, s\<lparr>files := (files s)(f \<mapsto> x\<lparr>pos := pos x + n - 2\<rparr>)\<rparr>) }
      else None)"

definition file_write_at ::
  "allocator \<Rightarrow> addr \<Rightarrow> byte list \<Rightarrow> int \<Rightarrow> int \<Rightarrow> fs \<Rightarrow> (int \<times> fs) option" where
  "file_write_at alloc f src len ofs s =
     do { x \<leftarrow> files s f; inode_write_at alloc (file_inode x) src len ofs s }"

definition file_deny_write :: "addr \<Rightarrow> fs \<Rightarrow> fs option" where
  "file_deny_write f s =
     do { x \<leftarrow> files s f;
          if \<not> deny_write x
          then inode_deny_write (file_inode x) (s\<lparr>files := (files s)(f \<mapsto> x\<lparr>deny_write := True\<rparr>)\<rparr>)
          else Some s }"

definition file_allow_write :: "addr \<Rightarrow> fs \<Rightarrow> fs option" where
  "file_allow_write f s =
     do { x \<leftarrow> files s f;
          if deny_write x
          then inode_allow_write (file_inode x) (s\<lparr>files := (files s)(f \<mapsto> x\<lparr>deny_write := False\<rparr>)\<rparr>)
          else Some s }"

definition file_length :: "addr \<Rightarrow> fs \<Rightarrow> int option" where
  "file_length f s = do { x \<leftarrow> files s f; inode_length (file_inode x) s }"

definition file_seek :: "addr \<Rightarrow> int \<Rightarrow> fs \<Rightarrow> fs option" where
  "file_seek f new_pos s =
     do { x \<leftarrow> files s f;
          let s = fs_assert (new_pos \<ge> 0) ''file_seek'' s;
          Some (s\<lparr>files := (files s)(f \<mapsto> x\<lparr>pos := new_pos\<rparr>)\<rparr>) }"

definition file_tell :: "addr \<Rightarrow> fs \<Rightarrow> int option" where
  "file_tell f s = map_option pos (files s f)"

subsection \<open>The bitmap in a file: bitmap.c\<close>

definition bitmap_write :: "allocator \<Rightarrow> bitmap \<Rightarrow> addr \<Rightarrow> fs \<Rightarrow> (bool \<times> fs) option" where
  "bitmap_write alloc b f s =
     do { let len = int (byte_cnt (bit_cnt b));
          (n, s) \<leftarrow> file_write_at alloc f (bitmap_bytes b) len 0 s;
          Some (n = len, s) }"

definition bitmap_read :: "bitmap \<Rightarrow> addr \<Rightarrow> fs \<Rightarrow> (bool \<times> bitmap \<times> fs) option" where
  "bitmap_read b f s =
     (if 0 < bit_cnt b
      then do { let len = int (byte_cnt (bit_cnt b));
                (bs, s) \<leftarrow> file_read_at f len 0 s;
                b' \<leftarrow> bitmap_load b (bs @ drop (length bs) (bitmap_bytes b));
                Some (int (length bs) = len, b', s) }
      else Some (True, b, s))"

subsection \<open>The free map: free-map.c\<close>

text \<open>The bitmap functions with the console of the file system.\<close>

definition num_free_sectors :: "fs \<Rightarrow> (int \<times> fs) option" where
  "num_free_sectors s =
     do { (n, lg) \<leftarrow> bitmap_count (free_map s) 0 (bitmap_size (free_map s)) False (fs_log s);
          Some (sint (of_nat n :: u32), set_log lg s) }"

fun free_map_allocate :: "nat \<Rightarrow> nat \<Rightarrow> fs \<Rightarrow> (u32 option \<times> fs) option" where
  "free_map_allocate 0 cnt s = None"
| "free_map_allocate (Suc n) cnt s =
     do { (idx, b, lg) \<leftarrow> bitmap_scan_and_flip (free_map s) 0 cnt False (fs_log s);
          let sec = of_nat idx;
          let s = set_log lg (s\<lparr>free_map := b\<rparr>);
          if unat sec = BITMAP_ERROR then Some (None, s)
          else case free_map_file s of
                 None \<Rightarrow> Some (Some sec, s)
               | Some f \<Rightarrow>
                   do { (ok, s) \<leftarrow> bitmap_write (free_map_allocate n 1) (free_map s) f s;
                        if ok then Some (Some sec, s)
                        else do { (b, lg) \<leftarrow> bitmap_set_multiple (free_map s) (unat sec) cnt False (fs_log s);
                                  Some (None, set_log lg (s\<lparr>free_map := b\<rparr>)) } } }"

definition free_map_release :: "nat \<Rightarrow> u32 \<Rightarrow> nat \<Rightarrow> fs \<Rightarrow> fs option" where
  "free_map_release n sec cnt s =
     do { (all, lg) \<leftarrow> bitmap_all (free_map s) (unat sec) cnt (fs_log s);
          let lg = ASSERT all ''free_map_release'' lg;
          (b, lg) \<leftarrow> bitmap_set_multiple (free_map s) (unat sec) cnt False lg;
          let s = set_log lg (s\<lparr>free_map := b\<rparr>);
          f \<leftarrow> free_map_file s;
          (ok, s) \<leftarrow> bitmap_write (free_map_allocate n 1) (free_map s) f s;
          Some s }"

subsection \<open>Closing and deleting\<close>

fun inode_deallocate_indirect :: "nat \<Rightarrow> nat \<Rightarrow> u32 \<Rightarrow> nat \<Rightarrow> fs \<Rightarrow> fs option"
  and deallocate_entries :: "nat \<Rightarrow> nat \<Rightarrow> nat \<Rightarrow> nat \<Rightarrow> nat \<Rightarrow> u32 list \<Rightarrow> nat \<Rightarrow> fs \<Rightarrow> (nat \<times> fs) option" where
  "inode_deallocate_indirect n 0 entry num_sectors s = free_map_release n entry 1 s"
| "inode_deallocate_indirect n (Suc level) entry num_sectors s =
     do { let s = fs_assert (Suc level \<le> 2) ''inode_deallocate_indirect'' s;
          (blk, s) \<leftarrow> sector_read entry s;
          let unit = (if Suc level = 1 then 1 else INDIRECT_BLOCKS_PER_SECTOR);
          (num_sectors, s) \<leftarrow>
            deallocate_entries n level unit (DIV_ROUND_UP num_sectors unit) 0 (indirect_blocks blk) num_sectors s;
          let s = fs_assert (num_sectors = 0) ''inode_deallocate_indirect'' s;
          free_map_release n entry 1 s }"
| "deallocate_entries n level unit 0 i ents num_sectors s = Some (num_sectors, s)"
| "deallocate_entries n level unit (Suc l) i ents num_sectors s =
     (if i < length ents
      then do { let subsize = min num_sectors unit;
                s \<leftarrow> inode_deallocate_indirect n level (ents ! i) subsize s;
                deallocate_entries n level unit l (Suc i) ents (num_sectors - subsize) s }
      else None)"

fun release_direct :: "nat \<Rightarrow> u32 list \<Rightarrow> fs \<Rightarrow> fs option" where
  "release_direct n [] s = Some s"
| "release_direct n (k # ks) s = do { s \<leftarrow> free_map_release n k 1 s; release_direct n ks s }"

definition inode_deallocate :: "nat \<Rightarrow> addr \<Rightarrow> fs \<Rightarrow> (bool \<times> fs) option" where
  "inode_deallocate n p s =
     do { i \<leftarrow> inodes s p;
          let d = data i;
          if id_length d < 0 then Some (False, s)
          else do {
            num_sectors \<leftarrow> bytes_to_sectors (id_length d);
            let l = min num_sectors DIRECT_BLOCKS_COUNT;
            s \<leftarrow> release_direct n (take l (direct_blocks d)) s;
            let num_sectors = num_sectors - l;
            let l = min num_sectors INDIRECT_BLOCKS_PER_SECTOR;
            s \<leftarrow> (if l > 0 then inode_deallocate_indirect n 1 (indirect_block d) l s else Some s);
            let num_sectors = num_sectors - l;
            let l = min num_sectors (INDIRECT_BLOCKS_PER_SECTOR * INDIRECT_BLOCKS_PER_SECTOR);
            s \<leftarrow> (if l > 0 then inode_deallocate_indirect n 2 (doubly_indirect_block d) l s else Some s);
            let num_sectors = num_sectors - l;
            Some (True, fs_assert (num_sectors = 0) ''inode_deallocate'' s) } }"

definition inode_close :: "nat \<Rightarrow> addr option \<Rightarrow> fs \<Rightarrow> fs option" where
  "inode_close n ino s =
     (case ino of
        None \<Rightarrow> Some s
      | Some p \<Rightarrow>
          do { s \<leftarrow> upd_inode p (\<lambda>i. i\<lparr>open_cnt := open_cnt i - 1\<rparr>) s;
               i \<leftarrow> inodes s p;
               if open_cnt i = 0
               then do { let s = s\<lparr>open_inodes := remove1 p (open_inodes s)\<rparr>;
                         s \<leftarrow> (if removed i
                               then do { s \<leftarrow> free_map_release n (sector i) 1 s;
                                         (ok, s) \<leftarrow> inode_deallocate n p s;
                                         Some s }
                               else Some s);
                         Some (s\<lparr>inodes := (inodes s)(p := None)\<rparr>) }
               else Some s })"

definition file_close :: "nat \<Rightarrow> addr option \<Rightarrow> fs \<Rightarrow> fs option" where
  "file_close n f s =
     (case f of
        None \<Rightarrow> Some s
      | Some f \<Rightarrow>
          do { s \<leftarrow> file_allow_write f s;
               x \<leftarrow> files s f;
               s \<leftarrow> inode_close n (Some (file_inode x)) s;
               Some (s\<lparr>files := (files s)(f := None)\<rparr>) })"

definition remove_from_file_table :: "nat \<Rightarrow> string \<Rightarrow> fs \<Rightarrow> (bool \<times> fs) option" where
  "remove_from_file_table n fname s =
     (case find (\<lambda>e. fst e = fname) (file_table s) of
        None \<Rightarrow> Some (False, s)
      | Some e \<Rightarrow>
          do { s \<leftarrow> file_close n (Some (snd e)) s;
               Some (True, s\<lparr>file_table := remove1 e (file_table s)\<rparr>) })"

fun close_entries :: "nat \<Rightarrow> (string \<times> addr) list \<Rightarrow> fs \<Rightarrow> fs option" where
  "close_entries n [] s = Some (s\<lparr>file_table := []\<rparr>)"
| "close_entries n (e # es) s =
     do { s \<leftarrow> file_close n (Some (snd e)) (s\<lparr>file_table := es\<rparr>); close_entries n es s }"

definition free_file_table :: "nat \<Rightarrow> fs \<Rightarrow> fs option" where
  "free_file_table n s = close_entries n (file_table s) s"

subsection \<open>Setting up the free map\<close>

text \<open>\<^verbatim>\<open>block_size(fs_device) - 1\<close> is 32-bit arithmetic. The bitmap is created with memory available.\<close>

definition free_map_init :: "fs \<Rightarrow> fs option" where
  "free_map_init s =
     do { blk \<leftarrow> (if fs_device (cst s) < length (blocks (cdev (cst s)))
                 then Some (blocks (cdev (cst s)) ! fs_device (cst s)) else None);
          (r, lg) \<leftarrow> bitmap_create True True (unat (block_size blk - 1)) (fs_log s);
          b \<leftarrow> r;
          b \<leftarrow> bitmap_mark b (unat FREE_MAP_SECTOR);
          b \<leftarrow> bitmap_mark b (unat ROOT_DIR_SECTOR);
          Some (set_log lg (s\<lparr>free_map := b\<rparr>)) }"

definition free_map_open :: "fs \<Rightarrow> fs option" where
  "free_map_open s =
     do { (p, s) \<leftarrow> inode_open FREE_MAP_SECTOR s;
          let (f, s) = file_open (Some p) s;
          let s = s\<lparr>free_map_file := f\<rparr>;
          f \<leftarrow> f;
          (ok, b, s) \<leftarrow> bitmap_read (free_map s) f s;
          let s = s\<lparr>free_map := b\<rparr>;
          Some (if ok then s else fs_panic ''free_map_open'' s) }"

definition free_map_close :: "nat \<Rightarrow> fs \<Rightarrow> fs option" where
  "free_map_close n s = file_close n (free_map_file s) s"

definition free_map_create :: "nat \<Rightarrow> fs \<Rightarrow> fs option" where
  "free_map_create n s =
     do { (ok, s) \<leftarrow> inode_create (free_map_allocate n 1) FREE_MAP_SECTOR (int (bitmap_file_size (free_map s))) False s;
          let s = (if ok then s else fs_panic ''free_map_create'' s);
          (p, s) \<leftarrow> inode_open FREE_MAP_SECTOR s;
          let (f, s) = file_open (Some p) s;
          let s = s\<lparr>free_map_file := f\<rparr>;
          f \<leftarrow> f;
          (ok, s) \<leftarrow> bitmap_write (free_map_allocate n 1) (free_map s) f s;
          Some (if ok then s else fs_panic ''free_map_create'' s) }"

subsection \<open>The sectors of a file\<close>

text \<open>\<^verbatim>\<open>get_inode_data_sectors\<close> returns a null pointer for a negative length; otherwise an array of the
  data sectors.\<close>

fun table_sectors :: "nat \<Rightarrow> nat \<Rightarrow> u32 list \<Rightarrow> nat \<Rightarrow> fs \<Rightarrow> (u32 list \<times> fs) option" where
  "table_sectors 0 i ents num s = Some ([], s)"
| "table_sectors (Suc l) i ents num s =
     (if i < length ents
      then do { let subsize = min num INDIRECT_BLOCKS_PER_SECTOR;
                (blk, s) \<leftarrow> sector_read (ents ! i) s;
                (ks, s) \<leftarrow> table_sectors l (Suc i) ents (num - subsize) s;
                Some (take subsize (indirect_blocks blk) @ ks, s) }
      else None)"

definition get_inode_data_sectors :: "addr \<Rightarrow> fs \<Rightarrow> (u32 list option \<times> fs) option" where
  "get_inode_data_sectors p s =
     do { i \<leftarrow> inodes s p;
          let d = data i;
          if id_length d < 0 then Some (None, s)
          else do {
            num_sectors \<leftarrow> bytes_to_sectors (id_length d);
            let l1 = min num_sectors DIRECT_BLOCKS_COUNT;
            let num1 = num_sectors - l1;
            let l2 = min num1 INDIRECT_BLOCKS_PER_SECTOR;
            (ks2, s) \<leftarrow>
              (if l2 > 0
               then do { (blk, s) \<leftarrow> sector_read (indirect_block d) s; Some (take l2 (indirect_blocks blk), s) }
               else Some ([], s));
            let num2 = num1 - l2;
            let l3 = min num2 (INDIRECT_BLOCKS_PER_SECTOR * INDIRECT_BLOCKS_PER_SECTOR);
            (ks3, s) \<leftarrow>
              (if l3 > 0
               then do { (blk, s) \<leftarrow> sector_read (doubly_indirect_block d) s;
                         table_sectors (DIV_ROUND_UP l3 INDIRECT_BLOCKS_PER_SECTOR) 0 (indirect_blocks blk) l3 s }
               else Some ([], s));
            let num3 = num2 - l3;
            Some (Some (take l1 (direct_blocks d) @ ks2 @ ks3),
                  fs_assert (num3 = 0) ''get_inode_data_sectors'' s) } }"

subsection \<open>Reading and writing an open inode\<close>

text \<open>The contents of the file behind an inode, and what reading and writing them relies on.\<close>

definition contents :: "inode \<Rightarrow> fs \<Rightarrow> byte list" where
  "contents i s = file_data bc_view (data i) (cst s)"

definition ino_ok :: "inode \<Rightarrow> fs \<Rightarrow> bool" where
  "ino_ok i s \<longleftrightarrow> bc_inv (cst s) \<and> wf_idisk (data i) \<and> 0 \<le> id_length (data i) \<and>
     mapped bc_nsec bc_view (data i) (cst s) (nblocks (data i)) \<and>
     separate bc_view (data i) (cst s) (nblocks (data i))"

text \<open>The states differ in the cache and the device only, and show the same sectors.\<close>

definition reads_same :: "fs \<Rightarrow> fs \<Rightarrow> bool" where
  "reads_same s s' \<longleftrightarrow> s' = s\<lparr>cst := cst s'\<rparr> \<and>
     store_same bc_inv bc_nsec bc_view bc_console (cst s) (cst s')"

text \<open>The states differ in the data sectors of one inode only.\<close>

definition writes_only :: "inode \<Rightarrow> fs \<Rightarrow> fs \<Rightarrow> bool" where
  "writes_only i s s' \<longleftrightarrow> s' = s\<lparr>cst := cst s'\<rparr> \<and> bc_inv (cst s') \<and>
     bc_nsec (cst s') = bc_nsec (cst s) \<and> fs_log s' = fs_log s \<and>
     same_map bc_view (data i) (cst s) (cst s') (nblocks (data i)) \<and>
     (\<forall>j. unat j < bc_nsec (cst s) \<longrightarrow>
        j \<notin> blk_sector bc_view (data i) (cst s) ` {..<nblocks (data i)} \<longrightarrow>
        bc_view (cst s') j = bc_view (cst s) j)"

lemma length_contents [simp]: "length (contents i s) = nat (id_length (data i))"
  by (simp add: contents_def)

lemma bc_nsec_bound: "bc_nsec c < 2 ^ 32"
  unfolding bc_nsec_def dev_nsec_def
  by (auto intro: le_less_trans [OF diff_le_self] split: prod.splits driver.splits
      simp: unat_less_u32)

lemma sector_not_error: "unat (k :: u32) < bc_nsec c \<Longrightarrow> k \<noteq> - 1"
  using bc_nsec_bound [of c] by (auto simp: unsigned_minus_1_eq_mask mask_eq_exp_minus_1)

lemma writes_only_fields:
  assumes "writes_only i s s'"
  shows "free_map s' = free_map s" "free_map_file s' = free_map_file s" "files s' = files s"
    "inodes s' = inodes s" "open_inodes s' = open_inodes s"
proof -
  obtain c where "s' = s\<lparr>cst := c\<rparr>" using assms unfolding writes_only_def by blast
  then show "free_map s' = free_map s" "free_map_file s' = free_map_file s" "files s' = files s"
    "inodes s' = inodes s" "open_inodes s' = open_inodes s"
    by simp_all
qed

lemma writes_only_ok: "ino_ok i s \<Longrightarrow> writes_only i s s' \<Longrightarrow> ino_ok i s'"
  by (auto simp: ino_ok_def writes_only_def intro: same_map_keeps)

lemma reads_same_ok:
  assumes "ino_ok i s" and "reads_same s s'"
  shows "ino_ok i s'" "contents i s' = contents i s"
proof -
  have m: "mapped bc_nsec bc_view (data i) (cst s) (nblocks (data i))"
    and ss: "store_same bc_inv bc_nsec bc_view bc_console (cst s) (cst s')"
    using assms by (simp_all add: ino_ok_def reads_same_def)
  then have "same_map bc_view (data i) (cst s) (cst s') (nblocks (data i))"
    using mapped_same [OF m ss] by (simp add: same_map_def)
  then show "ino_ok i s'"
    using assms(1) ss same_map_keeps by (auto simp: ino_ok_def store_same_def)
  show "contents i s' = contents i s"
    unfolding contents_def by (rule file_data_same [OF m ss])
qed

lemma inode_read_at_ok:
  assumes "inodes s p = Some i" and "ino_ok i s"
  shows "\<exists>s'. inode_read_at p (int n) (int q) s = Some (take n (drop q (contents i s)), s') \<and>
    reads_same s s'"
proof -
  obtain c where "read_loop bc_read (data i) (int n) (int q) [] (cst s) =
      Some (take n (drop q (contents i s)), c)" "store_same bc_inv bc_nsec bc_view bc_console (cst s) c"
    using cached.read_loop_ok [of "cst s" "data i" n q "[]"] assms(2) by (auto simp: ino_ok_def contents_def)
  then show ?thesis
    using assms(1) by (simp add: inode_read_at_def reads_same_def)
qed

text \<open>A write that stays inside the file needs no allocation.\<close>

lemma inode_write_at_inside:
  assumes "inodes s p = Some i" and "ino_ok i s" and "deny_write_cnt i = 0"
    and "0 < n" and "q + n \<le> length (contents i s)" and "n \<le> length src"
  shows "\<exists>s'. inode_write_at alloc p src (int n) (int q) s = Some (int n, s') \<and>
    writes_only i s s' \<and> contents i s' = overwrite q (take n src) (contents i s)"
proof -
  note ok = assms(2) [unfolded ino_ok_def]
  let ?d = "data i" and ?e = "q + n - 1"
  have e: "?e < nat (id_length ?d)" and le: "q + n \<le> nat (id_length ?d)" using assms(4,5) by simp_all
  have ei: "int q + int n - 1 = int ?e" using assms(4) by simp
  have small: "int q + int n < 2147483648"
  proof -
    have "id_length ?d < 2147483648" "0 \<le> id_length ?d" using ok by (simp_all add: wf_idisk_def)
    then show ?thesis using le by linarith
  qed
  obtain c where c: "byte_to_sector bc_read ?d (int ?e) (cst s) = Some (blk_sector bc_view ?d (cst s) (?e div 512), c)"
    "store_same bc_inv bc_nsec bc_view bc_console (cst s) c"
    using cached.byte_to_sector_ok [of "cst s" ?d ?e] ok e by blast
  have k: "blk_sector bc_view ?d (cst s) (?e div 512) \<noteq> - 1"
    by (rule sector_not_error [of _ "cst s"]) (use ok block_in_file [OF e] in \<open>simp add: mapped_def\<close>)
  have rs: "reads_same s (s\<lparr>cst := c\<rparr>)" using c(2) by (simp add: reads_same_def)
  note ok1 = reads_same_ok [OF assms(2) rs]
  obtain c' where c': "write_loop bc_read bc_write ?d src (int n) (int q) 0 c = Some (n, c')"
    "bc_inv c'" "bc_nsec c' = bc_nsec c" "bc_console c' = bc_console c" "same_map bc_view ?d c c' (nblocks ?d)"
    "file_data bc_view ?d c' = overwrite q (take n src) (file_data bc_view ?d c)"
    "\<forall>j. unat j < bc_nsec c \<longrightarrow> j \<notin> blk_sector bc_view ?d c ` {..<nblocks ?d} \<longrightarrow> bc_view c' j = bc_view c j"
    using cached.write_loop_ok [of c ?d q n 0 src] ok1(1) le assms(6) by (auto simp: ino_ok_def)
  have map: "same_map bc_view ?d (cst s) c (nblocks ?d)"
    using mapped_same [of bc_nsec bc_view ?d "cst s" "nblocks ?d"] c(2) ok by (auto simp: same_map_def)
  have "inode_write_at alloc p src (int n) (int q) s = Some (int n, s\<lparr>cst := c'\<rparr>)"
    using assms(1,3) small c(1) c'(1) k by (simp add: inode_write_at_def ei)
  moreover have "writes_only i s (s\<lparr>cst := c'\<rparr>)"
    using c' c(2) map by (auto simp: writes_only_def same_map_def store_same_def fs_log_def)
  moreover have "contents i (s\<lparr>cst := c'\<rparr>) = overwrite q (take n src) (contents i s)"
    using c'(6) ok1(2) by (simp add: contents_def)
  ultimately show ?thesis by blast
qed

subsection \<open>The free map in its file\<close>

text \<open>The free map file is open on an inode of exactly the length of the map: the state between
  \<^verbatim>\<open>free_map_open\<close> and \<^verbatim>\<open>free_map_close\<close>.\<close>

definition map_ready :: "addr \<Rightarrow> addr \<Rightarrow> inode \<Rightarrow> fs \<Rightarrow> bool" where
  "map_ready f p i s \<longleftrightarrow> free_map_file s = Some f \<and> map_option file_inode (files s f) = Some p \<and>
     inodes s p = Some i \<and> ino_ok i s \<and> deny_write_cnt i = 0 \<and> wf_bitmap (free_map s) \<and>
     0 < bit_cnt (free_map s) \<and> bit_cnt (free_map s) \<le> BITMAP_ERROR \<and>
     id_length (data i) = int (bitmap_file_size (free_map s))"

lemma length_bitmap_bytes: "wf_bitmap b \<Longrightarrow> length (bitmap_bytes b) = byte_cnt (bit_cnt b)"
  by (simp add: bitmap_bytes_def wf_bitmap_def byte_cnt_eq)

lemma byte_cnt_pos: "wf_bitmap b \<Longrightarrow> 0 < bit_cnt b \<Longrightarrow> 0 < byte_cnt (bit_cnt b)"
  using elem_idx_less [of b 0] by (simp add: byte_cnt_eq wf_bitmap_def)

lemma bitmap_write_ok:
  assumes "map_option file_inode (files s f) = Some p" and "inodes s p = Some i" and "ino_ok i s"
    and "deny_write_cnt i = 0" and "wf_bitmap b" and "0 < bit_cnt b"
    and "id_length (data i) = int (bitmap_file_size b)"
  shows "\<exists>s'. bitmap_write alloc b f s = Some (True, s') \<and> writes_only i s s' \<and> contents i s' = bitmap_bytes b"
proof -
  let ?n = "byte_cnt (bit_cnt b)"
  have len: "length (contents i s) = ?n" "length (bitmap_bytes b) = ?n"
    using assms(7) length_bitmap_bytes [OF assms(5)] by (simp_all add: bitmap_file_size_def)
  obtain s' where "inode_write_at alloc p (bitmap_bytes b) (int ?n) (int 0) s = Some (int ?n, s')"
    "writes_only i s s'" "contents i s' = overwrite 0 (take ?n (bitmap_bytes b)) (contents i s)"
    using inode_write_at_inside [OF assms(2-4) byte_cnt_pos [OF assms(5,6)], of 0 "bitmap_bytes b" alloc] len by auto
  then show ?thesis
    using assms(1) len by (auto simp: bitmap_write_def file_write_at_def Let_def overwrite_all)
qed

lemma bitmap_read_ok:
  assumes "map_option file_inode (files s f) = Some p" and "inodes s p = Some i" and "ino_ok i s"
    and "wf_bitmap b" and "wf_bitmap b'" and "0 < bit_cnt b" and "bit_cnt b' = bit_cnt b"
    and "contents i s = bitmap_bytes b'"
  shows "\<exists>s' r. bitmap_read b f s = Some (True, r, s') \<and> reads_same s s' \<and> wf_bitmap r \<and>
    bit_cnt r = bit_cnt b \<and> bits_of r = bits_of b'"
proof -
  let ?n = "byte_cnt (bit_cnt b)"
  obtain s' where s': "inode_read_at p (int ?n) (int 0) s = Some (bitmap_bytes b', s')" "reads_same s s'"
    using inode_read_at_ok [OF assms(2,3), of ?n 0] assms(7,8) length_bitmap_bytes [OF assms(5)] by auto
  obtain r where "bitmap_load b (bitmap_bytes b') = Some r" "wf_bitmap r" "bit_cnt r = bit_cnt b"
    "bits_of r = bits_of b'"
    using bitmap_load_bytes [OF assms(4,5,7)] by blast
  then show ?thesis
    using s' assms(1,6,7) length_bitmap_bytes [OF assms(4)] length_bitmap_bytes [OF assms(5)]
    by (auto simp: bitmap_read_def file_read_at_def Let_def)
qed

lemma set_log_same [simp]: "set_log (fs_log s) s = s"
  by (simp add: set_log_def fs_log_def bc_console_def)

lemma set_log_frees [simp]:
  "free_map (set_log lg s) = free_map s" "free_map_file (set_log lg s) = free_map_file s"
  "files (set_log lg s) = files s" "inodes (set_log lg s) = inodes s"
  by (simp_all add: set_log_def)

lemma fs_log_free_map [simp]: "fs_log (s\<lparr>free_map := b\<rparr>) = fs_log s"
  by (simp add: fs_log_def)

lemma set_log_free_map [simp]: "set_log (fs_log s) (s\<lparr>free_map := b\<rparr>) = s\<lparr>free_map := b\<rparr>"
  using set_log_same [of "s\<lparr>free_map := b\<rparr>"] by simp

lemma ino_ok_free_map [simp]: "ino_ok i (s\<lparr>free_map := b\<rparr>) = ino_ok i s"
  by (simp add: ino_ok_def)

lemma unat_of_nat_run:
  assumes "first_run xs 0 cnt v = Some k" and "length xs \<le> BITMAP_ERROR" and "0 < cnt"
  shows "unat (of_nat k :: u32) = k" "k \<noteq> BITMAP_ERROR"
proof -
  have "k < BITMAP_ERROR" using assms by (auto simp: first_run_Some is_run_def)
  then show "unat (of_nat k :: u32) = k" "k \<noteq> BITMAP_ERROR"
    by (simp_all add: BITMAP_ERROR_def unat_of_nat take_bit_nat_eq_self)
qed

text \<open>With the free map file in place one level of recursion is enough: the first run of free
  sectors is taken, and the file holds the new map.\<close>

lemma free_map_allocate_ok:
  assumes "map_ready f p i s" and "0 < cnt" and "first_run (bits_of (free_map s)) 0 cnt False = Some k"
  shows "\<exists>s'. free_map_allocate (Suc n) cnt s = Some (Some (of_nat k), s') \<and> map_ready f p i s' \<and>
    writes_only i (s\<lparr>free_map := free_map s'\<rparr>) s' \<and> contents i s' = bitmap_bytes (free_map s') \<and>
    bit_cnt (free_map s') = bit_cnt (free_map s) \<and>
    bits_of (free_map s') = overwrite k (replicate cnt True) (bits_of (free_map s))"
proof -
  note rdy = assms(1) [unfolded map_ready_def]
  obtain b where b: "bitmap_scan_and_flip (free_map s) 0 cnt False (fs_log s) = Some (k, b, fs_log s)"
    "wf_bitmap b" "bit_cnt b = bit_cnt (free_map s)"
    "bits_of b = overwrite k (replicate cnt True) (bits_of (free_map s))"
    using bitmap_scan_and_flip_correct [of "free_map s" 0 cnt False "fs_log s"] rdy assms(2,3) by auto
  let ?s = "s\<lparr>free_map := b\<rparr>"
  note k = unat_of_nat_run [OF assms(3) _ assms(2)]
  obtain s' where s': "bitmap_write (free_map_allocate n 1) b f ?s = Some (True, s')"
    "writes_only i ?s s'" "contents i s' = bitmap_bytes b"
    using bitmap_write_ok [of ?s f p i b "free_map_allocate n 1"] rdy b by (auto simp: bitmap_file_size_def)
  have fld: "free_map s' = b" "free_map_file s' = free_map_file s" "files s' = files s" "inodes s' = inodes s"
    using writes_only_fields [OF s'(2)] by simp_all
  have "map_ready f p i s'"
    using rdy b fld writes_only_ok [of i ?s s'] s'(2) by (auto simp: map_ready_def bitmap_file_size_def)
  moreover have "free_map_allocate (Suc n) cnt s = Some (Some (of_nat k), s')"
    using b(1) k rdy s'(1) by simp
  ultimately show ?thesis using s' b fld by auto
qed

lemma free_map_allocate_full:
  assumes "map_ready f p i s" and "0 < cnt" and "first_run (bits_of (free_map s)) 0 cnt False = None"
  shows "free_map_allocate (Suc n) cnt s = Some (None, s)"
  using assms bitmap_scan_and_flip_correct [of "free_map s" 0 cnt False "fs_log s"]
  by (auto simp: map_ready_def BITMAP_ERROR_def)

text \<open>Releasing allocated sectors clears their bits, in memory and in the file.\<close>

lemma free_map_release_ok:
  assumes "map_ready f p i s" and "unat sec + cnt \<le> bit_cnt (free_map s)"
    and "is_run (bits_of (free_map s)) (unat sec) cnt True"
  shows "\<exists>s'. free_map_release n sec cnt s = Some s' \<and> map_ready f p i s' \<and>
    fs_log s' = fs_log s \<and> contents i s' = bitmap_bytes (free_map s') \<and>
    bits_of (free_map s') = overwrite (unat sec) (replicate cnt False) (bits_of (free_map s))"
proof -
  note rdy = assms(1) [unfolded map_ready_def]
  have all: "bitmap_all (free_map s) (unat sec) cnt (fs_log s) = Some (True, fs_log s)"
    using bitmap_contains_correct [of "free_map s" "unat sec" cnt False "fs_log s"] rdy assms(2,3)
    by (auto simp: bitmap_all_def is_run_def)
  obtain b where b: "bitmap_set_multiple (free_map s) (unat sec) cnt False (fs_log s) = Some (b, fs_log s)"
    "wf_bitmap b" "bit_cnt b = bit_cnt (free_map s)"
    "bits_of b = overwrite (unat sec) (replicate cnt False) (bits_of (free_map s))"
    using bitmap_set_multiple_correct [of "free_map s" "unat sec" cnt False "fs_log s"] rdy assms(2) by auto
  let ?s = "s\<lparr>free_map := b\<rparr>"
  obtain s' where s': "bitmap_write (free_map_allocate n 1) b f ?s = Some (True, s')"
    "writes_only i ?s s'" "contents i s' = bitmap_bytes b"
    using bitmap_write_ok [of ?s f p i b "free_map_allocate n 1"] rdy b by (auto simp: bitmap_file_size_def)
  note fld = writes_only_fields [OF s'(2)]
  have "map_ready f p i s'"
    using rdy b fld writes_only_ok [of i ?s s'] s'(2) by (auto simp: map_ready_def bitmap_file_size_def)
  moreover have "free_map_release n sec cnt s = Some s'"
    using all b(1) rdy s'(1) by (simp add: free_map_release_def ASSERT_def)
  moreover have "fs_log s' = fs_log s" using s'(2) by (simp add: writes_only_def)
  ultimately show ?thesis using s' b fld by auto
qed

subsection \<open>The table of open inodes\<close>

definition table_ok :: "fs \<Rightarrow> bool" where
  "table_ok s \<longleftrightarrow> distinct (open_inodes s) \<and> (\<forall>p \<in> set (open_inodes s). inodes s p \<noteq> None) \<and>
     distinct (map (\<lambda>p. sector (the (inodes s p))) (open_inodes s)) \<and>
     (\<forall>p. inodes s p \<noteq> None \<longrightarrow> p < next_addr s)"

lemma find_open_spec:
  assumes "\<forall>p \<in> set ps. inodes s p \<noteq> None"
  shows "find_open sec ps s = Some (find (\<lambda>p. sector (the (inodes s p)) = sec) ps)"
  using assms by (induction ps) (auto simp: inode_reopen_def)

lemma inode_open_table:
  assumes "table_ok s" and "bc_inv (cst s)" and "unat sec < bc_nsec (cst s)"
  shows "\<exists>p s' i. inode_open sec s = Some (p, s') \<and> table_ok s' \<and> p \<in> set (open_inodes s') \<and>
    inodes s' p = Some i \<and> sector i = sec \<and>
    (\<forall>q j. q \<noteq> p \<longrightarrow> inodes s' q = Some j \<longrightarrow> inodes s q = Some j) \<and>
    (\<forall>q \<in> set (open_inodes s). sector (the (inodes s q)) = sec \<longrightarrow> q = p \<and> s' = s)"
proof (cases "find (\<lambda>p. sector (the (inodes s p)) = sec) (open_inodes s)")
  case None
  note ok = assms(1) [unfolded table_ok_def]
  let ?p = "next_addr s"
  obtain c where c: "bc_read sec (cst s) = Some (bc_view (cst s) sec, c)"
    using bc_read_ok [OF assms(2,3)] by blast
  have fresh: "inodes s ?p = None" using ok by (meson less_irrefl)
  have other: "\<forall>q \<in> set (open_inodes s). q \<noteq> ?p" using ok fresh by auto
  have none: "\<forall>q \<in> set (open_inodes s). sector (the (inodes s q)) \<noteq> sec"
    using None by (simp add: find_None_iff)
  let ?i = "\<lparr>sector = sec, open_cnt = 1, removed = False, deny_write_cnt = 0,
    data = decode_inode (bc_view (cst s) sec)\<rparr>"
  let ?s = "s\<lparr>cst := c, next_addr := ?p + 1, open_inodes := ?p # open_inodes s, inodes := (inodes s)(?p \<mapsto> ?i)\<rparr>"
  have "inode_open sec s = Some (?p, ?s)"
    using ok None c by (simp add: inode_open_def find_open_spec sector_read_def Let_def)
  moreover have "table_ok ?s"
    using ok fresh other none by (auto simp: table_ok_def image_iff less_SucI cong: map_cong)
  ultimately show ?thesis using none by auto
next
  case (Some p)
  then have p: "p \<in> set (open_inodes s)" "sector (the (inodes s p)) = sec"
    by (auto simp: find_Some_iff)
  have "\<forall>q \<in> set (open_inodes s). sector (the (inodes s q)) = sec \<longrightarrow> q = p \<and> s = s"
    using assms(1) p by (auto simp: table_ok_def distinct_map dest: inj_onD)
  moreover have "inode_open sec s = Some (p, s)"
    using Some assms(1) by (simp add: inode_open_def find_open_spec table_ok_def)
  moreover obtain i where "inodes s p = Some i" using p(1) assms(1) by (auto simp: table_ok_def)
  moreover from this p have "sector i = sec" by simp
  ultimately show ?thesis
    using p(1) assms(1) by blast
qed

subsection \<open>The sectors of a file\<close>

lemma bytes_to_sectors_nblocks:
  assumes "0 \<le> id_length d" and "id_length d + 512 < 2 ^ 31"
  shows "bytes_to_sectors (id_length d) = Some (nblocks d)"
proof -
  obtain n where n: "id_length d = int n" using assms(1) by (metis nonneg_int_cases)
  have "(id_length d + 511) sdiv 512 = int (nblocks d)"
    using int_sdiv [of "n + 511"] by (simp add: n nblocks_def)
  moreover have "nblocks d < 2 ^ 64" using assms n by (simp add: nblocks_def)
  ultimately show ?thesis using assms(2) by (simp add: bytes_to_sectors_def)
qed

text \<open>A read of one sector by an inode operation.\<close>

lemma sector_read_ok:
  assumes "bc_inv (cst s)" and "unat k < bc_nsec (cst s)"
  shows "\<exists>s'. sector_read k s = Some (bc_view (cst s) k, s') \<and> reads_same s s'"
  using bc_read_ok [OF assms] by (auto simp: sector_read_def reads_same_def store_same_def)

lemma reads_same_refl: "bc_inv (cst s) \<Longrightarrow> reads_same s s"
  by (simp add: reads_same_def store_same_def)

lemma reads_same_trans: "reads_same s s1 \<Longrightarrow> reads_same s1 s2 \<Longrightarrow> reads_same s s2"
  unfolding reads_same_def
  by (metis (no_types, lifting) fs.update_convs(1) fs.surjective store_same_trans)

lemma reads_same_view:
  assumes "reads_same s s'"
  shows "bc_inv (cst s')" "bc_nsec (cst s') = bc_nsec (cst s)"
    "unat k < bc_nsec (cst s) \<Longrightarrow> bc_view (cst s') k = bc_view (cst s) k"
  using assms by (simp_all add: reads_same_def store_same_def)

lemma take_indirect_blocks:
  "n \<le> 128 \<Longrightarrow> take n (indirect_blocks blk) = map ((!) (indirect_blocks blk)) [0..<n]"
  by (rule nth_equalityI) simp_all

text \<open>The tables of a doubly indirect block, from entry \<open>i\<close> on.\<close>

lemma table_sectors_ok:
  assumes "bc_inv (cst s)" and "num \<le> 128 * l" and "128 * l < num + 128" and "i + l \<le> length ents"
    and "\<forall>j < l. unat (ents ! (i + j)) < bc_nsec (cst s)"
  shows "\<exists>s'. table_sectors l i ents num s =
      Some (map (\<lambda>j. indirect_blocks (bc_view (cst s) (ents ! (i + j div 128))) ! (j mod 128)) [0..<num], s') \<and>
    reads_same s s'"
  using assms
proof (induction l arbitrary: i num s)
  case 0
  then show ?case by (simp add: reads_same_refl)
next
  case (Suc l)
  let ?q = "min num 128" and ?v = "\<lambda>s k. indirect_blocks (bc_view (cst s) k)"
  obtain s1 where s1: "sector_read (ents ! i) s = Some (bc_view (cst s) (ents ! i), s1)" "reads_same s s1"
    using sector_read_ok [of s "ents ! i"] Suc.prems(1) Suc.prems(5) [rule_format, of 0] by auto
  note v1 = reads_same_view [OF s1(2)]
  have rest: "\<forall>j < l. unat (ents ! (Suc i + j)) < bc_nsec (cst s)"
    using Suc.prems(5) by auto
  have ar: "num - ?q \<le> 128 * l" "128 * l < num - ?q + 128"
    using Suc.prems(2,3) unfolding mult_Suc_right by linarith+
  obtain s2 where s2: "table_sectors l (Suc i) ents (num - ?q) s1 =
      Some (map (\<lambda>j. ?v s1 (ents ! (Suc i + j div 128)) ! (j mod 128)) [0..<num - ?q], s2)" "reads_same s1 s2"
    using Suc.IH [of s1 "num - ?q" "Suc i", OF v1(1) ar] Suc.prems(4) v1(2) rest by auto
  have tl: "map (\<lambda>j. ?v s1 (ents ! (Suc i + j div 128)) ! (j mod 128)) [0..<num - ?q] =
      map (\<lambda>j. ?v s (ents ! (i + j div 128)) ! (j mod 128)) [?q..<num]"
  proof (rule nth_equalityI)
    fix j assume "j < length (map (\<lambda>j. ?v s1 (ents ! (Suc i + j div 128)) ! (j mod 128)) [0..<num - ?q])"
    then have j: "j < num - ?q" "?q = 128" by auto
    then have "j div 128 < l" using Suc.prems(2) by (simp add: less_mult_imp_div_less)
    then have "bc_view (cst s1) (ents ! (Suc i + j div 128)) = bc_view (cst s) (ents ! (Suc i + j div 128))"
      using v1(3) rest by blast
    then show "map (\<lambda>j. ?v s1 (ents ! (Suc i + j div 128)) ! (j mod 128)) [0..<num - ?q] ! j =
        map (\<lambda>j. ?v s (ents ! (i + j div 128)) ! (j mod 128)) [?q..<num] ! j"
      using j by (simp add: div_add_self1)
  qed simp
  have hd: "take ?q (?v s (ents ! i)) = map (\<lambda>j. ?v s (ents ! (i + j div 128)) ! (j mod 128)) [0..<?q]"
    by (subst take_indirect_blocks) (auto intro: map_cong)
  have "[0..<num] = [0..<?q] @ [?q..<num]"
    using upt_add_eq_append [of 0 ?q "num - ?q"] by simp
  then show ?case
    using s1 s2 reads_same_trans [OF s1(2) s2(2)] Suc.prems(4) hd tl
    by (simp add: INDIRECT_BLOCKS_PER_SECTOR_def Let_def)
qed

text \<open>The two index levels, and the sectors listed by \<^verbatim>\<open>get_inode_data_sectors\<close>.\<close>

lemma indirect_sectors_ok:
  assumes "bc_inv (cst s)" and "mapped bc_nsec bc_view d (cst s) n" and "l = min (n - 123) 128"
  shows "\<exists>s'. (if 0 < l then do { (blk, s) \<leftarrow> sector_read (indirect_block d) s;
        Some (take l (indirect_blocks blk), s) } else Some ([], s)) =
      Some (map (\<lambda>j. blk_sector bc_view d (cst s) (123 + j)) [0..<l], s') \<and> reads_same s s'"
proof (cases "0 < l")
  case True
  then have "unat (indirect_block d) < bc_nsec (cst s)"
    using assms(2,3) by (auto simp: mapped_def blk_meta_def dest: spec [of _ 123])
  then obtain s' where s': "sector_read (indirect_block d) s = Some (bc_view (cst s) (indirect_block d), s')"
    "reads_same s s'"
    using sector_read_ok [OF assms(1)] by blast
  have "take l (indirect_blocks (bc_view (cst s) (indirect_block d))) =
      map (\<lambda>j. blk_sector bc_view d (cst s) (123 + j)) [0..<l]"
    using assms(3) by (intro nth_equalityI) (simp_all add: blk_sector_def)
  then show ?thesis using True s' by simp
qed (simp add: reads_same_refl assms(1))

lemma doubly_sectors_ok:
  assumes "bc_inv (cst s)" and m: "mapped bc_nsec bc_view d (cst s) n" and "l = n - 251"
  shows "\<exists>s'. (if 0 < l then do { (blk, s) \<leftarrow> sector_read (doubly_indirect_block d) s;
        table_sectors (DIV_ROUND_UP l 128) 0 (indirect_blocks blk) l s } else Some ([], s)) =
      Some (map (\<lambda>j. blk_sector bc_view d (cst s) (251 + j)) [0..<l], s') \<and> reads_same s s'"
proof (cases "0 < l")
  case True
  let ?k = "doubly_indirect_block d" and ?q = "DIV_ROUND_UP l 128"
  let ?e = "indirect_blocks (bc_view (cst s) ?k)"
  have n: "251 < n" "n \<le> 251 + 128 * 128"
    using True m assms(3) by (simp_all add: mapped_def MAX_BLOCKS_def)
  have meta: "unat k < bc_nsec (cst s)" if "j < l" "k \<in> {?k, ?e ! (j div 128)}" for j k
    using m that assms(3) by (auto simp: mapped_def blk_meta_def dest: spec [of _ "251 + j"])
  obtain s1 where s1: "sector_read ?k s = Some (bc_view (cst s) ?k, s1)" "reads_same s s1"
    using sector_read_ok [OF assms(1)] meta [OF True, of ?k] by blast
  note v1 = reads_same_view [OF s1(2)]
  have l: "l \<le> 128 * 128" "l + 128 \<le> 2 ^ 64" using n assms(3) by simp_all
  then have q: "l \<le> 128 * ?q" "128 * ?q < l + 128"
    using DIV_ROUND_UP_bounds [of 128 l] by (simp_all add: mult.commute)
  then have q3: "?q \<le> 128" using l(1) by linarith
  have tab: "unat (?e ! j) < bc_nsec (cst s)" if "j < ?q" for j
    using meta [of "128 * j"] that q(2) by simp
  obtain s2 where s2: "table_sectors ?q 0 ?e l s1 =
      Some (map (\<lambda>j. indirect_blocks (bc_view (cst s1) (?e ! (j div 128))) ! (j mod 128)) [0..<l], s2)"
    "reads_same s1 s2"
    using table_sectors_ok [of s1 l ?q 0 ?e, OF v1(1) q(1,2)] q3 tab v1(2) by auto
  have "map (\<lambda>j. indirect_blocks (bc_view (cst s1) (?e ! (j div 128))) ! (j mod 128)) [0..<l] =
      map (\<lambda>j. blk_sector bc_view d (cst s) (251 + j)) [0..<l]"
    using v1(3) meta by (intro map_cong) (simp_all add: blk_sector_def)
  then show ?thesis using True s1 s2 reads_same_trans [OF s1(2) s2(2)] by simp
qed (simp add: reads_same_refl assms(1))

lemma get_inode_data_sectors_ok:
  assumes "inodes s p = Some i" and "ino_ok i s" and "id_length (data i) + 512 < 2 ^ 31"
  shows "\<exists>s'. get_inode_data_sectors p s =
      Some (Some (map (blk_sector bc_view (data i) (cst s)) [0..<nblocks (data i)]), s') \<and> reads_same s s'"
proof -
  let ?d = "data i" and ?n = "nblocks (data i)" and ?f = "\<lambda>s. blk_sector bc_view (data i) (cst s)"
  define l1 where "l1 = min ?n 123"
  define l2 where "l2 = min (?n - l1) 128"
  define l3 where "l3 = ?n - (l1 + l2)"
  note ok = assms(2) [unfolded ino_ok_def]
  have mp: "mapped bc_nsec bc_view ?d (cst s) ?n" and len: "length (direct_blocks ?d) = 123"
    and max: "?n \<le> 123 + 128 + 128 * 128"
    using ok by (simp_all add: mapped_def MAX_BLOCKS_def)
  have nb: "bytes_to_sectors (id_length ?d) = Some ?n"
    using bytes_to_sectors_nblocks assms(3) ok by blast
  have ks1: "take l1 (direct_blocks ?d) = map (?f s) [0..<l1]"
    using len by (intro nth_equalityI) (simp_all add: blk_sector_def l1_def)
  have l2: "l2 = min (?n - 123) 128" and l3: "l3 = ?n - 251" unfolding l1_def l2_def l3_def by linarith+
  obtain s1 where s1: "(if 0 < l2 then do { (blk, s) \<leftarrow> sector_read (indirect_block ?d) s;
        Some (take l2 (indirect_blocks blk), s) } else Some ([], s)) =
      Some (map (\<lambda>j. ?f s (123 + j)) [0..<l2], s1)" "reads_same s s1"
    using indirect_sectors_ok [OF _ mp l2] ok by blast
  have ss: "store_same bc_inv bc_nsec bc_view bc_console (cst s) (cst s1)"
    using s1(2) by (simp add: reads_same_def)
  obtain s2 where s2: "(if 0 < l3 then do { (blk, s) \<leftarrow> sector_read (doubly_indirect_block ?d) s1;
        table_sectors (DIV_ROUND_UP l3 128) 0 (indirect_blocks blk) l3 s } else Some ([], s1)) =
      Some (map (\<lambda>j. ?f s1 (251 + j)) [0..<l3], s2)" "reads_same s1 s2"
    using doubly_sectors_ok [OF _ mapped_store_same [OF mp ss] l3] reads_same_view(1) [OF s1(2)] by blast
  have ks3: "map (\<lambda>j. ?f s1 (251 + j)) [0..<l3] = map (\<lambda>j. ?f s (251 + j)) [0..<l3]"
    using mapped_same(1) [OF mp ss] by (intro map_cong) (auto simp: l3)
  have m3: "min l3 (128 * 128) = l3" using max l3 by linarith
  have "map (?f s) [0..<?n] =
      map (?f s) [0..<l1] @ map (\<lambda>j. ?f s (123 + j)) [0..<l2] @ map (\<lambda>j. ?f s (251 + j)) [0..<l3]"
  proof -
    have le: "l1 \<le> ?n" "l2 \<le> ?n - l1" unfolding l1_def l2_def by linarith+
    have "map (?f s) [0..<?n] = map (?f s) [0..<l1] @ map (\<lambda>j. ?f s (l1 + j)) [0..<l2] @
        map (\<lambda>j. ?f s (l1 + (l2 + j))) [0..<l3]"
      unfolding l3_def diff_diff_left [symmetric] by (subst map_upt_split [OF le(1)], subst map_upt_split [OF le(2)]) (rule refl)
    moreover have "l1 = 123" if "0 < l2" using that unfolding l1_def l2_def by linarith
    moreover have "l1 + (l2 + j) = 251 + j" if "j < l3" for j
      using that unfolding l1_def l2_def l3_def by linarith
    ultimately show ?thesis by (cases "l2 = 0") simp_all
  qed
  moreover have z: "?n - (l1 + (l2 + l3)) = 0" unfolding l3_def by simp
  moreover have "get_inode_data_sectors p s =
      Some (Some (take l1 (direct_blocks ?d) @ map (\<lambda>j. ?f s (123 + j)) [0..<l2] @
        map (\<lambda>j. ?f s (251 + j)) [0..<l3]), s2)"
    using ok
    by (simp only: get_inode_data_sectors_def DIRECT_BLOCKS_COUNT_def INDIRECT_BLOCKS_PER_SECTOR_def Let_def
        assms(1) nb bind.simps l1_def [symmetric] l2_def [symmetric] diff_diff_left l3_def [symmetric] m3 s1(1) s2(1)
        ks3 split z refl fs_assert_def ASSERT_def if_True set_log_same not_less [symmetric] if_False)
  ultimately show ?thesis
    using ks1 reads_same_trans [OF s1(2) s2(2)] by simp
qed

subsection \<open>Closing, truncating\<close>

lemma inode_close_last:
  assumes "inodes s p = Some i" and "open_cnt i = 1" and "\<not> removed i"
  shows "inode_close n (Some p) s = Some (s\<lparr>open_inodes := remove1 p (open_inodes s), inodes := (inodes s)(p := None)\<rparr>)"
  using assms by (simp add: inode_close_def upd_inode_def)

lemma inode_reserve_zero:
  "inode_reserve alloc r 0 s = Some (True, s)"
proof -
  have "bytes_to_sectors 0 = Some 0" using int_sdiv [of 511] by (simp add: bytes_to_sectors_def)
  then show ?thesis by (simp add: inode_reserve_def)
qed

lemma sector_write_ok:
  assumes "bc_inv (cst s)" and "unat k < bc_nsec (cst s)" and "length src = 512"
  shows "\<exists>c. sector_write k src s = Some (s\<lparr>cst := c\<rparr>) \<and> bc_inv c \<and> bc_nsec c = bc_nsec (cst s) \<and>
    (\<forall>j. unat j < bc_nsec (cst s) \<longrightarrow> bc_view c j = (if j = k then src else bc_view (cst s) j))"
  using bc_write_ok [OF assms] by (auto simp: sector_write_def)

lemma inode_write_at_zero:
  assumes "inodes s p = Some i" and "bc_inv (cst s)" and "wf_idisk (data i)" and "deny_write_cnt i = 0"
    and "unat (sector i) < bc_nsec (cst s)"
  shows "\<exists>s'. inode_write_at alloc p src 0 0 s = Some (0, s') \<and>
    inodes s' p = Some (i\<lparr>data := (data i)\<lparr>id_length := 0\<rparr>\<rparr>) \<and>
    decode_inode (bc_view (cst s') (sector i)) = (data i)\<lparr>id_length := 0\<rparr>"
proof -
  let ?d = "(data i)\<lparr>id_length := 0\<rparr>"
  let ?s = "s\<lparr>inodes := (inodes s)(p \<mapsto> i\<lparr>data := ?d\<rparr>)\<rparr>"
  have wf: "wf_idisk ?d" using assms(3) by (simp add: wf_idisk_def)
  obtain c where c: "sector_write (sector i) (encode_inode ?d) ?s = Some (?s\<lparr>cst := c\<rparr>)"
    "bc_view c (sector i) = encode_inode ?d"
    using sector_write_ok [of ?s "sector i" "encode_inode ?d"] length_encode_inode [OF wf] assms(2,5) by auto
  have "byte_to_sector bc_read (data i) (- 1) (cst s) = Some (- 1, cst s)"
    by (simp add: byte_to_sector_def)
  moreover have "write_loop bc_read bc_write d src 0 0 0 x = Some (0, x)" for d x
    by (subst write_loop.simps) (simp add: Let_def)
  ultimately have "inode_write_at alloc p src 0 0 s = Some (0, ?s\<lparr>cst := c\<rparr>)"
    using assms(1,4) c(1) by (simp add: inode_write_at_def inode_reserve_zero upd_disk_def upd_inode_def)
  then show ?thesis
    using c(2) decode_encode_inode [OF wf] by simp
qed

subsection \<open>Properties\<close>

text \<open>A file system of two sectors for the witnesses: the free map of three bits lives in the file
  whose inode is at sector 0 and whose data is at sector 1.\<close>

definition sample_inode :: inode where
  "sample_inode = \<lparr>sector = 0, open_cnt = 1, removed = False, deny_write_cnt = 0,
     data = sample_idisk\<lparr>id_length := 8\<rparr>\<rparr>"

definition sample_fs :: fs where
  "sample_fs = \<lparr>cst = sample_cstate, free_map = sample_bitmap, free_map_file = Some 1,
     inodes = [0 \<mapsto> sample_inode], open_inodes = [0], scratch = None,
     files = [1 \<mapsto> \<lparr>file_inode = 0, pos = 0, deny_write = False\<rparr>], dirs = Map.empty, cwd = None,
     file_table = [], next_addr = 2\<rparr>"

lemma sample_fs_facts:
  "inodes sample_fs 0 = Some sample_inode" "ino_ok sample_inode sample_fs" "deny_write_cnt sample_inode = 0"
  "id_length (data sample_inode) = 8" "free_map sample_fs = sample_bitmap"
  "map_ready 1 0 sample_inode sample_fs" "table_ok sample_fs" "bc_inv (cst sample_fs)" "bc_nsec (cst sample_fs) = 2"
  "sector sample_inode = 0" "wf_idisk (data sample_inode)"
proof -
  show cs: "bc_inv (cst sample_fs)" "bc_nsec (cst sample_fs) = 2"
    using sample_cstate_facts by (simp_all add: sample_fs_def)
  show wf: "wf_idisk (data sample_inode)"
    using sample_idisk_facts(1) by (simp add: sample_inode_def wf_idisk_def)
  show ok: "ino_ok sample_inode sample_fs"
    using sample_idisk_facts cs wf
    by (simp add: ino_ok_def mapped_def separate_def nblocks_def MAX_BLOCKS_def blk_sector_def blk_meta_def
        inj_on_def sample_inode_def)
  show "map_ready 1 0 sample_inode sample_fs"
    using ok sample_bitmap_facts
    by (simp add: map_ready_def sample_fs_def sample_inode_def bitmap_file_size_def byte_cnt_def elem_cnt_def
        DIV_ROUND_UP_def ELEM_BITS_def BITMAP_ERROR_def sz_def)
qed (simp_all add: sample_fs_def sample_inode_def table_ok_def)

lemma sample_map_run: "first_run (bits_of (free_map sample_fs)) 0 1 False = Some 1"
  by (simp add: sample_fs_facts sample_bitmap_facts first_run_def is_run_def upt_rec)

text \<open>C2: Bytes written to an open inode inside the file are what a read at the same place returns; the
  rest of the file, and every sector that holds none of its data, is unchanged, and no sector is
  allocated.\<close>

theorem inode_write_read_roundtrip:
  assumes "inodes s p = Some i" and "ino_ok i s" and "deny_write_cnt i = 0"
    and "0 < length bs" and "q + length bs \<le> length (contents i s)"
  shows "\<exists>s1 s2. inode_write_at alloc p bs (int (length bs)) (int q) s = Some (int (length bs), s1) \<and>
    inode_read_at p (int (length bs)) (int q) s1 = Some (bs, s2) \<and>
    writes_only i s s1 \<and> contents i s1 = overwrite q bs (contents i s)"
proof -
  obtain s1 where s1: "inode_write_at alloc p bs (int (length bs)) (int q) s = Some (int (length bs), s1)"
    "writes_only i s s1" "contents i s1 = overwrite q bs (contents i s)"
    using inode_write_at_inside [OF assms(1-5), of bs alloc] by auto
  have "take (length bs) (drop q (contents i s1)) = bs"
    using s1(3) assms(5) by (simp add: overwrite_def)
  moreover have "inodes s1 p = Some i" using writes_only_fields(4) [OF s1(2)] assms(1) by simp
  ultimately show ?thesis
    using s1 inode_read_at_ok [OF _ writes_only_ok [OF assms(2) s1(2)], of p "length bs" q] by auto
qed

theorem inode_write_read_roundtrip_witness:
  "\<exists>s1 s2. inode_write_at (free_map_allocate 1 1) 0 [1, 2, 3] 3 4 sample_fs = Some (3, s1) \<and>
     inode_read_at 0 3 4 s1 = Some ([1, 2, 3], s2)"
  using inode_write_read_roundtrip [OF sample_fs_facts(1-3), of "[1, 2, 3]" 4 "free_map_allocate 1 1"]
  by (auto simp: sample_fs_facts)

text \<open>C8: Allocating sectors while the free map file is open takes the first run of free sectors, marks
  it, and leaves the new map in the file: reading the file into a map of the same size gives exactly
  the map in memory. When there is no such run the allocation fails and nothing changes. One level
  of recursion is enough.\<close>

theorem free_map_allocate_persists:
  assumes "map_ready f p i s" and "0 < cnt"
  shows "case first_run (bits_of (free_map s)) 0 cnt False of
      None \<Rightarrow> free_map_allocate (Suc n) cnt s = Some (None, s)
    | Some k \<Rightarrow> (\<exists>s'. free_map_allocate (Suc n) cnt s = Some (Some (of_nat k), s') \<and> map_ready f p i s' \<and>
        bits_of (free_map s') = overwrite k (replicate cnt True) (bits_of (free_map s)) \<and>
        (\<exists>s2 r. bitmap_read (free_map s) f s' = Some (True, r, s2) \<and> bits_of r = bits_of (free_map s')))"
proof (cases "first_run (bits_of (free_map s)) 0 cnt False")
  case None
  then show ?thesis using free_map_allocate_full [OF assms] by simp
next
  case (Some k)
  then obtain s' where s': "free_map_allocate (Suc n) cnt s = Some (Some (of_nat k), s')" "map_ready f p i s'"
    "contents i s' = bitmap_bytes (free_map s')" "bit_cnt (free_map s') = bit_cnt (free_map s)"
    "bits_of (free_map s') = overwrite k (replicate cnt True) (bits_of (free_map s))"
    using free_map_allocate_ok [OF assms Some] by blast
  have "\<exists>s2 r. bitmap_read (free_map s) f s' = Some (True, r, s2) \<and> bits_of r = bits_of (free_map s')"
    using bitmap_read_ok [of s' f p i "free_map s" "free_map s'"] s' assms(1) by (auto simp: map_ready_def)
  then show ?thesis using Some s' by auto
qed

theorem free_map_allocate_persists_witness:
  "\<exists>s'. free_map_allocate 1 1 sample_fs = Some (Some 1, s') \<and> bits_of (free_map s') = [True, True, True]"
  using free_map_allocate_persists [OF sample_fs_facts(6), of 1 0] sample_map_run
  by (auto simp: sample_fs_facts sample_bitmap_facts overwrite_def)

text \<open>Releasing the sectors an allocation has just returned restores the free map, in memory and in the
  file, and reports nothing.\<close>

theorem free_map_release_undoes_allocate:
  assumes "map_ready f p i s" and "0 < cnt" and "first_run (bits_of (free_map s)) 0 cnt False \<noteq> None"
  shows "\<exists>sec s1 s2. free_map_allocate (Suc n) cnt s = Some (Some sec, s1) \<and>
    free_map_release m sec cnt s1 = Some s2 \<and> bits_of (free_map s2) = bits_of (free_map s) \<and>
    contents i s2 = bitmap_bytes (free_map s2) \<and> fs_log s2 = fs_log s"
proof -
  obtain k where k: "first_run (bits_of (free_map s)) 0 cnt False = Some k" using assms(3) by blast
  then have run: "is_run (bits_of (free_map s)) k cnt False" by (simp add: first_run_Some)
  have kc: "k + cnt \<le> bit_cnt (free_map s)" using run by (simp add: is_run_def)
  have free: "\<not> bits_of (free_map s) ! j" if "k \<le> j" "j < k + cnt" for j
    using run that by (auto simp: is_run_def dest: spec [of _ "j - k"])
  have un: "unat (of_nat k :: u32) = k"
    using unat_of_nat_run(1) [OF k _ assms(2)] assms(1) by (simp add: map_ready_def)
  obtain s1 where s1: "free_map_allocate (Suc n) cnt s = Some (Some (of_nat k), s1)" "map_ready f p i s1"
    "writes_only i (s\<lparr>free_map := free_map s1\<rparr>) s1" "bit_cnt (free_map s1) = bit_cnt (free_map s)"
    "bits_of (free_map s1) = overwrite k (replicate cnt True) (bits_of (free_map s))"
    using free_map_allocate_ok [OF assms(1,2) k] by blast
  have "is_run (bits_of (free_map s1)) k cnt True"
    using kc s1(4,5) by (simp add: is_run_def nth_overwrite)
  then obtain s2 where s2: "free_map_release m (of_nat k) cnt s1 = Some s2" "fs_log s2 = fs_log s1"
    "contents i s2 = bitmap_bytes (free_map s2)"
    "bits_of (free_map s2) = overwrite k (replicate cnt False) (bits_of (free_map s1))"
    using free_map_release_ok [OF s1(2), of "of_nat k" cnt m] kc s1(4) un by auto
  have "bits_of (free_map s2) = bits_of (free_map s)"
    unfolding s2(4) s1(5) using free kc by (intro list_eq_nthI) (auto simp: nth_overwrite)
  moreover have "fs_log s1 = fs_log s" using s1(3) by (simp add: writes_only_def)
  ultimately show ?thesis using s1(1) s2 by auto
qed

theorem free_map_release_undoes_allocate_witness:
  "\<exists>sec s1 s2. free_map_allocate 1 1 sample_fs = Some (Some sec, s1) \<and> free_map_release 1 sec 1 s1 = Some s2 \<and>
     bits_of (free_map s2) = [True, False, True]"
  using free_map_release_undoes_allocate [OF sample_fs_facts(6), of 1 0 1] sample_map_run
  by (auto simp: sample_fs_facts sample_bitmap_facts)

text \<open>C19: The sectors that \<^verbatim>\<open>get_inode_data_sectors\<close> collects are, in order, the sectors that
  \<^verbatim>\<open>index_to_sector\<close> finds for the blocks of the file: two walks of the direct, indirect and doubly
  indirect blocks that agree.\<close>

theorem data_sectors_agree:
  assumes "inodes s p = Some i" and "ino_ok i s" and "id_length (data i) + 512 < 2 ^ 31"
  shows "\<exists>ks s'. get_inode_data_sectors p s = Some (Some ks, s') \<and> reads_same s s' \<and>
    length ks = nblocks (data i) \<and>
    (\<forall>j < nblocks (data i). \<exists>c. index_to_sector bc_read (data i) (int j) (cst s) = Some (ks ! j, c))"
proof -
  obtain s' where s': "get_inode_data_sectors p s =
      Some (Some (map (blk_sector bc_view (data i) (cst s)) [0..<nblocks (data i)]), s')" "reads_same s s'"
    using get_inode_data_sectors_ok [OF assms] by blast
  moreover have "\<exists>c. index_to_sector bc_read (data i) (int j) (cst s) = Some (blk_sector bc_view (data i) (cst s) j, c)"
    if "j < nblocks (data i)" for j
    using cached.index_to_sector_ok [of "cst s" "data i" "nblocks (data i)" j] assms(2) that by (auto simp: ino_ok_def)
  ultimately show ?thesis by simp
qed

theorem data_sectors_agree_witness:
  "\<exists>ks s'. get_inode_data_sectors 0 sample_fs = Some (Some ks, s') \<and> length ks = nblocks (data sample_inode)"
  using data_sectors_agree [OF sample_fs_facts(1,2)] by (auto simp: sample_fs_facts(4))

text \<open>C21: The table of open inodes holds one object for each open sector: opening a sector keeps the
  table in order and yields an object of that sector, the one already in the table if there is one.\<close>

theorem inode_open_unique:
  assumes "table_ok s" and "bc_inv (cst s)" and "unat sec < bc_nsec (cst s)"
  shows "\<exists>p s' i. inode_open sec s = Some (p, s') \<and> table_ok s' \<and> p \<in> set (open_inodes s') \<and>
    inodes s' p = Some i \<and> sector i = sec \<and>
    (\<forall>q \<in> set (open_inodes s). sector (the (inodes s q)) = sec \<longrightarrow> q = p \<and> s' = s)"
  using inode_open_table [OF assms] by blast

theorem inode_open_unique_witness:
  "\<exists>p s'. inode_open 0 sample_fs = Some (p, s') \<and> table_ok s' \<and> p = 0"
proof -
  have "0 \<in> set (open_inodes sample_fs)" "sector (the (inodes sample_fs 0)) = 0"
    by (simp_all add: sample_fs_def sample_inode_def)
  then show ?thesis
    using inode_open_unique [OF sample_fs_facts(7,8), of 0] sample_fs_facts(9) by auto
qed

text \<open>C32: \<^verbatim>\<open>inode_reopen\<close> does not count the new opener. Opening an open inode a second time and
  closing it once destroys the object, and every use of the first opener's pointer is undefined.\<close>

theorem inode_reopen_uncounted:
  assumes "table_ok s" and "p \<in> set (open_inodes s)" and "inodes s p = Some i"
    and "open_cnt i = 1" and "\<not> removed i"
  shows "inode_open (sector i) s = Some (p, s) \<and>
    (\<exists>s'. inode_close n (Some p) s = Some s' \<and> inodes s' p = None \<and>
      inode_read_at p len ofs s' = None \<and> inode_close n (Some p) s' = None)"
proof -
  have "find (\<lambda>q. sector (the (inodes s q)) = sector i) (open_inodes s) \<noteq> None"
    using assms(2,3) by (auto simp: find_None_iff)
  then obtain q where q: "find (\<lambda>q. sector (the (inodes s q)) = sector i) (open_inodes s) = Some q" by blast
  then have "q \<in> set (open_inodes s)" "sector (the (inodes s q)) = sector i" by (auto simp: find_Some_iff)
  moreover have "inj_on (\<lambda>q. sector (the (inodes s q))) (set (open_inodes s))"
    using assms(1) by (simp add: table_ok_def distinct_map)
  ultimately have "q = p"
    using inj_onD [of "\<lambda>q. sector (the (inodes s q))" _ q p] assms(2,3) by simp
  then have "inode_open (sector i) s = Some (p, s)"
    using q assms(1) by (simp add: inode_open_def find_open_spec table_ok_def)
  then show ?thesis
    using inode_close_last [OF assms(3-5), of n]
    by (simp add: inode_read_at_def) (simp add: inode_close_def upd_inode_def)
qed

theorem inode_reopen_uncounted_witness:
  "inode_open 0 sample_fs = Some (0, sample_fs) \<and>
   (\<exists>s'. inode_close 1 (Some 0) sample_fs = Some s' \<and> inode_read_at 0 8 0 s' = None)"
  using inode_reopen_uncounted [OF sample_fs_facts(7) _ sample_fs_facts(1), of 1 8 0]
  by (auto simp: sample_fs_def sample_inode_def)

text \<open>A write of zero bytes at offset 0 reports success and truncates the file: the offset before the
  run, -1, is taken for an offset beyond the end, and the length, in memory and on disk, becomes 0.\<close>

theorem inode_zero_write_truncates:
  assumes "inodes s p = Some i" and "bc_inv (cst s)" and "wf_idisk (data i)" and "deny_write_cnt i = 0"
    and "unat (sector i) < bc_nsec (cst s)"
  shows "\<exists>s'. inode_write_at alloc p src 0 0 s = Some (0, s') \<and> inode_length p s' = Some 0 \<and>
    id_length (decode_inode (bc_view (cst s') (sector i))) = 0"
  using inode_write_at_zero [OF assms, of alloc src] by (auto simp: inode_length_def)

theorem inode_zero_write_truncates_witness:
  "inode_length 0 sample_fs = Some 8 \<and>
   (\<exists>s'. inode_write_at (free_map_allocate 1 1) 0 [] 0 0 sample_fs = Some (0, s') \<and> inode_length 0 s' = Some 0)"
  using inode_zero_write_truncates [OF sample_fs_facts(1,8,11,3), of "free_map_allocate 1 1" "[]"]
  by (auto simp: sample_fs_facts inode_length_def)

text \<open>A sequential write puts a terminator in the last byte it writes and leaves the position two bytes
  before the end of what it has written; a write of no bytes has no defined behaviour.\<close>

theorem file_write_position:
  assumes "files s f = Some x" and "inodes s (file_inode x) = Some i" and "ino_ok i s"
    and "deny_write_cnt i = 0" and "0 \<le> pos x" and "bs \<noteq> []"
    and "nat (pos x) + length bs \<le> length (contents i s)"
  shows "(\<exists>s'. file_write alloc f bs (int (length bs)) s =
      Some (int (length bs), bs[length bs - 1 := 0], s') \<and>
      contents i s' = overwrite (nat (pos x)) (bs[length bs - 1 := 0]) (contents i s) \<and>
      file_tell f s' = Some (pos x + int (length bs) - 2)) \<and>
    file_write alloc f bs 0 s = None"
proof -
  let ?bs = "bs[length bs - 1 := 0]"
  obtain s1 where s1: "inode_write_at alloc (file_inode x) ?bs (int (length bs)) (pos x) s = Some (int (length bs), s1)"
    "contents i s1 = overwrite (nat (pos x)) ?bs (contents i s)"
    using inode_write_at_inside [OF assms(2-4), of "length bs" "nat (pos x)" ?bs alloc] assms(5-7) by auto
  have "nat (int (length bs) - 1) = length bs - 1" "1 \<le> int (length bs)"
    using assms(6) by (cases bs; simp)+
  then show ?thesis
    using assms(1) s1 by (simp add: file_write_def file_tell_def contents_def)
qed

theorem file_write_position_witness:
  "\<exists>s'. file_write (free_map_allocate 1 1) 1 [5, 6, 7] 3 sample_fs = Some (3, [5, 6, 0], s') \<and>
     file_tell 1 s' = Some 1"
  using file_write_position [of sample_fs 1 "\<lparr>file_inode = 0, pos = 0, deny_write = False\<rparr>" sample_inode
      "[5, 6, 7]" "free_map_allocate 1 1"] sample_fs_facts
  by (auto simp: sample_fs_def)

end
