(* ===== verification/Directory.thy ===== *)
theory Directory
  imports Inode C_String
begin

text \<open>
  Directories (\<^verbatim>\<open>a3/fs/directory.c\<close>): files of 36-byte entries, of which the first refers to the parent
  directory. A \<^verbatim>\<open>struct dir *\<close> is the address of an object in \<open>dirs\<close>, or null. \<open>n\<close> bounds the depth of the
  recursion of \<^verbatim>\<open>free_map_allocate\<close>, as in \<^verbatim>\<open>Inode\<close>. The loops over the entries are partial functions;
  the lemmas show that they end on a well-formed directory.

  The lemmas relate a directory to the list of its entries: looking up a name, adding an
  entry, removing a file and listing are operations on that list.
\<close>

definition NAME_MAX :: nat where
  "NAME_MAX = 30"

record dir_entry =
  inode_sector :: u32
  ent_name :: "byte list"
  in_use :: bool

text \<open>\<^verbatim>\<open>sizeof(struct dir_entry)\<close>: 4 bytes, 31 bytes and 1 byte.\<close>

definition ENTRY_SIZE :: nat where
  "ENTRY_SIZE = 36"

definition encode_entry :: "dir_entry \<Rightarrow> byte list" where
  "encode_entry e = le_encode 4 (unat (inode_sector e)) @ ent_name e @ [if in_use e then 1 else 0]"

definition decode_entry :: "byte list \<Rightarrow> dir_entry" where
  "decode_entry bs =
     \<lparr>inode_sector = of_nat (le_decode (take 4 bs)), ent_name = take 31 (drop 4 bs), in_use = bs ! 35 \<noteq> 0\<rparr>"

subsection \<open>Paths\<close>

text \<open>The directory part and the last component of a path. \<^verbatim>\<open>directory\<close> and \<^verbatim>\<open>filename\<close> are buffers of the
  caller; each must have room for its part and the terminator.\<close>

definition split_path_filename :: "string \<Rightarrow> string \<times> string" where
  "split_path_filename path =
     (let ts = tokens CHR ''/'' path;
          root = (if path \<noteq> [] \<and> path ! 0 = CHR ''/'' then ''/'' else [])
      in (root @ concat (map (\<lambda>t. t @ ''/'') (butlast ts)), if ts = [] then [] else last ts))"

subsection \<open>Opening and closing\<close>

definition dir_open :: "addr option \<Rightarrow> fs \<Rightarrow> addr option \<times> fs" where
  "dir_open ino s =
     (case ino of
        None \<Rightarrow> (None, s)
      | Some p \<Rightarrow>
          (Some (next_addr s),
           s\<lparr>next_addr := next_addr s + 1,
             dirs := (dirs s)(next_addr s \<mapsto> \<lparr>dir_inode = p, dir_pos = int ENTRY_SIZE, dir_open_cnt = 1\<rparr>)\<rparr>))"

definition dir_open_root :: "fs \<Rightarrow> (addr option \<times> fs) option" where
  "dir_open_root s =
     (case cwd s of
        None \<Rightarrow> do { (p, s) \<leftarrow> inode_open ROOT_DIR_SECTOR s;
                     let (d, s) = dir_open (Some p) s;
                     Some (d, s\<lparr>cwd := d\<rparr>) }
      | Some d \<Rightarrow> do { x \<leftarrow> dirs s d;
                       Some (Some d, s\<lparr>dirs := (dirs s)(d \<mapsto> x\<lparr>dir_open_cnt := dir_open_cnt x + 1\<rparr>)\<rparr>) })"

definition dir_reopen :: "addr \<Rightarrow> fs \<Rightarrow> (addr option \<times> fs) option" where
  "dir_reopen d s = do { x \<leftarrow> dirs s d; Some (dir_open (Some (inode_reopen (dir_inode x))) s) }"

text \<open>Closing any directory for the last time resets \<^verbatim>\<open>cwd\<close>.\<close>

definition dir_close :: "nat \<Rightarrow> addr option \<Rightarrow> fs \<Rightarrow> fs option" where
  "dir_close n d s =
     (case d of
        None \<Rightarrow> Some s
      | Some d \<Rightarrow>
          do { x \<leftarrow> dirs s d;
               let s = s\<lparr>dirs := (dirs s)(d \<mapsto> x\<lparr>dir_open_cnt := dir_open_cnt x - 1\<rparr>)\<rparr>;
               if dir_open_cnt x - 1 = 0
               then do { s \<leftarrow> inode_close n (Some (dir_inode x)) s;
                         Some (s\<lparr>dirs := (dirs s)(d := None), cwd := None\<rparr>) }
               else Some s })"

definition dir_get_inode :: "addr option \<Rightarrow> fs \<Rightarrow> (addr \<times> fs) option" where
  "dir_get_inode d s =
     do { let s = fs_assert (d \<noteq> None) ''dir_get_inode'' s;
          d \<leftarrow> d; x \<leftarrow> dirs s d;
          Some (dir_inode x, s) }"

subsection \<open>Searching\<close>

text \<open>The loops read one entry after another from the offset \<open>ofs\<close> on, until a read comes short.\<close>

partial_function (option) lookup_loop ::
    "addr \<Rightarrow> string \<Rightarrow> int \<Rightarrow> fs \<Rightarrow> ((dir_entry \<times> int) option \<times> fs) option" where
  "lookup_loop p name ofs s =
     do { (bs, s) \<leftarrow> inode_read_at p (int ENTRY_SIZE) ofs s;
          if length bs = ENTRY_SIZE
          then do { let e = decode_entry bs;
                    hit \<leftarrow> (if in_use e then strcmp_eq name (ent_name e) else Some False);
                    if hit then Some (Some (e, ofs), s) else lookup_loop p name (ofs + int ENTRY_SIZE) s }
          else Some (None, s) }"

definition lookup :: "addr option \<Rightarrow> string \<Rightarrow> fs \<Rightarrow> ((dir_entry \<times> int) option \<times> fs) option" where
  "lookup d name s =
     do { let s = fs_assert (d \<noteq> None) ''lookup'' s;
          d \<leftarrow> d; x \<leftarrow> dirs s d;
          lookup_loop (dir_inode x) name (int ENTRY_SIZE) s }"

partial_function (option) empty_loop :: "addr \<Rightarrow> int \<Rightarrow> fs \<Rightarrow> (bool \<times> fs) option" where
  "empty_loop p ofs s =
     do { (bs, s) \<leftarrow> inode_read_at p (int ENTRY_SIZE) ofs s;
          if length bs = ENTRY_SIZE
          then if in_use (decode_entry bs) then Some (False, s) else empty_loop p (ofs + int ENTRY_SIZE) s
          else Some (True, s) }"

definition dir_is_empty :: "addr \<Rightarrow> fs \<Rightarrow> (bool \<times> fs) option" where
  "dir_is_empty d s = do { x \<leftarrow> dirs s d; empty_loop (dir_inode x) (int ENTRY_SIZE) s }"

text \<open>\<open>Some p\<close> is the inode found. For \<^verbatim>\<open>..\<close> the result of the read is not checked; a sector number
  that was not read is undefined.\<close>

definition dir_lookup :: "addr option \<Rightarrow> string \<Rightarrow> fs \<Rightarrow> (addr option \<times> fs) option" where
  "dir_lookup d name s =
     do { let s = fs_assert (d \<noteq> None) ''dir_lookup'' s;
          if name = ''.'' then do { d \<leftarrow> d; x \<leftarrow> dirs s d; Some (Some (inode_reopen (dir_inode x)), s) }
          else if name = ''..''
          then do { d' \<leftarrow> d; x \<leftarrow> dirs s d';
                    (bs, s) \<leftarrow> inode_read_at (dir_inode x) (int ENTRY_SIZE) 0 s;
                    if length bs < 4 then None
                    else do { (p, s) \<leftarrow> inode_open (of_nat (le_decode (take 4 bs))) s; Some (Some p, s) } }
          else do { (r, s) \<leftarrow> lookup d name s;
                    case r of
                      Some (e, ofs) \<Rightarrow> do { (p, s) \<leftarrow> inode_open (inode_sector e) s; Some (Some p, s) }
                    | None \<Rightarrow> Some (None, s) } }"

subsection \<open>Creating\<close>

text \<open>The size is computed as \<^verbatim>\<open>size_t\<close> and passed as an \<^verbatim>\<open>int\<close>.\<close>

definition dir_create :: "nat \<Rightarrow> u32 \<Rightarrow> nat \<Rightarrow> fs \<Rightarrow> (bool \<times> fs) option" where
  "dir_create n sec entry_cnt s =
     do { (ok, s) \<leftarrow> inode_create (free_map_allocate n 1) sec (sint (of_nat (sz (entry_cnt * ENTRY_SIZE)) :: u32)) True s;
          if \<not> ok then Some (False, s)
          else do {
            (p, s) \<leftarrow> inode_open sec s;
            let (d, s) = dir_open (Some p) s;
            let s = fs_assert (d \<noteq> None) ''dir_create'' s;
            x \<leftarrow> Option.bind d (dirs s);
            let e = \<lparr>inode_sector = sec, ent_name = replicate 31 0, in_use = True\<rparr>;
            (k, s) \<leftarrow> inode_write_at (free_map_allocate n 1) (dir_inode x) (encode_entry e) (int ENTRY_SIZE) 0 s;
            s \<leftarrow> dir_close n d s;
            Some (k = int ENTRY_SIZE, s) } }"

subsection \<open>Opening a path\<close>

fun path_loop :: "nat \<Rightarrow> string list \<Rightarrow> addr option \<Rightarrow> fs \<Rightarrow> (addr option \<times> fs) option" where
  "path_loop n [] cur s = Some (cur, s)"
| "path_loop n (token # ts) cur s =
     do { (ino, s) \<leftarrow> dir_lookup cur token s;
          case ino of
            None \<Rightarrow> do { s \<leftarrow> dir_close n cur s; Some (None, s) }
          | Some p \<Rightarrow>
              do { let (nxt, s) = dir_open (Some p) s;
                   s \<leftarrow> dir_close n cur s;
                   path_loop n ts nxt s } }"

definition dir_open_path :: "nat \<Rightarrow> string \<Rightarrow> fs \<Rightarrow> (addr option \<times> fs) option" where
  "dir_open_path n path s =
     do { (cur, s) \<leftarrow>
            (if path \<noteq> [] \<and> path ! 0 = CHR ''/'' then dir_open_root s
             else case cwd s of None \<Rightarrow> dir_open_root s | Some d \<Rightarrow> dir_reopen d s);
          (cur, s) \<leftarrow> path_loop n (tokens CHR ''/'' path) cur s;
          case cur of
            None \<Rightarrow> Some (None, s)
          | Some d \<Rightarrow>
              do { (p, s) \<leftarrow> dir_get_inode (Some d) s;
                   rm \<leftarrow> inode_is_removed p s;
                   if rm then do { s \<leftarrow> dir_close n (Some d) s; Some (None, s) } else Some (Some d, s) } }"

subsection \<open>Adding and removing entries\<close>

partial_function (option) slot_loop_dir :: "addr \<Rightarrow> int \<Rightarrow> fs \<Rightarrow> (int \<times> fs) option" where
  "slot_loop_dir p ofs s =
     do { (bs, s) \<leftarrow> inode_read_at p (int ENTRY_SIZE) ofs s;
          if length bs = ENTRY_SIZE \<and> in_use (decode_entry bs) then slot_loop_dir p (ofs + int ENTRY_SIZE) s
          else Some (ofs, s) }"

text \<open>\<open>junk\<close> is what the name of the local entry holds before it is written: it goes to the disk in the child's entry
  for its parent.\<close>

definition dir_add :: "nat \<Rightarrow> byte list \<Rightarrow> addr option \<Rightarrow> string \<Rightarrow> u32 \<Rightarrow> bool \<Rightarrow> fs \<Rightarrow> (bool \<times> fs) option" where
  "dir_add n junk d name sec isdir s =
     do { let s = fs_assert (d \<noteq> None) ''dir_add'' s;
          if name = [] \<or> length name > NAME_MAX then Some (False, s)
          else do {
            (r, s) \<leftarrow> lookup d name s;
            if r \<noteq> None then Some (False, s)
            else do {
              d \<leftarrow> d;
              (ok, s) \<leftarrow>
                (if isdir
                 then do { (c, s) \<leftarrow> inode_open sec s;
                           let (child, s) = dir_open (Some c) s;
                           (p, s) \<leftarrow> dir_get_inode (Some d) s;
                           parent \<leftarrow> inode_get_inumber p s;
                           let e = \<lparr>inode_sector = parent, ent_name = junk, in_use = True\<rparr>;
                           (k, s) \<leftarrow> inode_write_at (free_map_allocate n 1) c (encode_entry e) (int ENTRY_SIZE) 0 s;
                           s \<leftarrow> dir_close n child s;
                           Some (k = int ENTRY_SIZE, s) }
                 else Some (True, s));
              if \<not> ok then Some (False, s)
              else do {
                x \<leftarrow> dirs s d;
                (ofs, s) \<leftarrow> slot_loop_dir (dir_inode x) 0 s;
                let e = \<lparr>inode_sector = sec, ent_name = strncpy_bytes 31 (cbytes name), in_use = True\<rparr>;
                (k, s) \<leftarrow> inode_write_at (free_map_allocate n 1) (dir_inode x) (encode_entry e) (int ENTRY_SIZE) ofs s;
                Some (k = int ENTRY_SIZE, s) } } } }"

text \<open>A directory is closed, which closes its inode, before the inode is marked removed and closed
  again.\<close>

definition dir_remove :: "nat \<Rightarrow> addr option \<Rightarrow> string \<Rightarrow> fs \<Rightarrow> (bool \<times> fs) option" where
  "dir_remove n d name s =
     do { let s = fs_assert (d \<noteq> None) ''dir_remove'' s;
          (r, s) \<leftarrow> lookup d name s;
          case r of
            None \<Rightarrow> Some (False, s)
          | Some (e, ofs) \<Rightarrow>
              do { (p, s) \<leftarrow> inode_open (inode_sector e) s;
                   isd \<leftarrow> inode_is_directory p s;
                   (ok, s) \<leftarrow>
                     (if isd
                      then do { let (target, s) = dir_open (Some p) s;
                                t \<leftarrow> target;
                                (emp, s) \<leftarrow> dir_is_empty t s;
                                s \<leftarrow> dir_close n target s;
                                Some (emp, s) }
                      else Some (True, s));
                   (ok, s) \<leftarrow>
                     (if \<not> ok then Some (False, s)
                      else do { x \<leftarrow> Option.bind d (dirs s);
                                (k, s) \<leftarrow> inode_write_at (free_map_allocate n 1) (dir_inode x)
                                           (encode_entry (e\<lparr>in_use := False\<rparr>)) (int ENTRY_SIZE) ofs s;
                                if k \<noteq> int ENTRY_SIZE then Some (False, s)
                                else do { s \<leftarrow> inode_remove p s; Some (True, s) } });
                   s \<leftarrow> inode_close n (Some p) s;
                   Some (ok, s) } }"

subsection \<open>Listing\<close>

text \<open>The next entry in use after the position, which moves past it.\<close>

partial_function (option) readdir_loop :: "addr \<Rightarrow> fs \<Rightarrow> (dir_entry option \<times> fs) option" where
  "readdir_loop d s =
     do { x \<leftarrow> dirs s d;
          (bs, s) \<leftarrow> inode_read_at (dir_inode x) (int ENTRY_SIZE) (dir_pos x) s;
          if length bs = ENTRY_SIZE
          then do { let s = s\<lparr>dirs := (dirs s)(d \<mapsto> x\<lparr>dir_pos := dir_pos x + int ENTRY_SIZE\<rparr>)\<rparr>;
                    if in_use (decode_entry bs) then Some (Some (decode_entry bs), s) else readdir_loop d s }
          else Some (None, s) }"

definition dir_readdir :: "addr \<Rightarrow> fs \<Rightarrow> (byte list option \<times> fs) option" where
  "dir_readdir d s =
     do { (r, s) \<leftarrow> readdir_loop d s;
          Some (map_option (\<lambda>e. strncpy_bytes (NAME_MAX + 1) (ent_name e)) r, s) }"

text \<open>The sector, with the name, or \<^verbatim>\<open>(block_sector_t) -1\<close>.\<close>

definition dir_readdir_inode :: "addr \<Rightarrow> fs \<Rightarrow> (u32 \<times> byte list option \<times> fs) option" where
  "dir_readdir_inode d s =
     do { (r, s) \<leftarrow> readdir_loop d s;
          case r of
            Some e \<Rightarrow> Some (inode_sector e, Some (strncpy_bytes (NAME_MAX + 1) (ent_name e)), s)
          | None \<Rightarrow> Some (- 1, None, s) }"

subsection \<open>Entries and their images\<close>

definition entry_name :: "dir_entry \<Rightarrow> string" where
  "entry_name e = cstring (ent_name e)"

text \<open>An entry with a terminated name.\<close>

definition dirent_ok :: "dir_entry \<Rightarrow> bool" where
  "dirent_ok e \<longleftrightarrow> (\<exists>t. no_nul t \<and> length t \<le> NAME_MAX \<and> ent_name e = cbytes t @ replicate (31 - length t) 0)"

definition new_entry :: "string \<Rightarrow> u32 \<Rightarrow> dir_entry" where
  "new_entry name sec = \<lparr>inode_sector = sec, ent_name = strncpy_bytes 31 (cbytes name), in_use = True\<rparr>"

lemma length_encode_entry [simp]: "length (encode_entry e) = length (ent_name e) + 5"
  by (simp add: encode_entry_def)

lemma decode_encode_entry: "length (ent_name e) = 31 \<Longrightarrow> decode_entry (encode_entry e) = e"
proof -
  assume len: "length (ent_name e) = 31"
  have "unat (inode_sector e) < 256 ^ 4" using u32_less [of "inode_sector e"] by simp
  then have "le_decode (le_encode 4 (unat (inode_sector e))) = unat (inode_sector e)" by (rule le_decode_encode)
  then show ?thesis using len by (simp add: decode_entry_def encode_entry_def nth_append)
qed

lemma new_entry_name:
  assumes "no_nul name" and "length name \<le> NAME_MAX"
  shows "entry_name (new_entry name sec) = name" "dirent_ok (new_entry name sec)" "length (ent_name (new_entry name sec)) = 31"
  using assms by (auto simp: new_entry_def entry_name_def dirent_ok_def strncpy_cbytes cstring_stored NAME_MAX_def)

lemma strcmp_entry: "dirent_ok e \<Longrightarrow> no_nul name \<Longrightarrow> strcmp_eq name (ent_name e) = Some (name = entry_name e)"
  by (auto simp: dirent_ok_def entry_name_def strcmp_eq_stored cstring_stored NAME_MAX_def)

text \<open>The entries of a directory file.\<close>

definition entry_cnt :: "inode \<Rightarrow> nat" where
  "entry_cnt i = nat (id_length (data i)) div 36"

definition entry_at :: "inode \<Rightarrow> fs \<Rightarrow> nat \<Rightarrow> dir_entry" where
  "entry_at i s k = decode_entry (take 36 (drop (36 * k) (contents i s)))"

definition dir_entries :: "inode \<Rightarrow> fs \<Rightarrow> dir_entry list" where
  "dir_entries i s = map (entry_at i s) [0..<entry_cnt i]"

definition is_named :: "string \<Rightarrow> dir_entry \<Rightarrow> bool" where
  "is_named name e \<longleftrightarrow> in_use e \<and> entry_name e = name"

text \<open>The search of a directory given as a list: the first entry after the parent's that has the name.\<close>

definition find_entry :: "string \<Rightarrow> dir_entry list \<Rightarrow> nat option" where
  "find_entry name es = find (\<lambda>k. is_named name (es ! k)) [1..<length es]"

definition dir_ok :: "inode \<Rightarrow> fs \<Rightarrow> bool" where
  "dir_ok i s \<longleftrightarrow> ino_ok i s \<and> (\<forall>e \<in> set (tl (dir_entries i s)). in_use e \<longrightarrow> dirent_ok e)"

lemma length_entries [simp]: "length (dir_entries i s) = entry_cnt i"
  by (simp add: dir_entries_def)

lemma nth_entries [simp]: "k < entry_cnt i \<Longrightarrow> dir_entries i s ! k = entry_at i s k"
  by (simp add: dir_entries_def)

lemma entries_cong: "contents i s' = contents i s \<Longrightarrow> dir_entries i s' = dir_entries i s"
  by (simp add: dir_entries_def entry_at_def)

lemma dir_ok_entry:
  assumes "dir_ok i s" and "1 \<le> k" and "k < entry_cnt i" and "in_use (entry_at i s k)"
  shows "dirent_ok (entry_at i s k)"
proof -
  have "dir_entries i s ! k \<in> set (tl (dir_entries i s))"
    using assms(2,3) nth_mem [of "k - 1" "tl (dir_entries i s)"] by (simp add: nth_tl)
  then show ?thesis using assms by (simp add: dir_ok_def)
qed

lemma reads_same_dir:
  assumes "dir_ok i s" and "reads_same s s'"
  shows "dir_ok i s'" "dir_entries i s' = dir_entries i s"
  using assms reads_same_ok [of i s s'] entries_cong [of i s' s] by (auto simp: dir_ok_def)

lemma reads_same_fields:
  assumes "reads_same s s'"
  shows "inodes s' = inodes s" "dirs s' = dirs s" "files s' = files s" "free_map s' = free_map s"
    "free_map_file s' = free_map_file s" "cwd s' = cwd s" "open_inodes s' = open_inodes s" "next_addr s' = next_addr s"
    "fs_log s' = fs_log s" "scratch s' = scratch s" "file_table s' = file_table s"
proof -
  obtain c where c: "s' = s\<lparr>cst := c\<rparr>" "bc_console c = bc_console (cst s)"
    using assms unfolding reads_same_def store_same_def by (metis fs.select_convs(1) fs.surjective fs.update_convs(1))
  then show "inodes s' = inodes s" "dirs s' = dirs s" "files s' = files s" "free_map s' = free_map s"
    "free_map_file s' = free_map_file s" "cwd s' = cwd s" "open_inodes s' = open_inodes s" "next_addr s' = next_addr s"
    "fs_log s' = fs_log s" "scratch s' = scratch s" "file_table s' = file_table s"
    by (simp_all add: fs_log_def)
qed

text \<open>Reading at the offset of an entry: a full entry exactly when there is one.\<close>

lemma read_entry:
  assumes "inodes s p = Some i" and "ino_ok i s"
  shows "\<exists>bs s'. inode_read_at p (int ENTRY_SIZE) (int ENTRY_SIZE * int k) s = Some (bs, s') \<and> reads_same s s' \<and>
    (length bs = ENTRY_SIZE \<longleftrightarrow> k < entry_cnt i) \<and> decode_entry bs = entry_at i s k"
proof -
  obtain s' where "inode_read_at p (int 36) (int (36 * k)) s = Some (take 36 (drop (36 * k) (contents i s)), s')"
    "reads_same s s'"
    using inode_read_at_ok [OF assms, of 36 "36 * k"] by auto
  moreover have "length (take 36 (drop (36 * k) (contents i s))) = 36 \<longleftrightarrow> k < entry_cnt i"
    unfolding entry_cnt_def length_take length_drop length_contents by linarith
  ultimately show ?thesis by (simp add: ENTRY_SIZE_def entry_at_def)
qed

lemma upt_next: "k < n \<Longrightarrow> [k..<n] = k # [Suc k..<n]"
  by (rule upt_conv_Cons)

text \<open>One round of a loop over the entries: the read comes short at the end of the directory, or delivers the
  entry and leaves the directory as it was.\<close>

lemma entry_round:
  assumes "inodes s p = Some i" and "dir_ok i s" and "k \<le> entry_cnt i"
  obtains (short) bs s' where "inode_read_at p (int ENTRY_SIZE) (int ENTRY_SIZE * int k) s = Some (bs, s')" "reads_same s s'"
      "length bs \<noteq> ENTRY_SIZE" "k = entry_cnt i"
    | (full) bs s' where "inode_read_at p (int ENTRY_SIZE) (int ENTRY_SIZE * int k) s = Some (bs, s')" "reads_same s s'"
      "length bs = ENTRY_SIZE" "decode_entry bs = entry_at i s k" "k < entry_cnt i"
      "inodes s' p = Some i" "dir_ok i s'" "dir_entries i s' = dir_entries i s" "entry_cnt i - Suc k < entry_cnt i - k"
      "int ENTRY_SIZE * int k + int ENTRY_SIZE = int ENTRY_SIZE * int (Suc k)"
proof -
  obtain bs s' where *: "inode_read_at p (int ENTRY_SIZE) (int ENTRY_SIZE * int k) s = Some (bs, s')" "reads_same s s'"
    "length bs = ENTRY_SIZE \<longleftrightarrow> k < entry_cnt i" "decode_entry bs = entry_at i s k"
    using read_entry [OF assms(1), of k] assms(2) by (auto simp: dir_ok_def)
  show ?thesis
  proof (cases "k < entry_cnt i")
    case True
    then show ?thesis
      using * full reads_same_dir [OF assms(2) *(2)] reads_same_fields(1) [OF *(2)] assms(1) by (simp add: algebra_simps diff_less_mono2)
  next
    case False
    then show ?thesis using * short assms(3) by simp
  qed
qed

lemma lookup_loop_ok:
  assumes "inodes s p = Some i" and "dir_ok i s" and "no_nul name" and "1 \<le> k" and "k \<le> entry_cnt i"
  shows "\<exists>s'. lookup_loop p name (int ENTRY_SIZE * int k) s =
      Some (map_option (\<lambda>j. (dir_entries i s ! j, int ENTRY_SIZE * int j))
        (find (\<lambda>j. is_named name (dir_entries i s ! j)) [k..<entry_cnt i]), s') \<and> reads_same s s'"
  using assms
proof (induction "entry_cnt i - k" arbitrary: k s rule: less_induct)
  case hyps: less
  from hyps.prems(1,2,5) show ?case
  proof (cases rule: entry_round)
    case (short bs s')
    then show ?thesis by (subst lookup_loop.simps) simp
  next
    case (full bs s1)
    have hit: "(if in_use (entry_at i s k) then strcmp_eq name (ent_name (entry_at i s k)) else Some False) =
        Some (is_named name (entry_at i s k))"
      using strcmp_entry [OF dir_ok_entry [OF hyps.prems(2,4) full(5)] hyps.prems(3)] by (auto simp: is_named_def)
    show ?thesis
    proof (cases "is_named name (entry_at i s k)")
      case True
      then show ?thesis using full hit by (subst lookup_loop.simps) (simp add: upt_next)
    next
      case False
      from hyps.hyps [of "Suc k" s1] full hyps.prems(3)
      obtain s2 where "lookup_loop p name (int ENTRY_SIZE * int (Suc k)) s1 =
          Some (map_option (\<lambda>j. (dir_entries i s ! j, int ENTRY_SIZE * int j))
            (find (\<lambda>j. is_named name (dir_entries i s ! j)) [Suc k..<entry_cnt i]), s2)" "reads_same s1 s2" by auto
      then show ?thesis
        using False full hit reads_same_trans [OF full(2)] by (subst lookup_loop.simps) (simp add: upt_next)
    qed
  qed
qed

text \<open>An open directory: its object, its inode and the entries it has.\<close>

definition dir_at :: "addr \<Rightarrow> addr \<Rightarrow> inode \<Rightarrow> fs \<Rightarrow> bool" where
  "dir_at d p i s \<longleftrightarrow> map_option dir_inode (dirs s d) = Some p \<and> inodes s p = Some i \<and> dir_ok i s \<and> 0 < entry_cnt i"

lemma fs_assert_holds [simp]: "c \<Longrightarrow> fs_assert c fn s = s"
  by (simp add: fs_assert_def)

lemma reads_same_dir_at:
  assumes "dir_at d p i s" and "reads_same s s'"
  shows "dir_at d p i s'" "dir_entries i s' = dir_entries i s"
  using assms reads_same_dir [of i s s'] reads_same_fields [OF assms(2)] by (auto simp: dir_at_def)

lemma lookup_ok:
  assumes "dir_at d p i s" and "no_nul name"
  shows "\<exists>s'. lookup (Some d) name s = Some (map_option (\<lambda>j. (dir_entries i s ! j, int ENTRY_SIZE * int j))
      (find_entry name (dir_entries i s)), s') \<and> reads_same s s'"
  using lookup_loop_ok [of s p i name 1] assms by (auto simp: dir_at_def lookup_def find_entry_def)

lemma slot_loop_dir_ok:
  assumes "inodes s p = Some i" and "dir_ok i s" and "k \<le> entry_cnt i"
  shows "\<exists>s'. slot_loop_dir p (int ENTRY_SIZE * int k) s =
      Some (int ENTRY_SIZE * int (case find (\<lambda>j. \<not> in_use (dir_entries i s ! j)) [k..<entry_cnt i] of None \<Rightarrow> entry_cnt i | Some j \<Rightarrow> j), s') \<and>
    reads_same s s'"
  using assms
proof (induction "entry_cnt i - k" arbitrary: k s rule: less_induct)
  case less
  from less.prems show ?case
  proof (cases rule: entry_round)
    case (short bs s')
    then show ?thesis by (subst slot_loop_dir.simps) simp
  next
    case (full bs s1)
    show ?thesis
    proof (cases "in_use (entry_at i s k)")
      case False
      then show ?thesis using full by (subst slot_loop_dir.simps) (simp add: upt_next)
    next
      case True
      from less.hyps [of "Suc k" s1] full
      obtain s2 where "slot_loop_dir p (int ENTRY_SIZE * int (Suc k)) s1 =
          Some (int ENTRY_SIZE * int (case find (\<lambda>j. \<not> in_use (dir_entries i s ! j)) [Suc k..<entry_cnt i] of None \<Rightarrow> entry_cnt i | Some j \<Rightarrow> j), s2)"
        "reads_same s1 s2" by auto
      then show ?thesis
        using True full reads_same_trans [OF full(2)] by (subst slot_loop_dir.simps) (simp add: upt_next)
    qed
  qed
qed

lemma empty_loop_ok:
  assumes "inodes s p = Some i" and "dir_ok i s" and "k \<le> entry_cnt i"
  shows "\<exists>s'. empty_loop p (int ENTRY_SIZE * int k) s = Some (\<forall>j \<in> {k..<entry_cnt i}. \<not> in_use (dir_entries i s ! j), s') \<and>
    reads_same s s'"
  using assms
proof (induction "entry_cnt i - k" arbitrary: k s rule: less_induct)
  case less
  from less.prems show ?case
  proof (cases rule: entry_round)
    case (short bs s')
    then show ?thesis by (subst empty_loop.simps) simp
  next
    case (full bs s1)
    then have split: "{k..<entry_cnt i} = insert k {Suc k..<entry_cnt i}" by auto
    from less.hyps [of "Suc k" s1] full
    obtain s2 where "empty_loop p (int ENTRY_SIZE * int (Suc k)) s1 = Some (\<forall>j \<in> {Suc k..<entry_cnt i}. \<not> in_use (dir_entries i s ! j), s2)"
      "reads_same s1 s2" by auto
    then show ?thesis
      using full reads_same_trans [OF full(2)] by (subst empty_loop.simps) (auto simp: split)
  qed
qed

text \<open>Listing moves the position of the directory object.\<close>

definition at_pos :: "addr \<Rightarrow> dir \<Rightarrow> nat \<Rightarrow> fs \<Rightarrow> fs" where
  "at_pos d x k s = s\<lparr>dirs := (dirs s)(d \<mapsto> x\<lparr>dir_pos := int ENTRY_SIZE * int k\<rparr>)\<rparr>"

lemma at_pos_simps [simp]:
  "inodes (at_pos d x k s) = inodes s" "contents i (at_pos d x k s) = contents i s" "dirs (at_pos d x k s) d = Some (x\<lparr>dir_pos := int ENTRY_SIZE * int k\<rparr>)"
  "at_pos d x' k' (at_pos d x k s) = at_pos d x' k' s" "at_pos d (x\<lparr>dir_pos := q\<rparr>) k s = at_pos d x k s"
  "ino_ok i (at_pos d x k s) = ino_ok i s" "cst (at_pos d x k s) = cst s"
  by (simp_all add: at_pos_def contents_def ino_ok_def)

lemma dir_ok_at_pos [simp]: "dir_ok i (at_pos d x k s) = dir_ok i s" "dir_entries i (at_pos d x k s) = dir_entries i s"
  using entries_cong [of i "at_pos d x k s" s] by (simp_all add: dir_ok_def)

lemma reads_same_at_pos:
  assumes "reads_same s s'"
  shows "reads_same (at_pos d x k s) (at_pos d x k s')"
proof -
  obtain c where "s' = s\<lparr>cst := c\<rparr>" using assms unfolding reads_same_def by blast
  then show ?thesis using assms by (simp add: reads_same_def at_pos_def)
qed

lemma readdir_loop_ok:
  assumes "inodes s (dir_inode x) = Some i" and "dir_ok i s" and "k \<le> entry_cnt i"
    and "dirs s d = Some x" and "dir_pos x = int ENTRY_SIZE * int k"
  shows "\<exists>s'. readdir_loop d s =
     (case find (\<lambda>j. in_use (dir_entries i s ! j)) [k..<entry_cnt i] of
        None \<Rightarrow> Some (None, at_pos d x (entry_cnt i) s')
      | Some j \<Rightarrow> Some (Some (dir_entries i s ! j), at_pos d x (Suc j) s')) \<and> reads_same s s'"
  using assms
proof (induction "entry_cnt i - k" arbitrary: k s x rule: less_induct)
  case less
  note rd = less.prems(4,5)
  from less.prems(1-3) show ?case
  proof (cases rule: entry_round)
    case (short bs s')
    moreover have "s' = at_pos d x k s'"
      using rd reads_same_fields(2) [OF short(2)] by (simp add: at_pos_def fun_upd_idem)
    ultimately show ?thesis using rd by (subst readdir_loop.simps) auto
  next
    case (full bs s1)
    let ?s = "at_pos d x (Suc k) s1" and ?x = "x\<lparr>dir_pos := int ENTRY_SIZE * int (Suc k)\<rparr>"
    have d1: "dirs s1 = dirs s" using reads_same_fields(2) [OF full(2)] .
    show ?thesis
    proof (cases "in_use (entry_at i s k)")
      case True
      then show ?thesis
        using full rd d1 by (subst readdir_loop.simps) (auto simp: upt_next at_pos_def intro: exI [of _ s1])
    next
      case False
      from less.hyps [of "Suc k" ?s ?x] full
      obtain s2 where s2: "readdir_loop d ?s =
         (case find (\<lambda>j. in_use (dir_entries i s ! j)) [Suc k..<entry_cnt i] of
            None \<Rightarrow> Some (None, at_pos d x (entry_cnt i) s2)
          | Some j \<Rightarrow> Some (Some (dir_entries i s ! j), at_pos d x (Suc j) s2))" "reads_same ?s s2" by (auto cong: option.case_cong)
      have "reads_same s1 (s2\<lparr>dirs := dirs s1\<rparr>)"
      proof -
        obtain c where "s2 = ?s\<lparr>cst := c\<rparr>" using s2(2) unfolding reads_same_def by blast
        then show ?thesis using s2(2) by (simp add: reads_same_def at_pos_def)
      qed
      moreover have "at_pos d x m (s2\<lparr>dirs := dirs s1\<rparr>) = at_pos d x m s2" for m
        using reads_same_fields(2) [OF s2(2)] by (simp add: at_pos_def)
      moreover have "readdir_loop d s = readdir_loop d ?s"
        using full rd d1 False by (subst readdir_loop.simps) (simp add: at_pos_def)
      ultimately show ?thesis
        using s2(1) reads_same_trans [OF full(2)] full(5) False
        by (intro exI [of _ "s2\<lparr>dirs := dirs s1\<rparr>"]) (simp add: upt_next cong: option.case_cong)
    qed
  qed
qed

subsection \<open>Writing an entry\<close>

lemma chunk_of_overwrite:
  assumes "length bs = 36" and "36 * Suc k \<le> length xs" and "36 * Suc j \<le> length xs"
  shows "take 36 (drop (36 * j) (overwrite (36 * k) bs xs)) = (if j = k then bs else take 36 (drop (36 * j) xs))"
proof (rule nth_equalityI)
  have len: "36 * k + length bs \<le> length xs" using assms by simp
  have ext: "length (take 36 (drop (36 * j) ys)) = 36" if "length ys = length xs" for ys :: "'a list"
    using assms(3) that by simp
  show "length (take 36 (drop (36 * j) (overwrite (36 * k) bs xs))) = length (if j = k then bs else take 36 (drop (36 * j) xs))"
    using ext [of "overwrite (36 * k) bs xs"] ext [of xs] len assms(1) by simp
  fix m assume "m < length (take 36 (drop (36 * j) (overwrite (36 * k) bs xs)))"
  then have m: "m < 36" by simp
  have in_xs: "36 * j + m < length xs" using m assms(3) by simp
  have "36 * k \<le> 36 * j + m \<and> 36 * j + m < 36 * k + 36 \<longleftrightarrow> j = k" using m by linarith
  then show "take 36 (drop (36 * j) (overwrite (36 * k) bs xs)) ! m = (if j = k then bs else take 36 (drop (36 * j) xs)) ! m"
    using m in_xs assms(1) len by (simp add: nth_overwrite)
qed

lemma entry_fits: "k < entry_cnt i \<Longrightarrow> 36 * Suc k \<le> length (contents i s)"
  using less_eq_div_iff_mult_less_eq [of 36 "Suc k" "nat (id_length (data i))"] by (simp add: entry_cnt_def Suc_le_eq)

lemma tl_update [simp]: "tl (xs[Suc k := v]) = (tl xs)[k := v]" "tl (xs[0 := v]) = tl xs"
  by (cases xs; simp)+

lemma write_entry:
  assumes "inodes s p = Some i" and "dir_ok i s" and "deny_write_cnt i = 0" and "k < entry_cnt i"
    and "length (ent_name e) = 31" and "k \<noteq> 0 \<longrightarrow> in_use e \<longrightarrow> dirent_ok e"
  shows "\<exists>s'. inode_write_at alloc p (encode_entry e) (int ENTRY_SIZE) (int ENTRY_SIZE * int k) s = Some (int ENTRY_SIZE, s') \<and>
    writes_only i s s' \<and> dir_ok i s' \<and> dir_entries i s' = (dir_entries i s)[k := e]"
proof -
  have ok: "ino_ok i s" using assms(2) by (simp add: dir_ok_def)
  obtain s' where s': "inode_write_at alloc p (encode_entry e) (int 36) (int (36 * k)) s = Some (int 36, s')"
    "writes_only i s s'" "contents i s' = overwrite (36 * k) (take 36 (encode_entry e)) (contents i s)"
    using inode_write_at_inside [OF assms(1) ok assms(3), of 36 "36 * k" "encode_entry e" alloc]
      entry_fits [OF assms(4), of s] assms(5) by auto
  have "entry_at i s' j = (if j = k then e else entry_at i s j)" if "j < entry_cnt i" for j
    using chunk_of_overwrite [of "encode_entry e" k "contents i s" j] entry_fits [OF that, of s] entry_fits [OF assms(4), of s]
      s'(3) assms(5) decode_encode_entry [OF assms(5)] by (simp add: entry_at_def)
  then have en: "dir_entries i s' = (dir_entries i s)[k := e]"
    by (intro nth_equalityI) (simp_all add: nth_list_update)
  have "dir_ok i s'"
    using assms(2,6) writes_only_ok [OF ok s'(2)] unfolding dir_ok_def en
    by (cases k) (auto simp: tl_update dest!: set_update_subset_insert [THEN subsetD])
  then show ?thesis using s' en by (auto simp: ENTRY_SIZE_def)
qed

lemma writes_only_dirs:
  assumes "writes_only i s s'"
  shows "dirs s' = dirs s" "cwd s' = cwd s" "next_addr s' = next_addr s" "fs_log s' = fs_log s"
    "scratch s' = scratch s" "file_table s' = file_table s"
proof -
  obtain c where "s' = s\<lparr>cst := c\<rparr>" using assms unfolding writes_only_def by blast
  then show "dirs s' = dirs s" "cwd s' = cwd s" "next_addr s' = next_addr s" "scratch s' = scratch s" "file_table s' = file_table s"
    by simp_all
  show "fs_log s' = fs_log s" using assms by (simp add: writes_only_def)
qed

text \<open>What reading and then writing leaves unchanged.\<close>

lemma reads_then_writes:
  assumes "ino_ok i s" and "reads_same s s1" and "writes_only i s1 s2"
  shows "writes_only i s s2"
proof -
  have m: "same_map bc_view (data i) (cst s) (cst s1) (nblocks (data i))"
    using assms(1,2) mapped_same [of bc_nsec bc_view "data i" "cst s" "nblocks (data i)"]
    by (auto simp: ino_ok_def reads_same_def same_map_def)
  obtain c c' where c: "s1 = s\<lparr>cst := c\<rparr>" "s2 = s1\<lparr>cst := c'\<rparr>"
    using assms(2,3) unfolding reads_same_def writes_only_def by blast
  show ?thesis
    using assms(2,3) m c by (auto simp: writes_only_def reads_same_def store_same_def same_map_def fs_log_def)
qed

subsection \<open>Adding and finding\<close>

lemma find_upt_Some:
  "find P [a..<b] = Some k \<longleftrightarrow> a \<le> k \<and> k < b \<and> P k \<and> (\<forall>j. a \<le> j \<longrightarrow> j < k \<longrightarrow> \<not> P j)"
proof (induction "b - a" arbitrary: a)
  case 0
  then show ?case by auto
next
  case (Suc n)
  then have "[a..<b] = a # [Suc a..<b]" "find P [Suc a..<b] = Some k \<longleftrightarrow> Suc a \<le> k \<and> k < b \<and> P k \<and> (\<forall>j. Suc a \<le> j \<longrightarrow> j < k \<longrightarrow> \<not> P j)"
    by (simp_all add: upt_next)
  then show ?case
    using Suc.hyps(2) by (auto simp: Suc_le_eq) (metis le_neq_implies_less)+
qed

lemma find_entry_Some:
  "find_entry name es = Some k \<longleftrightarrow>
    1 \<le> k \<and> k < length es \<and> is_named name (es ! k) \<and> (\<forall>j. 1 \<le> j \<longrightarrow> j < k \<longrightarrow> \<not> is_named name (es ! j))"
  unfolding find_entry_def by (rule find_upt_Some)

lemma find_entry_None: "find_entry name es = None \<longleftrightarrow> (\<forall>k. 1 \<le> k \<longrightarrow> k < length es \<longrightarrow> \<not> is_named name (es ! k))"
  by (auto simp: find_entry_def find_None_iff)

lemma is_named_new: "no_nul name \<Longrightarrow> length name \<le> NAME_MAX \<Longrightarrow> is_named t (new_entry name sec) \<longleftrightarrow> t = name"
  using new_entry_name(1) [of name sec] by (auto simp: is_named_def new_entry_def)

lemma find_entry_added:
  assumes "find_entry name es = None" and "1 \<le> k" and "k < length es" and "\<not> in_use (es ! k)"
    and "no_nul name" and "length name \<le> NAME_MAX"
  shows "find_entry t (es[k := new_entry name sec]) = (if t = name then Some k else find_entry t es)"
proof -
  note new = is_named_new [OF assms(5,6), of t sec]
  have old: "\<not> is_named t (es ! k)" using assms(4) by (simp add: is_named_def)
  show ?thesis
  proof (cases "t = name")
    case True
    then show ?thesis
      using assms(1-3) new by (auto simp: find_entry_Some find_entry_None nth_list_update)
  next
    case False
    then have "is_named t (es[k := new_entry name sec] ! j) \<longleftrightarrow> is_named t (es ! j)" for j
      using new old assms(3) by (cases "j = k") simp_all
    then show ?thesis using False by (simp add: find_entry_def)
  qed
qed

lemma dir_add_ok:
  assumes "dir_at d p i s" and "deny_write_cnt i = 0" and "no_nul name" and "name \<noteq> []" and "length name \<le> NAME_MAX"
    and "find_entry name (dir_entries i s) = None" and "find (\<lambda>j. \<not> in_use (dir_entries i s ! j)) [0..<entry_cnt i] = Some k"
  shows "\<exists>s'. dir_add n junk (Some d) name sec False s = Some (True, s') \<and> dir_at d p i s' \<and> writes_only i s s' \<and>
    dir_entries i s' = (dir_entries i s)[k := new_entry name sec]"
proof -
  note da = assms(1) [unfolded dir_at_def]
  obtain x where x: "dirs s d = Some x" "dir_inode x = p" using da by auto
  obtain s1 where s1: "lookup (Some d) name s = Some (None, s1)" "reads_same s s1"
    using lookup_ok [OF assms(1,3)] assms(6) by auto
  note d1 = reads_same_dir_at [OF assms(1) s1(2)] and f1 = reads_same_fields [OF s1(2)]
  obtain s2 where s2: "slot_loop_dir p (int ENTRY_SIZE * int 0) s1 = Some (int ENTRY_SIZE * int k, s2)" "reads_same s1 s2"
    using slot_loop_dir_ok [of s1 p i 0] d1 assms(7) by (auto simp: dir_at_def)
  note d2 = reads_same_dir_at [OF d1(1) s2(2)] and f2 = reads_same_fields [OF s2(2)]
  have k: "k < entry_cnt i" using assms(7) by (simp add: find_upt_Some)
  have rs: "reads_same s s2" by (rule reads_same_trans [OF s1(2) s2(2)])
  have en: "new_entry name sec = \<lparr>inode_sector = sec, ent_name = strncpy_bytes 31 (cbytes name), in_use = True\<rparr>"
    by (simp add: new_entry_def)
  obtain s3 where s3: "inode_write_at (free_map_allocate n 1) p (encode_entry (new_entry name sec)) (int ENTRY_SIZE)
      (int ENTRY_SIZE * int k) s2 = Some (int ENTRY_SIZE, s3)" "writes_only i s2 s3" "dir_ok i s3"
    "dir_entries i s3 = (dir_entries i s)[k := new_entry name sec]"
    using write_entry [of s2 p i k "new_entry name sec" "free_map_allocate n 1"] d2 d1 assms(2) k new_entry_name [OF assms(3,5)]
    by (auto simp: dir_at_def)
  have "dir_add n junk (Some d) name sec False s = Some (True, s3)"
    using assms(4,5) s1(1) s2(1) s3(1) x f1(2) by (simp add: dir_add_def en)
  moreover have "dir_at d p i s3"
    using s3 da writes_only_dirs(1) [OF s3(2)] writes_only_fields(4) [OF s3(2)] f1 f2 by (simp add: dir_at_def)
  moreover have "writes_only i s s3"
    using reads_then_writes [OF _ rs s3(2)] da by (simp add: dir_ok_def)
  ultimately show ?thesis using s3(4) by blast
qed

lemma dir_add_refused:
  assumes "dir_at d p i s" and "no_nul name"
  shows "name = [] \<or> length name > NAME_MAX \<Longrightarrow> dir_add n junk (Some d) name sec isdir s = Some (False, s)"
    and "name \<noteq> [] \<Longrightarrow> length name \<le> NAME_MAX \<Longrightarrow> find_entry name (dir_entries i s) \<noteq> None \<Longrightarrow>
      \<exists>s'. dir_add n junk (Some d) name sec isdir s = Some (False, s') \<and> reads_same s s'"
  using lookup_ok [OF assms] by (auto simp: dir_add_def)

text \<open>An ordinary name is looked up among the entries and its inode opened.\<close>

lemma dir_lookup_ok:
  assumes "dir_at d p i s" and "no_nul name" and "name \<notin> {''.'', ''..''}"
  shows "\<exists>s'. reads_same s s' \<and> dir_lookup (Some d) name s =
    (case find_entry name (dir_entries i s) of
       None \<Rightarrow> Some (None, s')
     | Some k \<Rightarrow> do { (q, s2) \<leftarrow> inode_open (inode_sector (dir_entries i s ! k)) s'; Some (Some q, s2) })"
proof -
  obtain s' where "lookup (Some d) name s = Some (map_option (\<lambda>j. (dir_entries i s ! j, int ENTRY_SIZE * int j))
      (find_entry name (dir_entries i s)), s')" "reads_same s s'"
    using lookup_ok [OF assms(1,2)] by blast
  then show ?thesis
    using assms(3) by (auto simp: dir_lookup_def split: option.split)
qed

subsection \<open>Removing a directory\<close>

lemma dir_close_last:
  assumes "dirs s d = Some x" and "dir_open_cnt x = 1" and "inodes s (dir_inode x) = Some i" and "open_cnt i = 1" and "\<not> removed i"
  shows "dir_close n (Some d) s = Some (s\<lparr>dirs := (dirs s)(d := None), cwd := None,
    open_inodes := remove1 (dir_inode x) (open_inodes s), inodes := (inodes s)(dir_inode x := None)\<rparr>)"
  using assms by (simp add: dir_close_def inode_close_def upd_inode_def)

text \<open>Opening an inode that is not open, in a state that is well-formed.\<close>

definition fresh_inode :: "u32 \<Rightarrow> fs \<Rightarrow> inode" where
  "fresh_inode sec s = \<lparr>sector = sec, open_cnt = 1, removed = False, deny_write_cnt = 0, data = decode_inode (bc_view (cst s) sec)\<rparr>"

definition not_open :: "u32 \<Rightarrow> fs \<Rightarrow> bool" where
  "not_open sec s \<longleftrightarrow> (\<forall>q \<in> set (open_inodes s). sector (the (inodes s q)) \<noteq> sec)"

definition opened :: "u32 \<Rightarrow> fs \<Rightarrow> fs" where
  "opened sec s = s\<lparr>next_addr := next_addr s + 1, open_inodes := next_addr s # open_inodes s,
     inodes := (inodes s)(next_addr s \<mapsto> fresh_inode sec s)\<rparr>"

lemma inode_open_new:
  assumes "table_ok s" and "bc_inv (cst s)" and "unat sec < bc_nsec (cst s)" and "not_open sec s"
  shows "\<exists>s'. inode_open sec s = Some (next_addr s, opened sec s') \<and> reads_same s s'"
proof -
  have "find (\<lambda>p. sector (the (inodes s p)) = sec) (open_inodes s) = None"
    using assms(4) by (auto simp: find_None_iff not_open_def)
  then have "find_open sec (open_inodes s) s = Some None"
    using assms(1) by (subst find_open_spec) (auto simp: table_ok_def)
  moreover obtain s' where "sector_read sec s = Some (bc_view (cst s) sec, s')" "reads_same s s'"
    using sector_read_ok [OF assms(2,3)] by blast
  moreover have "bc_view (cst s') sec = bc_view (cst s) sec" "next_addr s' = next_addr s"
    using reads_same_view(3) [OF calculation(3) assms(3)] reads_same_fields(8) [OF calculation(3)] by auto
  ultimately show ?thesis
    by (intro exI [of _ s']) (simp add: inode_open_def opened_def fresh_inode_def Let_def)
qed

text \<open>Directories and files depend on the objects they use and on the sectors only.\<close>

lemma dir_ok_cst: "cst s' = cst s \<Longrightarrow> dir_ok i s' = dir_ok i s" "cst s' = cst s \<Longrightarrow> dir_entries i s' = dir_entries i s"
  using entries_cong [of i s' s] by (simp_all add: dir_ok_def ino_ok_def contents_def)

lemma reads_same_inode:
  assumes "reads_same s s'" and "unat sec < bc_nsec (cst s)"
  shows "fresh_inode sec s' = fresh_inode sec s" "not_open sec s' = not_open sec s" "table_ok s' = table_ok s"
  using assms reads_same_view(3) [OF assms] reads_same_fields [OF assms(1)]
  by (simp_all add: fresh_inode_def not_open_def table_ok_def)

text \<open>The directory object of the directory to be removed owns the inode: closing it frees the inode, which the code
  goes on to use.\<close>

lemma dir_remove_frees_early:
  assumes "dir_at d p i s" and "no_nul name" and "find_entry name (dir_entries i s) = Some k" and "table_ok s"
    and sec: "sec = inode_sector (dir_entries i s ! k)" "unat sec < bc_nsec (cst s)" "not_open sec s"
    and "deny_write_cnt i = 0" and "\<forall>a. dirs s a \<noteq> None \<longrightarrow> a < next_addr s"
    and "is_dir (data (fresh_inode sec s)) \<noteq> 0" and "dir_ok (fresh_inode sec s) s" and "0 < entry_cnt (fresh_inode sec s)"
    and "length (ent_name (dir_entries i s ! k)) = 31"
  shows "dir_remove n (Some d) name s = None"
proof -
  let ?q = "next_addr s" and ?t = "Suc (next_addr s)" and ?j = "fresh_inode sec s" and ?e = "dir_entries i s ! k"
  obtain s1 where s1: "lookup (Some d) name s = Some (Some (?e, int ENTRY_SIZE * int k), s1)" "reads_same s s1"
    using lookup_ok [OF assms(1,2)] assms(3) by auto
  note f1 = reads_same_fields [OF s1(2)] and v1 = reads_same_view [OF s1(2)] and i1 = reads_same_inode [OF s1(2) sec(2)]
  obtain s2 where s2: "inode_open sec s1 = Some (?q, opened sec s2)" "reads_same s1 s2"
    using inode_open_new [of s1 sec] assms(4) sec v1 i1 f1(8) by auto
  have rs: "reads_same s s2" by (rule reads_same_trans [OF s1(2) s2(2)])
  note f2 = reads_same_fields [OF rs] and i2 = reads_same_inode [OF rs sec(2)]
  define s3 where "s3 = snd (dir_open (Some ?q) (opened sec s2))"
  have o3: "dir_open (Some ?q) (opened sec s2) = (Some ?t, s3)" "dirs s3 ?t = Some \<lparr>dir_inode = ?q, dir_pos = int ENTRY_SIZE, dir_open_cnt = 1\<rparr>"
    "inodes s3 = (inodes s)(?q \<mapsto> ?j)" "cst s3 = cst s2" "d \<noteq> ?t \<Longrightarrow> dirs s3 d = dirs s d"
    using f2 i2 by (simp_all add: s3_def dir_open_def opened_def)
  have dj: "dir_ok ?j s3"
    using dir_ok_cst(1) [of s3 s2 ?j] o3(4) reads_same_dir(1) [OF assms(11) rs] by simp
  obtain b s4 where s4: "empty_loop ?q (int ENTRY_SIZE * int 1) s3 = Some (b, s4)" "reads_same s3 s4"
    using empty_loop_ok [of s3 ?q ?j 1] o3(3) dj assms(12) by auto
  note f4 = reads_same_fields [OF s4(2)]
  define s5 where "s5 = s4\<lparr>dirs := (dirs s4)(?t := None), cwd := None, open_inodes := remove1 ?q (open_inodes s4), inodes := (inodes s4)(?q := None)\<rparr>"
  have cl: "dir_close n (Some ?t) s4 = Some s5"
    using dir_close_last [of s4 ?t _ ?j n] o3(2,3) f4 by (simp add: s5_def fresh_inode_def)
  have gone: "inodes s5 ?q = None" by (simp add: s5_def)
  obtain x where x: "dirs s d = Some x" "dir_inode x = p" "inodes s p = Some i" "dir_ok i s"
    using assms(1) by (auto simp: dir_at_def)
  have ne: "d < ?q" "p < ?q" using assms(4,9) x by (auto simp: table_ok_def)
  have x5: "dirs s5 d = Some x" "inodes s5 p = Some i"
    using x o3(3,5) f4 ne by (simp_all add: s5_def)
  have d5: "dir_ok i s5"
    using dir_ok_cst(1) [of s5 s4 i] dir_ok_cst(1) [of s3 s2 i] reads_same_dir(1) [OF x(4) rs] reads_same_dir(1) [OF _ s4(2)] o3(4)
    by (simp add: s5_def)
  have w: "\<exists>s6. inode_write_at (free_map_allocate n 1) p (encode_entry (?e\<lparr>in_use := False\<rparr>)) (int ENTRY_SIZE) (int ENTRY_SIZE * int k) s5 =
      Some (int ENTRY_SIZE, s6) \<and> inodes s6 ?q = None"
    using write_entry [of s5 p i k "?e\<lparr>in_use := False\<rparr>" "free_map_allocate n 1"] x5(2) d5 assms(3,8,13) writes_only_fields(4) gone
    by (fastforce simp: find_entry_Some)
  have "inode_is_directory ?q (opened sec s2) = Some True"
    using assms(10) i2(1) f2(8) by (simp add: inode_is_directory_def opened_def)
  moreover have "dir_is_empty ?t s3 = Some (b, s4)" using s4(1) o3(2) by (simp add: dir_is_empty_def)
  moreover have "inode_close n (Some ?q) s' = None" "inode_remove ?q s' = None" if "inodes s' ?q = None" for s'
    using that by (simp_all add: inode_close_def inode_remove_def upd_inode_def)
  ultimately show ?thesis
    using s1(1) s2(1) o3(1) cl x5(1) x(2) w gone sec(1) by (cases b) (auto simp: dir_remove_def)
qed

subsection \<open>Paths\<close>

definition joined :: "string list \<Rightarrow> string" where
  "joined ts = concat (map (\<lambda>t. t @ ''/'') (butlast ts)) @ (if ts = [] then [] else last ts)"

lemma joined_simps [simp]: "joined [] = []" "joined [t] = t" "joined (t # u # ts) = t @ ''/'' @ joined (u # ts)"
  by (simp_all add: joined_def)

lemma tokens_joined: "\<forall>t \<in> set ts. t \<noteq> [] \<and> CHR ''/'' \<notin> set t \<Longrightarrow> tokens CHR ''/'' (joined ts) = ts"
  by (induction ts rule: induct_list012) (simp_all add: tokens_word)

lemma strtok_next_length:
  assumes "strtok_next c s = Some (t, r)"
  shows "length t + length r \<le> length s" "r \<noteq> [] \<Longrightarrow> length t + length r < length s"
    "s \<noteq> [] \<Longrightarrow> hd s = c \<Longrightarrow> strtok_next c (tl s) = Some (t, r)"
proof -
  let ?s = "dropWhile (\<lambda>x. x = c) s"
  have t: "t = takeWhile (\<lambda>x. x \<noteq> c) ?s" and r: "r = drop 1 (dropWhile (\<lambda>x. x \<noteq> c) ?s)"
    using assms by (auto simp: strtok_next_def Let_def split: if_splits)
  have "length t + length (dropWhile (\<lambda>x. x \<noteq> c) ?s) = length ?s"
    unfolding t by (metis length_append takeWhile_dropWhile_id)
  moreover have "length ?s \<le> length s" by (rule length_dropWhile_le)
  ultimately show "length t + length r \<le> length s" "r \<noteq> [] \<Longrightarrow> length t + length r < length s"
    unfolding r by auto
  show "strtok_next c (tl s) = Some (t, r)" if "s \<noteq> []" "hd s = c"
    using assms that by (cases s) (simp_all add: strtok_next_def)
qed

lemma length_joined_tokens: "length (joined (tokens CHR ''/'' s)) \<le> length s"
proof (induction "CHR ''/''" s rule: tokens.induct)
  case (1 s)
  show ?case
  proof (cases "strtok_next CHR ''/'' s")
    case None
    then show ?thesis by (subst tokens.simps) simp
  next
    case (Some a)
    then obtain t r where tr: "strtok_next CHR ''/'' s = Some (t, r)" by (cases a) simp
    have IH: "length (joined (tokens CHR ''/'' r)) \<le> length r" using 1 [OF tr refl] by simp
    have ts: "tokens CHR ''/'' s = t # tokens CHR ''/'' r" by (subst tokens.simps) (simp add: tr)
    show ?thesis
    proof (cases "tokens CHR ''/'' r")
      case Nil
      then show ?thesis using ts strtok_next_length(1) [OF tr] by simp
    next
      case (Cons u us)
      then have "r \<noteq> []" by auto
      then show ?thesis using Cons ts IH strtok_next_length(2) [OF tr] by simp
    qed
  qed
qed

lemma split_path_tokens:
  assumes "split_path_filename path = (d, f)"
  shows "tokens CHR ''/'' (d @ f) = tokens CHR ''/'' path" "CHR ''/'' \<notin> set f" "d = [] \<or> last d = CHR ''/''"
    "length d + length f \<le> length path" "f \<noteq> [] \<longleftrightarrow> tokens CHR ''/'' path \<noteq> []"
proof -
  let ?ts = "tokens CHR ''/'' path"
  have cl: "\<forall>t \<in> set ?ts. t \<noteq> [] \<and> CHR ''/'' \<notin> set t" using tokens_clean by blast
  let ?root = "if path \<noteq> [] \<and> path ! 0 = CHR ''/'' then ''/'' else []"
  have df: "d = ?root @ concat (map (\<lambda>t. t @ ''/'') (butlast ?ts))" "f = (if ?ts = [] then [] else last ?ts)"
    using assms by (simp_all add: split_path_filename_def Let_def)
  have jn: "d @ f = ?root @ joined ?ts" using df by (simp add: joined_def)
  show "tokens CHR ''/'' (d @ f) = ?ts" unfolding jn using tokens_joined [OF cl] by simp
  show "CHR ''/'' \<notin> set f" "f \<noteq> [] \<longleftrightarrow> ?ts \<noteq> []" using df(2) cl by (auto split: if_splits)
  show "d = [] \<or> last d = CHR ''/''"
    using df(1) by (cases "butlast ?ts" rule: rev_cases) (auto split: if_splits)
  have "length (?root @ joined ?ts) \<le> length path"
  proof (cases path)
    case (Cons c p)
    then show ?thesis using length_joined_tokens [of p] length_joined_tokens [of path] by (cases "c = CHR ''/''") simp_all
  qed simp
  then show "length d + length f \<le> length path" using jn by (metis length_append)
qed

lemma split_path_shape:
  assumes "split_path_filename path = (d, f)"
  shows "tokens CHR ''/'' d = butlast (tokens CHR ''/'' path)" "f = (if tokens CHR ''/'' path = [] then [] else last (tokens CHR ''/'' path))"
    "(d \<noteq> [] \<and> hd d = CHR ''/'') \<longleftrightarrow> (path \<noteq> [] \<and> hd path = CHR ''/'')"
    "split_path_filename (d @ f) = (d, f)"
proof -
  let ?ts = "tokens CHR ''/'' path" and ?root = "if path \<noteq> [] \<and> path ! 0 = CHR ''/'' then ''/'' else []"
  have cl: "t \<noteq> [] \<and> CHR ''/'' \<notin> set t" if "t \<in> set ?ts" for t using that tokens_clean by blast
  have df: "d = ?root @ concat (map (\<lambda>t. t @ ''/'') (butlast ?ts))" "f = (if ?ts = [] then [] else last ?ts)"
    using assms by (simp_all add: split_path_filename_def Let_def)
  show "f = (if ?ts = [] then [] else last ?ts)" by (rule df(2))
  have "tokens CHR ''/'' (concat (map (\<lambda>t. t @ ''/'') ts)) = ts" if "\<forall>t \<in> set ts. t \<noteq> [] \<and> CHR ''/'' \<notin> set t" for ts
    using that by (induction ts) (simp_all add: tokens_word)
  then show tk: "tokens CHR ''/'' d = butlast ?ts" unfolding df(1) using cl by (auto dest: in_set_butlastD)
  have h: "hd (concat (map (\<lambda>t. t @ ''/'') ts)) \<noteq> CHR ''/''" if "ts \<noteq> []" "\<forall>t \<in> set ts. t \<noteq> [] \<and> CHR ''/'' \<notin> set t" for ts
    using that by (cases ts) (auto dest: hd_in_set)
  have hp: "(path \<noteq> [] \<and> path ! 0 = CHR ''/'') \<longleftrightarrow> (path \<noteq> [] \<and> hd path = CHR ''/'')" by (cases path) auto
  show ab: "(d \<noteq> [] \<and> hd d = CHR ''/'') \<longleftrightarrow> (path \<noteq> [] \<and> hd path = CHR ''/'')"
    using h [of "butlast ?ts"] cl unfolding df(1) hp by (cases "butlast ?ts = []") (auto dest: in_set_butlastD)
  have "tokens CHR ''/'' (d @ f) = ?ts" using split_path_tokens(1) [OF assms] .
  moreover have "(d @ f \<noteq> [] \<and> (d @ f) ! 0 = CHR ''/'') \<longleftrightarrow> (path \<noteq> [] \<and> path ! 0 = CHR ''/'')"
  proof (cases "d = []")
    case True
    then show ?thesis using split_path_tokens(2) [OF assms] ab hp by (cases f) auto
  next
    case False
    then show ?thesis using ab hp by (cases d) auto
  qed
  ultimately show "split_path_filename (d @ f) = (d, f)"
    unfolding split_path_filename_def [of "d @ f"] using df by (simp add: Let_def)
qed

text \<open>With a slash and a last component in the path, each part is shorter than the path.\<close>

lemma split_path_shorter:
  assumes "split_path_filename path = (d, f)" and "CHR ''/'' \<in> set path" and "f \<noteq> []"
  shows "length d < length path" "length f < length path"
proof -
  have le: "length d + length f \<le> length path" using split_path_tokens(4) [OF assms(1)] .
  then show "length d < length path" using assms(3) by (cases f) auto
  have "tokens CHR ''/'' path \<noteq> []" "f = last (tokens CHR ''/'' path)"
    using split_path_shape(2) [OF assms(1)] assms(3) by (auto split: if_splits)
  then have "length f \<le> length (filter (\<lambda>x. x \<noteq> CHR ''/'') path)" by (simp add: token_length)
  also have "\<dots> < length path" using assms(2) by (intro length_filter_less) auto
  finally show "length f < length path" .
qed

subsection \<open>A small file system\<close>

text \<open>A drive with given sectors behind an empty cache.\<close>

definition drive :: "byte list list \<Rightarrow> cstate" where
  "drive secs = \<lparr>ccache = buffer_cache_init cache_zero,
     cdev = \<lparr>console = [], hd_fd = 3, hd_file = concat secs,
       blocks = [\<lparr>block_name = ''hda'', block_fname = ''img'', block_size = of_nat (length secs), block_ops = Ide_operations, read_cnt = 0, write_cnt = 0\<rparr>],
       hard_drive = Some 0\<rparr>, fs_device = 0\<rparr>"

lemma nth_concat_chunks:
  assumes "\<forall>x \<in> set xss. length x = w" and "k < length xss"
  shows "take w (drop (w * k) (concat xss)) = xss ! k"
  using assms
proof (induction xss arbitrary: k)
  case (Cons x xss)
  then show ?case by (cases k) auto
qed simp

lemma length_concat_all: "\<forall>x \<in> set xss. length x = w \<Longrightarrow> length (concat xss) = w * length xss"
  by (induction xss) auto

lemma drive_facts:
  assumes "\<forall>x \<in> set secs. length x = 512" and "length secs < 2 ^ 23"
  shows "bc_inv (drive secs)" "bc_nsec (drive secs) = length secs"
    "unat k < length secs \<Longrightarrow> bc_view (drive secs) k = secs ! unat k"
proof -
  have un: "unat (of_nat (length secs) :: u32) = length secs" using assms(2) by (simp add: unat_of_nat take_bit_nat_eq_self)
  have "dev_inv 0 (cdev (drive secs))"
    using un length_concat_all [OF assms(1)] assms(2) by (simp add: drive_def dev_inv_def wf_dev_def geom_def wf_block_def)
  then show "bc_inv (drive secs)"
    using cache_inv_init [of "dev_inv 0" "cdev (drive secs)" cache_zero "dev_nsec 0" "dev_view 0"]
    by (simp add: bc_inv_def drive_def cache_zero_def BUFFER_CACHE_SIZE_def)
  show "bc_nsec (drive secs) = length secs" using un by (simp add: bc_nsec_def drive_def dev_nsec_def geom_def)
  show "bc_view (drive secs) k = secs ! unat k" if "unat k < length secs"
    using nth_concat_chunks [OF assms(1) that]
    by (simp add: bc_view_def drive_def cache_view_init dev_view_def dev_sector_def geom_def)
qed

text \<open>A file in one block.\<close>

definition one_block :: "u32 \<Rightarrow> int \<Rightarrow> byte \<Rightarrow> inode_disk" where
  "one_block k len dir = idisk_zero\<lparr>direct_blocks := (direct_blocks idisk_zero)[0 := k], id_length := len, magic := INODE_MAGIC, is_dir := dir\<rparr>"

lemma one_block_facts:
  assumes "0 \<le> len" and "len \<le> 512"
  shows "wf_idisk (one_block k len dir)" "id_length (one_block k len dir) = len" "is_dir (one_block k len dir) = dir"
    "blk_sector v (one_block k len dir) c 0 = k" "nblocks (one_block k len dir) = (if len = 0 then 0 else 1)"
proof -
  show "wf_idisk (one_block k len dir)"
    using assms by (simp add: one_block_def idisk_zero_def wf_idisk_def DIRECT_BLOCKS_COUNT_def)
  show "nblocks (one_block k len dir) = (if len = 0 then 0 else 1)"
    using assms by (simp add: one_block_def nblocks_def) linarith
qed (simp_all add: one_block_def idisk_zero_def blk_sector_def DIRECT_BLOCKS_COUNT_def)

lemma one_block_ok:
  assumes "data i = one_block k len dir" and "0 \<le> len" and "len \<le> 512" and "bc_inv (cst s)" and "unat k < bc_nsec (cst s)"
  shows "ino_ok i s" "length (bc_view (cst s) k) = 512 \<Longrightarrow> contents i s = take (nat len) (bc_view (cst s) k)"
proof -
  note ob = one_block_facts [OF assms(2,3)]
  have "length (direct_blocks (one_block k len dir)) = 123" "blk_meta bc_view (one_block k len dir) (cst s) 0 = []"
    by (simp_all add: one_block_def idisk_zero_def DIRECT_BLOCKS_COUNT_def blk_meta_def)
  then show "ino_ok i s"
    using ob(1,2,5) ob(4) [of bc_view k dir "cst s"] assms by (simp add: ino_ok_def mapped_def separate_def MAX_BLOCKS_def inj_on_def)
  show "contents i s = take (nat len) (bc_view (cst s) k)" if "length (bc_view (cst s) k) = 512"
    using that ob(2) ob(4) [of bc_view k dir "cst s"] assms(1,3)
    by (intro nth_equalityI) (simp_all add: contents_def nth_file_data file_byte_def)
qed

lemma dir_entries_encoded:
  assumes "contents i s = concat (map encode_entry es)" and "\<forall>e \<in> set es. length (ent_name e) = 31"
  shows "dir_entries i s = es"
proof -
  have w: "\<forall>x \<in> set (map encode_entry es). length x = 36" using assms(2) by simp
  have "nat (id_length (data i)) = 36 * length es"
    using arg_cong [OF assms(1), of length] length_concat_all [OF w] by simp
  then have cnt: "entry_cnt i = length es" by (simp add: entry_cnt_def)
  have "entry_at i s k = es ! k" if "k < length es" for k
    using nth_concat_chunks [OF w, of k] that assms decode_encode_entry [of "es ! k"] by (simp add: entry_at_def)
  then show ?thesis using cnt by (intro nth_equalityI) simp_all
qed

text \<open>Ten sectors: the inodes of the free map and of the root directory, the data of the two, a file \<^verbatim>\<open>a\<close> of three bytes, an empty
  directory \<^verbatim>\<open>d\<close>, and three sectors of which the first two are free. The root directory has one free slot.\<close>

definition pad512 :: "byte list \<Rightarrow> byte list" where
  "pad512 bs = bs @ replicate (512 - length bs) 0"

definition sample_root :: "dir_entry list" where
  "sample_root = [\<lparr>inode_sector = 1, ent_name = replicate 31 0, in_use = True\<rparr>, new_entry ''a'' 4, new_entry ''d'' 6,
     \<lparr>inode_sector = 0, ent_name = replicate 31 0, in_use = False\<rparr>]"

definition sample_sub :: "dir_entry list" where
  "sample_sub = [\<lparr>inode_sector = 1, ent_name = replicate 31 0, in_use = True\<rparr>]"

definition sample_map :: bitmap where
  "sample_map = \<lparr>bit_cnt = 9, bits = [127]\<rparr>"

definition sample_secs :: "byte list list" where
  "sample_secs = [encode_inode (one_block 2 8 0), encode_inode (one_block 3 144 1), pad512 (bitmap_bytes sample_map),
     pad512 (concat (map encode_entry sample_root)), encode_inode (one_block 5 3 0), pad512 [97, 98, 0],
     encode_inode (one_block 8 36 1), replicate 512 0, pad512 (concat (map encode_entry sample_sub)), replicate 512 0]"

definition sample_sys :: fs where
  "sample_sys = \<lparr>cst = drive sample_secs, free_map = sample_map, free_map_file = Some 1,
     inodes = [0 \<mapsto> \<lparr>sector = 0, open_cnt = 1, removed = False, deny_write_cnt = 0, data = one_block 2 8 0\<rparr>], open_inodes = [0],
     scratch = None, files = [1 \<mapsto> \<lparr>file_inode = 0, pos = 0, deny_write = False\<rparr>], dirs = Map.empty, cwd = None,
     file_table = [], next_addr = 2\<rparr>"

definition sample_root_inode :: inode where
  "sample_root_inode = \<lparr>sector = 1, open_cnt = 1, removed = False, deny_write_cnt = 0, data = one_block 3 144 1\<rparr>"

text \<open>The same with the root directory open.\<close>

definition sample_dirs :: fs where
  "sample_dirs = sample_sys\<lparr>inodes := (inodes sample_sys)(2 \<mapsto> sample_root_inode), open_inodes := [2, 0],
     dirs := [3 \<mapsto> \<lparr>dir_inode = 2, dir_pos = 36, dir_open_cnt = 1\<rparr>], cwd := Some 3, next_addr := 4\<rparr>"

lemma length_encode_one_block: "0 \<le> len \<Longrightarrow> len \<le> 512 \<Longrightarrow> length (encode_inode (one_block k len dir)) = 512"
  by (intro length_encode_inode one_block_facts)

lemma length_pad512: "length bs \<le> 512 \<Longrightarrow> length (pad512 bs) = 512"
  by (simp add: pad512_def)

lemma sample_entries_ok: "\<forall>e \<in> set sample_root. length (ent_name e) = 31" "\<forall>e \<in> set sample_sub. length (ent_name e) = 31"
  by (simp_all add: sample_root_def sample_sub_def new_entry_def)

lemma length_sample_dirs: "length (concat (map encode_entry sample_root)) = 144" "length (concat (map encode_entry sample_sub)) = 36"
  by (simp_all add: sample_root_def sample_sub_def new_entry_def)

lemma sample_map_facts: "wf_bitmap sample_map" "length (bitmap_bytes sample_map) = 8"
  "bits_of sample_map = [True, True, True, True, True, True, True, False, False]"
  by (simp_all add: sample_map_def wf_bitmap_def elem_cnt_def DIV_ROUND_UP_def ELEM_BITS_def
      bits_of_def elem_idx_def upt_rec bit_numeral_rec bitmap_bytes_def)

lemma sample_secs_ok: "\<forall>x \<in> set sample_secs. length x = 512" "length sample_secs = 10"
  using length_sample_dirs sample_map_facts(2) by (simp_all add: sample_secs_def length_encode_one_block length_pad512)

lemma sample_cst: "bc_inv (drive sample_secs)" "bc_nsec (drive sample_secs) = 10"
  "unat k < 10 \<Longrightarrow> bc_view (drive sample_secs) k = sample_secs ! unat k"
  using drive_facts [OF sample_secs_ok(1)] sample_secs_ok(2) by simp_all

lemma take_pad512: "n = length bs \<Longrightarrow> take n (pad512 bs) = bs"
  by (simp add: pad512_def)

lemma sample_dir_files:
  assumes "cst s = drive sample_secs"
  shows "data i = one_block 3 144 1 \<Longrightarrow> ino_ok i s \<and> dir_entries i s = sample_root"
    and "data i = one_block 8 36 1 \<Longrightarrow> ino_ok i s \<and> dir_entries i s = sample_sub"
proof -
  have v: "sample_secs ! 3 = pad512 (concat (map encode_entry sample_root))"
    "sample_secs ! 8 = pad512 (concat (map encode_entry sample_sub))"
    by (simp_all add: sample_secs_def)
  have w: "bc_view (cst s) 3 = sample_secs ! 3" "bc_view (cst s) 8 = sample_secs ! 8"
    using sample_cst(3) [of 3] sample_cst(3) [of 8] assms by simp_all
  have c: "take (nat 144) (bc_view (cst s) 3) = concat (map encode_entry sample_root)" "length (bc_view (cst s) 3) = 512"
    "take (nat 36) (bc_view (cst s) 8) = concat (map encode_entry sample_sub)" "length (bc_view (cst s) 8) = 512"
    unfolding w v using length_sample_dirs by (simp_all add: take_pad512 length_pad512)
  have r: "unat (3 :: u32) < bc_nsec (cst s)" "unat (8 :: u32) < bc_nsec (cst s)" "bc_inv (cst s)"
    using assms sample_cst(1,2) by simp_all
  show "ino_ok i s \<and> dir_entries i s = sample_root" if "data i = one_block 3 144 1"
    using one_block_ok [OF that _ _ r(3,1)] dir_entries_encoded [OF _ sample_entries_ok(1), of i s] c(1,2) by auto
  show "ino_ok i s \<and> dir_entries i s = sample_sub" if "data i = one_block 8 36 1"
    using one_block_ok [OF that _ _ r(3,2)] dir_entries_encoded [OF _ sample_entries_ok(2), of i s] c(3,4) by auto
qed

lemma sample_root_names:
  "dirent_ok (new_entry ''a'' 4)" "dirent_ok (new_entry ''d'' 6)"
  "find_entry ''a'' sample_root = Some 1" "find_entry ''d'' sample_root = Some 2" "find_entry ''b'' sample_root = None"
proof -
  have n: "no_nul ''a''" "no_nul ''d''" "length ''a'' \<le> NAME_MAX" "length ''d'' \<le> NAME_MAX"
    by (simp_all add: no_nul_def NAME_MAX_def)
  show "dirent_ok (new_entry ''a'' 4)" "dirent_ok (new_entry ''d'' 6)" using new_entry_name(2) n by blast+
  have nm: "is_named t (new_entry ''a'' 4) \<longleftrightarrow> t = ''a''" "is_named t (new_entry ''d'' 6) \<longleftrightarrow> t = ''d''" for t
    using is_named_new n by blast+
  have free: "\<not> is_named t \<lparr>inode_sector = 0, ent_name = replicate 31 0, in_use = False\<rparr>" for t by (simp add: is_named_def)
  show "find_entry ''a'' sample_root = Some 1" "find_entry ''d'' sample_root = Some 2" "find_entry ''b'' sample_root = None"
    using free by (simp_all add: find_entry_def sample_root_def upt_rec nm)
qed

lemma sample_root_ok: "\<forall>e \<in> set (tl sample_root). in_use e \<longrightarrow> dirent_ok e"
  using sample_root_names(1,2) by (simp add: sample_root_def)

lemma sample_dirs_facts:
  "dir_at 3 2 sample_root_inode sample_dirs" "dir_entries sample_root_inode sample_dirs = sample_root"
  "table_ok sample_dirs" "bc_nsec (cst sample_dirs) = 10" "not_open 6 sample_dirs"
  "data (fresh_inode 6 sample_dirs) = one_block 8 36 1" "dir_ok (fresh_inode 6 sample_dirs) sample_dirs"
  "entry_cnt sample_root_inode = 4" "entry_cnt (fresh_inode 6 sample_dirs) = 1"
proof -
  have c: "cst sample_dirs = drive sample_secs" by (simp add: sample_dirs_def sample_sys_def)
  have root: "data sample_root_inode = one_block 3 144 1" by (simp add: sample_root_inode_def)
  note rt = sample_dir_files(1) [OF c root]
  then show "dir_entries sample_root_inode sample_dirs = sample_root" by blast
  show cnt: "entry_cnt sample_root_inode = 4" by (simp add: entry_cnt_def root one_block_facts)
  show "dir_at 3 2 sample_root_inode sample_dirs"
    using rt cnt sample_root_ok by (simp add: dir_at_def dir_ok_def) (simp add: sample_dirs_def sample_sys_def)
  show "bc_nsec (cst sample_dirs) = 10" using c sample_cst(2) by simp
  show "table_ok sample_dirs" "not_open 6 sample_dirs"
    by (auto simp: sample_dirs_def sample_sys_def sample_root_inode_def table_ok_def not_open_def)
  show sub: "data (fresh_inode 6 sample_dirs) = one_block 8 36 1"
    using c sample_cst(3) [of 6] decode_encode_inode [OF one_block_facts(1), of 36 8 1] by (simp add: fresh_inode_def sample_secs_def)
  show "dir_ok (fresh_inode 6 sample_dirs) sample_dirs"
    using sample_dir_files(2) [OF c sub] by (simp add: dir_ok_def sample_sub_def)
  show "entry_cnt (fresh_inode 6 sample_dirs) = 1" by (simp add: entry_cnt_def sub one_block_facts)
qed

subsection \<open>Properties\<close>

text \<open>C7: A file name that \<^verbatim>\<open>dir_add\<close> enters in a directory with a free slot is found by \<^verbatim>\<open>lookup\<close> with the sector that was
  entered, every other name is looked up as before, and only the directory's own data is written.\<close>

theorem dir_add_then_lookup:
  assumes "dir_at d p i s" and "deny_write_cnt i = 0" and "no_nul name" and "name \<noteq> []" and "length name \<le> 30"
    and "find_entry name (dir_entries i s) = None" and "in_use (dir_entries i s ! 0)"
    and "\<exists>e \<in> set (dir_entries i s). \<not> in_use e" and "no_nul t"
  shows "\<exists>s1 k e ofs s2. dir_add n junk (Some d) name sec False s = Some (True, s1) \<and> writes_only i s s1 \<and>
    lookup (Some d) name s1 = Some (Some (e, ofs), s2) \<and> inode_sector e = sec \<and> entry_name e = name \<and>
    dir_entries i s1 = (dir_entries i s)[k := e] \<and> ofs = 36 * int k \<and>
    (t \<noteq> name \<longrightarrow> find_entry t (dir_entries i s1) = find_entry t (dir_entries i s))"
proof -
  obtain m where "m < length (dir_entries i s)" "\<not> in_use (dir_entries i s ! m)"
    using assms(8) in_set_conv_nth by metis
  then have "find (\<lambda>j. \<not> in_use (dir_entries i s ! j)) [0..<entry_cnt i] \<noteq> None"
    unfolding find_None_iff by auto
  then obtain k where k: "find (\<lambda>j. \<not> in_use (dir_entries i s ! j)) [0..<entry_cnt i] = Some k" by blast
  then have kk: "k < entry_cnt i" "\<not> in_use (dir_entries i s ! k)" unfolding find_upt_Some by blast+
  then have k1: "1 \<le> k" using assms(7) by (cases k) auto
  have nm: "length name \<le> NAME_MAX" using assms(5) by (simp add: NAME_MAX_def)
  obtain s1 where s1: "dir_add n junk (Some d) name sec False s = Some (True, s1)" "dir_at d p i s1" "writes_only i s s1"
    "dir_entries i s1 = (dir_entries i s)[k := new_entry name sec]"
    using dir_add_ok [OF assms(1-4) nm assms(6) k] by blast
  have found: "find_entry u (dir_entries i s1) = (if u = name then Some k else find_entry u (dir_entries i s))" for u
    using find_entry_added [OF assms(6) k1 _ kk(2) assms(3) nm] kk(1) s1(4) by simp
  obtain s2 where "lookup (Some d) name s1 = Some (Some (new_entry name sec, int ENTRY_SIZE * int k), s2)"
    using lookup_ok [OF s1(2) assms(3)] found [of name] s1(4) kk(1) by auto
  then show ?thesis
    using s1 found [of t] new_entry_name(1) [OF assms(3) nm, of sec] by (auto simp: ENTRY_SIZE_def new_entry_def)
qed

lemma sample_dirs_hyps:
  "deny_write_cnt sample_root_inode = 0" "no_nul ''b''" "no_nul ''a''" "no_nul ''d''" "in_use (sample_root ! 0)" "\<exists>e \<in> set sample_root. \<not> in_use e"
  by (simp_all add: sample_root_inode_def no_nul_def sample_root_def)

theorem dir_add_then_lookup_witness:
  "\<exists>s1 e ofs s2. dir_add 1 [] (Some 3) ''b'' 7 False sample_dirs = Some (True, s1) \<and>
     lookup (Some 3) ''b'' s1 = Some (Some (e, ofs), s2) \<and> inode_sector e = 7"
proof -
  note r = sample_dirs_facts(2)
  show ?thesis
    using dir_add_then_lookup [OF sample_dirs_facts(1) sample_dirs_hyps(1,2), unfolded r, of "''a''" 1 "[]" 7]
      sample_dirs_hyps sample_root_names(5) by fastforce
qed

text \<open>C38: \<^verbatim>\<open>dir_add\<close> refuses an empty name, a name of more than 30 characters and a name that is in use, for files and
  directories alike, and then writes nothing.\<close>

theorem dir_add_refuses:
  assumes "dir_at d p i s" and "no_nul name"
    and "name = [] \<or> length name > 30 \<or> find_entry name (dir_entries i s) \<noteq> None"
  shows "\<exists>s'. dir_add n junk (Some d) name sec isdir s = Some (False, s') \<and> reads_same s s'"
proof (cases "name = [] \<or> length name > 30")
  case True
  have "bc_inv (cst s)" using assms(1) by (simp add: dir_at_def dir_ok_def ino_ok_def)
  with True show ?thesis
    using dir_add_refused(1) [OF assms(1,2)] reads_same_refl by (auto simp: NAME_MAX_def)
next
  case False
  with assms(3) show ?thesis
    using dir_add_refused(2) [OF assms(1,2)] by (simp add: NAME_MAX_def)
qed

theorem dir_add_refuses_witness:
  "\<exists>s'. dir_add 1 [] (Some 3) ''a'' 7 True sample_dirs = Some (False, s') \<and> reads_same sample_dirs s'"
  using dir_add_refuses [OF sample_dirs_facts(1) sample_dirs_hyps(3), of 1 "[]" 7 True] sample_root_names(3) sample_dirs_facts(2)
  by simp

text \<open>C40: Removing a directory is undefined, whether it is empty or not: \<^verbatim>\<open>dir_close\<close> frees the inode that \<^verbatim>\<open>inode_remove\<close> and
  \<^verbatim>\<open>inode_close\<close> are then called with.\<close>

theorem dir_remove_directory_undefined:
  assumes "dir_at d p i s" and "no_nul name" and "find_entry name (dir_entries i s) = Some k" and "table_ok s"
    and "sec = inode_sector (dir_entries i s ! k)" and "unat sec < bc_nsec (cst s)" and "not_open sec s"
    and "deny_write_cnt i = 0" and "\<forall>a. dirs s a \<noteq> None \<longrightarrow> a < next_addr s"
    and "is_dir (data (fresh_inode sec s)) \<noteq> 0" and "dir_ok (fresh_inode sec s) s" and "0 < entry_cnt (fresh_inode sec s)"
    and "length (ent_name (dir_entries i s ! k)) = 31"
  shows "dir_remove n (Some d) name s = None"
  using assms by (rule dir_remove_frees_early)

theorem dir_remove_directory_undefined_witness: "dir_remove 1 (Some 3) ''d'' sample_dirs = None"
proof -
  have e: "dir_entries sample_root_inode sample_dirs ! 2 = new_entry ''d'' 6"
    unfolding sample_dirs_facts(2) by (simp add: sample_root_def)
  have f: "find_entry ''d'' (dir_entries sample_root_inode sample_dirs) = Some 2"
    unfolding sample_dirs_facts(2) by (rule sample_root_names(4))
  have d: "\<forall>a. dirs sample_dirs a \<noteq> None \<longrightarrow> a < next_addr sample_dirs" by (simp add: sample_dirs_def)
  show ?thesis
    by (rule dir_remove_directory_undefined [OF sample_dirs_facts(1) sample_dirs_hyps(4) f sample_dirs_facts(3)
          _ _ sample_dirs_facts(5) sample_dirs_hyps(1) d _ sample_dirs_facts(7)])
      (simp_all only: e, simp_all add: sample_dirs_facts new_entry_def one_block_facts)
qed

text \<open>C37: \<^verbatim>\<open>split_path_filename\<close> takes a path apart: the file name is the last component, the directory part has the other
  components in order, is empty or ends in a slash, and begins with a slash exactly when the path does, so that absolute and
  relative paths are told apart. The two parts are no longer than the path, and splitting them again changes nothing.\<close>

theorem split_path_filename_parts:
  "case split_path_filename path of (d, f) \<Rightarrow>
     tokens CHR ''/'' d = butlast (tokens CHR ''/'' path) \<and>
     f = (if tokens CHR ''/'' path = [] then [] else last (tokens CHR ''/'' path)) \<and>
     (d = [] \<or> last d = CHR ''/'') \<and> (d \<noteq> [] \<and> hd d = CHR ''/'' \<longleftrightarrow> path \<noteq> [] \<and> hd path = CHR ''/'') \<and>
     tokens CHR ''/'' (d @ f) = tokens CHR ''/'' path \<and> CHR ''/'' \<notin> set f \<and>
     length d + length f \<le> length path \<and> split_path_filename (d @ f) = (d, f)"
proof (cases "split_path_filename path")
  case (Pair d f)
  show ?thesis
    unfolding Pair prod.case using split_path_shape [OF Pair] split_path_tokens [OF Pair] by simp
qed

end
