(* ===== verification/Filesys.thy ===== *)
theory Filesys
  imports Directory
begin

text \<open>
  The file system as the shell uses it (\<^verbatim>\<open>a3/fs/filesys.c\<close>, \<^verbatim>\<open>a3/fs/fsutil.c\<close>) and the hex dump of
  \<^verbatim>\<open>a3/fs/debug.c\<close>. \<open>n\<close> bounds the depth of the recursion of \<^verbatim>\<open>free_map_allocate\<close>, and \<open>junk\<close> is what an
  uninitialised name holds, as in \<^verbatim>\<open>Directory\<close>.

  \<^verbatim>\<open>filesys_create\<close> and \<^verbatim>\<open>filesys_remove\<close> split a path into two arrays of \<^verbatim>\<open>strlen(path)\<close> bytes, which is one too
  few for a name without a slash: creating or removing such a file is undefined, although it goes well where the compiler
  aligns the arrays. With a slash in the path the parts fit.

  \<open>sys_ok\<close> is the invariant of the file system between commands. The lemmas follow creating a file, opening it for the
  first time or again, and listing the root directory through all layers: paths, directories, free map, inodes, cache
  and device; and what a command writes to a file, another reads.
\<close>

definition MAX_FILES_IN_DIRECTORY :: nat where
  "MAX_FILES_IN_DIRECTORY = 1000"

subsection \<open>The hex dump: debug.c\<close>

definition hex_digit :: "nat \<Rightarrow> char" where
  "hex_digit d = (if d < 10 then char_of (48 + d) else char_of (87 + d))"

fun hex :: "nat \<Rightarrow> string" where
  "hex x = (if x < 16 then [hex_digit x] else hex (x div 16) @ [hex_digit (x mod 16)])"

declare hex.simps [simp del]

text \<open>\<^verbatim>\<open>%0wx\<close>.\<close>

definition hex_pad :: "nat \<Rightarrow> nat \<Rightarrow> string" where
  "hex_pad w x = replicate (w - length (hex x)) CHR ''0'' @ hex x"

definition isprint :: "byte \<Rightarrow> bool" where
  "isprint b \<longleftrightarrow> 32 \<le> unat b \<and> unat b < 127"

definition dump_line :: "nat \<Rightarrow> byte list \<Rightarrow> bool \<Rightarrow> string" where
  "dump_line ofs line ascii =
     (let start = ofs mod 16; stop = start + length line
      in hex_pad 8 (ROUND_DOWN ofs 16) @ ''  '' @ concat (replicate start ''   '')
         @ concat (map (\<lambda>i. hex_pad 2 (unat (line ! (i - start))) @ (if i = 16 div 2 - 1 then ''-'' else '' '')) [start..<stop])
         @ (if ascii
            then concat (replicate (16 - stop) ''   '') @ ''|'' @ replicate start CHR '' ''
                 @ map (\<lambda>b. if isprint b then char_of (unat b) else CHR ''.'') line @ replicate (16 - stop) CHR '' '' @ ''|''
            else []))"

text \<open>\<open>len\<close> is the size; the buffer must have as many bytes. The lines are returned.\<close>

function hex_dump :: "nat \<Rightarrow> byte list \<Rightarrow> bool \<Rightarrow> string list" where
  "hex_dump ofs buf ascii =
     (if buf = [] then []
      else let k = min (16 - ofs mod 16) (length buf)
           in dump_line ofs (take k buf) ascii # hex_dump (ofs + k) (drop k buf) ascii)"
  by pat_completeness auto
termination
  by (relation "measure (\<lambda>(ofs, buf, ascii). length buf)") auto

declare hex_dump.simps [simp del]

text \<open>\<^verbatim>\<open>bitmap_dump\<close> of \<^verbatim>\<open>bitmap.c\<close>: its lines, without the characters.\<close>

definition bitmap_dump :: "bitmap \<Rightarrow> string list" where
  "bitmap_dump b = hex_dump 0 (take (byte_cnt (bit_cnt b)) (bitmap_bytes b)) False"

subsection \<open>The file system: filesys.c\<close>

definition do_format :: "nat \<Rightarrow> fs \<Rightarrow> fs option" where
  "do_format n s =
     do { let s = fs_print ''Formatting file system...'' s;
          s \<leftarrow> free_map_create n s;
          (ok, s) \<leftarrow> dir_create n ROOT_DIR_SECTOR MAX_FILES_IN_DIRECTORY s;
          let s = (if ok then s else fs_panic ''do_format'' s);
          s \<leftarrow> free_map_close n s;
          Some (fs_print ''done.'' s) }"

text \<open>Without a device the panic is only a message, and the null pointer is used.\<close>

definition filesys_init :: "nat \<Rightarrow> bool \<Rightarrow> fs \<Rightarrow> fs option" where
  "filesys_init n format s =
     do { b \<leftarrow> block_get_hd (cdev (cst s));
          let s = s\<lparr>cst := (cst s)\<lparr>fs_device := b\<rparr>\<rparr>;
          let s = inode_init s;
          s \<leftarrow> free_map_init s;
          let s = s\<lparr>cst := (cst s)\<lparr>ccache := buffer_cache_init (ccache (cst s))\<rparr>\<rparr>;
          s \<leftarrow> (if format then do_format n s else Some s);
          s \<leftarrow> free_map_open s;
          (k, s) \<leftarrow> num_free_sectors s;
          let s = fs_print (''Num free sectors: '' @ dec_int k) s;
          Some (init_file_table s) }"

definition filesys_done :: "nat \<Rightarrow> fs \<Rightarrow> fs option" where
  "filesys_done n s =
     do { s \<leftarrow> free_map_close n s;
          c \<leftarrow> bc_close (cst s);
          free_file_table n (s\<lparr>cst := c\<rparr>) }"

text \<open>The two parts of a path in arrays of \<open>cap\<close> bytes; an array of no bytes is undefined.\<close>

definition split_into :: "nat \<Rightarrow> string \<Rightarrow> (string \<times> string) option" where
  "split_into cap path =
     (let (d, f) = split_path_filename path
      in if length d + 1 \<le> cap \<and> length f + 1 \<le> cap then Some (d, f) else None)"

definition filesys_create :: "nat \<Rightarrow> byte list \<Rightarrow> string \<Rightarrow> int \<Rightarrow> bool \<Rightarrow> fs \<Rightarrow> (bool \<times> fs) option" where
  "filesys_create n junk path initial_size isdir s =
     do { (d, file_name) \<leftarrow> split_into (length path) path;
          (dir, s) \<leftarrow> dir_open_root s;
          (success, inode_sector, s) \<leftarrow>
            (if dir = None then Some (False, 0, s)
             else do { (r, s) \<leftarrow> free_map_allocate n 1 s;
                       case r of
                         None \<Rightarrow> Some (False, 0, s)
                       | Some sec \<Rightarrow>
                           do { (ok, s) \<leftarrow> inode_create (free_map_allocate n 1) sec initial_size isdir s;
                                if \<not> ok then Some (False, sec, s)
                                else do { (ok, s) \<leftarrow> dir_add n junk dir file_name sec isdir s; Some (ok, sec, s) } } });
          s \<leftarrow> (if \<not> success \<and> inode_sector \<noteq> 0 then free_map_release n inode_sector 1 s else Some s);
          s \<leftarrow> dir_close n dir s;
          Some (success, s) }"

definition filesys_open :: "nat \<Rightarrow> string \<Rightarrow> fs \<Rightarrow> (addr option \<times> fs) option" where
  "filesys_open n name s =
     (if name = [] then Some (None, s)
      else do {
        (d, file_name) \<leftarrow> split_into (length name + 1) name;
        (dir, s) \<leftarrow> dir_open_root s;
        if dir = None then Some (None, s)
        else do {
          (ino, s) \<leftarrow>
            (if file_name \<noteq> []
             then do { (ino, s) \<leftarrow> dir_lookup dir file_name s; s \<leftarrow> dir_close n dir s; Some (ino, s) }
             else do { (p, s) \<leftarrow> dir_get_inode dir s; Some (Some p, s) });
          case ino of
            None \<Rightarrow> Some (None, s)
          | Some p \<Rightarrow> do { rm \<leftarrow> inode_is_removed p s; Some (if rm then (None, s) else file_open (Some p) s) } } })"

definition filesys_remove :: "nat \<Rightarrow> string \<Rightarrow> fs \<Rightarrow> (bool \<times> fs) option" where
  "filesys_remove n name s =
     do { (directory, file_name) \<leftarrow> split_into (length name) name;
          (dir, s) \<leftarrow> dir_open_path n directory s;
          (success, s) \<leftarrow> (if dir = None then Some (False, s) else dir_remove n dir file_name s);
          s \<leftarrow> dir_close n dir s;
          Some (success, s) }"

definition filesys_chdir :: "nat \<Rightarrow> string \<Rightarrow> fs \<Rightarrow> (bool \<times> fs) option" where
  "filesys_chdir n name s =
     do { (dir, s) \<leftarrow> dir_open_path n name s;
          case dir of
            None \<Rightarrow> Some (False, s)
          | Some d \<Rightarrow> do { s \<leftarrow> dir_close n (cwd s) s; Some (True, s\<lparr>cwd := Some d\<rparr>) } }"

subsection \<open>Utilities: fsutil.c\<close>

text \<open>What \<^verbatim>\<open>printf\<close> prints for a character array: undefined without a terminator.\<close>

definition array_string :: "byte list \<Rightarrow> string option" where
  "array_string bs = (if 0 \<in> set bs then Some (cstring bs) else None)"

partial_function (option) ls_loop :: "addr \<Rightarrow> fs \<Rightarrow> fs option" where
  "ls_loop d s =
     do { (r, s) \<leftarrow> dir_readdir d s;
          case r of
            None \<Rightarrow> Some s
          | Some name \<Rightarrow> do { t \<leftarrow> array_string name; ls_loop d (fs_print t s) } }"

definition fsutil_ls :: "nat \<Rightarrow> fs \<Rightarrow> (int \<times> fs) option" where
  "fsutil_ls n s =
     do { let s = fs_print ''Files in the root directory:'' s;
          (dir, s) \<leftarrow> dir_open_root s;
          case dir of
            None \<Rightarrow> Some (1, s)
          | Some d \<Rightarrow> do { s \<leftarrow> ls_loop d s; s \<leftarrow> dir_close n (Some d) s; Some (0, fs_print ''End of listing.'' s) } }"

text \<open>The file of a name, opened and entered in the table when it is not there, as six of the utilities do it.\<close>

definition file_for :: "nat \<Rightarrow> string \<Rightarrow> fs \<Rightarrow> (addr option \<times> fs) option" where
  "file_for n file_name s =
     (case get_file_by_fname file_name s of
        Some f \<Rightarrow> Some (Some f, s)
      | None \<Rightarrow>
          do { (f, s) \<leftarrow> filesys_open n file_name s;
               case f of None \<Rightarrow> Some (None, s) | Some f \<Rightarrow> Some (Some f, add_to_file_table f file_name s) })"

partial_function (option) cat_loop :: "addr \<Rightarrow> int \<Rightarrow> fs \<Rightarrow> fs option" where
  "cat_loop f file_size s =
     do { p \<leftarrow> file_tell f s;
          (bs, s) \<leftarrow> file_read f file_size s;
          if bs = [] then Some s
          else cat_loop f file_size (foldl (\<lambda>s l. fs_print l s) s (hex_dump (nat p) bs True)) }"

definition fsutil_cat :: "nat \<Rightarrow> string \<Rightarrow> fs \<Rightarrow> (int \<times> fs) option" where
  "fsutil_cat n file_name s =
     do { let s = fs_print (''Printing <'' @ file_name @ ''> to the console...'') s;
          let opened = (get_file_by_fname file_name s = None);
          (f, s) \<leftarrow> file_for n file_name s;
          case f of
            None \<Rightarrow> Some (- 1, fs_print ''Error'' s)
          | Some f \<Rightarrow>
              do { cur_offset \<leftarrow> file_tell f s;
                   s \<leftarrow> file_seek f 0 s;
                   file_size \<leftarrow> file_length f s;
                   s \<leftarrow> cat_loop f file_size s;
                   s \<leftarrow> file_seek f cur_offset s;
                   s \<leftarrow> (if opened then do { (ok, s) \<leftarrow> remove_from_file_table n file_name s; Some s } else Some s);
                   Some (0, fs_print ''Done printing'' s) } }"

definition fsutil_rm :: "nat \<Rightarrow> string \<Rightarrow> fs \<Rightarrow> (int \<times> fs) option" where
  "fsutil_rm n file_name s =
     do { (ok, s) \<leftarrow> remove_from_file_table n file_name s;
          (ok, s) \<leftarrow> filesys_remove n file_name s;
          Some (if ok then 1 else 0, s) }"

text \<open>\<^verbatim>\<open>unsigned\<close> sizes are passed on as \<^verbatim>\<open>int\<close>.\<close>

definition fsutil_create :: "nat \<Rightarrow> byte list \<Rightarrow> string \<Rightarrow> u32 \<Rightarrow> fs \<Rightarrow> (int \<times> fs) option" where
  "fsutil_create n junk fname isize s =
     (if length fname = 0 \<or> length fname \<ge> 255 then Some (0, fs_print (''Error with filename: '' @ dec (length fname)) s)
      else do { (ok, s) \<leftarrow> filesys_create n junk fname (sint isize) False s; Some (if ok then 1 else 0, s) })"

text \<open>The buffer is returned too: its last byte is overwritten.\<close>

definition fsutil_write :: "nat \<Rightarrow> string \<Rightarrow> byte list \<Rightarrow> u32 \<Rightarrow> fs \<Rightarrow> (int \<times> byte list \<times> fs) option" where
  "fsutil_write n file_name buf len s =
     do { (f, s) \<leftarrow> file_for n file_name s;
          case f of
            None \<Rightarrow> Some (- 1, buf, s)
          | Some f \<Rightarrow> file_write (free_map_allocate n 1) f buf (sint len) s }"

definition fsutil_read :: "nat \<Rightarrow> string \<Rightarrow> u32 \<Rightarrow> fs \<Rightarrow> (int \<times> byte list \<times> fs) option" where
  "fsutil_read n file_name len s =
     do { (f, s) \<leftarrow> file_for n file_name s;
          case f of
            None \<Rightarrow> Some (- 1, [], s)
          | Some f \<Rightarrow> do { (bs, s) \<leftarrow> file_read f (sint len) s; Some (int (length bs), bs, s) } }"

definition fsutil_size :: "nat \<Rightarrow> string \<Rightarrow> fs \<Rightarrow> (int \<times> fs) option" where
  "fsutil_size n file_name s =
     do { (f, s) \<leftarrow> file_for n file_name s;
          case f of
            None \<Rightarrow> Some (- 1, s)
          | Some f \<Rightarrow> do { cur_offset \<leftarrow> file_tell f s; len \<leftarrow> file_length f s; s \<leftarrow> file_seek f cur_offset s; Some (len, s) } }"

definition fsutil_seek :: "nat \<Rightarrow> string \<Rightarrow> int \<Rightarrow> fs \<Rightarrow> (int \<times> fs) option" where
  "fsutil_seek n file_name offset s =
     do { (f, s) \<leftarrow> file_for n file_name s;
          case f of
            None \<Rightarrow> Some (- 1, s)
          | Some f \<Rightarrow> do { s \<leftarrow> file_seek f offset s; Some (0, s) } }"

definition fsutil_close :: "nat \<Rightarrow> string \<Rightarrow> fs \<Rightarrow> fs option" where
  "fsutil_close n file_name s = do { (ok, s) \<leftarrow> remove_from_file_table n file_name s; Some s }"

definition fsutil_freespace :: "fs \<Rightarrow> (int \<times> fs) option" where
  "fsutil_freespace s = num_free_sectors s"

subsection \<open>The sectors of a file\<close>

definition used_sectors :: "inode \<Rightarrow> fs \<Rightarrow> u32 set" where
  "used_sectors i s = (\<Union>j < nblocks (data i). set (blk_sector bc_view (data i) (cst s) j # blk_meta bc_view (data i) (cst s) j))"

lemma used_sectors_in: "ino_ok i s \<Longrightarrow> k \<in> used_sectors i s \<Longrightarrow> unat k < bc_nsec (cst s)"
  by (auto simp: used_sectors_def ino_ok_def mapped_def)

text \<open>A file does not notice changes to sectors it does not use.\<close>

lemma ino_frame:
  assumes "ino_ok i s" and "bc_inv (cst s')" and "bc_nsec (cst s') = bc_nsec (cst s)"
    and "\<And>k. k \<in> used_sectors i s \<Longrightarrow> bc_view (cst s') k = bc_view (cst s) k"
  shows "ino_ok i s'" "contents i s' = contents i s" "used_sectors i s' = used_sectors i s"
proof -
  have same: "blk_sector bc_view (data i) (cst s') j = blk_sector bc_view (data i) (cst s) j \<and>
      blk_meta bc_view (data i) (cst s') j = blk_meta bc_view (data i) (cst s) j" if "j < nblocks (data i)" for j
    using that blk_sector_cong [of bc_view "data i" "cst s" j "cst s'"] assms(4) by (auto simp: used_sectors_def)
  then have m: "same_map bc_view (data i) (cst s) (cst s') (nblocks (data i))" by (simp add: same_map_def)
  show "ino_ok i s'" using assms(1-3) same_map_keeps [OF m] by (simp add: ino_ok_def)
  show "used_sectors i s' = used_sectors i s" using same by (simp add: used_sectors_def)
  have "file_byte bc_view (data i) (cst s') r = file_byte bc_view (data i) (cst s) r" if "r < nat (id_length (data i))" for r
  proof -
    have "blk_sector bc_view (data i) (cst s) (r div 512) \<in> used_sectors i s"
      using block_in_file [OF that] by (auto simp: used_sectors_def)
    then show ?thesis using same block_in_file [OF that] assms(4) by (simp add: file_byte_def)
  qed
  then show "contents i s' = contents i s" by (simp add: contents_def file_data_def)
qed

lemma ino_ok_cst: "cst s' = cst s \<Longrightarrow> ino_ok i s' = ino_ok i s" "cst s' = cst s \<Longrightarrow> contents i s' = contents i s"
  "cst s' = cst s \<Longrightarrow> used_sectors i s' = used_sectors i s"
  by (simp_all add: ino_ok_def contents_def used_sectors_def)

lemma dir_frame:
  assumes "dir_ok i s" and "bc_inv (cst s')" and "bc_nsec (cst s') = bc_nsec (cst s)"
    and "\<And>k. k \<in> used_sectors i s \<Longrightarrow> bc_view (cst s') k = bc_view (cst s) k"
  shows "dir_ok i s'" "dir_entries i s' = dir_entries i s"
proof -
  have "ino_ok i s" using assms(1) by (simp add: dir_ok_def)
  note fr = ino_frame [OF this assms(2-4)]
  show en: "dir_entries i s' = dir_entries i s" by (rule entries_cong [OF fr(2)])
  show "dir_ok i s'" using assms(1) fr(1) en by (simp add: dir_ok_def)
qed

lemma writes_only_view:
  assumes "writes_only i s s'"
  shows "bc_inv (cst s')" "bc_nsec (cst s') = bc_nsec (cst s)"
    "unat k < bc_nsec (cst s) \<Longrightarrow> k \<notin> used_sectors i s \<Longrightarrow> bc_view (cst s') k = bc_view (cst s) k"
  using assms by (auto simp: writes_only_def used_sectors_def)

subsection \<open>Opening and closing the root directory\<close>

text \<open>Between operations of the shell the root directory is closed and the free map file is open. \<open>root\<close> is the
  inode that opening the root directory creates.\<close>

abbreviation root :: "fs \<Rightarrow> inode" where
  "root s \<equiv> fresh_inode ROOT_DIR_SECTOR s"

definition free_sector :: "u32 \<Rightarrow> fs \<Rightarrow> bool" where
  "free_sector k s \<longleftrightarrow> unat k < bit_cnt (free_map s) \<and> \<not> bits_of (free_map s) ! unat k"

definition sys_ok :: "addr \<Rightarrow> addr \<Rightarrow> inode \<Rightarrow> fs \<Rightarrow> bool" where
  "sys_ok f p i s \<longleftrightarrow> map_ready f p i s \<and> table_ok s \<and> cwd s = None \<and> not_open ROOT_DIR_SECTOR s \<and>
     dir_ok (root s) s \<and> 0 < entry_cnt (root s) \<and> unat ROOT_DIR_SECTOR < bc_nsec (cst s) \<and>
     (\<forall>a \<ge> next_addr s. dirs s a = None) \<and> ROOT_DIR_SECTOR \<notin> used_sectors i s \<union> used_sectors (root s) s \<and>
     used_sectors i s \<inter> used_sectors (root s) s = {} \<and>
     (\<forall>k. free_sector k s \<longrightarrow> unat k < bc_nsec (cst s) \<and> k \<noteq> 0 \<and> k \<noteq> ROOT_DIR_SECTOR \<and>
        k \<notin> used_sectors i s \<union> used_sectors (root s) s \<and> not_open k s)"

definition rooted :: "fs \<Rightarrow> fs" where
  "rooted s = (opened ROOT_DIR_SECTOR s)\<lparr>next_addr := next_addr s + 2,
     dirs := (dirs s)(Suc (next_addr s) \<mapsto> \<lparr>dir_inode = next_addr s, dir_pos = int ENTRY_SIZE, dir_open_cnt = 1\<rparr>),
     cwd := Some (Suc (next_addr s))\<rparr>"

lemma open_root:
  assumes "table_ok s" and "bc_inv (cst s)" and "unat ROOT_DIR_SECTOR < bc_nsec (cst s)" and "not_open ROOT_DIR_SECTOR s" and "cwd s = None"
  shows "\<exists>s1. dir_open_root s = Some (Some (Suc (next_addr s)), rooted s1) \<and> reads_same s s1"
proof -
  obtain s1 where s1: "inode_open ROOT_DIR_SECTOR s = Some (next_addr s, opened ROOT_DIR_SECTOR s1)" "reads_same s s1"
    using inode_open_new [OF assms(1-4)] by blast
  moreover have "next_addr s1 = next_addr s" using reads_same_fields(8) [OF s1(2)] .
  ultimately show ?thesis
    using assms(5) by (intro exI [of _ s1]) (simp add: dir_open_root_def dir_open_def rooted_def opened_def)
qed

text \<open>Closing it gives back the state before, but for the sectors, the free map and the addresses used.\<close>

lemma close_root:
  assumes "table_ok s" and "\<forall>a \<ge> next_addr s. dirs s a = None" and "cwd s = None"
  shows "dir_close n (Some (Suc (next_addr s))) ((rooted s)\<lparr>cst := c, free_map := b, scratch := x\<rparr>) =
    Some (s\<lparr>cst := c, free_map := b, scratch := x, next_addr := next_addr s + 2\<rparr>)"
proof -
  have "inodes s (next_addr s) = None" using assms(1) by (meson table_ok_def less_irrefl)
  then have i: "(inodes s)(next_addr s := None) = inodes s" by auto
  have d: "(dirs s)(Suc (next_addr s) := None) = dirs s" using assms(2) by auto
  let ?t = "(rooted s)\<lparr>cst := c, free_map := b, scratch := x\<rparr>"
  have "dir_close n (Some (Suc (next_addr s))) ?t = Some (?t\<lparr>dirs := (dirs ?t)(Suc (next_addr s) := None), cwd := None,
    open_inodes := remove1 (next_addr s) (open_inodes ?t), inodes := (inodes ?t)(next_addr s := None)\<rparr>)"
    using dir_close_last [of ?t "Suc (next_addr s)" _ "fresh_inode ROOT_DIR_SECTOR s" n]
    by (simp add: rooted_def opened_def fresh_inode_def)
  also have "\<dots> = Some (s\<lparr>cst := c, free_map := b, scratch := x, next_addr := next_addr s + 2\<rparr>)"
    using i d assms(3) by (simp add: rooted_def opened_def)
  finally show ?thesis .
qed

definition empty_idisk :: inode_disk where
  "empty_idisk = idisk_zero\<lparr>id_length := 0, magic := INODE_MAGIC, is_dir := 0\<rparr>"

lemma wf_empty_idisk: "wf_idisk empty_idisk" "id_length empty_idisk = 0"
  by (simp_all add: empty_idisk_def wf_idisk_def idisk_zero_def DIRECT_BLOCKS_COUNT_def)

lemma inode_create_empty:
  assumes "bc_inv (cst s)" and "unat sec < bc_nsec (cst s)"
  shows "\<exists>c. inode_create alloc sec 0 False s = Some (True, s\<lparr>cst := c, scratch := None\<rparr>) \<and> bc_inv c \<and> bc_nsec c = bc_nsec (cst s) \<and>
    (\<forall>j. unat j < bc_nsec (cst s) \<longrightarrow> bc_view c j = (if j = sec then encode_inode empty_idisk else bc_view (cst s) j))"
proof -
  let ?s = "s\<lparr>scratch := Some empty_idisk\<rparr>"
  obtain c where c: "sector_write sec (encode_inode empty_idisk) ?s = Some (?s\<lparr>cst := c\<rparr>)" "bc_inv c" "bc_nsec c = bc_nsec (cst s)"
    "\<forall>j. unat j < bc_nsec (cst s) \<longrightarrow> bc_view c j = (if j = sec then encode_inode empty_idisk else bc_view (cst s) j)"
    using sector_write_ok [of ?s sec "encode_inode empty_idisk"] length_encode_inode [OF wf_empty_idisk(1)] assms by auto
  have "inode_allocate alloc Of_scratch ?s = Some (True, ?s)"
    by (simp add: inode_allocate_def get_disk_def wf_empty_idisk(2) inode_reserve_zero)
  then have "inode_create alloc sec 0 False s = Some (True, s\<lparr>cst := c, scratch := None\<rparr>)"
    using c(1) by (simp add: inode_create_def empty_idisk_def [symmetric])
  with c show ?thesis by blast
qed

lemma sys_ok_reads:
  assumes "sys_ok f p i s" and "reads_same s s1"
  shows "sys_ok f p i s1" "root s1 = root s" "dir_entries (root s) s1 = dir_entries (root s) s"
proof -
  note ok = assms(1) [unfolded sys_ok_def] and fld = reads_same_fields [OF assms(2)] and v = reads_same_view [OF assms(2)]
  show rt: "root s1 = root s" using reads_same_inode(1) [OF assms(2)] ok by blast
  have no: "not_open k s1 = not_open k s" for k using fld by (simp add: not_open_def)
  have tb: "table_ok s1 = table_ok s" using fld by (simp add: table_ok_def)
  have us: "used_sectors i s1 = used_sectors i s" "used_sectors (root s) s1 = used_sectors (root s) s"
    using ino_frame(3) [of i s s1] ino_frame(3) [of "root s" s s1] v used_sectors_in ok by (auto simp: map_ready_def dir_ok_def)
  have mr: "map_ready f p i s1"
    using ok fld reads_same_ok(1) [OF _ assms(2)] by (simp add: map_ready_def)
  note rd = reads_same_dir [OF _ assms(2), of "root s"]
  show "dir_entries (root s) s1 = dir_entries (root s) s" using rd ok by blast
  show "sys_ok f p i s1"
    unfolding sys_ok_def rt us no tb free_sector_def fld v(2) using ok mr rd by (simp add: free_sector_def)
qed

text \<open>With the root directory open, the free map is still in order and the directory is open on its inode.\<close>

lemma sys_ok_rooted:
  assumes "sys_ok f p i s"
  shows "map_ready f p i (rooted s)" "dir_at (Suc (next_addr s)) (next_addr s) (root s) (rooted s)"
    "dir_entries (root s) (rooted s) = dir_entries (root s) s" "cst (rooted s) = cst s" "free_map (rooted s) = free_map s"
    "fresh_inode sec (rooted s) = fresh_inode sec s"
proof -
  note ok = assms [unfolded sys_ok_def]
  have c: "cst (rooted s) = cst s" by (simp add: rooted_def opened_def)
  then show "cst (rooted s) = cst s" "free_map (rooted s) = free_map s" "fresh_inode sec (rooted s) = fresh_inode sec s"
    by (simp_all add: rooted_def opened_def fresh_inode_def)
  have "inodes s p \<noteq> None" using ok by (auto simp: map_ready_def)
  then have "p \<noteq> next_addr s" using ok by (metis table_ok_def less_irrefl)
  then show "map_ready f p i (rooted s)"
    using ok ino_ok_cst(1) [OF c] by (simp add: map_ready_def) (simp add: rooted_def opened_def)
  show "dir_entries (root s) (rooted s) = dir_entries (root s) s" by (rule dir_ok_cst(2) [OF c])
  show "dir_at (Suc (next_addr s)) (next_addr s) (root s) (rooted s)"
    using ok dir_ok_cst(1) [OF c] by (simp add: dir_at_def) (simp add: rooted_def opened_def)
qed

text \<open>Updates in the order of the fields.\<close>

lemma fs_reorder:
  "s\<lparr>free_map := b, cst := c\<rparr> = s\<lparr>cst := c, free_map := b\<rparr>" "s\<lparr>scratch := x, cst := c\<rparr> = s\<lparr>cst := c, scratch := x\<rparr>"
  "s\<lparr>free_map := b, scratch := x, cst := c\<rparr> = s\<lparr>cst := c, free_map := b, scratch := x\<rparr>"
  "s\<lparr>free_map := b, cst := c, scratch := x\<rparr> = s\<lparr>cst := c, free_map := b, scratch := x\<rparr>"
  by simp_all

lemma writes_only_used: "writes_only i s s' \<Longrightarrow> used_sectors i s' = used_sectors i s"
  by (simp add: writes_only_def same_map_def used_sectors_def)

definition free_slot :: "dir_entry list \<Rightarrow> nat option" where
  "free_slot es = find (\<lambda>j. \<not> in_use (es ! j)) [0..<length es]"

lemma sys_ok_first_free:
  assumes "sys_ok f p i s" and "first_run (bits_of (free_map s)) 0 1 False = Some k"
  shows "unat (of_nat k :: u32) = k" "k < bit_cnt (free_map s)" "free_sector (of_nat k) s"
proof -
  have "length (bits_of (free_map s)) \<le> BITMAP_ERROR" using assms(1) by (simp add: sys_ok_def map_ready_def)
  from unat_of_nat_run(1) [OF assms(2) this] show un: "unat (of_nat k :: u32) = k" by simp
  show "k < bit_cnt (free_map s)" "free_sector (of_nat k) s"
    using assms(2) un by (auto simp: free_sector_def first_run_Some is_run_def)
qed

text \<open>The three steps of creating an empty file, with the root directory open. Each writes the sectors of one object.\<close>

lemma alloc_rooted:
  assumes ok: "sys_ok f p i s" and k: "first_run (bits_of (free_map s)) 0 1 False = Some k"
  shows "\<exists>b c. free_map_allocate (Suc n) 1 (rooted s) = Some (Some (of_nat k), (rooted s)\<lparr>cst := c, free_map := b\<rparr>) \<and>
    bc_inv c \<and> bc_nsec c = bc_nsec (cst s) \<and> wf_bitmap b \<and> bit_cnt b = bit_cnt (free_map s) \<and> bits_of b = (bits_of (free_map s))[k := True] \<and>
    (\<forall>m. unat m < bc_nsec (cst s) \<longrightarrow> m \<notin> used_sectors i s \<longrightarrow> bc_view c m = bc_view (cst s) m) \<and>
    ino_ok i (s\<lparr>cst := c\<rparr>) \<and> used_sectors i (s\<lparr>cst := c\<rparr>) = used_sectors i s"
proof -
  note rt = sys_ok_rooted [OF ok] and kk = sys_ok_first_free [OF ok k]
  obtain s1 where s1: "free_map_allocate (Suc n) 1 (rooted s) = Some (Some (of_nat k), s1)" "map_ready f p i s1"
    "writes_only i ((rooted s)\<lparr>free_map := free_map s1\<rparr>) s1" "bit_cnt (free_map s1) = bit_cnt (free_map s)"
    "bits_of (free_map s1) = overwrite k (replicate 1 True) (bits_of (free_map s))"
    using free_map_allocate_ok [OF rt(1), of 1 k n] k rt(5) by auto
  have "bits_of (free_map s1) = (bits_of (free_map s))[k := True]"
    unfolding s1(5) using kk(2) by (intro nth_equalityI) (auto simp: nth_overwrite nth_list_update)
  moreover have "s1 = (rooted s)\<lparr>cst := cst s1, free_map := free_map s1\<rparr>"
    using s1(3) unfolding writes_only_def by (metis (no_types, lifting) fs.update_convs(1,2) fs.surjective)
  moreover have us: "used_sectors i ((rooted s)\<lparr>free_map := free_map s1\<rparr>) = used_sectors i s"
    by (rule ino_ok_cst(3)) (simp add: rt(4))
  moreover have "ino_ok i (s\<lparr>cst := cst s1\<rparr>)" "used_sectors i (s\<lparr>cst := cst s1\<rparr>) = used_sectors i s"
    using s1(2) ino_ok_cst(1,3) [of "s\<lparr>cst := cst s1\<rparr>" s1 i] writes_only_used [OF s1(3)] us by (simp_all add: map_ready_def)
  ultimately show ?thesis
    using s1 writes_only_view [OF s1(3)] rt(4) by (intro exI [of _ "free_map s1"] exI [of _ "cst s1"]) (auto simp: map_ready_def)
qed

lemma enter_rooted:
  assumes ok: "sys_ok f p i s" and nm: "no_nul name" "name \<noteq> []" "length name \<le> NAME_MAX"
    and d: "dir_ok (root s) (s\<lparr>cst := c\<rparr>)" and es: "dir_entries (root s) (s\<lparr>cst := c\<rparr>) = dir_entries (root s) s"
    and us: "used_sectors (root s) (s\<lparr>cst := c\<rparr>) = used_sectors (root s) s"
    and "find_entry name (dir_entries (root s) s) = None" and "free_slot (dir_entries (root s) s) = Some j"
  shows "\<exists>c'. dir_add n junk (Some (Suc (next_addr s))) name sec False ((rooted s)\<lparr>cst := c, free_map := b, scratch := x\<rparr>) =
      Some (True, (rooted s)\<lparr>cst := c', free_map := b, scratch := x\<rparr>) \<and> bc_inv c' \<and> bc_nsec c' = bc_nsec c \<and>
    (\<forall>m. unat m < bc_nsec c \<longrightarrow> m \<notin> used_sectors (root s) s \<longrightarrow> bc_view c' m = bc_view c m) \<and>
    dir_ok (root s) (s\<lparr>cst := c'\<rparr>) \<and> dir_entries (root s) (s\<lparr>cst := c'\<rparr>) = (dir_entries (root s) s)[j := new_entry name sec] \<and>
    used_sectors (root s) (s\<lparr>cst := c'\<rparr>) = used_sectors (root s) s"
proof -
  let ?t = "(rooted s)\<lparr>cst := c, free_map := b, scratch := x\<rparr>" and ?q = "Suc (next_addr s)" and ?r = "root s"
  have same: "dir_ok ?r (u\<lparr>cst := v\<rparr>) = dir_ok ?r (s\<lparr>cst := v\<rparr>)" "dir_entries ?r (u\<lparr>cst := v\<rparr>) = dir_entries ?r (s\<lparr>cst := v\<rparr>)"
    "used_sectors ?r (u\<lparr>cst := v\<rparr>) = used_sectors ?r (s\<lparr>cst := v\<rparr>)" for u v
    by (rule dir_ok_cst ino_ok_cst; simp)+
  have t: "?t = ?t\<lparr>cst := c\<rparr>" by simp
  have "dir_at ?q (next_addr s) ?r ?t"
    using sys_ok_rooted(2) [OF ok] d dir_ok_cst(1) [of ?t "s\<lparr>cst := c\<rparr>" ?r] by (simp add: dir_at_def)
  moreover have "deny_write_cnt ?r = 0" by (simp add: fresh_inode_def)
  moreover have "dir_entries ?r ?t = dir_entries ?r s" using same(2) [of c ?t] t es by simp
  ultimately obtain s' where s': "dir_add n junk (Some ?q) name sec False ?t = Some (True, s')" "dir_at ?q (next_addr s) ?r s'"
    "writes_only ?r ?t s'" "dir_entries ?r s' = (dir_entries ?r s)[j := new_entry name sec]"
    using dir_add_ok [of ?q "next_addr s" ?r ?t name j n junk sec] nm assms(8,9) by (auto simp: free_slot_def)
  have e: "s' = (rooted s)\<lparr>cst := cst s', free_map := b, scratch := x\<rparr>" using s'(3) by (simp add: writes_only_def fs_reorder)
  have "used_sectors ?r ?t = used_sectors ?r s" using same(3) [of c ?t] t us by simp
  then show ?thesis
    using s'(1,2,4) e [symmetric] writes_only_view [OF s'(3)] writes_only_used [OF s'(3)] same [of "cst s'" s']
    by (intro exI [of _ "cst s'"]) (auto simp: dir_at_def)
qed

lemma split_plain:
  assumes "name \<noteq> []" and "CHR ''/'' \<notin> set name"
  shows "split_path_filename name = ([], name)"
proof -
  have "name ! 0 \<noteq> CHR ''/''" using assms by (cases name) auto
  then show ?thesis using tokens_word(1) [OF assms] by (simp add: split_path_filename_def)
qed

text \<open>A state that differs from a well-formed one in the sectors of the map, of the root directory and of one free sector, which is now
  taken, is well-formed.\<close>

lemma sys_ok_updated:
  assumes ok: "sys_ok f p i s" and inv: "bc_inv c" "bc_nsec c = bc_nsec (cst s)"
    and rt: "bc_view c ROOT_DIR_SECTOR = bc_view (cst s) ROOT_DIR_SECTOR"
    and b: "wf_bitmap b" "bit_cnt b = bit_cnt (free_map s)" "bits_of b = (bits_of (free_map s))[k := True]" "k < bit_cnt (free_map s)"
    and i: "ino_ok i (s\<lparr>cst := c\<rparr>)" "used_sectors i (s\<lparr>cst := c\<rparr>) = used_sectors i s"
    and r: "dir_ok (root s) (s\<lparr>cst := c\<rparr>)" "used_sectors (root s) (s\<lparr>cst := c\<rparr>) = used_sectors (root s) s"
    and s'_def: "s' = s\<lparr>cst := c, free_map := b, scratch := x, next_addr := next_addr s + m\<rparr>"
  shows "sys_ok f p i s'" "root s' = root s"
proof -
  note sok = ok [unfolded sys_ok_def]
  show root: "root s' = root s" using rt by (simp add: fresh_inode_def s'_def)
  have cst: "cst s' = cst (s\<lparr>cst := c\<rparr>)" by (simp add: s'_def)
  note tr = ino_ok_cst [OF cst] dir_ok_cst(1) [OF cst]
  have fr: "free_sector a s' \<Longrightarrow> free_sector a s" for a
    using b by (auto simp: free_sector_def s'_def nth_list_update split: if_splits)
  have mr: "map_ready f p i s'"
    using sok b i tr(1) [of i] by (simp add: map_ready_def bitmap_file_size_def) (simp add: s'_def)
  have tab: "table_ok s'" using sok by (auto simp: table_ok_def s'_def)
  have no: "not_open a s' = not_open a s" for a by (simp add: not_open_def s'_def)
  show "sys_ok f p i s'"
    unfolding sys_ok_def root no tr i(2) r(2) using sok mr tab r(1) fr inv by (auto simp: s'_def)
qed

lemma filesys_create_ok:
  assumes ok: "sys_ok f p i s" and nm: "no_nul name" "name \<noteq> []" "length name \<le> NAME_MAX"
    and path: "split_path_filename path = (d, name)" "CHR ''/'' \<in> set path"
    and none: "find_entry name (dir_entries (root s) s) = None" and j: "free_slot (dir_entries (root s) s) = Some j"
    and k: "first_run (bits_of (free_map s)) 0 1 False = Some k"
  shows "\<exists>s'. filesys_create (Suc n) junk path 0 False s = Some (True, s') \<and> sys_ok f p i s' \<and>
    dir_entries (root s') s' = (dir_entries (root s) s)[j := new_entry name (of_nat k)] \<and>
    bits_of (free_map s') = (bits_of (free_map s))[k := True] \<and> bc_view (cst s') (of_nat k) = encode_inode empty_idisk \<and>
    bc_nsec (cst s') = bc_nsec (cst s) \<and> open_inodes s' = open_inodes s \<and> inodes s' = inodes s"
proof -
  let ?sec = "of_nat k :: u32" and ?q = "Suc (next_addr s)"
  note sok = ok [unfolded sys_ok_def]
  have inv: "bc_inv (cst s)" using sok by (simp add: map_ready_def ino_ok_def)
  obtain s1 where s1: "dir_open_root s = Some (Some ?q, rooted s1)" "reads_same s s1"
    using open_root [of s] sok inv by auto
  note rs = sys_ok_reads [OF ok s1(2)] and fld = reads_same_fields [OF s1(2)] and v = reads_same_view [OF s1(2)]
  have k1: "first_run (bits_of (free_map s1)) 0 1 False = Some k" using k fld(4) by simp
  note kk = sys_ok_first_free [OF rs(1) k1] and sok1 = rs(1) [unfolded sys_ok_def]
  have q1: "Suc (next_addr s1) = ?q" using fld(8) by simp
  have sec: "unat ?sec < bc_nsec (cst s1)" "?sec \<notin> used_sectors i s1" "?sec \<notin> used_sectors (root s1) s1" "?sec \<noteq> 0" "?sec \<noteq> ROOT_DIR_SECTOR"
    using sok1 kk(3) by auto
  obtain b c where c: "free_map_allocate (Suc n) 1 (rooted s1) = Some (Some ?sec, (rooted s1)\<lparr>cst := c, free_map := b\<rparr>)"
    "bc_inv c" "bc_nsec c = bc_nsec (cst s1)" "wf_bitmap b" "bit_cnt b = bit_cnt (free_map s1)" "bits_of b = (bits_of (free_map s1))[k := True]"
    "\<forall>m. unat m < bc_nsec (cst s1) \<longrightarrow> m \<notin> used_sectors i s1 \<longrightarrow> bc_view c m = bc_view (cst s1) m"
    "ino_ok i (s1\<lparr>cst := c\<rparr>)" "used_sectors i (s1\<lparr>cst := c\<rparr>) = used_sectors i s1"
    using alloc_rooted [OF rs(1) k1, of n] by blast
  obtain c2 where c2: "inode_create (free_map_allocate (Suc n) 1) ?sec 0 False ((rooted s1)\<lparr>cst := c, free_map := b\<rparr>) =
      Some (True, (rooted s1)\<lparr>cst := c2, free_map := b, scratch := None\<rparr>)" "bc_inv c2" "bc_nsec c2 = bc_nsec (cst s1)"
    "\<forall>m. unat m < bc_nsec (cst s1) \<longrightarrow> bc_view c2 m = (if m = ?sec then encode_inode empty_idisk else bc_view c m)"
    using inode_create_empty [of "(rooted s1)\<lparr>cst := c, free_map := b\<rparr>" ?sec "free_map_allocate (Suc n) 1"] c(2,3) sec(1) by (auto simp: fs_reorder)
  have root_in: "unat m < bc_nsec (cst s1)" "m \<notin> used_sectors i s1" "m \<noteq> ?sec" if "m \<in> used_sectors (root s1) s1" for m
    using that used_sectors_in [of "root s1" s1 m] sok1 sec by (auto simp: dir_ok_def)
  have r2: "dir_ok (root s1) (s1\<lparr>cst := c2\<rparr>)" "dir_entries (root s1) (s1\<lparr>cst := c2\<rparr>) = dir_entries (root s1) s1"
    "used_sectors (root s1) (s1\<lparr>cst := c2\<rparr>) = used_sectors (root s1) s1"
    using dir_frame [of "root s1" s1 "s1\<lparr>cst := c2\<rparr>"] ino_frame(3) [of "root s1" s1 "s1\<lparr>cst := c2\<rparr>"] sok1 c(7) c2(2-4) root_in
    by (auto simp: dir_ok_def)
  obtain c3 where c3: "dir_add (Suc n) junk (Some ?q) name ?sec False ((rooted s1)\<lparr>cst := c2, free_map := b, scratch := None\<rparr>) =
      Some (True, (rooted s1)\<lparr>cst := c3, free_map := b, scratch := None\<rparr>)" "bc_inv c3" "bc_nsec c3 = bc_nsec c2"
    "\<forall>m. unat m < bc_nsec c2 \<longrightarrow> m \<notin> used_sectors (root s1) s1 \<longrightarrow> bc_view c3 m = bc_view c2 m"
    "dir_ok (root s1) (s1\<lparr>cst := c3\<rparr>)" "dir_entries (root s1) (s1\<lparr>cst := c3\<rparr>) = (dir_entries (root s1) s1)[j := new_entry name ?sec]"
    "used_sectors (root s1) (s1\<lparr>cst := c3\<rparr>) = used_sectors (root s1) s1"
    using enter_rooted [OF rs(1) nm(1-3) r2, of j "Suc n" junk ?sec None b] none j rs(2,3) q1 by auto
  have map_in: "bc_view c3 m = bc_view c m" if "m \<in> used_sectors i s1" for m
  proof -
    have "unat m < bc_nsec (cst s1)" using that used_sectors_in [of i s1 m] sok1 by (simp add: map_ready_def)
    moreover have "m \<notin> used_sectors (root s1) s1" "m \<noteq> ?sec" using that sok1 sec by auto
    ultimately show ?thesis using c3(4) c2(3,4) by simp
  qed
  have i3: "ino_ok i (s1\<lparr>cst := c3\<rparr>)" "used_sectors i (s1\<lparr>cst := c3\<rparr>) = used_sectors i s1"
    using ino_frame(1,3) [of i "s1\<lparr>cst := c\<rparr>" "s1\<lparr>cst := c3\<rparr>"] c(8,9,3) c2(3) c3(2,3) map_in by auto
  let ?s = "s1\<lparr>cst := c3, free_map := b, scratch := None, next_addr := next_addr s1 + 2\<rparr>"
  have rv: "bc_view c3 ROOT_DIR_SECTOR = bc_view (cst s1) ROOT_DIR_SECTOR"
    using c3(4) c2(3,4) c(7) sok1 sec(5) by simp
  have sv: "bc_view c3 ?sec = encode_inode empty_idisk" using c3(4) c2(3,4) sec by simp
  note fin = sys_ok_updated [where x = None and m = 2, OF rs(1) c3(2) _ rv c(4-6) kk(2) i3 c3(5,7) refl]
  have "split_into (length path) path = Some (d, name)" using split_path_shorter [OF path nm(2)] path(1) by (simp add: split_into_def)
  then have "filesys_create (Suc n) junk path 0 False s = Some (True, ?s)"
    using s1(1) c(1) c2(1) c3(1) close_root [of s1 "Suc n" None b c3] sok1 q1
    by (simp add: filesys_create_def del: free_map_allocate.simps)
  moreover have "dir_entries (root s1) ?s = (dir_entries (root s1) s1)[j := new_entry name ?sec]"
    using dir_ok_cst(2) [of ?s "s1\<lparr>cst := c3\<rparr>" "root s1"] c3(6) by simp
  ultimately show ?thesis
    using fin c2(3) c3(3) v(2) sv rs(2,3) c(6) fld by (intro exI [of _ ?s]) auto
qed

lemma opened_table:
  assumes "table_ok s" and "not_open sec s"
  shows "table_ok (opened sec s)"
proof -
  note ok = assms(1) [unfolded table_ok_def]
  have "inodes s (next_addr s) = None" using ok by (meson less_irrefl)
  moreover from this have "\<forall>q \<in> set (open_inodes s). q \<noteq> next_addr s" using ok by auto
  ultimately show ?thesis
    using ok assms(2) by (auto simp: table_ok_def opened_def not_open_def fresh_inode_def image_iff less_SucI cong: map_cong)
qed

lemma rooted_table:
  assumes "table_ok s" and "not_open ROOT_DIR_SECTOR s"
  shows "table_ok (rooted s)" "not_open sec s \<Longrightarrow> sec \<noteq> ROOT_DIR_SECTOR \<Longrightarrow> not_open sec (rooted s)"
    "next_addr (rooted s) = next_addr s + 2"
proof -
  show "next_addr (rooted s) = next_addr s + 2" by (simp add: rooted_def)
  have "inodes (rooted s) = inodes (opened ROOT_DIR_SECTOR s)" "open_inodes (rooted s) = open_inodes (opened ROOT_DIR_SECTOR s)"
    by (simp_all add: rooted_def)
  then show "table_ok (rooted s)"
    using opened_table [OF assms] by (auto simp: table_ok_def rooted_def opened_def less_Suc_eq)
  have "inodes s (next_addr s) = None" using assms(1) by (meson table_ok_def less_irrefl)
  then have "q \<noteq> next_addr s" if "q \<in> set (open_inodes s)" for q using assms(1) that by (auto simp: table_ok_def)
  then show "not_open sec (rooted s)" if "not_open sec s" "sec \<noteq> ROOT_DIR_SECTOR"
    using that by (simp add: not_open_def rooted_def opened_def fresh_inode_def)
qed

subsection \<open>Opening a file, exactly\<close>

text \<open>The device as a state sees it.\<close>

abbreviation sees :: "fs \<Rightarrow> cstate \<Rightarrow> bool" where
  "sees s c \<equiv> store_same bc_inv bc_nsec bc_view bc_console (cst s) c"

lemma reads_same_sees: "reads_same s s' \<Longrightarrow> \<exists>c. s' = s\<lparr>cst := c\<rparr> \<and> sees s c"
  unfolding reads_same_def by blast

lemma sees_reads_same: "sees s c \<Longrightarrow> reads_same s (s\<lparr>cst := c\<rparr>)"
  by (simp add: reads_same_def)

lemma sees_trans: "sees s c \<Longrightarrow> sees (s\<lparr>cst := c\<rparr>) c' \<Longrightarrow> sees s c'"
  by (simp add: store_same_def)

lemma rooted_sees:
  assumes "sees s c" and "unat ROOT_DIR_SECTOR < bc_nsec (cst s)"
  shows "(rooted s)\<lparr>cst := c\<rparr> = rooted (s\<lparr>cst := c\<rparr>)"
  using assms by (simp add: rooted_def opened_def fresh_inode_def store_same_def)

lemma filesys_open_steps:
  assumes ok: "sys_ok f p i s" and nm: "no_nul name" "name \<noteq> []" "name \<notin> {''.'', ''..''}"
    and path: "split_path_filename path = (d, name)" and found: "find_entry name (dir_entries (root s) s) = Some j"
  shows "\<exists>c. sees s c \<and> filesys_open n path s =
    do { (q, u) \<leftarrow> inode_open (inode_sector (dir_entries (root s) s ! j)) (rooted (s\<lparr>cst := c\<rparr>));
         u \<leftarrow> dir_close n (Some (Suc (next_addr s))) u;
         rm \<leftarrow> inode_is_removed q u;
         Some (if rm then (None, u) else file_open (Some q) u) }"
proof -
  note sok = ok [unfolded sys_ok_def]
  have inv: "bc_inv (cst s)" using sok by (simp add: map_ready_def ino_ok_def)
  obtain s1 where s1: "dir_open_root s = Some (Some (Suc (next_addr s)), rooted s1)" "reads_same s s1"
    using open_root [of s] sok inv by auto
  obtain c where c: "s1 = s\<lparr>cst := c\<rparr>" "sees s c" using reads_same_sees [OF s1(2)] by blast
  note rs = sys_ok_reads [OF ok s1(2)] and fld = reads_same_fields [OF s1(2)]
  note rt = sys_ok_rooted [OF rs(1)]
  have "dir_at (Suc (next_addr s)) (next_addr s) (root s) (rooted s1)" "dir_entries (root s) (rooted s1) = dir_entries (root s) s"
    using rt(2,3) rs(2,3) fld(8) by simp_all
  then obtain t where t: "reads_same (rooted s1) t"
    "dir_lookup (Some (Suc (next_addr s))) name (rooted s1) =
       (do { (q, s2) \<leftarrow> inode_open (inode_sector (dir_entries (root s) s ! j)) t; Some (Some q, s2) })"
    using dir_lookup_ok [of "Suc (next_addr s)" "next_addr s" "root s" "rooted s1" name] nm(1,3) found by auto
  obtain c' where c': "t = (rooted s1)\<lparr>cst := c'\<rparr>" "sees (rooted s1) c'" using reads_same_sees [OF t(1)] by blast
  have s1c: "sees s1 c'" using c'(2) by (simp add: rooted_def opened_def)
  have "unat ROOT_DIR_SECTOR < bc_nsec (cst s1)" using sok c by (simp add: store_same_def)
  then have tt: "t = rooted (s\<lparr>cst := c'\<rparr>)" using rooted_sees [OF s1c] c'(1) c(1) by simp
  have sp: "split_into (length path + 1) path = Some (d, name)" "path \<noteq> []"
    using split_path_tokens(4) [OF path] path nm(2) by (auto simp: split_into_def)
  have "filesys_open n path s =
    do { (q, u) \<leftarrow> inode_open (inode_sector (dir_entries (root s) s ! j)) (rooted (s\<lparr>cst := c'\<rparr>));
         u \<leftarrow> dir_close n (Some (Suc (next_addr s))) u;
         rm \<leftarrow> inode_is_removed q u;
         Some (if rm then (None, u) else file_open (Some q) u) }"
    unfolding filesys_open_def using nm(2) sp s1(1) t(2) tt by (auto split: bind_splits)
  moreover have "sees s c'" using sees_trans [OF c(2)] s1c c(1) by simp
  ultimately show ?thesis by blast
qed

definition known :: "string \<Rightarrow> u32 \<Rightarrow> fs \<Rightarrow> bool" where
  "known name sec s \<longleftrightarrow> no_nul name \<and> name \<noteq> [] \<and> CHR ''/'' \<notin> set name \<and> name \<notin> {''.'', ''..''} \<and> sec \<noteq> ROOT_DIR_SECTOR \<and>
     unat sec < bc_nsec (cst s) \<and>
     (\<exists>j. find_entry name (dir_entries (root s) s) = Some j \<and> inode_sector (dir_entries (root s) s ! j) = sec)"

lemma fresh_address: "table_ok s \<Longrightarrow> inodes s (next_addr s + k) = None"
  by (metis le_add1 not_le table_ok_def)

lemma filesys_open_new:
  assumes ok: "sys_ok f p i s" and k: "known name sec s" and no: "not_open sec s" and path: "split_path_filename path = (d, name)"
  shows "\<exists>c. sees s c \<and> filesys_open n path s =
    Some (file_open (Some (next_addr s + 2)) (opened sec (s\<lparr>cst := c, next_addr := next_addr s + 2\<rparr>)))"
proof -
  note sok = ok [unfolded sys_ok_def] and kn = k [unfolded known_def]
  obtain c where c: "sees s c" "filesys_open n path s =
    do { (q, u) \<leftarrow> inode_open sec (rooted (s\<lparr>cst := c\<rparr>)); u \<leftarrow> dir_close n (Some (Suc (next_addr s))) u; rm \<leftarrow> inode_is_removed q u;
         Some (if rm then (None, u) else file_open (Some q) u) }"
    using filesys_open_steps [OF ok, of name] kn path by blast
  let ?s = "s\<lparr>cst := c\<rparr>"
  have ok1: "sys_ok f p i ?s" using sys_ok_reads(1) [OF ok sees_reads_same [OF c(1)]] .
  have tab: "table_ok (rooted ?s)" "not_open sec (rooted ?s)" "next_addr (rooted ?s) = next_addr s + 2"
    using rooted_table(1,3) [of ?s] rooted_table(2) [of ?s sec] ok1 no kn by (auto simp: sys_ok_def not_open_def)
  have sec: "bc_inv c" "unat sec < bc_nsec c" using c(1) kn by (simp_all add: store_same_def)
  have cc: "cst (rooted ?s) = c" by (simp add: rooted_def opened_def)
  obtain u where u: "inode_open sec (rooted ?s) = Some (next_addr s + 2, opened sec u)" "reads_same (rooted ?s) u"
    using inode_open_new [OF tab(1) _ _ tab(2)] sec cc tab(3) by auto
  obtain c' where c': "u = (rooted ?s)\<lparr>cst := c'\<rparr>" "sees (rooted ?s) c'" using reads_same_sees [OF u(2)] by blast
  have s1c: "sees ?s c'" using c'(2) cc by simp
  have "unat ROOT_DIR_SECTOR < bc_nsec (cst ?s)" using sok c(1) by (simp add: store_same_def)
  then have uu: "u = rooted (s\<lparr>cst := c'\<rparr>)" using rooted_sees [OF s1c] c'(1) by simp
  have sc: "sees s c'" using sees_trans [OF c(1) s1c] .
  let ?z = "opened sec (s\<lparr>cst := c', next_addr := next_addr s + 2\<rparr>)" and ?t = "opened sec u"
  have fr: "inodes s (next_addr s) = None" "next_addr s \<notin> set (open_inodes s)"
    using fresh_address [of s 0] sok by (auto simp: table_ok_def)
  then have i: "((inodes s)(next_addr s \<mapsto> a, next_addr s + 2 \<mapsto> b))(next_addr s := None) = (inodes s)(next_addr s + 2 \<mapsto> b)" for a b
    by auto
  have d: "(dirs s)(Suc (next_addr s) := None) = dirs s" using sok by auto
  have "dir_close n (Some (Suc (next_addr s))) ?t = Some (?t\<lparr>dirs := (dirs ?t)(Suc (next_addr s) := None), cwd := None,
      open_inodes := remove1 (next_addr s) (open_inodes ?t), inodes := (inodes ?t)(next_addr s := None)\<rparr>)"
    using dir_close_last [of ?t "Suc (next_addr s)" _ "root (s\<lparr>cst := c'\<rparr>)" n] unfolding uu
    by (simp add: rooted_def opened_def fresh_inode_def)
  also have "\<dots> = Some ?z" using i d fr sok unfolding uu by (simp add: rooted_def opened_def fresh_inode_def)
  finally have cl: "dir_close n (Some (Suc (next_addr s))) ?t = Some ?z" .
  have "inode_is_removed (next_addr s + 2) ?z = Some False" by (simp add: inode_is_removed_def opened_def fresh_inode_def)
  then show ?thesis using c(2) u(1) cl sc by auto
qed

lemma filesys_open_again:
  assumes ok: "sys_ok f p i s" and k: "known name sec s" and q: "q \<in> set (open_inodes s)" "inodes s q = Some x" "sector x = sec" "\<not> removed x"
    and path: "split_path_filename path = (d, name)"
  shows "\<exists>c. sees s c \<and> filesys_open n path s = Some (file_open (Some q) (s\<lparr>cst := c, next_addr := next_addr s + 2\<rparr>))"
proof -
  note sok = ok [unfolded sys_ok_def] and kn = k [unfolded known_def]
  obtain c where c: "sees s c" "filesys_open n path s =
    do { (q, u) \<leftarrow> inode_open sec (rooted (s\<lparr>cst := c\<rparr>)); u \<leftarrow> dir_close n (Some (Suc (next_addr s))) u; rm \<leftarrow> inode_is_removed q u;
         Some (if rm then (None, u) else file_open (Some q) u) }"
    using filesys_open_steps [OF ok, of name] kn path by blast
  let ?s = "s\<lparr>cst := c\<rparr>"
  have ok1: "sys_ok f p i ?s" using sys_ok_reads(1) [OF ok sees_reads_same [OF c(1)]] .
  have tab: "table_ok (rooted ?s)" using rooted_table(1) [of ?s] ok1 by (auto simp: sys_ok_def)
  have sec: "bc_inv c" "unat sec < bc_nsec c" using c(1) kn by (simp_all add: store_same_def)
  have cc: "cst (rooted ?s) = c" by (simp add: rooted_def opened_def)
  have nq: "q \<noteq> next_addr s" using q(2) fresh_address [of s 0] sok by auto
  then have "q \<in> set (open_inodes (rooted ?s))" "sector (the (inodes (rooted ?s) q)) = sec"
    using q by (simp_all add: rooted_def opened_def)
  then have o1: "inode_open sec (rooted ?s) = Some (q, rooted ?s)"
    using inode_open_table [OF tab, of sec] sec cc by fastforce
  have "dir_close n (Some (Suc (next_addr ?s))) ((rooted ?s)\<lparr>cst := cst (rooted ?s), free_map := free_map ?s, scratch := scratch ?s\<rparr>) =
      Some (?s\<lparr>cst := cst (rooted ?s), free_map := free_map ?s, scratch := scratch ?s, next_addr := next_addr ?s + 2\<rparr>)"
    by (rule close_root) (use ok1 in \<open>simp_all add: sys_ok_def\<close>)
  moreover have "(rooted ?s)\<lparr>cst := cst (rooted ?s), free_map := free_map ?s, scratch := scratch ?s\<rparr> = rooted ?s"
    by (simp add: rooted_def opened_def)
  ultimately have cl: "dir_close n (Some (Suc (next_addr s))) (rooted ?s) = Some (s\<lparr>cst := c, next_addr := next_addr s + 2\<rparr>)"
    by (simp add: cc)
  then show ?thesis using c o1 q(2,4) by (auto simp: inode_is_removed_def)
qed

lemma filesys_open_found:
  assumes ok: "sys_ok f p i s" and nm: "no_nul name" "name \<noteq> []" "name \<notin> {''.'', ''..''}"
    and path: "split_path_filename path = (d, name)" and found: "find_entry name (dir_entries (root s) s) = Some j" and sec: "sec = inode_sector (dir_entries (root s) s ! j)"
    "unat sec < bc_nsec (cst s)" "not_open sec s" "sec \<noteq> ROOT_DIR_SECTOR"
  shows "\<exists>g s'. filesys_open n path s = Some (Some g, s') \<and>
    (\<exists>q. files s' g = Some \<lparr>file_inode = q, pos = 0, deny_write = False\<rparr> \<and> inodes s' q = Some (fresh_inode sec s)) \<and>
    cwd s' = None \<and> bc_inv (cst s') \<and> bc_nsec (cst s') = bc_nsec (cst s) \<and>
    (\<forall>m. unat m < bc_nsec (cst s) \<longrightarrow> bc_view (cst s') m = bc_view (cst s) m)"
proof -
  have "known name sec s" using nm found sec split_path_tokens(2) [OF path] by (auto simp: known_def)
  then obtain c where "sees s c" "filesys_open n path s =
      Some (file_open (Some (next_addr s + 2)) (opened sec (s\<lparr>cst := c, next_addr := next_addr s + 2\<rparr>)))"
    using filesys_open_new [OF ok _ sec(3) path] by blast
  then show ?thesis
    using sec(2) ok by (simp add: file_open_def opened_def fresh_inode_def store_same_def sys_ok_def)
qed

subsection \<open>Listing a directory\<close>

text \<open>Printing concerns the console only.\<close>

lemma dev_console [simp]:
  "dev_inv b (d\<lparr>console := l\<rparr>) = dev_inv b d" "dev_nsec b (d\<lparr>console := l\<rparr>) = dev_nsec b d" "dev_view b (d\<lparr>console := l\<rparr>) = dev_view b d"
  by (simp_all add: dev_inv_def wf_dev_def geom_def dev_nsec_def dev_view_def dev_sector_def fun_eq_iff)

lemma fs_print_cst [simp]:
  "bc_inv (cst (fs_print t s)) = bc_inv (cst s)" "bc_nsec (cst (fs_print t s)) = bc_nsec (cst s)"
  "bc_view (cst (fs_print t s)) k = bc_view (cst s) k" "fs_log (fs_print t s) = fs_log s @ [Print t]"
  by (simp_all add: fs_print_def set_log_def bc_inv_def bc_nsec_def bc_view_def cache_inv_def cache_view_def fs_log_def bc_console_def
      entry_ok_def no_alias_def split: option.split)

lemma fs_print_fields [simp]:
  "inodes (fs_print t s) = inodes s" "dirs (fs_print t s) = dirs s" "next_addr (fs_print t s) = next_addr s" "cwd (fs_print t s) = cwd s"
  "open_inodes (fs_print t s) = open_inodes s" "free_map (fs_print t s) = free_map s" "files (fs_print t s) = files s"
  by (simp_all add: fs_print_def set_log_def)

lemma listed_name:
  assumes "dirent_ok e"
  shows "array_string (strncpy_bytes (NAME_MAX + 1) (ent_name e)) = Some (entry_name e)"
proof -
  obtain t where t: "no_nul t" "length t \<le> 30" "ent_name e = cbytes t @ replicate (31 - length t) 0"
    using assms by (auto simp: dirent_ok_def NAME_MAX_def)
  have "takeWhile (\<lambda>b. b \<noteq> 0) (ent_name e) = cbytes t"
    using t no_nul_takeWhile [OF t(1)] by (cases "31 - length t") (auto simp: takeWhile_append)
  then have "strncpy_bytes 31 (ent_name e) = ent_name e" using t by (simp add: strncpy_bytes_def)
  then show ?thesis using t by (simp add: array_string_def NAME_MAX_def entry_name_def)
qed

lemma filter_drop_find:
  "filter P (drop k xs) = (case find (\<lambda>j. P (xs ! j)) [k..<length xs] of None \<Rightarrow> [] | Some j \<Rightarrow> xs ! j # filter P (drop (Suc j) xs))"
proof (induction "length xs - k" arbitrary: k)
  case (Suc n)
  then have "k < length xs" "n = length xs - Suc k" by simp_all
  then show ?case using Suc.hyps(1) [of "Suc k"] by (simp add: upt_next Cons_nth_drop_Suc [symmetric])
qed simp

definition same_store :: "fs \<Rightarrow> fs \<Rightarrow> bool" where
  "same_store s s' \<longleftrightarrow> bc_inv (cst s') \<and> bc_nsec (cst s') = bc_nsec (cst s) \<and>
     (\<forall>k. unat k < bc_nsec (cst s) \<longrightarrow> bc_view (cst s') k = bc_view (cst s) k) \<and> inodes s' = inodes s \<and>
     open_inodes s' = open_inodes s \<and> next_addr s' = next_addr s \<and> cwd s' = cwd s \<and> free_map s' = free_map s"

lemma same_store_dir:
  assumes "dir_ok i s" and "same_store s s'"
  shows "dir_ok i s'" "dir_entries i s' = dir_entries i s"
  using dir_frame [OF assms(1), of s'] used_sectors_in [of i s] assms by (auto simp: same_store_def dir_ok_def)

lemma same_store_trans: "same_store s s1 \<Longrightarrow> same_store s1 s2 \<Longrightarrow> same_store s s2"
  by (auto simp: same_store_def)

lemma reads_same_store: "reads_same s s' \<Longrightarrow> same_store s (at_pos d x k s')"
  using reads_same_fields [of s s'] reads_same_view [of s s'] by (auto simp: same_store_def at_pos_def)

lemma ls_loop_ok:
  assumes "inodes s (dir_inode x) = Some i" and "dir_ok i s" and "1 \<le> k" and "k \<le> entry_cnt i"
    and "dirs s d = Some x" and "dir_pos x = int ENTRY_SIZE * int k"
  shows "\<exists>s' m. ls_loop d s = Some s' \<and> same_store s s' \<and> dirs s' = (dirs s)(d \<mapsto> x\<lparr>dir_pos := m\<rparr>) \<and>
    fs_log s' = fs_log s @ map (\<lambda>e. Print (entry_name e)) (filter in_use (drop k (dir_entries i s)))"
  using assms
proof (induction "entry_cnt i - k" arbitrary: k s x rule: less_induct)
  case less
  let ?es = "dir_entries i s"
  obtain s1 where s1: "readdir_loop d s = (case find (\<lambda>j. in_use (?es ! j)) [k..<entry_cnt i] of
      None \<Rightarrow> Some (None, at_pos d x (entry_cnt i) s1) | Some j \<Rightarrow> Some (Some (?es ! j), at_pos d x (Suc j) s1))" "reads_same s s1"
    using readdir_loop_ok [of s x i k d] less.prems by blast
  note fd = filter_drop_find [of in_use k ?es, unfolded length_entries] and fld = reads_same_fields [OF s1(2)]
  have log: "fs_log (at_pos d x m s1) = fs_log s" and dr: "dirs (at_pos d x m s1) = (dirs s)(d \<mapsto> x\<lparr>dir_pos := int ENTRY_SIZE * int m\<rparr>)" for m
    using fld(2,9) by (simp_all add: at_pos_def fs_log_def)
  show ?case
  proof (cases "find (\<lambda>j. in_use (?es ! j)) [k..<entry_cnt i]")
    case None
    then have "ls_loop d s = Some (at_pos d x (entry_cnt i) s1)"
      using s1(1) by (subst ls_loop.simps) (simp add: dir_readdir_def)
    then show ?thesis using None fd log dr reads_same_store [OF s1(2)] by auto
  next
    case (Some j)
    then have j: "k \<le> j" "j < entry_cnt i" "in_use (?es ! j)" unfolding find_upt_Some by blast+
    then have "dirent_ok (?es ! j)" using dir_ok_entry [OF less.prems(2), of j] less.prems(3) by simp
    note nm = listed_name [OF this]
    let ?t = "fs_print (entry_name (?es ! j)) (at_pos d x (Suc j) s1)" and ?x = "x\<lparr>dir_pos := int ENTRY_SIZE * int (Suc j)\<rparr>"
    have ls: "ls_loop d s = ls_loop d ?t"
      using s1(1) Some nm by (subst ls_loop.simps) (simp add: dir_readdir_def)
    have st: "same_store s ?t" using reads_same_store [OF s1(2), of d x "Suc j"] by (simp add: same_store_def)
    have "entry_cnt i - Suc j < entry_cnt i - k" "Suc j \<le> entry_cnt i" using j by simp_all
    moreover have "inodes ?t (dir_inode ?x) = Some i" "dirs ?t d = Some ?x"
      using st less.prems(1) by (simp_all add: same_store_def)
    ultimately obtain s' m where s': "ls_loop d ?t = Some s'" "same_store ?t s'" "dirs s' = (dirs ?t)(d \<mapsto> ?x\<lparr>dir_pos := m\<rparr>)"
      "fs_log s' = fs_log ?t @ map (\<lambda>e. Print (entry_name e)) (filter in_use (drop (Suc j) ?es))"
      using less.hyps [of "Suc j" ?t ?x] same_store_dir [OF less.prems(2) st] by auto
    then show ?thesis
      using ls same_store_trans [OF st s'(2)] Some fd log dr by (intro exI [of _ s'] exI [of _ m]) simp
  qed
qed

lemma fsutil_ls_ok:
  assumes ok: "sys_ok f p i s"
  shows "\<exists>s'. fsutil_ls n s = Some (0, s') \<and> cwd s' = None \<and> fs_log s' = fs_log s @ Print ''Files in the root directory:'' #
    map (\<lambda>e. Print (entry_name e)) (filter in_use (tl (dir_entries (root s) s))) @ [Print ''End of listing.'']"
proof -
  note sok = ok [unfolded sys_ok_def]
  let ?t = "fs_print ''Files in the root directory:'' s" and ?d = "Suc (next_addr s)"
  have inv: "bc_inv (cst s)" using sok by (simp add: map_ready_def ino_ok_def)
  have "table_ok ?t" "not_open ROOT_DIR_SECTOR ?t" using sok by (auto simp: table_ok_def not_open_def)
  then obtain s1 where s1: "dir_open_root ?t = Some (Some ?d, rooted s1)" "reads_same ?t s1"
    using open_root [of ?t] sok inv by auto
  note fld = reads_same_fields [OF s1(2)] and v1 = reads_same_view [OF s1(2)]
  have rt: "root s1 = root s" using v1(3) sok by (simp add: fresh_inode_def)
  have st: "same_store s s1" using v1 fld by (auto simp: same_store_def)
  have dok: "dir_ok (root s) s" "0 < entry_cnt (root s)" using sok by blast+
  have cr: "cst (rooted s1) = cst s1" "inodes (rooted s1) (next_addr s) = Some (root s)" "cwd (rooted s1) = Some ?d"
    "dirs (rooted s1) ?d = Some \<lparr>dir_inode = next_addr s, dir_pos = int ENTRY_SIZE, dir_open_cnt = 1\<rparr>" "fs_log (rooted s1) = fs_log s1"
    using fld(8) rt by (simp_all add: rooted_def opened_def fs_log_def)
  note dr = same_store_dir [OF dok(1) st] dir_ok_cst [OF cr(1), of "root s"]
  obtain s2 m where s2: "ls_loop ?d (rooted s1) = Some s2" "same_store (rooted s1) s2"
    "dirs s2 = (dirs (rooted s1))(?d \<mapsto> \<lparr>dir_inode = next_addr s, dir_pos = m, dir_open_cnt = 1\<rparr>)"
    "fs_log s2 = fs_log s1 @ map (\<lambda>e. Print (entry_name e)) (filter in_use (tl (dir_entries (root s) s)))"
    using ls_loop_ok [of "rooted s1" "\<lparr>dir_inode = next_addr s, dir_pos = int ENTRY_SIZE, dir_open_cnt = 1\<rparr>" "root s" 1 ?d] cr dr dok(2)
    by (auto simp: drop_Suc)
  have "inodes s2 (next_addr s) = Some (root s)" using s2(2) cr(2) by (simp add: same_store_def)
  then obtain s3 where s3: "dir_close n (Some ?d) s2 = Some s3" "cwd s3 = None" "fs_log s3 = fs_log s2"
    using dir_close_last [of s2 ?d _ "root s" n] s2(3) by (simp add: fresh_inode_def fs_log_def)
  have "fs_log s1 = fs_log s @ [Print ''Files in the root directory:'']" using fld(9) by simp
  then show ?thesis using s1(1) s2(1,4) s3 by (simp add: fsutil_ls_def)
qed

subsection \<open>Properties\<close>

lemma sample_sys_ok: "sys_ok 1 0 \<lparr>sector = 0, open_cnt = 1, removed = False, deny_write_cnt = 0, data = one_block 2 8 0\<rparr> sample_sys"
  "root sample_sys = sample_root_inode" "dir_entries sample_root_inode sample_sys = sample_root"
proof -
  let ?i = "\<lparr>sector = 0, open_cnt = 1, removed = False, deny_write_cnt = 0, data = one_block 2 8 0\<rparr>" and ?s = sample_sys
  have c: "cst ?s = drive sample_secs" by (simp add: sample_sys_def)
  have inv: "bc_inv (cst ?s)" "bc_nsec (cst ?s) = 10" using c sample_cst by simp_all
  show root: "root ?s = sample_root_inode"
    using c sample_cst(3) [of 1] decode_encode_inode [OF one_block_facts(1), of 144 3 1]
    by (simp add: fresh_inode_def ROOT_DIR_SECTOR_def sample_root_inode_def sample_secs_def)
  have rd: "data sample_root_inode = one_block 3 144 1" by (simp add: sample_root_inode_def)
  note rt = sample_dir_files(1) [OF c rd]
  show es: "dir_entries sample_root_inode ?s = sample_root" using rt by blast
  have dok: "dir_ok sample_root_inode ?s" using rt es sample_root_ok by (simp add: dir_ok_def)
  have meta: "blk_meta bc_view (one_block k len d) (cst ?s) 0 = []" for k len d by (simp add: one_block_def blk_meta_def)
  have us: "used_sectors ?i ?s = {2}" "used_sectors sample_root_inode ?s = {3}"
    using one_block_facts(5) [of 8] one_block_facts(5) [of 144] one_block_facts(4) [of 8 bc_view] one_block_facts(4) [of 144 bc_view] rd meta
    by (simp_all add: used_sectors_def lessThan_Suc)
  have mr: "map_ready 1 0 ?i ?s"
    using one_block_ok(1) [of ?i 2 8 0 ?s] inv sample_map_facts(1) one_block_facts(2) [of 8]
    by (simp add: map_ready_def) (simp add: sample_sys_def sample_map_def bitmap_file_size_def byte_cnt_def elem_cnt_def DIV_ROUND_UP_def
        ELEM_BITS_def BITMAP_ERROR_def sz_def)
  have free: "unat k = 7 \<or> unat k = 8" if "free_sector k ?s" for k
    using that sample_map_facts(3) by (auto simp: free_sector_def sample_sys_def sample_map_def less_Suc_eq nth_Cons' split: if_splits)
  have open0: "not_open k ?s \<longleftrightarrow> k \<noteq> 0" for k by (auto simp: not_open_def sample_sys_def)
  have table: "table_ok ?s" "cwd ?s = None" "\<forall>a \<ge> next_addr ?s. dirs ?s a = None" by (simp_all add: table_ok_def sample_sys_def)
  have fr: "unat k < 10 \<and> k \<noteq> 0 \<and> k \<noteq> 1 \<and> k \<noteq> 2 \<and> k \<noteq> 3" if "free_sector k ?s" for k
    using free [OF that] by auto
  show "sys_ok 1 0 ?i ?s"
    unfolding sys_ok_def root us open0 using mr table dok fr inv sample_dirs_facts(8) by (simp add: ROOT_DIR_SECTOR_def)
qed

text \<open>C1: Creating a file and opening it, through all layers. In a well-formed file system with a free sector and a free slot in
  the root directory, \<^verbatim>\<open>filesys_create\<close> of an empty plain file succeeds and leaves the file system well-formed, for every path that
  contains a slash and whose last component is a name of at most 30 characters that is not in use. \<^verbatim>\<open>filesys_open\<close> of
  any path with that last component then returns an open file, at position 0, of the new inode: an
  empty file in a sector that was free and is now marked as used. Every other name is found as before. Whatever the
  directory part of a path says, the file is entered and looked up in the root directory. (A path without a slash does not fit the
  arrays of \<^verbatim>\<open>filesys_create\<close>.)\<close>

theorem filesys_create_then_open:
  assumes "sys_ok f p i s" and "split_path_filename path = (d, name)" and "CHR ''/'' \<in> set path"
    and "no_nul name" and "name \<noteq> []" and "length name \<le> 30" and "name \<notin> {''.'', ''..''}"
    and "find_entry name (dir_entries (root s) s) = None" and "in_use (dir_entries (root s) s ! 0)" and "free_slot (dir_entries (root s) s) \<noteq> None"
    and "first_run (bits_of (free_map s)) 0 1 False = Some k" and "split_path_filename path' = (d', name)"
  shows "\<exists>s1 g s2 q j. filesys_create (Suc n) junk path 0 False s = Some (True, s1) \<and> sys_ok f p i s1 \<and>
    filesys_open m path' s1 = Some (Some g, s2) \<and> files s2 g = Some \<lparr>file_inode = q, pos = 0, deny_write = False\<rparr> \<and>
    inodes s2 q = Some j \<and> sector j = of_nat k \<and> id_length (data j) = 0 \<and> magic (data j) = INODE_MAGIC \<and>
    bits_of (free_map s1) = (bits_of (free_map s))[k := True] \<and>
    (\<forall>t. t \<noteq> name \<longrightarrow> find_entry t (dir_entries (root s1) s1) = find_entry t (dir_entries (root s) s))"
proof -
  let ?es = "dir_entries (root s) s" and ?sec = "of_nat k :: u32"
  obtain j where j: "free_slot ?es = Some j" using assms(10) by blast
  then have jj: "j < length ?es" "\<not> in_use (?es ! j)" unfolding free_slot_def find_upt_Some by blast+
  then have j1: "1 \<le> j" using assms(9) by (cases j) auto
  have nm: "length name \<le> NAME_MAX" using assms(6) by (simp add: NAME_MAX_def)
  obtain s1 where s1: "filesys_create (Suc n) junk path 0 False s = Some (True, s1)" "sys_ok f p i s1"
    "dir_entries (root s1) s1 = ?es[j := new_entry name ?sec]" "bits_of (free_map s1) = (bits_of (free_map s))[k := True]"
    "bc_view (cst s1) ?sec = encode_inode empty_idisk" "bc_nsec (cst s1) = bc_nsec (cst s)" "open_inodes s1 = open_inodes s" "inodes s1 = inodes s"
    using filesys_create_ok [OF assms(1,4,5) nm assms(2,3,8) j assms(11)] by blast
  have fnd: "find_entry t (dir_entries (root s1) s1) = (if t = name then Some j else find_entry t ?es)" for t
    unfolding s1(3) using find_entry_added [OF assms(8) j1 jj assms(4) nm] by simp
  have fs: "unat ?sec < bc_nsec (cst s)" "not_open ?sec s" "?sec \<noteq> ROOT_DIR_SECTOR"
    using assms(1) sys_ok_first_free(3) [OF assms(1,11)] by (auto simp: sys_ok_def)
  have "?sec = inode_sector (dir_entries (root s1) s1 ! j)" unfolding s1(3) using jj(1) by (simp add: new_entry_def)
  moreover have "not_open ?sec s1" using fs(2) s1(7,8) by (simp add: not_open_def)
  ultimately obtain g s2 q where g: "filesys_open m path' s1 = Some (Some g, s2)" "files s2 g = Some \<lparr>file_inode = q, pos = 0, deny_write = False\<rparr>"
    "inodes s2 q = Some (fresh_inode ?sec s1)"
    using filesys_open_found [OF s1(2) assms(4,5,7,12), of j ?sec m] fnd [of name] fs s1(6) by auto
  moreover have "sector (fresh_inode ?sec s1) = ?sec" "data (fresh_inode ?sec s1) = empty_idisk"
    using s1(5) decode_encode_inode [OF wf_empty_idisk(1)] by (simp_all add: fresh_inode_def)
  ultimately show ?thesis
    using s1 fnd by (intro exI [of _ s1] exI [of _ g] exI [of _ s2] exI [of _ q] exI [of _ "fresh_inode ?sec s1"]) (auto simp: empty_idisk_def)
qed

lemma sample_sys_run: "first_run (bits_of (free_map sample_sys)) 0 1 False = Some 7" "free_slot sample_root = Some 3"
  using sample_map_facts(3)
  by (simp_all add: sample_sys_def first_run_def is_run_def upt_rec free_slot_def sample_root_def new_entry_def)

theorem filesys_create_then_open_witness:
  "\<exists>s1 g s2. filesys_create 1 [] ''/b'' 0 False sample_sys = Some (True, s1) \<and> filesys_open 1 ''b'' s1 = Some (Some g, s2)"
proof -
  have "tokens CHR ''/'' ''b'' = [''b'']" by (rule tokens_word(1)) simp_all
  then have p: "split_path_filename ''/b'' = (''/'', ''b'')" "split_path_filename ''b'' = ([], ''b'')"
    by (simp_all add: split_path_filename_def)
  show ?thesis
    using filesys_create_then_open [OF sample_sys_ok(1) p(1) _ sample_dirs_hyps(2) _ _ _ _ _ _ _ p(2), of 7 0 "[]" 1] sample_sys_run sample_sys_ok(2,3)
      sample_root_names(5) sample_dirs_hyps(5) by fastforce
qed

text \<open>\<^verbatim>\<open>filesys_create\<close> and \<^verbatim>\<open>filesys_remove\<close> are undefined for a name without a slash: the array for the file name has no
  room for the terminator. \<^verbatim>\<open>filesys_open\<close> allocates one byte more, and the split always fits.\<close>

theorem filesys_create_overruns:
  assumes "CHR ''/'' \<notin> set name"
  shows "filesys_create n junk name len isdir s = None \<and> filesys_remove n name s = None \<and>
    split_into (length path + 1) path = Some (split_path_filename path)"
proof (intro conjI)
  have "split_into (length name) name = None"
    using split_plain [OF _ assms] by (cases "name = []") (auto simp: split_into_def split: prod.split)
  then show "filesys_create n junk name len isdir s = None" "filesys_remove n name s = None"
    by (simp_all add: filesys_create_def filesys_remove_def)
  show "split_into (length path + 1) path = Some (split_path_filename path)"
    using split_path_tokens(4) [of path] by (auto simp: split_into_def split: prod.split)
qed

theorem filesys_create_overruns_witness: "filesys_create 1 [] ''b'' 0 False sample_sys = None"
  using filesys_create_overruns [of "''b''" 1 "[]" 0 False sample_sys] by simp

text \<open>C36: Listing ends, returns 0 and prints the names of the entries of the root directory that are in use, in the order of their
  slots and between the two headings; the directory is closed again.\<close>

theorem fsutil_ls_lists:
  assumes "sys_ok f p i s"
  shows "\<exists>s'. fsutil_ls n s = Some (0, s') \<and> cwd s' = None \<and> fs_log s' = fs_log s @ Print ''Files in the root directory:'' #
    map (\<lambda>e. Print (entry_name e)) (filter in_use (tl (dir_entries (root s) s))) @ [Print ''End of listing.'']"
  by (rule fsutil_ls_ok [OF assms])

theorem fsutil_ls_lists_witness:
  "\<exists>s'. fsutil_ls 1 sample_sys = Some (0, s') \<and>
     fs_log s' = fs_log sample_sys @ [Print ''Files in the root directory:'', Print ''a'', Print ''d'', Print ''End of listing.'']"
proof -
  have "map (\<lambda>e. Print (entry_name e)) (filter in_use (tl sample_root)) = [Print ''a'', Print ''d'']"
    using new_entry_name(1) [of "''a''" 4] new_entry_name(1) [of "''d''" 6] sample_dirs_hyps(3,4)
    by (simp add: sample_root_def NAME_MAX_def) (simp add: new_entry_def)
  then show ?thesis using fsutil_ls_lists [OF sample_sys_ok(1), of 1] sample_sys_ok(2,3) by auto
qed

text \<open>C11: What \<^verbatim>\<open>fsutil_write\<close> stores at the position of a file of the table, and inside the file,
  \<^verbatim>\<open>fsutil_read\<close> returns after \<^verbatim>\<open>fsutil_seek\<close> back to that position: the bytes of the buffer, except that the
  last one has become a terminator, in the caller's buffer and in the file. The rest of the file is
  unchanged.\<close>

theorem fsutil_write_seek_read:
  assumes "get_file_by_fname name s = Some f" and "files s f = Some x" and "inodes s (file_inode x) = Some i"
    and "ino_ok i s" and "deny_write_cnt i = 0" and "pos x = int q"
    and "0 < length bs" and "q + length bs \<le> length (contents i s)"
  shows "\<exists>s1 s2 s3. fsutil_write n name bs (of_nat (length bs)) s = Some (int (length bs), bs[length bs - 1 := 0], s1) \<and>
    contents i s1 = overwrite q (bs[length bs - 1 := 0]) (contents i s) \<and>
    fsutil_seek n name (int q) s1 = Some (0, s2) \<and>
    fsutil_read n name (of_nat (length bs)) s2 = Some (int (length bs), bs[length bs - 1 := 0], s3)"
proof -
  let ?b = "bs[length bs - 1 := 0]" and ?n = "length bs"
  have "id_length (data i) < 2147483648" using assms(4) by (simp add: ino_ok_def wf_idisk_def)
  then have len: "sint (of_nat ?n :: u32) = int ?n"
    using assms(8) sint_word_of_int_i32 [of "int ?n"] by simp
  have last: "nat (int ?n - 1) = ?n - 1" "1 \<le> int ?n" using assms(7) by linarith+
  obtain c where c: "inode_write_at (free_map_allocate n 1) (file_inode x) ?b (int ?n) (int q) s = Some (int ?n, c)"
    "writes_only i s c" "contents i c = overwrite q ?b (contents i s)"
    using inode_write_at_inside [OF assms(3-5,7,8), of ?b] by auto
  note fld = writes_only_fields [OF c(2)]
  let ?s1 = "c\<lparr>files := (files c)(f \<mapsto> x\<lparr>pos := int q + int ?n - 2\<rparr>)\<rparr>"
  let ?s2 = "?s1\<lparr>files := (files ?s1)(f \<mapsto> x\<lparr>pos := int q\<rparr>)\<rparr>"
  have w: "fsutil_write n name bs (of_nat ?n) s = Some (int ?n, ?b, ?s1)"
    using assms(1,2,6) c(1) fld(3) last len by (simp add: fsutil_write_def file_for_def file_write_def)
  have tab: "get_file_by_fname name (c\<lparr>files := h\<rparr>) = Some f" for h
    using assms(1) writes_only_dirs(6) [OF c(2)] by (simp add: get_file_by_fname_def)
  have k: "fsutil_seek n name (int q) ?s1 = Some (0, ?s2)"
    using tab by (simp add: fsutil_seek_def file_for_def file_seek_def)
  have ok2: "ino_ok i ?s2" "contents i ?s2 = contents i c"
    using writes_only_ok [OF assms(4) c(2)] ino_ok_cst [of ?s2 c i] by simp_all
  have "take ?n (drop q (contents i ?s2)) = ?b"
    using ok2(2) c(3) assms(8) by (simp add: overwrite_def)
  then obtain s3 where "inode_read_at (file_inode x) (int ?n) (int q) ?s2 = Some (?b, s3)"
    using inode_read_at_ok [of ?s2 "file_inode x" i ?n q] ok2(1) assms(3) fld(4) by auto
  then have "\<exists>s3. fsutil_read n name (of_nat ?n) ?s2 = Some (int ?n, ?b, s3)"
    using tab len by (simp add: fsutil_read_def file_for_def file_read_def)
  then show ?thesis using w k c(3) ino_ok_cst(2) [of ?s1 c i] by auto
qed

theorem fsutil_write_seek_read_witness:
  "\<exists>s1 s2 s3. fsutil_write 1 ''a'' [5, 6, 7] 3 (add_to_file_table 1 ''a'' sample_fs) = Some (3, [5, 6, 0], s1) \<and>
     fsutil_seek 1 ''a'' 0 s1 = Some (0, s2) \<and> fsutil_read 1 ''a'' 3 s2 = Some (3, [5, 6, 0], s3)"
proof -
  let ?s = "add_to_file_table 1 ''a'' sample_fs"
  have "get_file_by_fname ''a'' ?s = Some 1" "cst ?s = cst sample_fs" "files ?s = files sample_fs" "inodes ?s = inodes sample_fs"
    by (simp_all add: add_to_file_table_def get_file_by_fname_def sample_fs_def)
  then show ?thesis
    using fsutil_write_seek_read [of "''a''" ?s 1 "\<lparr>file_inode = 0, pos = 0, deny_write = False\<rparr>" sample_inode 0 "[5, 6, 7]" 1]
      sample_fs_facts(1-4) ino_ok_cst [of ?s sample_fs sample_inode]
    by (auto simp: sample_fs_def)
qed

end
