(* ===== verification/Filesys_Util.thy ===== *)
theory Filesys_Util
  imports Filesys Shell_Host "HOL-Library.Sublist"
begin

text \<open>
  The second set of file system utilities (\<^verbatim>\<open>a3/fs/fsutil2.c\<close>): copying files from and to the host, searching
  for a text, measuring and removing fragmentation, and recovering deleted data. They act on the
  file system and on the host, whose operations are the record of \<^verbatim>\<open>Shell_Host\<close>.

  \<open>n\<close> and \<open>junk\<close> are as in \<^verbatim>\<open>Filesys\<close>. \<open>heap i\<close> is byte \<open>i\<close> of a fresh block of memory.

  The lemmas follow \<^verbatim>\<open>copy_out\<close> through all layers, from a well-formed file system back to one, describe what a search
  finds and leaves behind, and give the test for fragmentation in terms of the sectors of the file.
\<close>

definition err_FILE_DOES_NOT_EXIST :: int where "err_FILE_DOES_NOT_EXIST = 1"
definition err_NO_MEM_SPACE :: int where "err_NO_MEM_SPACE = 2"
definition err_FILE_CREATION_ERROR :: int where "err_FILE_CREATION_ERROR = 10"

definition int_ok :: "int \<Rightarrow> bool" where
  "int_ok k \<longleftrightarrow> - (2 ^ 31) \<le> k \<and> k < 2 ^ 31"

text \<open>The part of a path after its last slash.\<close>

definition base_name :: "string \<Rightarrow> string" where
  "base_name path = rev (takeWhile (\<lambda>c. c \<noteq> CHR ''/'') (rev path))"

definition chars_of :: "byte list \<Rightarrow> string" where
  "chars_of bs = map (\<lambda>b. char_of (unat b)) bs"

subsection \<open>Copying\<close>

text \<open>The room on the disk: the free sectors, less one for each 123 of them and one more. The quotient is computed in
  floating point and truncated, which is exact here.\<close>

definition available_space :: "int \<Rightarrow> int option" where
  "available_space k =
     (let space_blocks = k sdiv int DIRECT_BLOCKS_COUNT + 1
      in if 0 \<le> k \<and> int_ok (k * 512) then Some (k * 512 - space_blocks * 512) else None)"

definition copy_in ::
  "nat \<Rightarrow> byte list \<Rightarrow> (nat \<Rightarrow> byte) \<Rightarrow> 'h host \<Rightarrow> string \<Rightarrow> fs \<Rightarrow> 'h \<Rightarrow> (int \<times> fs) option" where
  "copy_in n junk heap ops fname s h =
     (case h_read ops fname h of
        None \<Rightarrow> Some (err_FILE_DOES_NOT_EXIST, s)
      | Some t \<Rightarrow>
          do { let file_size = int (length t);
               (k, s) \<leftarrow> fsutil_freespace s;
               (k, s) \<leftarrow> fsutil_freespace s;
               avail \<leftarrow> available_space k;
               let write_size = (if file_size + 1 < avail then file_size + 1 else avail);
               let file_name = base_name fname;
               (ok, s) \<leftarrow> fsutil_create n junk file_name (of_int write_size) s;
               if ok = 0 then Some (err_FILE_CREATION_ERROR, s)
               else if write_size < 0 then Some (err_NO_MEM_SPACE, s)
               else do { let got = take (nat write_size) (cbytes t);
                         let buf = got @ map heap [length got..<nat write_size];
                         (k, buf, s) \<leftarrow> fsutil_write n file_name buf (of_int write_size) s;
                         let s = (if write_size < file_size
                                  then fs_print (''Warning: could only write '' @ dec_int write_size @ '' out of '' @
                                                 dec_int file_size @ '' bytes (reached end of file).'') s else s);
                         Some (0, s) } })"

text \<open>The bytes of the file up to a zero, into a buffer of \<open>cap\<close> bytes.\<close>

partial_function (option) copy_loop :: "addr \<Rightarrow> nat \<Rightarrow> byte list \<Rightarrow> fs \<Rightarrow> (byte list \<times> fs) option" where
  "copy_loop f cap acc s =
     do { (bs, s) \<leftarrow> file_read f 1 s;
          if length bs = 1 \<and> hd bs \<noteq> 0
          then if length acc < cap then copy_loop f cap (acc @ bs) s else None
          else Some (acc, s) }"

text \<open>The file that is read is opened beside the table of files, and is not closed.\<close>

definition copy_out :: "nat \<Rightarrow> 'h host \<Rightarrow> string \<Rightarrow> fs \<Rightarrow> 'h \<Rightarrow> (int \<times> fs \<times> 'h) option" where
  "copy_out n ops fname s h =
     do { (f, s) \<leftarrow> filesys_open n fname s;
          case f of
            None \<Rightarrow> Some (err_FILE_DOES_NOT_EXIST, s, h)
          | Some f \<Rightarrow>
              do { file_size \<leftarrow> file_length f s;
                   if file_size < 0 then do { s \<leftarrow> fsutil_close n fname s; Some (err_NO_MEM_SPACE, s, h) }
                   else do { (k, s) \<leftarrow> fsutil_seek n fname 0 s;
                             (bs, s) \<leftarrow> copy_loop f (nat file_size) [] s;
                             let file_name = base_name fname;
                             case h_write ops file_name (chars_of bs) h of
                               None \<Rightarrow> do { s \<leftarrow> fsutil_close n fname s; Some (err_FILE_CREATION_ERROR, s, h) }
                             | Some h \<Rightarrow> do { s \<leftarrow> fsutil_close n fname s; Some (0, s, h) } } } }"

subsection \<open>Searching\<close>

definition strstr :: "string \<Rightarrow> string \<Rightarrow> bool" where
  "strstr hay needle = sublist needle hay"

text \<open>The search needs a terminator in the buffer.\<close>

definition found_in_file :: "nat \<Rightarrow> string \<Rightarrow> string \<Rightarrow> fs \<Rightarrow> (bool \<times> fs) option" where
  "found_in_file n pat fname s =
     do { (file_size, s) \<leftarrow> fsutil_size n fname s;
          if file_size < 0 then Some (False, fs_print (''Failed to allocate memory for file contents: '' @ fname) s)
          else do { (k, bs, s) \<leftarrow> fsutil_read n fname (of_int file_size) s;
                    if k \<noteq> file_size then Some (False, fs_print (''Error reading file: '' @ fname) s)
                    else do { t \<leftarrow> array_string bs; Some (strstr t pat, s) } } }"

partial_function (option) find_loop :: "nat \<Rightarrow> string \<Rightarrow> addr \<Rightarrow> fs \<Rightarrow> fs option" where
  "find_loop n pat d s =
     do { (r, s) \<leftarrow> dir_readdir d s;
          case r of
            None \<Rightarrow> Some s
          | Some name \<Rightarrow>
              do { t \<leftarrow> array_string name;
                   (found, s) \<leftarrow> found_in_file n pat t s;
                   find_loop n pat d (if found then fs_print t s else s) } }"

definition find_file :: "nat \<Rightarrow> string \<Rightarrow> fs \<Rightarrow> fs option" where
  "find_file n pat s =
     do { (dir, s) \<leftarrow> dir_open_root s;
          case dir of
            None \<Rightarrow> Some s
          | Some d \<Rightarrow> do { s \<leftarrow> find_loop n pat d s; dir_close n (Some d) s } }"

subsection \<open>Fragmentation\<close>

text \<open>The difference of two sectors is unsigned: a sector that lies before the one it follows is far away.\<close>

definition fragmented_file :: "addr \<Rightarrow> int \<Rightarrow> fs \<Rightarrow> (bool \<times> fs) option" where
  "fragmented_file p print_num_sectors s =
     do { len \<leftarrow> inode_length p s;
          num_sectors \<leftarrow> bytes_to_sectors len;
          let s = (if print_num_sectors = 0 then fs_print (''Num free sectors: '' @ dec num_sectors) s else s);
          if num_sectors \<le> 1 then Some (False, s)
          else do { (r, s) \<leftarrow> get_inode_data_sectors p s;
                    ks \<leftarrow> r;
                    if length ks < num_sectors then None
                    else Some (\<exists>i \<in> set [0..<num_sectors - 1]. ks ! (i + 1) - ks ! i > 3, s) } }"

text \<open>\<^verbatim>\<open>%.6f\<close> of a quotient \<open>a / b\<close> of \<^verbatim>\<open>int\<close>s, \<open>0 \<le> a \<le> b\<close>, in double precision: the nearest number with 53 bits, then its
  nearest decimal, ties to even.\<close>

definition round_div :: "nat \<Rightarrow> nat \<Rightarrow> nat" where
  "round_div a b =
     (let q = a div b; r = a mod b in if 2 * r > b \<or> 2 * r = b \<and> odd q then q + 1 else q)"

definition fixed6 :: "nat \<Rightarrow> nat \<Rightarrow> string" where
  "fixed6 a b =
     (let e = (case find (\<lambda>e. 2 ^ 52 * b \<le> a * 2 ^ e) [0..<90] of None \<Rightarrow> 0 | Some e \<Rightarrow> e);
          q = round_div (round_div (a * 2 ^ e) b * 10 ^ 6) (2 ^ e);
          f = dec (q mod 10 ^ 6)
      in dec (q div 10 ^ 6) @ ''.'' @ replicate (6 - length f) CHR ''0'' @ f)"

text \<open>The number of files and of fragmented files.\<close>

partial_function (option) frag_loop :: "nat \<Rightarrow> addr \<Rightarrow> nat \<Rightarrow> nat \<Rightarrow> fs \<Rightarrow> (nat \<times> nat \<times> fs) option" where
  "frag_loop n d cnt frag s =
     do { (r, s) \<leftarrow> dir_readdir d s;
          case r of
            None \<Rightarrow> Some (cnt, frag, s)
          | Some name \<Rightarrow>
              do { t \<leftarrow> array_string name;
                   (f, s) \<leftarrow> filesys_open n t s;
                   case f of
                     None \<Rightarrow> frag_loop n d cnt frag s
                   | Some f \<Rightarrow>
                       do { p \<leftarrow> file_get_inode f s;
                            (fr, s) \<leftarrow> fragmented_file p (int cnt + 1) s;
                            s \<leftarrow> file_close n (Some f) s;
                            frag_loop n d (cnt + 1) (if fr then frag + 1 else frag) s } } }"

definition fragmentation_degree :: "nat \<Rightarrow> fs \<Rightarrow> fs option" where
  "fragmentation_degree n s =
     do { (dir, s) \<leftarrow> dir_open_root s;
          case dir of
            None \<Rightarrow> Some s
          | Some d \<Rightarrow>
              do { (cnt, frag, s) \<leftarrow> frag_loop n d 0 0 s;
                   s \<leftarrow> dir_close n (Some d) s;
                   let s = fs_print (''Num fragmentable files: '' @ dec cnt) s;
                   let s = fs_print (''Num fragmented files: '' @ dec frag) s;
                   Some (if cnt > 0 then fs_print (''Fragmentation pct: '' @ fixed6 frag cnt) s
                         else fs_print ''No fragmentable files found.'' s) } }"

record file_info =
  fi_name :: string
  fi_size :: u32
  fi_content :: "byte list"

text \<open>The files, the last read first. A file whose content cannot be read is left out.\<close>

partial_function (option) collect_loop :: "nat \<Rightarrow> addr \<Rightarrow> file_info list \<Rightarrow> fs \<Rightarrow> (file_info list \<times> fs) option" where
  "collect_loop n d acc s =
     do { (r, s) \<leftarrow> dir_readdir d s;
          case r of
            None \<Rightarrow> Some (acc, s)
          | Some name \<Rightarrow>
              do { t \<leftarrow> array_string name;
                   (f, s) \<leftarrow> filesys_open n t s;
                   case f of
                     None \<Rightarrow> collect_loop n d acc s
                   | Some f \<Rightarrow>
                       do { p \<leftarrow> file_get_inode f s;
                            file_size \<leftarrow> inode_length p s;
                            (bs, s) \<leftarrow> file_read f file_size s;
                            if int (length bs) \<noteq> file_size
                            then do { s \<leftarrow> file_close n (Some f) (fs_print ''Error reading file content.'' s);
                                      collect_loop n d acc s }
                            else do { s \<leftarrow> file_close n (Some f) s;
                                      collect_loop n d (\<lparr>fi_name = t, fi_size = of_int file_size, fi_content = bs\<rparr> # acc) s } } } }"

partial_function (option) rm_loop :: "nat \<Rightarrow> addr \<Rightarrow> fs \<Rightarrow> fs option" where
  "rm_loop n d s =
     do { (r, s) \<leftarrow> dir_readdir d s;
          case r of
            None \<Rightarrow> Some s
          | Some name \<Rightarrow> do { t \<leftarrow> array_string name; (k, s) \<leftarrow> fsutil_rm n t s; rm_loop n d s } }"

fun recreate :: "nat \<Rightarrow> byte list \<Rightarrow> file_info list \<Rightarrow> fs \<Rightarrow> fs option" where
  "recreate n junk [] s = Some s"
| "recreate n junk (x # xs) s =
     do { (k, s) \<leftarrow> fsutil_create n junk (fi_name x) (fi_size x) s;
          (k, buf, s) \<leftarrow> fsutil_write n (fi_name x) (fi_content x) (fi_size x) s;
          recreate n junk xs s }"

text \<open>The list is a global variable: its elements, and whether they end in a pointer to an element that an earlier call
  freed, since the variable is never reset. Reversing the list reads that element.\<close>

type_synonym file_list = "file_info list \<times> bool"

definition defragment :: "nat \<Rightarrow> byte list \<Rightarrow> file_list \<Rightarrow> fs \<Rightarrow> (int \<times> file_list \<times> fs) option" where
  "defragment n junk fl s =
     do { (dir, s) \<leftarrow> dir_open_root s;
          case dir of
            None \<Rightarrow> Some (err_FILE_DOES_NOT_EXIST, fl, s)
          | Some d \<Rightarrow>
              do { (infos, s) \<leftarrow> collect_loop n d (fst fl) s;
                   s \<leftarrow> dir_close n (Some d) s;
                   (dir, s) \<leftarrow> dir_open_root s;
                   case dir of
                     None \<Rightarrow> Some (err_FILE_DOES_NOT_EXIST, (infos, snd fl), s)
                   | Some d \<Rightarrow>
                       do { s \<leftarrow> rm_loop n d s;
                            s \<leftarrow> dir_close n (Some d) s;
                            if snd fl then None
                            else do { s \<leftarrow> recreate n junk (rev infos) s; Some (0, ([], infos \<noteq> []), s) } } } }"

subsection \<open>Recovery\<close>

text \<open>Deleted inodes. The array of sectors has one element for each sector of the file, and 123 of them are read, so that only a
  file with as many sectors is recovered without reading behind the array. The array for the name has 14 bytes.\<close>

fun flip_sectors :: "u32 list \<Rightarrow> nat \<Rightarrow> nat \<Rightarrow> fs \<Rightarrow> fs option" where
  "flip_sectors ks j 0 s = Some s"
| "flip_sectors ks j (Suc c) s =
     (if j < length ks
      then do { s \<leftarrow> (if ks ! j \<noteq> 0 then do { b \<leftarrow> bitmap_flip (free_map s) (unat (ks ! j)); Some (s\<lparr>free_map := b\<rparr>) } else Some s);
                flip_sectors ks (Suc j) c s }
      else None)"

definition recover_inode :: "nat \<Rightarrow> byte list \<Rightarrow> nat \<Rightarrow> fs \<Rightarrow> fs option" where
  "recover_inode n junk i s =
     do { let sec = of_nat i;
          (p, s) \<leftarrow> inode_open sec s;
          (r, s) \<leftarrow> get_inode_data_sectors p s;
          x \<leftarrow> inodes s p;
          if magic (data x) = INODE_MAGIC
          then do { ks \<leftarrow> r;
                    s \<leftarrow> flip_sectors ks 0 DIRECT_BLOCKS_COUNT s;
                    b \<leftarrow> bitmap_flip (free_map s) (unat sec);
                    let s = s\<lparr>free_map := b\<rparr>;
                    let name = ''recovered0-'' @ dec_int (sint sec);
                    if 14 \<le> length name then None
                    else do { (dir, s) \<leftarrow> dir_open_root s;
                              (ok, s) \<leftarrow> dir_add n junk dir name sec (is_dir (data x) \<noteq> 0) s;
                              let s = (if ok then s else fs_print (''Failed to add '' @ name) s);
                              inode_close n (Some p) s } }
          else inode_close n (Some p) s }"

fun recover_inodes :: "nat \<Rightarrow> byte list \<Rightarrow> nat \<Rightarrow> nat \<Rightarrow> fs \<Rightarrow> fs option" where
  "recover_inodes n junk i 0 s = Some s"
| "recover_inodes n junk i (Suc c) s =
     do { (used, lg) \<leftarrow> bitmap_test (free_map s) i (fs_log s);
          let s = set_log lg s;
          s \<leftarrow> (if used then Some s else recover_inode n junk i s);
          recover_inodes n junk (Suc i) c s }"

text \<open>Non-empty sectors, from sector 4 on. The loop that copies tests the byte before the index, so it needs a zero in
  the sector.\<close>

definition recover_sector :: "'h host \<Rightarrow> u32 \<Rightarrow> fs \<Rightarrow> 'h \<Rightarrow> (fs \<times> 'h) option" where
  "recover_sector ops sec s h =
     do { (buf, s) \<leftarrow> sector_read sec s;
          if \<exists>b \<in> set buf. b \<noteq> 0
          then do { let name = ''recovered1-'' @ dec_int (sint sec) @ ''.txt'';
                    case h_write ops name (cstring buf) h of
                      None \<Rightarrow> Some (fs_print (''Failed to open file '' @ name @ '' for writing'') s, h)
                    | Some h \<Rightarrow> if 0 \<in> set buf then Some (s, h) else None }
          else Some (s, h) }"

fun recover_sectors :: "'h host \<Rightarrow> u32 \<Rightarrow> nat \<Rightarrow> fs \<Rightarrow> 'h \<Rightarrow> (fs \<times> 'h) option" where
  "recover_sectors ops sec 0 s h = Some (s, h)"
| "recover_sectors ops sec (Suc c) s h = do { (s, h) \<leftarrow> recover_sector ops sec s h; recover_sectors ops (sec + 1) c s h }"

text \<open>Data behind the end of a file, in its last sector. The file is not closed, only its inode. \<open>None\<close> in the result of
  the array of sectors is a null pointer.\<close>

definition recover_tail :: "nat \<Rightarrow> 'h host \<Rightarrow> string \<Rightarrow> addr \<Rightarrow> fs \<Rightarrow> 'h \<Rightarrow> (fs \<times> 'h) option" where
  "recover_tail n ops file_name p s h =
     do { file_size \<leftarrow> inode_length p s;
          num_sectors \<leftarrow> bytes_to_sectors file_size;
          if num_sectors = 0 then do { s \<leftarrow> inode_close n (Some p) s; Some (s, h) }
          else do { (r, s) \<leftarrow> get_inode_data_sectors p s;
                    case r of
                      None \<Rightarrow> do { s \<leftarrow> inode_close n (Some p) s; Some (s, h) }
                    | Some ks \<Rightarrow>
                        if length ks < num_sectors then None
                        else do { let ofs = nat (file_size mod 2 ^ 64) mod 512;
                                  (buf, s) \<leftarrow> sector_read (ks ! (num_sectors - 1)) s;
                                  let hidden = filter (\<lambda>b. b \<noteq> 0) (drop ofs buf);
                                  let name = ''recovered2-'' @ file_name @ ''.txt'';
                                  (s, h) \<leftarrow>
                                    (if hidden = [] then Some (s, h)
                                     else case h_write ops name (chars_of hidden) h of
                                            None \<Rightarrow> Some (fs_print (''Failed to create recovery file for '' @ file_name) s, h)
                                          | Some h \<Rightarrow> Some (s, h));
                                  s \<leftarrow> inode_close n (Some p) s;
                                  Some (s, h) } } }"

partial_function (option) tails_loop :: "nat \<Rightarrow> 'h host \<Rightarrow> addr \<Rightarrow> fs \<Rightarrow> 'h \<Rightarrow> (fs \<times> 'h) option" where
  "tails_loop n ops d s h =
     do { (r, s) \<leftarrow> dir_readdir d s;
          case r of
            None \<Rightarrow> Some (s, h)
          | Some name \<Rightarrow>
              do { t \<leftarrow> array_string name;
                   (f, s) \<leftarrow> filesys_open n t s;
                   case f of
                     None \<Rightarrow> tails_loop n ops d s h
                   | Some f \<Rightarrow> do { p \<leftarrow> file_get_inode f s;
                                   (s, h) \<leftarrow> recover_tail n ops t p s h;
                                   tails_loop n ops d s h } } }"

definition START_SECTOR :: u32 where
  "START_SECTOR = 4"

definition recover :: "nat \<Rightarrow> byte list \<Rightarrow> 'h host \<Rightarrow> int \<Rightarrow> fs \<Rightarrow> 'h \<Rightarrow> (fs \<times> 'h) option" where
  "recover n junk ops flag s h =
     (if flag = 0
      then do { s \<leftarrow> recover_inodes n junk 0 (bitmap_size (free_map s)) s; Some (s, h) }
      else if flag = 1
      then recover_sectors ops START_SECTOR (bitmap_size (free_map s) - unat START_SECTOR) s h
      else if flag = 2
      then do { (dir, s) \<leftarrow> dir_open_root s;
                case dir of
                  None \<Rightarrow> Some (fs_print ''Error: Cannot open root directory.'' s, h)
                | Some d \<Rightarrow> do { (s, h) \<leftarrow> tails_loop n ops d s h; s \<leftarrow> dir_close n (Some d) s; Some (s, h) } }
      else Some (s, h))"

subsection \<open>Opening and copying a file\<close>

text \<open>More files, other files and an inode of a sector in use leave the file system well-formed.\<close>

lemma sys_ok_more_files:
  assumes ok: "sys_ok f p i s" and c: "sees s c" and h: "h f = files s f"
    and s': "s' = s\<lparr>cst := c, next_addr := next_addr s + m, files := h, file_table := tb\<rparr>"
  shows "sys_ok f p i s'" "root s' = root s" "dir_entries (root s) s' = dir_entries (root s) s"
proof -
  let ?s = "s\<lparr>cst := c, next_addr := next_addr s + m, files := h, file_table := tb\<rparr>"
  let ?t = "s\<lparr>cst := c\<rparr>"
  note rd = sys_ok_reads [OF ok sees_reads_same [OF c]]
  note sok = rd(1) [unfolded sys_ok_def]
  have cc: "cst ?s = cst ?t" by simp
  have r: "root ?s = root s" using rd(2) by (simp add: fresh_inode_def)
  then show "root s' = root s" using s' by simp
  show "dir_entries (root s) s' = dir_entries (root s) s" unfolding s' using dir_ok_cst(2) [OF cc] rd(3) by simp
  have "map_ready f p i ?s" using sok h ino_ok_cst(1) [OF cc, of i] by (simp add: map_ready_def)
  moreover have "table_ok ?s" using sok by (auto simp: table_ok_def)
  moreover have "not_open a ?s = not_open a ?t" "free_sector a ?s = free_sector a ?t" for a by (simp_all add: not_open_def free_sector_def)
  ultimately show "sys_ok f p i s'"
    unfolding sys_ok_def s' using sok r rd(2) dir_ok_cst(1) [OF cc, of "root s"] ino_ok_cst(3) [OF cc] by simp
qed

lemma sys_ok_opened:
  assumes ok: "sys_ok f p i s" and no: "not_open sec s" "\<not> free_sector sec s" "sec \<noteq> ROOT_DIR_SECTOR"
  shows "sys_ok f p i (opened sec s)" "root (opened sec s) = root s" "dir_entries (root s) (opened sec s) = dir_entries (root s) s"
proof -
  let ?s = "opened sec s"
  note sok = ok [unfolded sys_ok_def]
  have cc: "cst ?s = cst s" by (simp add: opened_def)
  show r: "root ?s = root s" using cc by (simp add: fresh_inode_def)
  show "dir_entries (root s) ?s = dir_entries (root s) s" by (rule dir_ok_cst(2) [OF cc])
  have "p \<noteq> next_addr s" using fresh_address [of s 0] sok by (auto simp: map_ready_def)
  then have "map_ready f p i ?s" using sok ino_ok_cst(1) [OF cc, of i] by (simp add: map_ready_def) (simp add: opened_def)
  moreover have "table_ok ?s" using opened_table no(1) sok by blast
  moreover have fs: "free_sector a ?s = free_sector a s" for a by (simp add: free_sector_def opened_def)
  moreover have old: "not_open a ?s" if "not_open a s" "a \<noteq> sec" for a
    using that fresh_address [of s 0] sok by (auto simp: not_open_def opened_def fresh_inode_def table_ok_def)
  moreover have "not_open a ?s" if "free_sector a s" for a using old that no(2) sok by blast
  moreover have "cwd ?s = cwd s" "dirs ?s = dirs s" "next_addr ?s = next_addr s + 1" by (simp_all add: opened_def)
  ultimately show "sys_ok f p i ?s"
    unfolding sys_ok_def using sok r no cc dir_ok_cst(1) [OF cc, of "root s"] ino_ok_cst(3) [OF cc] by auto
qed

lemma copy_loop_ok:
  assumes "ino_ok i s" and "files s f = Some x" and "inodes s (file_inode x) = Some i" and "pos x = int q"
    and "length acc + length (contents i s) \<le> cap + q" and "q \<le> length (contents i s)"
  shows "\<exists>c k. sees s c \<and> copy_loop f cap acc s =
    Some (acc @ takeWhile (\<lambda>b. b \<noteq> 0) (drop q (contents i s)), s\<lparr>cst := c, files := (files s)(f \<mapsto> x\<lparr>pos := k\<rparr>)\<rparr>)"
  using assms
proof (induction "length (contents i s) - q" arbitrary: q s x acc)
  case 0
  then obtain s' where s': "inode_read_at (file_inode x) 1 (int q) s = Some ([], s')" "reads_same s s'"
    using inode_read_at_ok [of s "file_inode x" i 1 q] by auto
  then obtain c where c: "s' = s\<lparr>cst := c\<rparr>" "sees s c" using reads_same_sees by blast
  have "file_read f 1 s = Some ([], s\<lparr>cst := c, files := (files s)(f \<mapsto> x\<lparr>pos := int q\<rparr>)\<rparr>)"
    unfolding file_read_def 0(3) using s'(1) c(1) 0(5) by (simp del: length_contents)
  then show ?case using 0(1,7) c(2) by (intro exI [of _ c] exI [of _ "int q"]) (subst copy_loop.simps, simp del: length_contents)
next
  case (Suc m)
  let ?b = "contents i s ! q"
  have q: "q < length (contents i s)" using Suc.hyps(2) by linarith
  then have dr: "drop q (contents i s) = ?b # drop (Suc q) (contents i s)" by (simp add: Cons_nth_drop_Suc)
  obtain s' where s': "inode_read_at (file_inode x) 1 (int q) s = Some ([?b], s')" "reads_same s s'"
    using inode_read_at_ok [of s "file_inode x" i 1 q] Suc.prems(1,3) dr by auto
  then obtain c where c: "s' = s\<lparr>cst := c\<rparr>" "sees s c" using reads_same_sees by blast
  let ?s = "s\<lparr>cst := c, files := (files s)(f \<mapsto> x\<lparr>pos := int q + 1\<rparr>)\<rparr>"
  have rd: "file_read f 1 s = Some ([?b], ?s)" using Suc.prems(2,4) s'(1) c(1) by (simp add: file_read_def)
  show ?case
  proof (cases "?b = 0")
    case True
    then show ?thesis using rd c(2) dr by (intro exI [of _ c] exI [of _ "int q + 1"]) (subst copy_loop.simps, simp del: length_contents)
  next
    case False
    have ok: "ino_ok i ?s" "contents i ?s = contents i s"
      using reads_same_ok [OF Suc.prems(1) s'(2)] ino_ok_cst [of ?s s' i] c(1) by simp_all
    have m: "m = length (contents i ?s) - Suc q" using Suc.hyps(2) ok(2) by simp
    have "length acc < cap" using Suc.prems(5) q by linarith
    moreover obtain c' k where "sees ?s c'" "copy_loop f cap (acc @ [?b]) ?s =
        Some ((acc @ [?b]) @ takeWhile (\<lambda>b. b \<noteq> 0) (drop (Suc q) (contents i ?s)), ?s\<lparr>cst := c', files := (files ?s)(f \<mapsto> x\<lparr>pos := int q + 1, pos := k\<rparr>)\<rparr>)"
      using Suc.hyps(1) [of ?s "Suc q" "x\<lparr>pos := int q + 1\<rparr>" "acc @ [?b]"] m Suc.prems ok q by auto
    moreover have "sees s c'" using calculation(2) c(2) by (simp add: store_same_def)
    ultimately show ?thesis
      using rd False dr ok(2) by (intro exI [of _ c'] exI [of _ k]) (subst copy_loop.simps, simp)
  qed
qed

lemma fsutil_close_added:
  assumes "file_table s = tb @ [(name, g)]" and "\<forall>e \<in> set tb. fst e \<noteq> name"
    and "files s g = Some \<lparr>file_inode = q, pos = k, deny_write = False\<rparr>" and "inodes s q = Some j" and "open_cnt j = 1" and "\<not> removed j"
  shows "fsutil_close n name s = Some (s\<lparr>open_inodes := remove1 q (open_inodes s), inodes := (inodes s)(q := None),
    files := (files s)(g := None), file_table := tb\<rparr>)"
proof -
  have "find (\<lambda>e. fst e = name) (tb @ [(name, g)]) = Some (name, g)" using assms(2) by (induction tb) auto
  moreover have "remove1 (name, g) (tb @ [(name, g)]) = tb" using assms(2) by (auto simp: remove1_append)
  ultimately show ?thesis
    using assms inode_close_last [OF assms(4-6), of n]
    by (simp add: fsutil_close_def remove_from_file_table_def file_close_def file_allow_write_def)
qed

lemma no_table_entry: "get_file_by_fname name s = None \<longleftrightarrow> (\<forall>e \<in> set (file_table s). fst e \<noteq> name)"
  by (auto simp: get_file_by_fname_def find_None_iff)

text \<open>The state after a file has been opened twice, the second time through the table.\<close>

definition opened_twice :: "string \<Rightarrow> u32 \<Rightarrow> cstate \<Rightarrow> fs \<Rightarrow> fs" where
  "opened_twice name sec c s =
     (let q = next_addr s + 2; x = \<lparr>file_inode = q, pos = 0, deny_write = False\<rparr>
      in s\<lparr>cst := c, inodes := (inodes s)(q \<mapsto> fresh_inode sec s), open_inodes := q # open_inodes s,
           files := (files s)(q + 1 \<mapsto> x, q + 4 \<mapsto> x), file_table := file_table s @ [(name, q + 4)], next_addr := q + 5\<rparr>)"

lemma open_and_seek:
  assumes ok: "sys_ok f p i s" and k: "known name sec s" and no: "not_open sec s" "\<not> free_sector sec s"
    and tab: "get_file_by_fname name s = None" and new: "\<forall>a \<ge> next_addr s. files s a = None"
  shows "\<exists>t c. filesys_open n name s = Some (Some (next_addr s + 3), t) \<and> sees s c \<and>
    file_length (next_addr s + 3) t = Some (id_length (data (fresh_inode sec s))) \<and>
    fsutil_seek n name 0 t = Some (0, opened_twice name sec c s)"
proof -
  let ?q = "next_addr s + 2" and ?x = "\<lparr>file_inode = next_addr s + 2, pos = 0, deny_write = False\<rparr>"
  note kn = k [unfolded known_def]
  have sp: "split_path_filename name = ([], name)" by (rule split_plain) (use kn in simp_all)
  have "files s f \<noteq> None" using ok by (auto simp: sys_ok_def map_ready_def)
  then have f: "f < next_addr s" using new by (metis not_le)
  obtain c where c: "sees s c" "filesys_open n name s = Some (file_open (Some ?q) (opened sec (s\<lparr>cst := c, next_addr := ?q\<rparr>)))"
    using filesys_open_new [OF ok k no(1) sp] by blast
  let ?s = "s\<lparr>cst := c, next_addr := ?q\<rparr>" and ?j = "fresh_inode sec s"
  have j: "fresh_inode sec ?s = ?j" using c(1) kn by (simp add: fresh_inode_def store_same_def)
  define t where "t = (opened sec ?s)\<lparr>next_addr := ?q + 2, files := (files s)(?q + 1 \<mapsto> ?x)\<rparr>"
  have o: "filesys_open n name s = Some (Some (next_addr s + 3), t)"
    using c(2) by (simp add: file_open_def opened_def t_def numeral_3_eq_3)
  have s1: "sys_ok f p i ?s" "root ?s = root s" "dir_entries (root s) ?s = dir_entries (root s) s"
    using sys_ok_more_files [OF ok c(1), of "files s" ?s "file_table s" 2] by simp_all
  have "not_open sec ?s" "\<not> free_sector sec ?s" "sec \<noteq> ROOT_DIR_SECTOR" using no kn by (simp_all add: not_open_def free_sector_def)
  note o1 = sys_ok_opened [OF s1(1) this]
  have e1: "sees (opened sec ?s) (cst (opened sec ?s))" using c(1) by (simp add: store_same_def opened_def)
  have e2: "t = (opened sec ?s)\<lparr>cst := cst (opened sec ?s), next_addr := next_addr (opened sec ?s) + 1, files := files t, file_table := file_table (opened sec ?s)\<rparr>"
    by (simp add: t_def opened_def)
  have e3: "files t f = files (opened sec ?s) f" using f by (simp add: t_def opened_def)
  note t = sys_ok_more_files [OF o1(1) e1 e3 e2]
  have rt: "root t = root s" "dir_entries (root s) t = dir_entries (root s) s"
    using t(2,3) o1(2,3) s1(2,3) by metis+
  have kt: "known name sec t" using k c(1) rt by (simp add: known_def) (simp add: t_def opened_def store_same_def)
  have q: "?q \<in> set (open_inodes t)" "inodes t ?q = Some ?j" "sector ?j = sec" "\<not> removed ?j"
    using j by (simp_all add: t_def opened_def fresh_inode_def)
  obtain c' where c': "sees t c'" "filesys_open n name t = Some (file_open (Some ?q) (t\<lparr>cst := c', next_addr := next_addr t + 2\<rparr>))"
    using filesys_open_again [OF t(1) kt q sp] by blast
  have "sees s c'" using c(1) c'(1) by (simp add: t_def opened_def store_same_def)
  moreover have "fsutil_seek n name 0 t = Some (0, opened_twice name sec c' s)"
  proof -
    let ?g = "next_addr t + 2"
    let ?u = "t\<lparr>cst := c', next_addr := ?g + 1, files := (files t)(?g \<mapsto> ?x), file_table := file_table s @ [(name, ?g)]\<rparr>"
    have no: "get_file_by_fname name t = None" "get_file_by_fname name (t\<lparr>cst := c', next_addr := m, files := h\<rparr>) = None" for m h
      using tab by (simp_all add: get_file_by_fname_def t_def opened_def)
    have ft: "file_table t = file_table s" by (simp add: t_def opened_def)
    have "fsutil_seek n name 0 t = Some (0, ?u)"
      using no c'(2) ft by (simp add: fsutil_seek_def file_for_def file_open_def add_to_file_table_def file_seek_def)
    moreover have "?u = opened_twice name sec c' s"
      by (rule fs.equality) (simp_all add: t_def opened_def opened_twice_def Let_def j [simplified] eval_nat_numeral)
    ultimately show ?thesis by simp
  qed
  moreover have "file_length (next_addr s + 3) t = Some (id_length (data ?j))"
    using q(2) by (simp add: file_length_def inode_length_def t_def opened_def)
  ultimately show ?thesis using o by blast
qed

lemma copy_out_ok:
  assumes ok: "sys_ok f p i s" and k: "known name sec s" and no: "not_open sec s" "\<not> free_sector sec s"
    and tab: "get_file_by_fname name s = None" and new: "\<forall>a \<ge> next_addr s. files s a = None"
    and io: "ino_ok (fresh_inode sec s) s"
    and w: "h_write ops name (chars_of (takeWhile (\<lambda>b. b \<noteq> 0) (contents (fresh_inode sec s) s))) h = Some h'"
  shows "\<exists>s'. copy_out n ops name s h = Some (0, s', h') \<and> sys_ok f p i s' \<and> reads_same s (s\<lparr>cst := cst s'\<rparr>) \<and>
    inodes s' = inodes s \<and> open_inodes s' = open_inodes s \<and> file_table s' = file_table s \<and>
    files s' (next_addr s + 3) \<noteq> None"
proof -
  let ?q = "next_addr s + 2" and ?j = "fresh_inode sec s" and ?g = "next_addr s + 3"
  let ?x = "\<lparr>file_inode = ?q, pos = 0, deny_write = False\<rparr>"
  obtain t c where t: "filesys_open n name s = Some (Some ?g, t)" "sees s c" "file_length ?g t = Some (id_length (data ?j))"
    "fsutil_seek n name 0 t = Some (0, opened_twice name sec c s)"
    using open_and_seek [OF ok k no tab new] by blast
  let ?u = "opened_twice name sec c s"
  have uf: "files ?u ?g = Some ?x" "inodes ?u ?q = Some ?j" "cst ?u = c" by (simp_all add: opened_twice_def Let_def)
  have "ino_ok ?j ?u" "contents ?j ?u = contents ?j s"
    using reads_same_ok [OF io sees_reads_same [OF t(2)]] ino_ok_cst [of ?u "s\<lparr>cst := c\<rparr>" ?j] uf(3) by simp_all
  then obtain c' m where c': "sees ?u c'" "copy_loop ?g (nat (id_length (data ?j))) [] ?u =
      Some (takeWhile (\<lambda>b. b \<noteq> 0) (contents ?j s), ?u\<lparr>cst := c', files := (files ?u)(?g \<mapsto> ?x\<lparr>pos := m\<rparr>)\<rparr>)"
    using copy_loop_ok [of ?j ?u ?g ?x 0 "[]" "nat (id_length (data ?j))"] uf(1,2) by auto
  let ?v = "?u\<lparr>cst := c', files := (files ?u)(?g \<mapsto> ?x\<lparr>pos := m\<rparr>)\<rparr>"
  let ?w = "?v\<lparr>open_inodes := remove1 ?q (open_inodes ?v), inodes := (inodes ?v)(?q := None), files := (files ?v)(?q + 4 := None), file_table := file_table s\<rparr>"
  have cl: "fsutil_close n name ?v = Some ?w"
    by (rule fsutil_close_added [where j = ?j]) (use tab uf(2) in \<open>simp_all add: opened_twice_def Let_def no_table_entry fresh_inode_def\<close>)
  have "takeWhile (\<lambda>c. c \<noteq> CHR ''/'') (rev name) = rev name" using k by (auto simp: known_def takeWhile_eq_all_conv)
  then have "base_name name = name" unfolding base_name_def by (simp only: rev_rev_ident)
  moreover have "\<not> id_length (data ?j) < 0" using io by (simp add: ino_ok_def)
  ultimately have r: "copy_out n ops name s h = Some (0, ?w, h')"
    using t(1,3,4) c'(2) w cl by (simp add: copy_out_def)
  have sc: "sees s c'" using t(2) c'(1) uf(3) by (simp add: store_same_def)
  have fr: "inodes s ?q = None" by (rule fresh_address) (use ok in \<open>simp add: sys_ok_def\<close>)
  have "files s f \<noteq> None" using ok by (auto simp: sys_ok_def map_ready_def)
  then have f: "f < next_addr s" using new by (metis not_le)
  have e: "?w = s\<lparr>cst := c', next_addr := next_addr s + 7, files := files ?w, file_table := file_table s\<rparr>"
    by (rule fs.equality) (use fr in \<open>auto simp: opened_twice_def Let_def\<close>)
  have hf: "files ?w f = files s f" using f by (simp add: opened_twice_def Let_def)
  have "reads_same s (s\<lparr>cst := cst ?w\<rparr>)" using sees_reads_same [OF sc] by simp
  moreover have "files ?w ?g \<noteq> None" "file_table ?w = file_table s" by simp_all
  moreover have "inodes ?w = inodes s" "open_inodes ?w = open_inodes s" using fr by (auto simp: opened_twice_def Let_def)
  ultimately show ?thesis
    by (intro exI [of _ ?w] conjI r sys_ok_more_files(1) [OF ok sc hf e])
qed

lemma fragmented_file_ok:
  assumes "inodes s p = Some i" and "ino_ok i s" and "id_length (data i) + 512 < 2 ^ 31"
  shows "\<exists>s'. fragmented_file p 1 s =
    Some (\<exists>j < nblocks (data i) - 1. blk_sector bc_view (data i) (cst s) (j + 1) - blk_sector bc_view (data i) (cst s) j > 3, s') \<and> reads_same s s'"
proof -
  let ?n = "nblocks (data i)"
  have len: "inode_length p s = Some (id_length (data i))" "bytes_to_sectors (id_length (data i)) = Some ?n"
    using assms bytes_to_sectors_nblocks by (simp_all add: inode_length_def ino_ok_def)
  show ?thesis
  proof (cases "?n \<le> 1")
    case True
    have "reads_same s s" using assms(2) by (simp add: reads_same_def store_same_def ino_ok_def)
    then show ?thesis using True len by (simp add: fragmented_file_def)
  next
    case False
    obtain s' where "get_inode_data_sectors p s = Some (Some (map (blk_sector bc_view (data i) (cst s)) [0..<?n]), s')" "reads_same s s'"
      using get_inode_data_sectors_ok [OF assms] by blast
    moreover have "(\<exists>j \<in> set [0..<?n - 1]. map f [0..<?n] ! (j + 1) - map f [0..<?n] ! j > 3) \<longleftrightarrow> (\<exists>j < ?n - 1. f (j + 1) - f j > 3)" for f :: "nat \<Rightarrow> u32"
      by auto
    ultimately show ?thesis using False len by (simp add: fragmented_file_def)
  qed
qed

subsection \<open>Properties\<close>

text \<open>C12: \<^verbatim>\<open>copy_out\<close> of a file of the root directory that is not open and not in the table of files, in a well-formed file system, on a
  host that can write: it writes the text of the file, up to the first zero, to the file of that name on the host, and
  returns 0. The file system is well-formed and shows the same sectors as before, with the same open inodes and table of files;
  what remains is a file object, since the one the copy was read with is not closed.\<close>

theorem copy_out_writes_text:
  assumes "sys_ok f p i s" and "known name sec s" and "not_open sec s" and "\<not> free_sector sec s"
    and "get_file_by_fname name s = None" and "\<forall>a \<ge> next_addr s. files s a = None" and "ino_ok (fresh_inode sec s) s"
    and "h_write ops name (chars_of (takeWhile (\<lambda>b. b \<noteq> 0) (contents (fresh_inode sec s) s))) h = Some h'"
  shows "\<exists>s'. copy_out n ops name s h = Some (0, s', h') \<and> sys_ok f p i s' \<and> reads_same s (s\<lparr>cst := cst s'\<rparr>) \<and>
    inodes s' = inodes s \<and> open_inodes s' = open_inodes s \<and> file_table s' = file_table s \<and>
    files s' (next_addr s + 3) \<noteq> None"
  by (rule copy_out_ok [OF assms])

lemma sample_file_a:
  "known ''a'' 4 sample_sys" "not_open 4 sample_sys" "\<not> free_sector 4 sample_sys" "get_file_by_fname ''a'' sample_sys = None"
  "\<forall>a \<ge> next_addr sample_sys. files sample_sys a = None" "ino_ok (fresh_inode 4 sample_sys) sample_sys"
  "contents (fresh_inode 4 sample_sys) sample_sys = [97, 98, 0]"
proof -
  have c: "cst sample_sys = drive sample_secs" by (simp add: sample_sys_def)
  have "sample_root ! 1 = new_entry ''a'' 4" by (simp add: sample_root_def)
  then show "known ''a'' 4 sample_sys"
    using sample_sys_ok(2,3) sample_root_names(3) sample_dirs_hyps(3) c sample_cst(2)
    by (simp add: known_def ROOT_DIR_SECTOR_def new_entry_def)
  show "not_open 4 sample_sys" "get_file_by_fname ''a'' sample_sys = None" "\<forall>a \<ge> next_addr sample_sys. files sample_sys a = None"
    by (simp_all add: sample_sys_def not_open_def get_file_by_fname_def)
  show "\<not> free_sector 4 sample_sys" using sample_map_facts(3) by (simp add: free_sector_def sample_sys_def)
  have d: "data (fresh_inode 4 sample_sys) = one_block 5 3 0"
    using c sample_cst(3) [of 4] decode_encode_inode [OF one_block_facts(1), of 3 5 0] by (simp add: fresh_inode_def sample_secs_def)
  have v: "bc_view (cst sample_sys) 5 = pad512 [97, 98, 0]" "bc_inv (cst sample_sys)" "bc_nsec (cst sample_sys) = 10"
    using c sample_cst(1,2) sample_cst(3) [of 5] by (simp_all add: sample_secs_def)
  show "ino_ok (fresh_inode 4 sample_sys) sample_sys" "contents (fresh_inode 4 sample_sys) sample_sys = [97, 98, 0]"
    using one_block_ok [OF d, of sample_sys] v length_pad512 [of "[97, 98, 0]"] take_pad512 [of 3 "[97, 98, 0]"] by simp_all
qed

lemma sample_text: "chars_of [97, 98] = ''ab''" "cstring [97, 98, 0 :: byte] = ''ab''"
  by (simp_all add: chars_of_def cstring_def char_of_eq_iff)

theorem copy_out_writes_text_witness:
  "\<exists>s'. copy_out 1 files_only ''a'' sample_sys Map.empty = Some (0, s', [''a'' \<mapsto> ''ab''])"
proof -
  have "h_write files_only ''a'' (chars_of (takeWhile (\<lambda>b. b \<noteq> 0) (contents (fresh_inode 4 sample_sys) sample_sys))) Map.empty = Some [''a'' \<mapsto> ''ab'']"
    by (simp add: sample_file_a(7) sample_text files_only_def)
  from copy_out_writes_text [OF sample_sys_ok(1) sample_file_a(1-6) this, of 1] show ?thesis by blast
qed

lemma fsutil_size_same:
  assumes "get_file_by_fname name s = Some f" and "files s f = Some x" and "inodes s (file_inode x) = Some i" and "0 \<le> pos x"
  shows "fsutil_size n name s = Some (id_length (data i), s)"
proof -
  have "(files s)(f \<mapsto> x) = files s" using assms(2) by auto
  then show ?thesis
    using assms by (simp add: fsutil_size_def file_for_def file_tell_def file_length_def inode_length_def file_seek_def)
qed

text \<open>C39: A search finds a text in a file once. On a file of the table that is at its beginning and holds a zero, \<^verbatim>\<open>found_in_file\<close>
  tells whether the text occurs before the first zero; it leaves the file at its end, so that the next search for any
  text reports an error and finds nothing.\<close>

theorem found_in_file_once:
  assumes "get_file_by_fname name s = Some f" and "files s f = Some x" and "inodes s (file_inode x) = Some i"
    and "ino_ok i s" and "pos x = 0" and "0 \<in> set (contents i s)"
  shows "\<exists>s1 s2. found_in_file n pat name s = Some (sublist pat (cstring (contents i s)), s1) \<and>
    found_in_file n pat' name s1 = Some (False, fs_print (''Error reading file: '' @ name) s2)"
proof -
  have len: "0 \<le> id_length (data i)" "id_length (data i) < 2147483648" using assms(4) by (simp_all add: ino_ok_def wf_idisk_def)
  then have sg: "sint (word_of_int (id_length (data i)) :: u32) = id_length (data i)"
    using sint_word_of_int_i32 [of "id_length (data i)"] by simp
  let ?len = "id_length (data i)" and ?k = "length (contents i s)"
  have k: "?len = int ?k" "0 < ?k" using len length_pos_if_in_set [OF assms(6)] by (simp_all only: length_contents int_nat_eq if_True)
  obtain u where u: "inode_read_at (file_inode x) (int ?k) (int 0) s = Some (contents i s, u)" "reads_same s u"
    using inode_read_at_ok [OF assms(3,4), of ?k 0] by (auto simp del: length_contents)
  let ?s1 = "u\<lparr>files := (files u)(f \<mapsto> x\<lparr>pos := int ?k\<rparr>)\<rparr>"
  note fld = reads_same_fields [OF u(2)]
  have r: "fsutil_read n name (of_int ?len) s = Some (?len, contents i s, ?s1)"
    using assms(1,2,5) u(1) sg k(1) by (simp add: fsutil_read_def file_for_def file_read_def del: length_contents)
  have "array_string (contents i s) = Some (cstring (contents i s))" using assms(6) by (simp add: array_string_def)
  then have f1: "found_in_file n pat name s = Some (sublist pat (cstring (contents i s)), ?s1)"
    using fsutil_size_same [OF assms(1-3)] assms(5) len(1) r by (simp add: found_in_file_def strstr_def)
  have tab: "get_file_by_fname name ?s1 = Some f" "files ?s1 f = Some (x\<lparr>pos := int ?k\<rparr>)" "inodes ?s1 (file_inode x) = Some i"
    using assms(1,3) fld by (simp_all add: get_file_by_fname_def)
  have ok: "ino_ok i ?s1" "contents i ?s1 = contents i s"
    using reads_same_ok [OF assms(4) u(2)] ino_ok_cst [of ?s1 u i] by simp_all
  obtain v where v: "inode_read_at (file_inode x) (int ?k) (int ?k) ?s1 = Some ([], v)"
    using inode_read_at_ok [OF tab(3) ok(1), of ?k ?k] ok(2) by (auto simp del: length_contents)
  then obtain u2 where "fsutil_read n name (of_int ?len) ?s1 = Some (0, [], u2)"
    using tab(1,2) sg k(1) by (simp add: fsutil_read_def file_for_def file_read_def del: length_contents)
  moreover have "fsutil_size n name ?s1 = Some (?len, ?s1)" using fsutil_size_same [OF tab(1,2)] tab(3) by simp
  ultimately have "found_in_file n pat' name ?s1 = Some (False, fs_print (''Error reading file: '' @ name) u2)"
    using k len(1) by (simp add: found_in_file_def del: length_contents)
  then show ?thesis using f1 by blast
qed

theorem found_in_file_once_witness:
  "\<exists>s s1 s2. get_file_by_fname ''a'' s = Some 1 \<and> found_in_file 1 ''b'' ''a'' s = Some (True, s1) \<and>
     found_in_file 1 ''b'' ''a'' s1 = Some (False, fs_print ''Error reading file: a'' s2)"
proof -
  let ?j = "fresh_inode 4 sample_sys"
  let ?s = "sample_sys\<lparr>inodes := (inodes sample_sys)(2 \<mapsto> ?j), files := (files sample_sys)(1 \<mapsto> \<lparr>file_inode = 2, pos = 0, deny_write = False\<rparr>),
    file_table := [(''a'', 1)]\<rparr>"
  have tab: "get_file_by_fname ''a'' ?s = Some 1" by (simp add: get_file_by_fname_def)
  have ok: "ino_ok ?j ?s" "contents ?j ?s = [97, 98, 0]"
    using ino_ok_cst [of ?s sample_sys ?j] sample_file_a(6,7) by simp_all
  have "sublist ''b'' ''ab''" by code_simp
  then have "\<exists>s1 s2. found_in_file 1 ''b'' ''a'' ?s = Some (True, s1) \<and>
      found_in_file 1 ''b'' ''a'' s1 = Some (False, fs_print ''Error reading file: a'' s2)"
    using found_in_file_once [OF tab, of "\<lparr>file_inode = 2, pos = 0, deny_write = False\<rparr>" ?j 1 "''b''" "''b''"] ok sample_text(2) by auto
  then show ?thesis using tab by blast
qed

end
