(* ===== verification/A3_Shell.thy ===== *)
theory A3_Shell
  imports A3_Faults Filesys_Util
begin

text \<open>
  The third shell: \<^verbatim>\<open>a3/shell.c\<close> and \<^verbatim>\<open>a3/interpreter.c\<close>. Its state extends the state of the kernel with the file system, the
  host and the variables of the two files. A line is cut at semicolons with \<^verbatim>\<open>strtok\<close>, whose state is one variable for the
  whole program: the scripts that a command runs are cut with it too, and \<open>a3_tok\<close> is what is left to cut.
  \<open>parseInput_a3\<close> has a bound on the depth to which scripts run scripts. There is one console: it is the one of
  the kernel, and the file system is given it for the time of a call.

  In the configuration, \<open>c3_depth\<close> bounds the recursion of \<^verbatim>\<open>free_map_allocate\<close>, \<open>c3_cwd\<close> is the working directory, and
  \<open>c3_junk\<close> and \<open>c3_heap\<close> are as in \<^verbatim>\<open>Filesys_Util\<close>.

  The lemmas are about lines that run scripts, from the text of the line to the freed processes: what they print, in which
  order, what becomes of the rest of the line, and which scripts never end. The bound on the depth changes no result, and the
  shell memory keeps its shape in every state that is reached.
\<close>

record 'h config_a3 =
  c3_ops :: "'h host"
  c3_cwd :: string
  c3_depth :: nat
  c3_junk :: "byte list"
  c3_heap :: "nat \<Rightarrow> byte"

record 'h a3_state = kernel +
  a3_fs :: fs
  a3_host :: 'h
  a3_in :: stream
  a3_tok :: string
  new_name_count :: nat
  a3_files :: file_list

type_synonym ('h, 'x) reply_a3 = "('x outcome \<times> 'h a3_state) option"

definition say_a3 :: "string \<Rightarrow> ('h, 'y) a3_state_scheme \<Rightarrow> ('h, 'y) a3_state_scheme" where
  "say_a3 t s = set_out (k_out s @ [Print t]) s"

definition put_fs :: "fs \<Rightarrow> 'h a3_state \<Rightarrow> 'h a3_state" where
  "put_fs g s = set_out (fs_log g) (s\<lparr>a3_fs := g\<rparr>)"

definition get_fs :: "'h a3_state \<Rightarrow> fs" where
  "get_fs s = set_log (k_out s) (a3_fs s)"

definition on_fs :: "(fs \<Rightarrow> ('x \<times> fs) option) \<Rightarrow> 'h a3_state \<Rightarrow> ('x \<times> 'h a3_state) option" where
  "on_fs f s = do { (x, g) \<leftarrow> f (get_fs s); Some (x, put_fs g s) }"

text \<open>\<^verbatim>\<open>system\<close>: what the command prints is one more piece of output.\<close>

definition sys_a3 :: "'h host \<Rightarrow> string \<Rightarrow> 'h a3_state \<Rightarrow> 'h a3_state" where
  "sys_a3 ops command s = (let (st, t, h) = h_system ops command (a3_host s) in say_a3 t (s\<lparr>a3_host := h\<rparr>))"

subsection \<open>Errors: interpreter.c\<close>

definition err_TOO_MANY_TOKENS :: int where "err_TOO_MANY_TOKENS = 5"
definition err_TOO_FEW_TOKENS :: int where "err_TOO_FEW_TOKENS = 6"
definition err_NON_ALPHANUMERIC_TOKEN :: int where "err_NON_ALPHANUMERIC_TOKEN = 7"
definition err_BAD_COMMAND :: int where "err_BAD_COMMAND = 8"
definition err_ERROR_RM :: int where "err_ERROR_RM = 9"
definition err_FILESYSTEM_ERROR :: int where "err_FILESYSTEM_ERROR = 11"
definition err_FILE_WRITE_ERROR :: int where "err_FILE_WRITE_ERROR = 12"
definition err_FILE_READ_ERROR :: int where "err_FILE_READ_ERROR = 13"

definition error_msgs_a3 :: "string list" where
  "error_msgs_a3 =
     [''no error'', ''file does not exist'', ''no space left in shell memory'', ''ready queue is full'', ''scheduling policy error'',
      ''too many tokens'', ''too few tokens'', ''non-alphanumeric token'', ''unknown name'', ''rm'', ''file could not be created'',
      ''bad filesystem'', ''file could not be written (maybe no space?)'', ''file could not be read'']"

definition handle_error_a3 :: "int \<Rightarrow> 'h a3_state \<Rightarrow> ('h, int) reply_a3" where
  "handle_error_a3 e s =
     (if 0 \<le> e \<and> nat e < length error_msgs_a3
      then Some (Done e, say_a3 (''Bad command: '' @ error_msgs_a3 ! nat e) s) else None)"

definition too_many :: "'h a3_state \<Rightarrow> ('h, int) reply_a3" where
  "too_many s = handle_error_a3 err_TOO_MANY_TOKENS s"

definition too_few :: "'h a3_state \<Rightarrow> ('h, int) reply_a3" where
  "too_few s = handle_error_a3 err_TOO_FEW_TOKENS s"

subsection \<open>Characters and numbers\<close>

definition isalnum :: "char \<Rightarrow> bool" where
  "isalnum c \<longleftrightarrow> (let k = of_char c :: nat in 48 \<le> k \<and> k \<le> 57 \<or> 65 \<le> k \<and> k \<le> 90 \<or> 97 \<le> k \<and> k \<le> 122)"

definition isAlphaNumStr :: "string \<Rightarrow> bool" where
  "isAlphaNumStr str \<longleftrightarrow> str \<noteq> [] \<and> (\<forall>c \<in> set str. isalnum c)"

definition isdigit :: "char \<Rightarrow> bool" where
  "isdigit c \<longleftrightarrow> (let k = of_char c :: nat in 48 \<le> k \<and> k \<le> 57)"

definition isspace :: "char \<Rightarrow> bool" where
  "isspace c \<longleftrightarrow> (let k = of_char c :: nat in k = 32 \<or> 9 \<le> k \<and> k \<le> 13)"

text \<open>\<^verbatim>\<open>atoi\<close>: blanks, a sign, digits. A number that is not an \<^verbatim>\<open>int\<close> is undefined.\<close>

definition atoi :: "string \<Rightarrow> int option" where
  "atoi str =
     (let s = dropWhile isspace str;
          neg = (s \<noteq> [] \<and> hd s = CHR ''-'');
          s = (if s \<noteq> [] \<and> (hd s = CHR ''-'' \<or> hd s = CHR ''+'') then tl s else s);
          v = foldl (\<lambda>v c. 10 * v + int (of_char c) - 48) 0 (takeWhile isdigit s);
          v = (if neg then - v else v)
      in if int_ok v then Some v else None)"

subsection \<open>Commands: interpreter.c\<close>

definition help_string_a3 :: string where
  "help_string_a3 =
     ''COMMAND'' @ replicate 3 (CHR 0x09) @ ''DESCRIPTION'' @ [newline] @
     '' help'' @ replicate 3 (CHR 0x09) @ ''      Displays all the commands'' @ [newline] @
     '' quit'' @ replicate 3 (CHR 0x09) @ ''      Exits / terminates the shell with '' @ [CHR 0xE2, CHR 0x80, CHR 0x9C] @ ''Bye!'' @ [CHR 0xE2, CHR 0x80, CHR 0x9D] @ [newline] @
     '' set VAR STRING'' @ replicate 2 (CHR 0x09) @ ''      Assigns a value to shell memory'' @ [newline] @
     '' print VAR'' @ replicate 2 (CHR 0x09) @ ''      Displays the STRING assigned to VAR'' @ [newline] @
     '' echo VAR                     Displays VAR if VAR doesn'' @ [CHR 0x27] @ ''t begin with '' @ [CHR 0x27] @ ''$'' @ [CHR 0x27] @ '', otherwise displays the value assigned to VAR'' @ [newline] @
     '' ls                        Displays the folders and files in the current directory in ascending order according to ASCII values '' @ [newline] @
     '' run SCRIPT.TXT'' @ replicate 2 (CHR 0x09) @ ''      Executes the file SCRIPT.TXT'' @ [newline] @
     '' exec [SCRIPT.TXT]     Executes up to 3 files using the round-robin scheduling policy'' @ [newline] @
     '' resetmem                     Deletes the content of the variable store'' @ [newline]"

definition help_a3 :: "'h a3_state \<Rightarrow> ('h, int) reply_a3" where
  "help_a3 s = Some (Done 0, say_a3 help_string_a3 s)"

definition quit_a3 :: "'h a3_state \<Rightarrow> ('h, int) reply_a3" where
  "quit_a3 s = Some (Done (- 1), say_a3 ''Bye!'' s)"

definition set_a3 :: "string \<Rightarrow> string \<Rightarrow> 'h a3_state \<Rightarrow> ('h, int) reply_a3" where
  "set_a3 vr v s =
     (if length vr + 1 + length v < 1000 then Some (Done 0, s\<lparr>k_mem := mem_set_value_a3 vr v (k_mem s)\<rparr>) else None)"

text \<open>The words of the value are checked and appended one by one to a buffer of 505 bytes; a word with another character
  ends the command.\<close>

fun set_words :: "string \<Rightarrow> string list \<Rightarrow> string option option" where
  "set_words acc [] = Some (Some acc)"
| "set_words acc (w # ws) =
     (if \<not> isAlphaNumStr w then Some None
      else let acc = acc @ w @ (if ws = [] then [] else [blank])
           in if length acc < 505 then set_words acc ws else None)"

definition set_cmd :: "string list \<Rightarrow> 'h a3_state \<Rightarrow> ('h, int) reply_a3" where
  "set_cmd ws s =
     (if length ws < 3 then too_few s
      else if \<not> isAlphaNumStr (ws ! 1) then handle_error_a3 err_NON_ALPHANUMERIC_TOKEN s
      else do { r \<leftarrow> set_words [] (drop 2 ws);
                case r of None \<Rightarrow> handle_error_a3 err_NON_ALPHANUMERIC_TOKEN s | Some v \<Rightarrow> set_a3 (ws ! 1) v s })"

definition print_a3 :: "string \<Rightarrow> 'h a3_state \<Rightarrow> ('h, int) reply_a3" where
  "print_a3 vr s = Some (Done 0, say_a3 (mem_get_value_a3 vr CHR ''p'' (k_mem s)) s)"

definition echo_a3 :: "string \<Rightarrow> 'h a3_state \<Rightarrow> ('h, int) reply_a3" where
  "echo_a3 vr s =
     (if vr = [] \<or> hd vr \<noteq> CHR ''$''
      then if \<not> isAlphaNumStr vr then handle_error_a3 err_NON_ALPHANUMERIC_TOKEN s else Some (Done 0, say_a3 vr s)
      else if \<exists>c \<in> set (tl vr). \<not> isalnum c then handle_error_a3 err_NON_ALPHANUMERIC_TOKEN s
      else Some (Done 0, say_a3 (mem_get_value_a3 (tl vr) CHR ''e'' (k_mem s)) s))"

text \<open>The copy of a script in the backing store has the name of the script with one more letter at each run. The names are
  built in three arrays of 100 bytes.\<close>

definition copy_script_a3 :: "'h host \<Rightarrow> string \<Rightarrow> 'h a3_state \<Rightarrow> (string \<times> 'h a3_state) option" where
  "copy_script_a3 ops script s =
     (let old_name = script @ replicate (new_name_count s) CHR ''a'';
          new_name = ''./backing_store/'' @ old_name;
          cmd = ''cp ./'' @ script @ '' '' @ new_name
      in if length old_name < 100 \<and> length new_name < 100 \<and> length cmd < 100
         then Some (new_name, (sys_a3 ops cmd s)\<lparr>new_name_count := new_name_count s + 1\<rparr>) else None)"

text \<open>The backing store is removed and made again. The commands fit their arrays: a path is shorter than 1024.\<close>

definition reset_store :: "'h host \<Rightarrow> string \<Rightarrow> 'h a3_state \<Rightarrow> 'h a3_state" where
  "reset_store ops cwd_path s =
     sys_a3 ops (''mkdir '' @ cwd_path @ ''/backing_store'') (sys_a3 ops (''rm -rf '' @ cwd_path @ ''/backing_store'') s)"

definition run_a3 :: "'h host \<Rightarrow> (string \<Rightarrow> 'h a3_state \<Rightarrow> ('h, int) reply_a3) \<Rightarrow> string \<Rightarrow> 'h a3_state \<Rightarrow> ('h, int) reply_a3" where
  "run_a3 ops parse script s =
     do { (r, s) \<leftarrow> new_proc (\<lambda>f. h_read ops f (a3_host s)) script s;
          case r of
            Exit c \<Rightarrow> Some (Exit c, s)
          | Done e \<Rightarrow> if e \<noteq> 0 then Some (Done 1, s) else run_proc_RR parse s }"

definition run_cmd :: "'h config_a3 \<Rightarrow> (string \<Rightarrow> 'h a3_state \<Rightarrow> ('h, int) reply_a3) \<Rightarrow> string list \<Rightarrow> 'h a3_state \<Rightarrow> ('h, int) reply_a3" where
  "run_cmd cfg parse ws s =
     (if length ws < 2 then too_few s
      else if length ws > 2 then too_many s
      else do { (new_name, s) \<leftarrow> copy_script_a3 (c3_ops cfg) (ws ! 1) s;
                (r, s) \<leftarrow> run_a3 (c3_ops cfg) parse new_name s;
                case r of
                  Exit c \<Rightarrow> Some (Exit c, s)
                | Done ret \<Rightarrow> Some (Done ret, reset_store (c3_ops cfg) (c3_cwd cfg) s) })"

fun new_procs :: "'h host \<Rightarrow> string list \<Rightarrow> 'h a3_state \<Rightarrow> ('h, int) reply_a3" where
  "new_procs ops [] s = Some (Done 0, s)"
| "new_procs ops (f # fs) s =
     do { (r, s) \<leftarrow> new_proc (\<lambda>f. h_read ops f (a3_host s)) f s;
          case r of
            Exit c \<Rightarrow> Some (Exit c, s)
          | Done e \<Rightarrow> if e \<noteq> 0 then Some (Done 1, s) else new_procs ops fs s }"

definition exec_a3 ::
  "'h host \<Rightarrow> (string \<Rightarrow> 'h a3_state \<Rightarrow> ('h, int) reply_a3) \<Rightarrow> string list \<Rightarrow> string \<Rightarrow> 'h a3_state \<Rightarrow> ('h, int) reply_a3" where
  "exec_a3 ops parse scripts policy s =
     (if length scripts > 3
      then Some (Done 1, say_a3 ''exec can only take between 1 to 3 scripts'' s)
      else do { (r, s) \<leftarrow> new_procs ops scripts s;
                case r of
                  Exit c \<Rightarrow> Some (Exit c, s)
                | Done e \<Rightarrow>
                    if e \<noteq> 0 then Some (Done 1, s)
                    else if policy = ''FIFO'' then run_proc_FIFO parse s
                    else if policy = ''RR'' then run_proc_RR parse s
                    else Some (Done 0, s) })"

fun copy_scripts :: "'h host \<Rightarrow> string list \<Rightarrow> 'h a3_state \<Rightarrow> (string list \<times> 'h a3_state) option" where
  "copy_scripts ops [] s = Some ([], s)"
| "copy_scripts ops (w # ws) s =
     do { (f, s) \<leftarrow> copy_script_a3 ops w s; (fs, s) \<leftarrow> copy_scripts ops ws s; Some (f # fs, s) }"

definition exec_cmd :: "'h config_a3 \<Rightarrow> (string \<Rightarrow> 'h a3_state \<Rightarrow> ('h, int) reply_a3) \<Rightarrow> string list \<Rightarrow> 'h a3_state \<Rightarrow> ('h, int) reply_a3" where
  "exec_cmd cfg parse ws s =
     (if length ws \<le> 1 then too_few s
      else if length ws > 5 then too_many s
      else do { (scripts, s) \<leftarrow> copy_scripts (c3_ops cfg) (tl ws) s;
                (r, s) \<leftarrow> exec_a3 (c3_ops cfg) parse scripts ''RR'' s;
                case r of
                  Exit c \<Rightarrow> Some (Exit c, s)
                | Done ret \<Rightarrow> Some (Done ret, reset_store (c3_ops cfg) (c3_cwd cfg) s) })"

text \<open>\<^verbatim>\<open>quit\<close> and \<^verbatim>\<open>exit\<close>.\<close>

definition quit_cmd :: "'h config_a3 \<Rightarrow> string list \<Rightarrow> 'h a3_state \<Rightarrow> ('h, int) reply_a3" where
  "quit_cmd cfg ws s =
     (if length ws > 1 then too_many s
      else do { let s = sys_a3 (c3_ops cfg) (''rm -rf '' @ c3_cwd cfg @ ''/backing_store'') s;
                (u, s) \<leftarrow> on_fs (\<lambda>g. do { g \<leftarrow> filesys_done (c3_depth cfg) g; Some ((), g) }) s;
                quit_a3 s })"

definition resetmem_a3 :: "'h a3_state \<Rightarrow> ('h, int) reply_a3" where
  "resetmem_a3 s = do { m \<leftarrow> reset_var_zone (k_mem s); Some (Done 0, s\<lparr>k_mem := m\<rparr>) }"

subsection \<open>Commands on files: interpreter.c\<close>

definition ls_cmd :: "'h config_a3 \<Rightarrow> string list \<Rightarrow> 'h a3_state \<Rightarrow> ('h, int) reply_a3" where
  "ls_cmd cfg ws s =
     (if length ws > 1 then too_many s
      else do { (status, s) \<leftarrow> on_fs (fsutil_ls (c3_depth cfg)) s;
                if status = 1 then handle_error_a3 err_FILESYSTEM_ERROR s else Some (Done 0, s) })"

definition cat_cmd :: "'h config_a3 \<Rightarrow> string list \<Rightarrow> 'h a3_state \<Rightarrow> ('h, int) reply_a3" where
  "cat_cmd cfg ws s =
     (if length ws \<noteq> 2 then too_many s
      else do { (status, s) \<leftarrow> on_fs (fsutil_cat (c3_depth cfg) (ws ! 1)) s;
                if status = 1 then handle_error_a3 err_FILE_DOES_NOT_EXIST s else Some (Done 0, s) })"

definition rm_cmd :: "'h config_a3 \<Rightarrow> string list \<Rightarrow> 'h a3_state \<Rightarrow> ('h, int) reply_a3" where
  "rm_cmd cfg ws s =
     (if length ws \<noteq> 2 then too_many s
      else do { (status, s) \<leftarrow> on_fs (fsutil_rm (c3_depth cfg) (ws ! 1)) s;
                if status = 0 then handle_error_a3 err_ERROR_RM s else Some (Done status, s) })"

definition create_cmd :: "'h config_a3 \<Rightarrow> string list \<Rightarrow> 'h a3_state \<Rightarrow> ('h, int) reply_a3" where
  "create_cmd cfg ws s =
     (if length ws \<noteq> 3 then too_many s
      else do { k \<leftarrow> atoi (ws ! 2);
                (status, s) \<leftarrow> on_fs (fsutil_create (c3_depth cfg) (c3_junk cfg) (ws ! 1) (of_int k)) s;
                if status = 0 then handle_error_a3 err_FILE_CREATION_ERROR s else Some (Done 0, s) })"

text \<open>The words with a space after each in a cleared array that has as many bytes as the words and one for each, and one
  more. The last space is overwritten by a terminator.\<close>

definition words_buffer :: "string list \<Rightarrow> byte list" where
  "words_buffer ws = butlast (concat (map (\<lambda>w. cbytes w @ [32]) ws)) @ [0, 0]"

definition write_cmd :: "'h config_a3 \<Rightarrow> string list \<Rightarrow> 'h a3_state \<Rightarrow> ('h, int) reply_a3" where
  "write_cmd cfg ws s =
     (if length ws < 3 then too_few s
      else do { let buf = words_buffer (drop 2 ws);
                let n = int (length buf);
                (bytes_written, s) \<leftarrow> on_fs (\<lambda>g. do { (k, buf, g) \<leftarrow> fsutil_write (c3_depth cfg) (ws ! 1) buf (of_int n) g; Some (k, g) }) s;
                if bytes_written = - 1 then handle_error_a3 err_FILE_WRITE_ERROR s
                else Some (Done 0, if bytes_written \<noteq> n
                                   then say_a3 (''Warning: could only write '' @ dec_int bytes_written @ '' out of '' @ dec_int n @
                                                '' bytes (reached end of file)'') s else s) })"

definition find_file_cmd :: "'h config_a3 \<Rightarrow> string list \<Rightarrow> 'h a3_state \<Rightarrow> ('h, int) reply_a3" where
  "find_file_cmd cfg ws s =
     (if length ws < 2 then too_few s
      else do { (u, s) \<leftarrow> on_fs (\<lambda>g. do { g \<leftarrow> find_file (c3_depth cfg) (cstring (words_buffer (tl ws))) g; Some ((), g) }) s;
                Some (Done 0, s) })"

text \<open>The buffer has one byte more than the size, and starts with zeros. With the size -1 it has no bytes, and printing it is
  undefined; with a smaller one it cannot be had.\<close>

definition read_cmd :: "'h config_a3 \<Rightarrow> string list \<Rightarrow> 'h a3_state \<Rightarrow> ('h, int) reply_a3" where
  "read_cmd cfg ws s =
     (if length ws \<noteq> 3 then too_many s
      else do { k \<leftarrow> atoi (ws ! 2);
                if k < - 1 \<or> \<not> int_ok (k + 1) then None
                else do { ((bytes_read, bs), s) \<leftarrow> on_fs (\<lambda>g. do { (b, bs, g) \<leftarrow> fsutil_read (c3_depth cfg) (ws ! 1) (of_int k) g; Some ((b, bs), g) }) s;
                          if bytes_read = - 1 then handle_error_a3 err_FILE_READ_ERROR s
                          else if k < 0 then None
                          else Some (Done (if bytes_read = k then 1 else 0), say_a3 (cstring (bs @ [0])) s) } })"

definition copy_in_cmd :: "'h config_a3 \<Rightarrow> string list \<Rightarrow> 'h a3_state \<Rightarrow> ('h, int) reply_a3" where
  "copy_in_cmd cfg ws s =
     (if length ws \<noteq> 2 then too_many s
      else do { let cwd_path = c3_cwd cfg @ ''/'' @ ws ! 1;
                if 1024 \<le> length cwd_path then None
                else do { (status, s) \<leftarrow> on_fs (\<lambda>g. copy_in (c3_depth cfg) (c3_junk cfg) (c3_heap cfg) (c3_ops cfg)
                                                   cwd_path g (a3_host s)) s;
                          if status = 0 then Some (Done 0, s) else handle_error_a3 status s } })"

definition copy_out_cmd :: "'h config_a3 \<Rightarrow> string list \<Rightarrow> 'h a3_state \<Rightarrow> ('h, int) reply_a3" where
  "copy_out_cmd cfg ws s =
     (if length ws \<noteq> 2 then too_many s
      else do { ((status, h), s) \<leftarrow> on_fs (\<lambda>g. do { (e, g, h) \<leftarrow> copy_out (c3_depth cfg) (c3_ops cfg) (ws ! 1) g (a3_host s); Some ((e, h), g) }) s;
                let s = s\<lparr>a3_host := h\<rparr>;
                if status = 0 then Some (Done 0, s) else handle_error_a3 status s })"

definition size_cmd :: "'h config_a3 \<Rightarrow> string list \<Rightarrow> 'h a3_state \<Rightarrow> ('h, int) reply_a3" where
  "size_cmd cfg ws s =
     (if length ws \<noteq> 2 then too_many s
      else do { (len, s) \<leftarrow> on_fs (fsutil_size (c3_depth cfg) (ws ! 1)) s;
                if len = - 1 then handle_error_a3 err_FILE_DOES_NOT_EXIST s
                else Some (Done 0, say_a3 (''File length: '' @ dec_int len) s) })"

definition seek_cmd :: "'h config_a3 \<Rightarrow> string list \<Rightarrow> 'h a3_state \<Rightarrow> ('h, int) reply_a3" where
  "seek_cmd cfg ws s =
     (if length ws \<noteq> 3 then too_many s
      else do { offset \<leftarrow> atoi (ws ! 2);
                (status, s) \<leftarrow> on_fs (fsutil_seek (c3_depth cfg) (ws ! 1) offset) s;
                if status = - 1 then handle_error_a3 err_FILE_DOES_NOT_EXIST s else Some (Done 0, s) })"

definition freespace_cmd :: "string list \<Rightarrow> 'h a3_state \<Rightarrow> ('h, int) reply_a3" where
  "freespace_cmd ws s =
     (if length ws \<noteq> 1 then too_many s
      else do { (k, s) \<leftarrow> on_fs fsutil_freespace s;
                if \<not> int_ok (k * int BLOCK_SECTOR_SIZE) then None
                else Some (Done 0, say_a3 (''Num free sectors: '' @ dec_int k @ '' ('' @ dec_int (k * int BLOCK_SECTOR_SIZE) @
                                           '' total bytes)'') s) })"

definition fragmentation_cmd :: "'h config_a3 \<Rightarrow> string list \<Rightarrow> 'h a3_state \<Rightarrow> ('h, int) reply_a3" where
  "fragmentation_cmd cfg ws s =
     (if length ws \<noteq> 1 then too_many s
      else do { (u, s) \<leftarrow> on_fs (\<lambda>g. do { g \<leftarrow> fragmentation_degree (c3_depth cfg) g; Some ((), g) }) s; Some (Done 0, s) })"

definition defragment_cmd :: "'h config_a3 \<Rightarrow> string list \<Rightarrow> 'h a3_state \<Rightarrow> ('h, int) reply_a3" where
  "defragment_cmd cfg ws s =
     (if length ws \<noteq> 1 then too_many s
      else do { (fl, s) \<leftarrow> on_fs (\<lambda>g. do { (e, fl, g) \<leftarrow> defragment (c3_depth cfg) (c3_junk cfg) (a3_files s) g;
                                           Some (fl, g) }) s;
                Some (Done 0, s\<lparr>a3_files := fl\<rparr>) })"

definition recover_cmd :: "'h config_a3 \<Rightarrow> string list \<Rightarrow> 'h a3_state \<Rightarrow> ('h, int) reply_a3" where
  "recover_cmd cfg ws s =
     (if length ws \<noteq> 2 then too_many s
      else do { flag \<leftarrow> atoi (ws ! 1);
                (h, s) \<leftarrow> on_fs (\<lambda>g. do { (g, h) \<leftarrow> recover (c3_depth cfg) (c3_junk cfg) (c3_ops cfg) flag g (a3_host s);
                                          Some (h, g) }) s;
                Some (Done 0, s\<lparr>a3_host := h\<rparr>) })"

subsection \<open>Dispatch: interpreter.c\<close>

text \<open>\<^verbatim>\<open>echo\<close> without a word reads an entry of the array of words that was never set.\<close>

definition interpreter_a3 ::
  "'h config_a3 \<Rightarrow> (string \<Rightarrow> 'h a3_state \<Rightarrow> ('h, int) reply_a3) \<Rightarrow> string list \<Rightarrow> 'h a3_state \<Rightarrow> ('h, int) reply_a3" where
  "interpreter_a3 cfg parse ws s =
     (if length ws < 1 then too_few s
      else
        let ws = map strip ws; c = ws ! 0
        in if c = ''help'' then (if length ws > 1 then too_many s else help_a3 s)
           else if c = ''quit'' \<or> c = ''exit'' then quit_cmd cfg ws s
           else if c = ''set'' then set_cmd ws s
           else if c = ''print'' then
             (if length ws < 2 then too_few s else if length ws > 2 then too_many s else print_a3 (ws ! 1) s)
           else if c = ''run'' then run_cmd cfg parse ws s
           else if c = ''echo'' then (if length ws > 2 then too_many s else do { w \<leftarrow> arg ws 1; echo_a3 w s })
           else if c = ''exec'' then exec_cmd cfg parse ws s
           else if c = ''resetmem'' then resetmem_a3 s
           else if c = ''ls'' then ls_cmd cfg ws s
           else if c = ''cat'' then cat_cmd cfg ws s
           else if c = ''rm'' then rm_cmd cfg ws s
           else if c = ''create'' then create_cmd cfg ws s
           else if c = ''write'' then write_cmd cfg ws s
           else if c = ''find_file'' then find_file_cmd cfg ws s
           else if c = ''read'' then read_cmd cfg ws s
           else if c = ''copy_in'' then copy_in_cmd cfg ws s
           else if c = ''copy_out'' then copy_out_cmd cfg ws s
           else if c = ''size'' then size_cmd cfg ws s
           else if c = ''seek'' then seek_cmd cfg ws s
           else if c = ''freespace'' then freespace_cmd ws s
           else if c = ''fragmentation_degree'' then fragmentation_cmd cfg ws s
           else if c = ''defragment'' then defragment_cmd cfg ws s
           else if c = ''recover'' then recover_cmd cfg ws s
           else handle_error_a3 err_BAD_COMMAND s)"

subsection \<open>Parsing: shell.c\<close>

text \<open>Words end at a blank, and two blanks enclose an empty word.\<close>

function words_loop_a3 :: "nat \<Rightarrow> string \<Rightarrow> string list option" where
  "words_loop_a3 w token =
     (if token = [] then Some []
      else let tmp = takeWhile (\<lambda>c. c \<noteq> blank) token; r = dropWhile (\<lambda>c. c \<noteq> blank) token
           in if 100 \<le> w then None
              else if r = [] then Some [tmp]
              else do { ws \<leftarrow> words_loop_a3 (w + 1) (tl r); Some (tmp # ws) })"
  by pat_completeness auto
termination
proof (relation "measure (\<lambda>(w, token). length token)", goal_cases)
  case (2 w token tmp r)
  then show ?case using length_dropWhile_le [of "\<lambda>c. c \<noteq> blank" token] by (cases token) auto
qed simp

declare words_loop_a3.simps [simp del]

definition words_a3 :: "string \<Rightarrow> string list option" where
  "words_a3 token =
     (if length token < 1000 then words_loop_a3 0 (dropWhile (\<lambda>c. c = blank) token) else None)"

text \<open>\<^verbatim>\<open>strtok\<close> on a new string, and on what is left.\<close>

definition strtok_start :: "string \<Rightarrow> 'h a3_state \<Rightarrow> string option \<times> 'h a3_state" where
  "strtok_start ui s =
     (case strtok_next CHR '';'' ui of None \<Rightarrow> (None, s\<lparr>a3_tok := []\<rparr>) | Some (t, r) \<Rightarrow> (Some t, s\<lparr>a3_tok := r\<rparr>))"

definition strtok_more :: "'h a3_state \<Rightarrow> string option \<times> 'h a3_state" where
  "strtok_more s = strtok_start (a3_tok s) s"

partial_function (option) commands_loop ::
  "(string list \<Rightarrow> 'h a3_state \<Rightarrow> ('h, int) reply_a3) \<Rightarrow> string option \<Rightarrow> int \<Rightarrow> 'h a3_state \<Rightarrow> ('h, int) reply_a3" where
  "commands_loop interp toks ret s =
     (case toks of
        None \<Rightarrow> Some (Done ret, s)
      | Some token \<Rightarrow>
          do { ws \<leftarrow> words_a3 token;
               (r, s) \<leftarrow> interp ws s;
               case r of
                 Exit c \<Rightarrow> Some (Exit c, s)
               | Done ret \<Rightarrow>
                   (let (toks, s) = strtok_more s
                    in if ret = - 1 then Some (Done ret, s) else commands_loop interp toks ret s) })"

fun parseInput_a3 :: "'h config_a3 \<Rightarrow> nat \<Rightarrow> string \<Rightarrow> 'h a3_state \<Rightarrow> ('h, int) reply_a3" where
  "parseInput_a3 cfg 0 ui s = None"
| "parseInput_a3 cfg (Suc n) ui s =
     (let (toks, s) = strtok_start (c_str ui) s
      in commands_loop (interpreter_a3 cfg (parseInput_a3 cfg n)) toks 0 s)"

subsection \<open>The command loop: shell.c\<close>

text \<open>\<^verbatim>\<open>main\<close> up to the loop. \<open>args\<close> are the arguments of the program, \<open>fd\<close> and \<open>img\<close> what opening the file of the disk gives,
  and \<open>buf\<close> the contents of the buffer for the partition table, as in \<^verbatim>\<open>Block\<close>.\<close>

definition main_init_a3 ::
  "'h config_a3 \<Rightarrow> string list \<Rightarrow> nat \<Rightarrow> byte list \<Rightarrow> int \<Rightarrow> byte list option \<Rightarrow> 'h a3_state \<Rightarrow> ('h, int) reply_a3" where
  "main_init_a3 cfg args fuel buf fd img s =
     (if args = []
      then Some (Exit 1, say_a3 ''Error: myshell must be called with the hard drive as argument. E.g., ./myshell myhd.dsk'' s)
      else do { let ops = c3_ops cfg;
                let format = (length args = 2 \<and> args ! 1 = ''-f'');
                let s = sys_a3 ops ''mkdir backing_store'' (sys_a3 ops ''rm -rf backing_store'' s);
                let s = say_a3 ''Shell v2.1'' s;
                let m = k_mem s;
                let s = say_a3 (''Frame Store Size = '' @ dec (border m) @ ''; Variable Store Size = '' @
                                dec (length (mcells m) - border m)) s;
                s \<leftarrow> kernel_setup (s\<lparr>k_mem := mem_init_a3 m\<rparr>);
                (u, s) \<leftarrow> on_fs (\<lambda>g. do { d \<leftarrow> ide_init fuel buf (args ! 0) fd img (cdev (cst g));
                                        g \<leftarrow> filesys_init (c3_depth cfg) format (g\<lparr>cst := (cst g)\<lparr>cdev := d\<rparr>\<rparr>);
                                        Some ((), g) }) s;
                Some (Done 0, s) })"

definition main_round_a3 :: "'h config_a3 \<Rightarrow> nat \<Rightarrow> 'h a3_state \<Rightarrow> ('h, int) reply_a3" where
  "main_round_a3 cfg n s =
     (let ops = c3_ops cfg; s = (if h_isatty ops (a3_host s) then say_a3 ''$ '' s else s);
          (l, p) = fgets 999 (a3_in s); s = s\<lparr>a3_in := p\<rparr>
      in do { s \<leftarrow> (if eof p then do { (p, h) \<leftarrow> h_tty ops (a3_host s); Some (s\<lparr>a3_in := p, a3_host := h\<rparr>) } else Some s);
              (r, s) \<leftarrow> parseInput_a3 cfg n (case l of None \<Rightarrow> [] | Some l \<Rightarrow> l) s;
              Some (case r of Done e \<Rightarrow> if e = - 1 then Exit 99 else Done e | Exit c \<Rightarrow> Exit c, s) })"

text \<open>One round of the loop of the shell, with whatever bound on the depth.\<close>

inductive shell_step_a3 :: "'h config_a3 \<Rightarrow> 'h a3_state \<Rightarrow> 'h a3_state \<Rightarrow> bool" for cfg where
  round_a3: "main_round_a3 cfg n s = Some (Done e, s') \<Longrightarrow> shell_step_a3 cfg s s'"

inductive_cases shell_step_a3E: "shell_step_a3 cfg s s'"

subsection \<open>Lines\<close>

definition line_ok_a3 :: "string list \<Rightarrow> bool" where
  "line_ok_a3 ws \<longleftrightarrow> ws \<noteq> [] \<and> (\<forall>w \<in> set ws. plain w) \<and> length ws \<le> 100 \<and> length (cmd_line ws) < 999"

lemma words_loop_a3_plain:
  assumes "\<forall>v \<in> set (w # ws). plain v" and "k + length ws < 100" and "e = [] \<or> e = [newline]"
  shows "words_loop_a3 k (w @ spaced ws @ e) = Some (butlast (w # ws) @ [last (w # ws) @ e])"
  using assms
proof (induction ws arbitrary: w k)
  case Nil
  have "\<forall>c \<in> set w. c \<noteq> blank" using Nil.prems(1) by (simp add: plain_def plain_char_def)
  moreover have "\<forall>c \<in> set e. c \<noteq> blank" using Nil.prems(3) by (auto simp: char_defs)
  ultimately have "\<forall>c \<in> set (w @ e). c \<noteq> blank" unfolding set_append by blast
  then have "takeWhile (\<lambda>c. c \<noteq> blank) (w @ e) = w @ e" "dropWhile (\<lambda>c. c \<noteq> blank) (w @ e) = []"
    by (simp_all only: takeWhile_eq_all_conv dropWhile_eq_Nil_conv not_not)
  then show ?case using Nil.prems(1,2) by (subst words_loop_a3.simps) (auto simp: plain_def)
next
  case (Cons v ws)
  let ?x = "spaced (v # ws) @ e"
  have "takeWhile (\<lambda>c. c \<noteq> blank) (w @ ?x) = w" "dropWhile (\<lambda>c. c \<noteq> blank) (w @ ?x) = ?x"
    using plain_prefix [of w "\<lambda>c. c \<noteq> blank" ?x] Cons.prems(1) by (auto simp: plain_char_def)
  then show ?case
    using Cons.prems Cons.IH [of v "Suc k"] by (subst words_loop_a3.simps) (auto simp: plain_def)
qed

lemma words_a3_line:
  assumes "line_ok_a3 ws" and "e = [] \<or> e = [newline]"
  shows "words_a3 (cmd_line ws @ e) = Some (butlast ws @ [last ws @ e])"
proof -
  obtain w us where ws: "ws = w # us" using assms(1) by (cases ws) (auto simp: line_ok_a3_def)
  have pl: "\<forall>v \<in> set (w # us). plain v" "length us < 100" "length (cmd_line ws @ e) < 1000"
    using assms by (auto simp: line_ok_a3_def ws)
  have "dropWhile (\<lambda>c. c = blank) (cmd_line ws @ e) = cmd_line ws @ e"
    using pl(1) by (cases w) (auto simp: cmd_line_def ws plain_def plain_char_def)
  then show ?thesis
    using words_loop_a3_plain [OF pl(1), of 0 e] pl(2,3) assms(2) by (simp add: words_a3_def cmd_line_def ws)
qed

lemma strip_newline: "plain w \<Longrightarrow> e = [] \<or> e = [newline] \<Longrightarrow> strip (w @ e) = w"
  using plain_prefix(1) [of w "\<lambda>c. c \<noteq> CHR 0x0D \<and> c \<noteq> newline" e] by (auto simp: strip_def plain_char_def)

lemma map_strip_line:
  assumes "line_ok_a3 ws" and "e = [] \<or> e = [newline]"
  shows "map strip (butlast ws @ [last ws @ e]) = ws"
proof -
  have "\<forall>w \<in> set (butlast ws). plain w" "plain (last ws)" using assms(1) by (auto simp: line_ok_a3_def dest: in_set_butlastD)
  moreover have "butlast ws @ [last ws] = ws" using assms(1) by (simp add: line_ok_a3_def)
  ultimately show ?thesis using strip_newline [OF _ assms(2)] by simp
qed

lemma interpreter_line:
  assumes "line_ok_a3 ws" and "e = [] \<or> e = [newline]"
  shows "interpreter_a3 cfg parse (butlast ws @ [last ws @ e]) s = interpreter_a3 cfg parse ws s"
proof -
  have "map strip ws = ws" using assms(1) by (simp add: line_ok_a3_def)
  moreover have "ws \<noteq> []" using assms(1) by (simp add: line_ok_a3_def)
  ultimately show ?thesis unfolding interpreter_a3_def map_strip_line [OF assms] by simp
qed

text \<open>The next part of a line, and the parts of a line that has only delimiters left.\<close>

lemma strtok_part:
  assumes "t \<noteq> []" and "CHR '';'' \<notin> set t" and "u = [] \<or> hd u = CHR '';''"
  shows "strtok_next CHR '';'' (t @ u) = Some (t, tl u)"
proof -
  have "dropWhile (\<lambda>x. x = CHR '';'') (t @ u) = t @ u" using assms(1,2) by (cases t) auto
  moreover have "takeWhile (\<lambda>x. x \<noteq> CHR '';'') (t @ u) = t" using assms(2,3) by (cases u) (auto simp: takeWhile_eq_all_conv takeWhile_append)
  moreover have "dropWhile (\<lambda>x. x \<noteq> CHR '';'') (t @ u) = u" using assms(2,3) by (cases u) (auto simp: dropWhile_eq_Nil_conv dropWhile_append)
  ultimately show ?thesis using assms(1) by (simp add: strtok_next_def drop_Suc del: dropWhile_eq_Nil_conv)
qed

lemma strtok_none: "strtok_next c [] = None"
  by (simp add: strtok_next_def)

lemma cmd_line_chars:
  assumes "line_ok_a3 ws"
  shows "cmd_line ws \<noteq> []" "CHR '';'' \<notin> set (cmd_line ws)" "nul \<notin> set (cmd_line ws)"
  using assms by (cases ws; auto simp: line_ok_a3_def cmd_line_def spaced_def plain_def plain_char_def char_defs)+

text \<open>The first command of a line: it is run with the rest of the line in the state of \<^verbatim>\<open>strtok\<close>, which it may change.\<close>

lemma parse_first_a3:
  assumes "line_ok_a3 ws" and "e = [] \<or> e = [newline]" and "u = [] \<or> hd u = CHR '';''" and "nul \<notin> set u"
  shows "parseInput_a3 cfg (Suc n) (cmd_line ws @ e @ u) s =
    do { (r, s) \<leftarrow> interpreter_a3 cfg (parseInput_a3 cfg n) ws (s\<lparr>a3_tok := tl u\<rparr>);
         case r of
           Exit c \<Rightarrow> Some (Exit c, s)
         | Done ret \<Rightarrow> (let (toks, s) = strtok_more s
                        in if ret = - 1 then Some (Done ret, s) else commands_loop (interpreter_a3 cfg (parseInput_a3 cfg n)) toks ret s) }"
proof -
  note ch = cmd_line_chars [OF assms(1)]
  have "c_str (cmd_line ws @ e @ u) = cmd_line ws @ e @ u" using ch(3) assms(2,4) by (intro c_str_id) (auto simp: char_defs)
  moreover have "strtok_next CHR '';'' ((cmd_line ws @ e) @ u) = Some (cmd_line ws @ e, tl u)"
    using ch(1,2) assms(2,3) by (intro strtok_part) (auto simp: char_defs)
  ultimately have "strtok_start (c_str (cmd_line ws @ e @ u)) s = (Some (cmd_line ws @ e), s\<lparr>a3_tok := tl u\<rparr>)"
    by (simp add: strtok_start_def)
  then show ?thesis
    using words_a3_line [OF assms(1,2)] by (simp add: commands_loop.simps [of _ "Some t" for t] interpreter_line [OF assms(1,2)])
qed

text \<open>A line with one command that leaves nothing to cut.\<close>

lemma parse_only_a3:
  assumes "line_ok_a3 ws" and "e = [] \<or> e = [newline]"
    and "interpreter_a3 cfg (parseInput_a3 cfg n) ws (s\<lparr>a3_tok := []\<rparr>) = Some (Done ret, s')" and "a3_tok s' = []" 
  shows "parseInput_a3 cfg (Suc n) (cmd_line ws @ e) s = Some (Done ret, s')"
proof -
  have s': "s'\<lparr>a3_tok := []\<rparr> = s'" using assms(4) by (cases s') simp
  show ?thesis
    using parse_first_a3 [OF assms(1,2), of "[]" cfg n s] assms(3,4)
    by (simp add: strtok_more_def strtok_start_def strtok_none s' commands_loop.simps [of _ None])
qed

declare parseInput_a3.simps(2) [simp del]

subsection \<open>Scripts of echo commands\<close>

text \<open>A word that \<^verbatim>\<open>echo\<close> prints, and the line that prints it.\<close>

definition echo_word :: "string \<Rightarrow> bool" where
  "echo_word w \<longleftrightarrow> isAlphaNumStr w \<and> length w < 900"

abbreviation echo_text :: "string \<Rightarrow> string" where
  "echo_text w \<equiv> cmd_line [''echo'', w]"

text \<open>The text of a script that prints these words, and its lines with what they print.\<close>

definition echo_script :: "string list \<Rightarrow> string" where
  "echo_script ws = concat (map (\<lambda>w. echo_text w @ [newline]) (butlast ws)) @ echo_text (last ws)"

definition echo_job :: "string list \<Rightarrow> (string \<times> string) list" where
  "echo_job ws = map (\<lambda>w. (echo_text w @ [newline], w)) (butlast ws) @ [(echo_text (last ws), last ws)]"

lemma alnum_plain: "isalnum c \<Longrightarrow> plain_char c"
  by (auto simp: isalnum_def plain_char_def char_defs Let_def)

lemma echo_word_plain: "echo_word w \<Longrightarrow> plain w"
  using alnum_plain by (auto simp: echo_word_def isAlphaNumStr_def plain_def)

lemma plain_echo: "plain ''echo''"
  by (simp add: plain_def plain_char_def char_defs)

lemma echo_text_ok: "echo_word w \<Longrightarrow> line_ok_a3 [''echo'', w]"
  using echo_word_plain plain_echo by (auto simp: line_ok_a3_def echo_word_def cmd_line_def)

lemma echo_parse:
  assumes "echo_word w" and "e = [] \<or> e = [newline]"
  shows "parseInput_a3 cfg (Suc n) (echo_text w @ e) s = Some (Done 0, say_a3 w (s\<lparr>a3_tok := []\<rparr>))"
proof (rule parse_only_a3 [OF echo_text_ok [OF assms(1)] assms(2)])
  have w: "isAlphaNumStr w" "w \<noteq> []" "isalnum (hd w)" using assms(1) by (cases w; auto simp: echo_word_def isAlphaNumStr_def)+
  have "hd w \<noteq> CHR ''$''" using w(3) by (auto simp: isalnum_def Let_def)
  moreover have "strip w = w" "strip ''echo'' = ''echo''" using echo_word_plain [OF assms(1)] plain_echo by simp_all
  ultimately show "interpreter_a3 cfg (parseInput_a3 cfg n) [''echo'', w] (s\<lparr>a3_tok := []\<rparr>) = Some (Done 0, say_a3 w (s\<lparr>a3_tok := []\<rparr>))"
    using w by (simp add: interpreter_a3_def arg_def echo_a3_def Let_def)
qed (simp add: say_a3_def set_out_def)

lemma quiet_echo:
  assumes "echo_word w" and "e = [] \<or> e = [newline]"
  shows "quiet_a3 (parseInput_a3 cfg (Suc n)) (echo_text w @ e, w)"
  unfolding quiet_a3_def fst_conv snd_conv echo_parse [OF assms]
  by (simp add: kernel.truncate_def say_a3_def set_out_def)

lemma quiet_echo_job:
  assumes "\<forall>w \<in> set ws. echo_word w" and "ws \<noteq> []"
  shows "\<forall>lt \<in> set (echo_job ws). quiet_a3 (parseInput_a3 cfg (Suc n)) lt"
  using assms quiet_echo [of _ "[newline]" cfg n] quiet_echo [of _ "[]" cfg n] by (auto simp: echo_job_def dest: in_set_butlastD)

lemma echo_job_texts [simp]: "ws \<noteq> [] \<Longrightarrow> map snd (echo_job ws) = ws" "length (echo_job ws) = Suc (length ws - 1)"
  by (simp_all add: echo_job_def comp_def)

lemma echo_text_shape:
  assumes "echo_word w"
  shows "echo_text w \<noteq> []" "newline \<notin> set (echo_text w)" "length (echo_text w) < 998" "prog_line 999 (echo_text w @ [newline])"
proof -
  show n: "newline \<notin> set (echo_text w)" and l: "length (echo_text w) < 998" "echo_text w \<noteq> []"
    using assms echo_word_plain [OF assms] by (auto simp: cmd_line_def echo_word_def plain_def plain_char_def char_defs)
  show "prog_line 999 (echo_text w @ [newline])" using n l by (auto simp: prog_line_def)
qed

lemma echo_script_a3:
  assumes "\<forall>w \<in> set ws. echo_word w" and "ws \<noteq> []"
  shows "script_a3 (map (\<lambda>w. echo_text w @ [newline]) (butlast ws)) (echo_text (last ws))"
  using assms echo_text_shape by (auto simp: script_a3_def dest: in_set_butlastD)

subsection \<open>Running scripts\<close>

lemma kernel_more_host: "kernel.more s' = kernel.more s \<Longrightarrow> a3_host s' = a3_host s"
  by (cases s; cases s') simp

text \<open>The host has these scripts.\<close>

definition echo_files :: "'h host \<Rightarrow> 'h \<Rightarrow> string list \<Rightarrow> string list list \<Rightarrow> bool" where
  "echo_files ops h fs wss \<longleftrightarrow>
     list_all2 (\<lambda>f ws. h_read ops f h = Some (echo_script ws) \<and> ws \<noteq> [] \<and> length ws \<le> 6 \<and> (\<forall>w \<in> set ws. echo_word w)) fs wss"

definition pages_of :: "string list list \<Rightarrow> nat" where
  "pages_of wss = sum_list (map (\<lambda>ws. pages_for (length ws)) wss)"

lemma new_proc_echo:
  fixes s :: "'h a3_state"
  assumes "procs_in a (parseInput_a3 cfg (Suc n)) s jobs" and "h_read ops f (a3_host s) = Some (echo_script ws)" and "ws \<noteq> []"
    and "length ws \<le> 6" and "\<forall>w \<in> set ws. echo_word w" and "3 * (a + pages_for (length ws)) \<le> border (k_mem s)" and "length jobs < 1000"
  shows "\<exists>s'. new_proc (\<lambda>f. h_read ops f (a3_host s)) f s = Some (Done 0, s') \<and>
    procs_in (a + pages_for (length ws)) (parseInput_a3 cfg (Suc n)) s' (jobs @ [(k_brk s, echo_job ws)]) \<and>
    k_out s' = k_out s \<and> kernel.more s' = kernel.more s \<and> border (k_mem s') = border (k_mem s) \<and>
    (\<exists>p. k_pcbs s' (k_brk s) = Some p \<and> script_at (k_mem s') p 0 (map fst (echo_job ws)))"
proof -
  let ?ks = "map (\<lambda>w. echo_text w @ [newline]) (butlast ws)"
  have len: "length (echo_job ws) = length ws" using assms(3) by (cases ws) simp_all
  have "\<exists>s'. new_proc (\<lambda>f. h_read ops f (a3_host s)) f s = Some (Done 0, s') \<and>
      procs_in (a + pages_for (length (echo_job ws))) (parseInput_a3 cfg (Suc n)) s' (jobs @ [(k_brk s, echo_job ws)]) \<and>
      k_out s' = k_out s \<and> kernel.more s' = kernel.more s \<and> kept_cells (3 * a) (k_mem s) (k_mem s') \<and>
      (\<exists>p. k_pcbs s' (k_brk s) = Some p \<and> script_at (k_mem s') p 0 (map fst (echo_job ws)))"
  proof (rule new_proc_ok [OF assms(1)])
    show "h_read ops f (a3_host s) = Some (concat ?ks @ echo_text (last ws))" using assms(2) by (simp add: echo_script_def)
    show "script_a3 ?ks (echo_text (last ws))" using echo_script_a3 assms(3,5) by blast
    show "map fst (echo_job ws) = ?ks @ [echo_text (last ws)]" by (simp add: echo_job_def comp_def)
    show "length ?ks < 6" using assms(3,4) by (cases ws) auto
    show "\<forall>lt \<in> set (echo_job ws). quiet_a3 (parseInput_a3 cfg (Suc n)) lt" using quiet_echo_job assms(3,5) by blast
    show "3 * (a + pages_for (length (echo_job ws))) \<le> border (k_mem s)" "length jobs < 1000" using assms(6,7) len by simp_all
  qed
  then show ?thesis unfolding len by (auto simp: kept_cells_def)
qed

lemma new_procs_echo:
  fixes s :: "'h a3_state"
  assumes "procs_in a (parseInput_a3 cfg (Suc n)) s jobs" and "echo_files ops (a3_host s) fs wss"
    and "3 * (a + pages_of wss) \<le> border (k_mem s)" and "length jobs + length fs < 1000"
  shows "\<exists>s' jobs'. new_procs ops fs s = Some (Done 0, s') \<and> procs_in (a + pages_of wss) (parseInput_a3 cfg (Suc n)) s' (jobs @ jobs') \<and>
    map snd jobs' = map echo_job wss \<and> k_out s' = k_out s \<and> kernel.more s' = kernel.more s"
  using assms
proof (induction fs arbitrary: wss a s jobs)
  case Nil
  then show ?case by (auto simp: echo_files_def pages_of_def intro!: exI [of _ "[]"])
next
  case (Cons f fs)
  obtain ws us where wss: "wss = ws # us" and f: "h_read ops f (a3_host s) = Some (echo_script ws)" "ws \<noteq> []" "length ws \<le> 6"
    "\<forall>w \<in> set ws. echo_word w" and fs: "echo_files ops (a3_host s) fs us"
    using Cons.prems(2) by (auto simp: echo_files_def list_all2_Cons1)
  obtain s1 where s1: "new_proc (\<lambda>f. h_read ops f (a3_host s)) f s = Some (Done 0, s1)"
    "procs_in (a + pages_for (length ws)) (parseInput_a3 cfg (Suc n)) s1 (jobs @ [(k_brk s, echo_job ws)])"
    "k_out s1 = k_out s" "kernel.more s1 = kernel.more s" "border (k_mem s1) = border (k_mem s)"
    using new_proc_echo [OF Cons.prems(1) f] Cons.prems(3,4) by (auto simp: wss pages_of_def)
  obtain s2 jobs' where s2: "new_procs ops fs s1 = Some (Done 0, s2)"
    "procs_in (a + pages_for (length ws) + pages_of us) (parseInput_a3 cfg (Suc n)) s2 ((jobs @ [(k_brk s, echo_job ws)]) @ jobs')"
    "map snd jobs' = map echo_job us" "k_out s2 = k_out s1" "kernel.more s2 = kernel.more s1"
    using Cons.IH [OF s1(2), of us] fs kernel_more_host [OF s1(4)] s1(5) Cons.prems(3,4) by (auto simp: wss pages_of_def)
  then show ?case
    using s1 wss by (intro exI [of _ s2] exI [of _ "(k_brk s, echo_job ws) # jobs'"]) (simp add: pages_of_def add.assoc)
qed

text \<open>C6: \<^verbatim>\<open>exec\<close> of up to three scripts, each of one to six lines \<^verbatim>\<open>echo word\<close> of which the last has no newline, from a kernel
  without processes and with frames for all their pages, returns 0 after all processes
  have ended and have been freed; the words that the scripts print are those of the first two lines of each script, then those of the next
  two lines of each, and so on.\<close>

theorem a3_exec_interleaves:
  fixes s :: "'h a3_state"
  assumes "idle_a3 s" and "echo_files ops (a3_host s) fs wss" and "length fs \<le> 3" and "3 * pages_of wss \<le> border (k_mem s)"
  shows "\<exists>s'. exec_a3 ops (parseInput_a3 cfg (Suc n)) fs ''RR'' s = Some (Done 0, s') \<and>
    k_out s' = k_out s @ map Print (interleave 2 wss) \<and> klists s' [] [] []"
proof -
  have "procs_in 0 (parseInput_a3 cfg (Suc n)) s []" by (rule idle_procs [OF assms(1)])
  from new_procs_echo [OF this assms(2)] obtain s1 jobs where s1: "new_procs ops fs s = Some (Done 0, s1)"
    "procs_in (pages_of wss) (parseInput_a3 cfg (Suc n)) s1 jobs" "map snd jobs = map echo_job wss" "k_out s1 = k_out s"
    using assms(3,4) by auto
  obtain s2 where s2: "run_proc_RR (parseInput_a3 cfg (Suc n)) s1 = Some (Done 0, s2)" "klists s2 [] [] []"
    "k_out s2 = k_out s1 @ map Print (interleave 2 (map (\<lambda>j. map snd (snd j)) jobs))"
    using run_proc_RR_finishes [OF procs_in_jobs_ok [OF s1(2)]] by blast
  have "\<forall>ws \<in> set wss. ws \<noteq> []" using assms(2) by (auto simp: echo_files_def list_all2_conv_all_nth in_set_conv_nth)
  then have "map (map snd) (map echo_job wss) = wss" by (simp add: map_idI)
  then have "map (\<lambda>j. map snd (snd j)) jobs = wss" unfolding s1(3) [symmetric] by (simp add: comp_def)
  then show ?thesis using s1(1,4) s2 assms(3) by (simp add: exec_a3_def)
qed

subsection \<open>Depth\<close>

lemma new_run_extends: "parser_extends p q \<Longrightarrow> le_opt (run_a3 ops p f s) (run_a3 ops q f s)"
  unfolding run_a3_def by (intro le_steps run_proc_RR_extends)

lemma exec_a3_extends: "parser_extends p q \<Longrightarrow> le_opt (exec_a3 ops p fs pol s) (exec_a3 ops q fs pol s)"
  unfolding exec_a3_def by (intro le_steps run_proc_RR_extends run_proc_FIFO_extends)

lemma interpreter_extends: "parser_extends p q \<Longrightarrow> le_opt (interpreter_a3 cfg p ws s) (interpreter_a3 cfg q ws s)"
  unfolding interpreter_a3_def run_cmd_def exec_cmd_def by (intro le_steps new_run_extends exec_a3_extends)

lemma commands_extends:
  assumes "\<And>ws s. le_opt (f ws s) (g ws s)"
  shows "le_opt (commands_loop f toks ret s) (commands_loop g toks ret s)"
  unfolding le_opt_def
proof (intro allI impI)
  fix r assume "commands_loop f toks ret s = Some r"
  then have "(\<forall>ws s. le_opt (f ws s) (g ws s)) \<longrightarrow> commands_loop g toks ret s = Some r"
  proof (rule commands_loop.raw_induct [rotated, where P = "\<lambda>f toks ret s r. (\<forall>ws s. le_opt (f ws s) (g ws s)) \<longrightarrow> commands_loop g toks ret s = Some r"], goal_cases)
    case (1 c f toks ret s r)
    have "le_opt (case toks of None \<Rightarrow> Some (Done ret, s)
        | Some token \<Rightarrow> words_a3 token \<bind> (\<lambda>ws. f ws s \<bind> (\<lambda>(r, s). case r of
            Done ret \<Rightarrow> (let (toks, s) = strtok_more s in if ret = - 1 then Some (Done ret, s) else c f toks ret s)
          | Exit c \<Rightarrow> Some (Exit c, s)))) (commands_loop g toks ret s)" if e: "\<forall>ws s. le_opt (f ws s) (g ws s)"
      unfolding commands_loop.simps [of g toks ret s] using 1(1) e by (intro le_steps) (auto simp: le_opt_def)
    then show ?case using 1(2) by (auto simp: le_opt_def)
  qed
  then show "commands_loop g toks ret s = Some r" using assms by simp
qed

lemma parse_extends_Suc: "parser_extends (parseInput_a3 cfg n) (parseInput_a3 cfg (Suc n))"
proof (induction n)
  case 0
  then show ?case by (simp add: parser_extends_def le_opt_def)
next
  case (Suc n)
  have "le_opt (parseInput_a3 cfg (Suc n) ui s) (parseInput_a3 cfg (Suc m) ui s)" if "parser_extends (parseInput_a3 cfg n) (parseInput_a3 cfg m)" for ui s m
    unfolding parseInput_a3.simps(2) using that by (intro le_steps commands_extends interpreter_extends)
  then show ?case using Suc by (simp add: parser_extends_def)
qed

subsection \<open>A line that runs a script\<close>

lemma same_shape_host:
  fixes s :: "'h a3_state"
  assumes "same_shape s s'"
  shows "a3_tok s' = a3_tok s" "a3_host s' = a3_host s"
  using assms by (cases s; cases s'; simp add: same_shape_def)+

text \<open>What is left to cut, and the host, belong to the shell.\<close>

interpretation a3_cut: kernel_invariant "\<lambda>s :: 'h a3_state. a3_tok s = []"
  by unfold_locales (simp add: same_shape_host)

interpretation a3_on_host: kernel_invariant "\<lambda>s :: 'h a3_state. a3_host s = h" for h
  by unfold_locales (simp add: same_shape_host)

lemma interleave_one: "0 < q \<Longrightarrow> interleave q [xs] = xs"
proof (induction "length xs" arbitrary: xs rule: less_induct)
  case less
  then show ?case by (subst interleave.simps(2)) simp
qed

lemma echo_job_fst: "ws \<noteq> [] \<Longrightarrow> lt \<in> set (echo_job ws) \<Longrightarrow> \<exists>w e. w \<in> set ws \<and> (e = [] \<or> e = [newline]) \<and> fst lt = echo_text w @ e"
proof (cases "lt = (echo_text (last ws), last ws)")
  case True
  then show "ws \<noteq> [] \<Longrightarrow> ?thesis" by (intro exI [of _ "last ws"] exI [of _ "[]"]) simp
qed (auto simp: echo_job_def dest: in_set_butlastD)

lemma run_echo:
  fixes s :: "'h a3_state"
  assumes "idle_a3 s" and "h_read ops f (a3_host s) = Some (echo_script ws)" and "ws \<noteq> []"
    and "length ws \<le> 6" and "\<forall>w \<in> set ws. echo_word w" and "3 * pages_for (length ws) \<le> border (k_mem s)"
  shows "\<exists>s'. run_a3 ops (parseInput_a3 cfg (Suc n)) f s = Some (Done 0, s') \<and> k_out s' = k_out s @ map Print ws \<and>
    klists s' [] [] [] \<and> a3_tok s' = [] \<and> a3_host s' = a3_host s"
proof -
  let ?parse = "parseInput_a3 cfg (Suc n)" and ?b = "k_brk s"
  define L where "L = fst ` set (echo_job ws)"
  obtain s1 where s1: "new_proc (\<lambda>f. h_read ops f (a3_host s)) f s = Some (Done 0, s1)"
    "procs_in (0 + pages_for (length ws)) ?parse s1 [(?b, echo_job ws)]" "k_out s1 = k_out s" "kernel.more s1 = kernel.more s"
    using new_proc_echo [OF idle_procs [OF assms(1)] assms(2-5), of cfg n] assms(6) by auto
  have ok: "jobs_ok_a3 (only L ?parse) [PcbRef ?b] s1 [(?b, echo_job ws)]"
    using jobs_ok_only [OF procs_in_jobs_ok [OF s1(2)], of L] by (simp add: L_def)
  obtain s2 where s2: "run_proc_RR (only L ?parse) s1 = Some (Done 0, s2)" "klists s2 [] [] []"
    "k_out s2 = k_out s1 @ map Print (interleave 2 [map snd (echo_job ws)])"
    using run_proc_RR_finishes [OF ok] by auto
  have line: "a3_tok s' = [] \<and> a3_host s' = a3_host s" if p: "only L ?parse ln s = Some (r, s')" for ln s r s'
  proof -
    have "ln \<in> L" using p by (simp add: only_def split: if_splits)
    then obtain w e where "w \<in> set ws" "e = [] \<or> e = [newline]" "ln = echo_text w @ e" using echo_job_fst [OF assms(3)] unfolding L_def by blast
    then have "?parse ln s = Some (Done 0, say_a3 w (s\<lparr>a3_tok := []\<rparr>))" using echo_parse assms(5) by blast
    then show ?thesis using p \<open>ln \<in> L\<close> by (auto simp: only_def say_a3_def set_out_def)
  qed
  obtain lt lts where j: "echo_job ws = lt # lts" by (cases "echo_job ws") (auto simp: echo_job_def)
  have "a3_tok s2 = []" by (rule a3_cut.run_proc_RR_establishes [OF ok [unfolded j] s2(1)]) (use line in blast)
  moreover have "a3_host s2 = a3_host s1"
    by (rule a3_on_host.run_proc_RR_keeps [OF s2(1)]) (use line in \<open>auto simp: parser_keeps_def\<close>)
  moreover have "run_proc_RR ?parse s1 = Some (Done 0, s2)"
    using run_proc_RR_extends [OF only_extends, of L ?parse s1] s2(1) by (simp add: le_opt_def)
  ultimately show ?thesis
    using s1(1,3) s2(2,3) kernel_more_host [OF s1(4)] assms(3) by (simp add: run_a3_def interleave_one)
qed

lemma idle_same: "kernel.truncate s' = kernel.truncate (set_out t s) \<Longrightarrow> idle_a3 s' = idle_a3 s"
  using klists_same [of s' t s] by (simp add: idle_a3_def)

text \<open>What a command of the host prints, and the host after it.\<close>

definition says :: "'h host \<Rightarrow> string \<Rightarrow> 'h \<Rightarrow> string" where
  "says ops c h = fst (snd (h_system ops c h))"

definition after :: "'h host \<Rightarrow> string \<Rightarrow> 'h \<Rightarrow> 'h" where
  "after ops c h = snd (snd (h_system ops c h))"

lemma sys_a3_says:
  "k_out (sys_a3 ops c s) = k_out s @ [Print (says ops c (a3_host s))]" "a3_host (sys_a3 ops c s) = after ops c (a3_host s)"
  "a3_tok (sys_a3 ops c s) = a3_tok s" "new_name_count (sys_a3 ops c s) = new_name_count s" "k_mem (sys_a3 ops c s) = k_mem s"
  "kernel.truncate (sys_a3 ops c s) = kernel.truncate (set_out (k_out s @ [Print (says ops c (a3_host s))]) s)"
  by (simp_all add: sys_a3_def say_a3_def set_out_def says_def after_def kernel.truncate_def split: prod.split)

text \<open>The name of the copy of a script.\<close>

definition copy_name :: "string \<Rightarrow> nat \<Rightarrow> string" where
  "copy_name f c = ''./backing_store/'' @ f @ replicate c CHR ''a''"

definition cp_command :: "string \<Rightarrow> nat \<Rightarrow> string" where
  "cp_command f c = ''cp ./'' @ f @ '' '' @ copy_name f c"

lemma copy_script_ok:
  assumes "length (cp_command f (new_name_count s)) < 100"
  shows "copy_script_a3 ops f s =
    Some (copy_name f (new_name_count s), (sys_a3 ops (cp_command f (new_name_count s)) s)\<lparr>new_name_count := new_name_count s + 1\<rparr>)"
  using assms by (simp add: copy_script_a3_def cp_command_def copy_name_def Let_def)

abbreviation rm_store :: "string \<Rightarrow> string" where
  "rm_store d \<equiv> ''rm -rf '' @ d @ ''/backing_store''"

abbreviation mk_store :: "string \<Rightarrow> string" where
  "mk_store d \<equiv> ''mkdir '' @ d @ ''/backing_store''"

lemma reset_store_says:
  "k_out (reset_store ops d s) = k_out s @ [Print (says ops (rm_store d) (a3_host s)), Print (says ops (mk_store d) (after ops (rm_store d) (a3_host s)))]"
  "a3_tok (reset_store ops d s) = a3_tok s"
  by (simp_all add: reset_store_def sys_a3_says)

text \<open>C15: A line with \<^verbatim>\<open>run\<close> and whatever follows it after a semicolon, when the copy of the script has one to six lines \<^verbatim>\<open>echo word\<close>
  of which the last has no newline, no process exists and there are frames for its pages: the script is copied, its lines print
  their words, the backing store is made again, and then the line is over. What follows the semicolon is dropped, since
  the lines of the script have been cut with the same \<^verbatim>\<open>strtok\<close>.\<close>

theorem a3_run_drops_rest:
  fixes s :: "'h a3_state"
  assumes "idle_a3 s" and "plain f" and "length (cp_command f (new_name_count s)) < 100"
    and "h_read (c3_ops cfg) (copy_name f (new_name_count s)) (after (c3_ops cfg) (cp_command f (new_name_count s)) (a3_host s)) = Some (echo_script ws)"
    and "ws \<noteq> []" and "length ws \<le> 6" and "\<forall>w \<in> set ws. echo_word w" and "3 * pages_for (length ws) \<le> border (k_mem s)"
    and "nul \<notin> set u"
  shows "\<exists>s'. parseInput_a3 cfg (Suc (Suc n)) (cmd_line [''run'', f] @ '';'' @ u) s = Some (Done 0, s') \<and> a3_tok s' = [] \<and>
    (let h1 = after (c3_ops cfg) (cp_command f (new_name_count s)) (a3_host s); h2 = after (c3_ops cfg) (rm_store (c3_cwd cfg)) h1
     in k_out s' = k_out s @ [Print (says (c3_ops cfg) (cp_command f (new_name_count s)) (a3_host s))] @ map Print ws @
          [Print (says (c3_ops cfg) (rm_store (c3_cwd cfg)) h1), Print (says (c3_ops cfg) (mk_store (c3_cwd cfg)) h2)])"
proof -
  let ?ops = "c3_ops cfg" and ?c = "new_name_count s"
  let ?s = "s\<lparr>a3_tok := u\<rparr>"
  let ?s1 = "(sys_a3 ?ops (cp_command f ?c) ?s)\<lparr>new_name_count := ?c + 1\<rparr>"
  have ok: "line_ok_a3 [''run'', f]"
    using assms(2,3) by (auto simp: line_ok_a3_def plain_def plain_char_def char_defs cmd_line_def cp_command_def)
  have cp: "copy_script_a3 ?ops f ?s = Some (copy_name f ?c, ?s1)" using copy_script_ok [of f ?s ?ops] assms(3) by simp
  have "kernel.truncate ?s1 = kernel.truncate (set_out (k_out s @ [Print (says ?ops (cp_command f ?c) (a3_host s))]) s)"
    using sys_a3_says(6) [of ?ops "cp_command f ?c" ?s] by (simp add: kernel.truncate_def set_out_def)
  from idle_same [OF this] have i1: "idle_a3 ?s1" using assms(1) by simp
  have h1: "h_read ?ops (copy_name f ?c) (a3_host ?s1) = Some (echo_script ws)" "3 * pages_for (length ws) \<le> border (k_mem ?s1)"
    using assms(4,8) by (simp_all add: sys_a3_says)
  obtain s2 where s2: "run_a3 ?ops (parseInput_a3 cfg (Suc n)) (copy_name f ?c) ?s1 = Some (Done 0, s2)" "k_out s2 = k_out ?s1 @ map Print ws"
    "a3_tok s2 = []" "a3_host s2 = a3_host ?s1"
    using run_echo [OF i1 h1(1) assms(5-7) h1(2)] by blast
  let ?s3 = "reset_store ?ops (c3_cwd cfg) s2"
  have "strip f = f" "strip ''run'' = ''run''" using assms(2) by (simp_all add: plain_def plain_char_def char_defs)
  then have "interpreter_a3 cfg (parseInput_a3 cfg (Suc n)) [''run'', f] ?s = Some (Done 0, ?s3)"
    using cp s2(1) by (simp add: interpreter_a3_def run_cmd_def Let_def)
  moreover have t: "a3_tok ?s3 = []" by (simp add: reset_store_says s2(3))
  then have "strtok_more ?s3 = (None, ?s3)" by (cases ?s3) (simp add: strtok_more_def strtok_start_def strtok_none)
  ultimately have "parseInput_a3 cfg (Suc (Suc n)) (cmd_line [''run'', f] @ [] @ CHR '';'' # u) s = Some (Done 0, ?s3)"
    using assms(9) by (subst parse_first_a3 [OF ok]) (auto simp: char_defs commands_loop.simps [of _ None])
  then show ?thesis
    using t s2(2,4) by (intro exI [of _ ?s3]) (simp add: reset_store_says sys_a3_says Let_def)
qed

subsection \<open>The size of the shell memory\<close>

definition results :: "('s \<Rightarrow> bool) \<Rightarrow> ('x \<times> 's) option \<Rightarrow> bool" where
  "results Q a \<longleftrightarrow> (\<forall>x s. a = Some (x, s) \<longrightarrow> Q s)"

lemma results_Some: "Q s \<Longrightarrow> results Q (Some (x, s))"
  by (simp add: results_def)

lemma results_None: "results Q None"
  by (simp add: results_def)

lemma results_if: "results Q a \<Longrightarrow> results Q b \<Longrightarrow> results Q (if c then a else b)"
  by simp

lemma results_outcome: "(\<And>x. results Q (f x)) \<Longrightarrow> (\<And>c. results Q (g c)) \<Longrightarrow> results Q (case r of Done x \<Rightarrow> f x | Exit c \<Rightarrow> g c)"
  by (cases r) simp_all

lemma results_option: "results Q a \<Longrightarrow> (\<And>x. results Q (f x)) \<Longrightarrow> results Q (case z of None \<Rightarrow> a | Some x \<Rightarrow> f x)"
  by (cases z) simp_all

lemma results_prod: "(\<And>x y. results Q (f x y)) \<Longrightarrow> results Q (case p of (x, y) \<Rightarrow> f x y)"
  by (cases p) simp

lemma results_Let: "results Q (f a) \<Longrightarrow> results Q (let x = a in f x)"
  by simp

lemma results_step: "results Q a \<Longrightarrow> (\<And>x s. Q s \<Longrightarrow> results Q (f x s)) \<Longrightarrow> results Q (a \<bind> (\<lambda>(x, s). f x s))"
  by (cases a) (auto simp: results_def)

lemma results_step2:
  "results Q a \<Longrightarrow> (\<And>x y s. Q s \<Longrightarrow> results Q (f x y s)) \<Longrightarrow> results Q (a \<bind> (\<lambda>((x, y), s). f x y s))"
  by (cases a) (auto simp: results_def)

lemma results_bind: "(\<And>x. results Q (f x)) \<Longrightarrow> results Q (a \<bind> f)"
  by (cases a) (auto simp: results_def)

lemmas results_cases = results_None results_if results_outcome results_option results_prod results_Let

abbreviation sized :: "memory_a3 \<Rightarrow> 'h a3_state \<Rightarrow> bool" where
  "sized m s \<equiv> same_size m (k_mem s)"

interpretation a3_size: kernel_invariant "\<lambda>s :: 'h a3_state. sized m s" for m
  by unfold_locales (auto simp: same_shape_def intro: same_size_trans)

lemma say_sized [simp]: "k_mem (say_a3 t s) = k_mem s" "k_mem (sys_a3 ops c s) = k_mem s" "k_mem (reset_store ops d s) = k_mem s"
  by (simp_all add: say_a3_def set_out_def sys_a3_says reset_store_def)

lemma on_fs_sized: "sized m s \<Longrightarrow> results (sized m) (on_fs f s)"
  by (auto simp: results_def on_fs_def put_fs_def set_out_def split: bind_splits)

lemma error_sized: "sized m s \<Longrightarrow> results (sized m) (handle_error_a3 e s)"
  by (simp add: handle_error_a3_def results_def)

lemma quick_sized:
  assumes "sized m s"
  shows "results (sized m) (too_many s)" "results (sized m) (too_few s)" "results (sized m) (help_a3 s)" "results (sized m) (quit_a3 s)"
    "results (sized m) (print_a3 v s)" "results (sized m) (echo_a3 v s)"
  using assms error_sized [OF assms]
  by (simp_all add: too_many_def too_few_def help_a3_def quit_a3_def print_a3_def echo_a3_def results_Some)

lemma set_a3_sized: "sized m s \<Longrightarrow> results (sized m) (set_a3 v w s)"
  using mem_set_value_a3_size same_size_trans by (fastforce simp: set_a3_def results_def)

lemma resetmem_sized: "sized m s \<Longrightarrow> results (sized m) (resetmem_a3 s)"
  by (auto simp: resetmem_a3_def reset_var_zone_def results_def split: bind_splits dest: free_run_size intro: same_size_trans)

lemmas sized_steps = on_fs_sized error_sized quick_sized set_a3_sized resetmem_sized

lemma file_cmds_sized:
  assumes "sized m s"
  shows "results (sized m) (ls_cmd cfg ws s)" "results (sized m) (cat_cmd cfg ws s)" "results (sized m) (rm_cmd cfg ws s)"
    "results (sized m) (create_cmd cfg ws s)" "results (sized m) (write_cmd cfg ws s)" "results (sized m) (find_file_cmd cfg ws s)"
    "results (sized m) (read_cmd cfg ws s)" "results (sized m) (copy_in_cmd cfg ws s)" "results (sized m) (copy_out_cmd cfg ws s)"
    "results (sized m) (size_cmd cfg ws s)" "results (sized m) (seek_cmd cfg ws s)" "results (sized m) (freespace_cmd ws s)"
    "results (sized m) (fragmentation_cmd cfg ws s)" "results (sized m) (defragment_cmd cfg ws s)" "results (sized m) (recover_cmd cfg ws s)"
    "results (sized m) (quit_cmd cfg ws s)" "results (sized m) (set_cmd ws s)"
  unfolding ls_cmd_def cat_cmd_def rm_cmd_def create_cmd_def write_cmd_def find_file_cmd_def read_cmd_def copy_in_cmd_def copy_out_cmd_def
    size_cmd_def seek_cmd_def freespace_cmd_def fragmentation_cmd_def defragment_cmd_def recover_cmd_def quit_cmd_def set_cmd_def
  by ((rule assms | rule results_step2 | rule results_cases results_step | rule results_bind | rule sized_steps results_Some | assumption | simp)+)

lemma new_proc_sized: "sized m s \<Longrightarrow> results (sized m) (new_proc fls f s)"
  unfolding results_def by (intro allI impI) (rule a3_size.shape [OF new_proc_shape])

lemma run_proc_sized:
  assumes "parser_keeps (sized m) parse" and "sized m s"
  shows "results (sized m) (run_proc_RR parse s)" "results (sized m) (run_proc_FIFO parse s)"
  unfolding results_def run_proc_FIFO_def
  using a3_size.run_proc_RR_keeps [OF _ assms] a3_size.fifo_loop_keeps [OF _ assms] by simp_all

lemma run_a3_sized: "parser_keeps (sized m) parse \<Longrightarrow> sized m s \<Longrightarrow> results (sized m) (run_a3 ops parse f s)"
  unfolding run_a3_def by (rule results_step results_outcome results_if results_Some new_proc_sized run_proc_sized | assumption)+

lemma new_procs_sized: "sized m s \<Longrightarrow> results (sized m) (new_procs ops fs s)"
proof (induction fs arbitrary: s)
  case (Cons f fs)
  show ?case unfolding new_procs.simps
    by (rule results_step results_outcome results_if results_Some new_proc_sized Cons | assumption)+
qed (simp add: results_Some)

lemma exec_a3_sized: "parser_keeps (sized m) parse \<Longrightarrow> sized m s \<Longrightarrow> results (sized m) (exec_a3 ops parse fs pol s)"
  unfolding exec_a3_def
  by (rule results_step results_outcome results_if results_Some new_procs_sized run_proc_sized | assumption | simp)+

lemma copy_script_sized: "sized m s \<Longrightarrow> results (sized m) (copy_script_a3 ops f s)"
  by (simp add: copy_script_a3_def results_def Let_def)

lemma copy_scripts_sized: "sized m s \<Longrightarrow> results (sized m) (copy_scripts ops fs s)"
proof (induction fs arbitrary: s)
  case (Cons f fs)
  show ?case unfolding copy_scripts.simps by (rule results_step copy_script_sized results_Some Cons | simp)+
qed (simp add: results_Some)

lemma interpreter_sized:
  assumes "parser_keeps (sized m) parse" and "sized m s"
  shows "results (sized m) (interpreter_a3 cfg parse ws s)"
  unfolding interpreter_a3_def run_cmd_def exec_cmd_def
  by ((rule assms | rule results_step2 | rule results_cases results_step | rule results_bind | rule file_cmds_sized sized_steps results_Some run_a3_sized exec_a3_sized
        copy_script_sized copy_scripts_sized | assumption | simp)+)

lemma commands_sized:
  assumes "commands_loop f toks ret s = Some (r, s')" and "\<And>ws s. sized m s \<Longrightarrow> results (sized m) (f ws s)" and "sized m s"
  shows "sized m s'"
proof -
  have "case (r, s') of (r, s') \<Rightarrow> (\<forall>ws s. sized m s \<longrightarrow> results (sized m) (f ws s)) \<longrightarrow> sized m s \<longrightarrow> sized m s'"
  proof (rule commands_loop.raw_induct [OF _ assms(1), where
        P = "\<lambda>f toks ret s (r, s'). (\<forall>ws s. sized m s \<longrightarrow> results (sized m) (f ws s)) \<longrightarrow> sized m s \<longrightarrow> sized m s'"], goal_cases)
    case (1 c f toks ret s y)
    have "k_mem (snd (strtok_more s)) = k_mem s" for s :: "'a a3_state"
      by (simp add: strtok_more_def strtok_start_def split: option.split prod.split)
    then have tok: "sized m (snd (strtok_more s)) = sized m s" for s :: "'a a3_state" by simp
    show ?case
    proof (cases toks)
      case None
      then show ?thesis using 1(2) by auto
    next
      case (Some t)
      then obtain ws r1 s1 where i: "f ws s = Some (r1, s1)" and n: "(case r1 of
            Done ret \<Rightarrow> (let (toks, s) = strtok_more s1 in if ret = - 1 then Some (Done ret, s) else c f toks ret s)
          | Exit k \<Rightarrow> Some (Exit k, s1)) = Some y"
        using 1(2) by (auto split: bind_splits)
      have "sized m s1" if "\<forall>ws s. sized m s \<longrightarrow> results (sized m) (f ws s)" "sized m s" using that i unfolding results_def by blast
      then show ?thesis using n 1(1) tok [of s1] by (cases r1) (auto split: prod.splits if_splits)
    qed
  qed
  then show ?thesis using assms(2,3) by simp
qed

lemma parse_sized: "parser_keeps (sized m) (parseInput_a3 cfg n)"
proof (induction n)
  case 0
  then show ?case by (simp add: parser_keeps_def)
next
  case (Suc n)
  have "k_mem (snd (strtok_start t s)) = k_mem s" for t and s :: "'a a3_state"
    by (simp add: strtok_start_def split: option.split prod.split)
  then have "sized m s'" if "parseInput_a3 cfg (Suc n) ln s = Some (r, s')" "sized m s" for ln s r s'
  proof -
    obtain toks s1 where k: "strtok_start (c_str ln) s = (toks, s1)" by (cases "strtok_start (c_str ln) s")
    then have "commands_loop (interpreter_a3 cfg (parseInput_a3 cfg n)) toks 0 s1 = Some (r, s')" "sized m s1"
      using that \<open>\<And>t s. k_mem (snd (strtok_start t s)) = k_mem s\<close> [of "c_str ln" s] by (simp_all add: parseInput_a3.simps(2))
    then show ?thesis using commands_sized interpreter_sized [OF Suc] by blast
  qed
  then show ?case unfolding parser_keeps_def by blast
qed

lemma main_round_sized: "main_round_a3 cfg n s = Some (r, s') \<Longrightarrow> sized m s \<Longrightarrow> sized m s'"
  using parse_sized [of m cfg n] unfolding main_round_a3_def parser_keeps_def
  by (auto simp: Let_def split: bind_splits prod.splits if_splits)

lemma reachable_sized: "(shell_step_a3 cfg)\<^sup>*\<^sup>* s0 s \<Longrightarrow> sized (k_mem s0) s"
proof (induction rule: rtranclp_induct)
  case (step s s')
  from step(2) show ?case using step(3) main_round_sized by (cases rule: shell_step_a3E) blast
qed simp

text \<open>C26: In every state that the third shell can reach by reading lines, whatever they are, the shell memory has its size and its
  border, and no variable has two cells.\<close>

theorem a3_reachable_memory:
  assumes "(shell_step_a3 cfg)\<^sup>*\<^sup>* s0 s" and "wf_named (border (k_mem s0)) (mcells (k_mem s0))"
  shows "border (k_mem s) = border (k_mem s0) \<and> length (mcells (k_mem s)) = length (mcells (k_mem s0)) \<and>
    wf_named (border (k_mem s)) (mcells (k_mem s))"
  using reachable_sized [OF assms(1)] assms(2) by (simp add: same_size_def)

text \<open>C30: A script of one line that ends with a newline: its process is started, and the scheduler goes from round to round for ever,
  so that \<^verbatim>\<open>run\<close> does not return.\<close>

theorem a3_trailing_newline_never_ends:
  fixes s :: "'h a3_state"
  assumes "idle_a3 s" and "h_read ops f (a3_host s) = Some (echo_text w @ [newline])" and "echo_word w"
    and "3 \<le> border (k_mem s)" and "border (k_mem s) < 2 ^ 30"
  shows "(\<exists>s1. new_proc (\<lambda>f. h_read ops f (a3_host s)) f s = Some (Done 0, s1) \<and>
      (\<forall>n. rr_rounds (parseInput_a3 cfg (Suc m)) n s1 \<noteq> None)) \<and>
    run_a3 ops (parseInput_a3 cfg (Suc m)) f s = None"
proof -
  let ?parse = "parseInput_a3 cfg (Suc m)"
  have l: "prog_line 999 (echo_text w @ [newline])" "echo_text w @ [newline] \<noteq> [newline]" "quiet_a3 ?parse (echo_text w @ [newline], w)"
    using echo_text_shape [OF assms(3)] quiet_echo [OF assms(3), of "[newline]" cfg m] by simp_all
  obtain s1 s2 where s: "new_proc (\<lambda>f. h_read ops f (a3_host s)) f s = Some (Done 0, s1)" "queue_done s1 = Some False"
    "rr_turn_a3 ?parse s1 = Some (Done (), s2)" "stuck (k_brk s) s2"
    using newline_script_stuck [of s "\<lambda>f. h_read ops f (a3_host s)" f, OF assms(1,2) l assms(4,5)] by blast
  have "rr_rounds ?parse n s1 \<noteq> None" for n using s(2,3) stuck_rounds [OF s(4), of ?parse] by (cases n) force+
  moreover have "rr_loop ?parse s1 = None" using s(2,3) stuck_diverges [OF s(4)] by (subst rr_loop.simps) simp
  then have "run_a3 ops ?parse f s = None" using s(1) by (simp add: run_a3_def run_proc_RR_def)
  ultimately show ?thesis using s(1) by blast
qed

text \<open>C31: Under first in, first out, a single script of one to six lines \<^verbatim>\<open>echo word\<close>, of which the last has no newline, started by
  \<^verbatim>\<open>exec\<close> in a kernel without processes and with frames for its pages, prints its first word as many times as it has lines, and
  never another.\<close>

theorem a3_fifo_repeats_first_line:
  fixes s :: "'h a3_state"
  assumes "idle_a3 s" and "echo_files ops (a3_host s) [f] [ws]" and "3 * pages_for (length ws) \<le> border (k_mem s)"
  shows "\<exists>s'. exec_a3 ops (parseInput_a3 cfg (Suc n)) [f] ''FIFO'' s = Some (Done 0, s') \<and>
    k_out s' = k_out s @ replicate (length ws) (Print (hd ws))"
proof -
  let ?parse = "parseInput_a3 cfg (Suc n)"
  have f: "h_read ops f (a3_host s) = Some (echo_script ws)" "ws \<noteq> []" "length ws \<le> 6" "\<forall>w \<in> set ws. echo_word w"
    using assms(2) by (simp_all add: echo_files_def)
  obtain s1 p where s1: "new_proc (\<lambda>f. h_read ops f (a3_host s)) f s = Some (Done 0, s1)"
    "procs_in (0 + pages_for (length ws)) ?parse s1 [(k_brk s, echo_job ws)]" "k_out s1 = k_out s"
    "k_pcbs s1 (k_brk s) = Some p" "script_at (k_mem s1) p 0 (map fst (echo_job ws))"
    using new_proc_echo [OF idle_procs [OF assms(1)] f, of cfg n] assms(3) by auto
  obtain lt lts where j: "echo_job ws = lt # lts" by (cases "echo_job ws") (auto simp: echo_job_def)
  have h: "snd lt = hd ws" "length ws = Suc (length lts)"
    using echo_job_texts(1) [OF f(2)] arg_cong [OF j, of length] f(2) unfolding j by (cases ws; auto)+
  from run_proc_FIFO_repeats [OF s1(2) [unfolded j] s1(4) s1(5) [unfolded j]] s1(1,3) h show ?thesis by (auto simp: exec_a3_def)
qed

subsection \<open>Samples\<close>

text \<open>A host that copies files.\<close>

definition copying_host :: "(string \<rightharpoonup> string) host" where
  "copying_host = files_only\<lparr>h_system := (\<lambda>c h.
     if take 5 c = ''cp ./''
     then (let r = drop 5 c; f = takeWhile (\<lambda>x. x \<noteq> blank) r in (0, [], h(drop 1 (dropWhile (\<lambda>x. x \<noteq> blank) r) := h f)))
     else (0, [], h))\<rparr>"

definition sample_cfg_a3 :: "(string \<rightharpoonup> string) config_a3" where
  "sample_cfg_a3 = \<lparr>c3_ops = copying_host, c3_cwd = ''d'', c3_depth = 1, c3_junk = [], c3_heap = (\<lambda>_. 0)\<rparr>"

definition sample_boot :: "(string \<rightharpoonup> string) \<Rightarrow> string \<Rightarrow> (string \<rightharpoonup> string) a3_state" where
  "sample_boot h typed =
     (let l = \<lparr>ll_size = 0, dummy_head = 0, dummy_tail = 0, equal_fn = PCB_equal_at\<rparr>
      in \<lparr>k_heap = \<lparr>lnodes = Map.empty, brk = 0, lout = []\<rparr>, QUEUE = l, LRU_CACHE = l, ALL_PCB = l, k_pcbs = Map.empty, k_brk = 0,
          PID_counter = 1, k_mem = mem_init_a3 \<lparr>mcells = replicate 23 ('''', ''''), border = 18\<rparr>, a3_fs = sample_fs, a3_host = h,
          a3_in = \<lparr>rest = typed, eof = False\<rparr>, a3_tok = [], new_name_count = 0, a3_files = ([], False)\<rparr>)"

text \<open>The state after the kernel was set up.\<close>

definition sample_a3 :: "(string \<rightharpoonup> string) \<Rightarrow> string \<Rightarrow> (string \<rightharpoonup> string) a3_state" where
  "sample_a3 h typed = the (kernel_setup (sample_boot h typed))"

lemma sample_a3_facts:
  "idle_a3 (sample_a3 h typed)" "k_out (sample_a3 h typed) = []" "a3_host (sample_a3 h typed) = h" "new_name_count (sample_a3 h typed) = 0"
  "a3_in (sample_a3 h typed) = \<lparr>rest = typed, eof = False\<rparr>" "border (k_mem (sample_a3 h typed)) = 18"
  "wf_named 18 (mcells (k_mem (sample_a3 h typed)))"
proof -
  have "\<exists>s'. kernel_setup (sample_boot h typed) = Some s' \<and> idle_a3 s' \<and> same_core (sample_boot h typed) s'"
    by (rule kernel_setup_idle [where m = "\<lparr>mcells = replicate 23 ('''', ''''), border = 18\<rparr>"]) (simp_all add: sample_boot_def heap_ok_def Let_def)
  then have s: "idle_a3 (sample_a3 h typed)" "same_core (sample_boot h typed) (sample_a3 h typed)" by (auto simp: sample_a3_def)
  then show "idle_a3 (sample_a3 h typed)" by simp
  have m: "kernel.more (sample_a3 h typed) = kernel.more (sample_boot h typed)" using s(2) by (simp add: same_core_def)
  show "a3_host (sample_a3 h typed) = h" "new_name_count (sample_a3 h typed) = 0" "a3_in (sample_a3 h typed) = \<lparr>rest = typed, eof = False\<rparr>"
    using m by (cases "sample_a3 h typed"; simp add: sample_boot_def Let_def)+
  show "k_out (sample_a3 h typed) = []" "border (k_mem (sample_a3 h typed)) = 18" "wf_named 18 (mcells (k_mem (sample_a3 h typed)))"
    using s(2) by (auto simp: same_core_def sample_boot_def mem_init_a3_def wf_named_def Let_def)
qed

lemma sample_words: "echo_word ''a''" "echo_word ''b''" "echo_word ''c''" "echo_word ''x''" "echo_word ''y''"
  by (simp_all add: echo_word_def isAlphaNumStr_def isalnum_def Let_def)

theorem a3_exec_interleaves_witness:
  "\<exists>s'. exec_a3 copying_host (parseInput_a3 sample_cfg_a3 1) [''f'', ''g''] ''RR''
      (sample_a3 [''f'' \<mapsto> echo_script [''a'', ''b'', ''c''], ''g'' \<mapsto> echo_script [''x'', ''y'']] []) = Some (Done 0, s') \<and>
    k_out s' = map Print [''a'', ''b'', ''x'', ''y'', ''c'']"
proof -
  let ?s = "sample_a3 [''f'' \<mapsto> echo_script [''a'', ''b'', ''c''], ''g'' \<mapsto> echo_script [''x'', ''y'']] []"
  have "echo_files copying_host (a3_host ?s) [''f'', ''g''] [[''a'', ''b'', ''c''], [''x'', ''y'']]"
    by (simp add: echo_files_def sample_a3_facts sample_words copying_host_def files_only_def)
  moreover have "3 * pages_of [[''a'', ''b'', ''c''], [''x'', ''y'']] \<le> border (k_mem ?s)"
    by (simp add: pages_of_def pages_for_def sample_a3_facts)
  moreover have "interleave 2 [[''a'', ''b'', ''c''], [''x'', ''y'']] = [''a'', ''b'', ''x'', ''y'', ''c'']"
    by (simp add: interleave.simps)
  ultimately show ?thesis
    using a3_exec_interleaves [OF sample_a3_facts(1), of copying_host "[''f'' \<mapsto> echo_script [''a'', ''b'', ''c''], ''g'' \<mapsto> echo_script [''x'', ''y'']]"
        "[]" "[''f'', ''g'']" "[[''a'', ''b'', ''c''], [''x'', ''y'']]" sample_cfg_a3 0]
    by (auto simp: sample_a3_facts(2))
qed

theorem a3_run_drops_rest_witness:
  "\<exists>s'. parseInput_a3 sample_cfg_a3 2 ''run f;echo b'' (sample_a3 [''f'' \<mapsto> echo_script [''a'']] []) = Some (Done 0, s') \<and>
    k_out s' = [Print [], Print ''a'', Print [], Print []]"
proof -
  let ?s = "sample_a3 [''f'' \<mapsto> echo_script [''a'']] []" and ?cmd = "cp_command ''f'' 0"
  have cmd: "?cmd = ''cp ./f ./backing_store/f''" "copy_name ''f'' 0 = ''./backing_store/f''" by (simp_all add: cp_command_def copy_name_def)
  have sys: "h_system copying_host ?cmd h = (0, [], h(''./backing_store/f'' := h ''f''))" for h
    unfolding cmd by (simp add: copying_host_def blank_def)
  have quiet: "h_system copying_host ''rm -rf d/backing_store'' h = (0, [], h)" "h_system copying_host ''mkdir d/backing_store'' h = (0, [], h)" for h
    by (simp_all add: copying_host_def)
  have cfg: "c3_ops sample_cfg_a3 = copying_host" "c3_cwd sample_cfg_a3 = ''d''" by (simp_all add: sample_cfg_a3_def)
  have l: "cmd_line [''run'', ''f''] @ '';'' @ ''echo b'' = ''run f;echo b''" by (simp add: cmd_line_def blank_def)
  have f: "plain ''f''" "nul \<notin> set ''echo b''" "length (cp_command ''f'' (new_name_count ?s)) < 100"
    by (simp_all add: plain_def plain_char_def char_defs sample_a3_facts cmd)
  have r: "h_read (c3_ops sample_cfg_a3) (copy_name ''f'' (new_name_count ?s)) (after (c3_ops sample_cfg_a3) (cp_command ''f'' (new_name_count ?s)) (a3_host ?s)) =
      Some (echo_script [''a''])"
    unfolding sample_a3_facts cfg after_def sys cmd(2) by (simp add: copying_host_def files_only_def)
  have w: "\<forall>w \<in> set [''a'']. echo_word w" "3 * pages_for (length [''a'']) \<le> border (k_mem ?s)"
    by (simp_all add: sample_words pages_for_def sample_a3_facts)
  from a3_run_drops_rest [OF sample_a3_facts(1) f(1,3) r _ _ w f(2), of 0] show ?thesis
    unfolding l sample_a3_facts cfg
    by (auto simp: says_def after_def sys [unfolded cmd] cmd quiet Let_def numeral_2_eq_2)
qed

theorem a3_reachable_memory_witness:
  "\<exists>s. (shell_step_a3 sample_cfg_a3)\<^sup>*\<^sup>* (sample_a3 Map.empty (echo_text ''a'' @ [newline])) s \<and> k_out s = [Print ''a''] \<and> border (k_mem s) = 18 \<and>
    wf_named 18 (mcells (k_mem s))"
proof -
  let ?s = "sample_a3 Map.empty (echo_text ''a'' @ [newline])"
  let ?s1 = "say_a3 ''a'' (?s\<lparr>a3_in := \<lparr>rest = [], eof = False\<rparr>, a3_tok := []\<rparr>)"
  have "fgets 999 (a3_in ?s) = (Some (echo_text ''a'' @ [newline]), \<lparr>rest = [], eof = False\<rparr>)"
    using fgets_line [OF echo_text_shape(4) [OF sample_words(1)], of "[]" False] by (simp add: sample_a3_facts)
  then have "main_round_a3 sample_cfg_a3 (Suc 0) ?s = Some (Done 0, ?s1)"
    using echo_parse [OF sample_words(1), of "[newline]" sample_cfg_a3 0 "?s\<lparr>a3_in := \<lparr>rest = [], eof = False\<rparr>\<rparr>"]
    by (simp add: main_round_a3_def sample_cfg_a3_def copying_host_def files_only_def)
  then have "shell_step_a3 sample_cfg_a3 ?s ?s1" by (rule round_a3)
  then have r: "(shell_step_a3 sample_cfg_a3)\<^sup>*\<^sup>* ?s ?s1" by blast
  have "k_out ?s1 = [Print ''a'']" by (simp add: say_a3_def set_out_def sample_a3_facts)
  then show ?thesis using r a3_reachable_memory [OF r] by (intro exI [of _ ?s1]) (simp add: sample_a3_facts)
qed

theorem a3_trailing_newline_never_ends_witness:
  "run_a3 copying_host (parseInput_a3 sample_cfg_a3 1) ''f'' (sample_a3 [''f'' \<mapsto> echo_text ''a'' @ [newline]] []) = None"
proof -
  have "h_read copying_host ''f'' (a3_host (sample_a3 [''f'' \<mapsto> echo_text ''a'' @ [newline]] [])) = Some (echo_text ''a'' @ [newline])"
    by (simp add: sample_a3_facts copying_host_def files_only_def)
  from a3_trailing_newline_never_ends [OF sample_a3_facts(1) this sample_words(1), of sample_cfg_a3 0] show ?thesis
    by (simp add: sample_a3_facts)
qed

theorem a3_fifo_repeats_first_line_witness:
  "\<exists>s'. exec_a3 copying_host (parseInput_a3 sample_cfg_a3 1) [''f''] ''FIFO'' (sample_a3 [''f'' \<mapsto> echo_script [''a'', ''b'', ''c'']] []) =
      Some (Done 0, s') \<and> k_out s' = map Print [''a'', ''a'', ''a'']"
proof -
  let ?h = "[''f'' \<mapsto> echo_script [''a'', ''b'', ''c'']]"
  have "echo_files copying_host (a3_host (sample_a3 ?h [])) [''f''] [[''a'', ''b'', ''c'']]"
    by (simp add: echo_files_def sample_a3_facts sample_words copying_host_def files_only_def)
  moreover have "3 * pages_for (length [''a'', ''b'', ''c'']) \<le> border (k_mem (sample_a3 ?h []))" by (simp add: pages_for_def sample_a3_facts)
  ultimately show ?thesis
    using a3_fifo_repeats_first_line [OF sample_a3_facts(1), of copying_host ?h "[]" "''f''" "[''a'', ''b'', ''c'']" sample_cfg_a3 0]
    by (simp add: sample_a3_facts(2))
qed

end
