(* ===== verification/Spec2Isabelle.thy ===== *)
theory Spec2Isabelle
  imports A1_Shell A2_Shell A3_Shell
begin

text \<open>
  A verification development for three operating system assignments in C: a shell with variables and scripts
  (\<^verbatim>\<open>a1\<close>), a shell with processes, schedulers and demand paging (\<^verbatim>\<open>a2\<close>), and a shell with paging on top of a file
  system (\<^verbatim>\<open>a3\<close>, \<^verbatim>\<open>a3/fs\<close>). A definition has the name of the function it translates; where several programs have
  a function of that name, a suffix tells them apart (\<open>set_a1\<close>, \<open>exec_a2\<close>, \<open>run_a3\<close>).

  \<^bold>\<open>The file system.\<close> A request goes down through these layers, and each has its theory.

  \<^item> \<^verbatim>\<open>Block\<close>: the block layer (\<^verbatim>\<open>block.c\<close>), the disk driver (\<^verbatim>\<open>ide.c\<close>), whose disk is a file of the
    host and here a list of bytes, and partitions (\<^verbatim>\<open>partition.c\<close>). A device behaves as an array of
    sectors (locale \<open>sector_device\<close>, interpreted on the registered devices).
  \<^item> \<^verbatim>\<open>Cache\<close>: the write-back buffer cache with clock eviction (\<^verbatim>\<open>cache.c\<close>), generic in the device. On every
    \<open>sector_device\<close> the cache is again an array of sectors (locale \<open>sector_store\<close>), which on closing
    is what the device holds.
  \<^item> \<^verbatim>\<open>Inode_Data\<close>: the on-disk inode, the map from byte offsets to sectors, and the read and write loops
    of \<^verbatim>\<open>inode.c\<close>, on every \<open>sector_store\<close>.
  \<^item> \<^verbatim>\<open>Bitmap\<close>: bit sets in arrays of 64-bit words (\<^verbatim>\<open>bitmap.c\<close>), refined to lists of booleans.
  \<^item> \<^verbatim>\<open>Inode\<close>: the state of the file system (record \<open>fs\<close>), the table of open inodes, growth and deletion of files
    (\<^verbatim>\<open>inode.c\<close>), open files (\<^verbatim>\<open>file.c\<close>) and the free map in its file (\<^verbatim>\<open>free-map.c\<close>).
  \<^item> \<^verbatim>\<open>C_String\<close> and \<^verbatim>\<open>Directory\<close>: the string functions the code uses, paths, and directories (\<^verbatim>\<open>directory.c\<close>), whose
    operations are related to the list of entries.
  \<^item> \<^verbatim>\<open>Filesys\<close>: the file system as a whole (\<^verbatim>\<open>filesys.c\<close>), the utilities of \<^verbatim>\<open>fsutil.c\<close> and the dumps of \<^verbatim>\<open>debug.c\<close> and
    \<^verbatim>\<open>bitmap.c\<close>. \<open>sys_ok\<close> is the invariant between commands; creating, opening, listing, writing and
    reading are followed through all layers.
  \<^item> \<^verbatim>\<open>Filesys_Util\<close>: copying, searching, fragmentation and recovery (\<^verbatim>\<open>fsutil2.c\<close>).
  \<^item> \<^verbatim>\<open>Deque\<close>, \<^verbatim>\<open>Elem_List\<close>: the contract of a double-ended queue and the intrusive lists of \<^verbatim>\<open>fs/list.c\<close> on a heap of
    elements, with the proof that \<open>list_sort\<close> sorts.

  \<^bold>\<open>The shells.\<close>

  \<^item> \<^verbatim>\<open>Text_Stream\<close>, \<^verbatim>\<open>Shell_Host\<close>: the streams the shells read, and the calls they make on the host, as a record of
    functions on a state the model does not look into.
  \<^item> \<^verbatim>\<open>Var_Store\<close>: the contract of a store of named variables (locale \<open>var_store\<close>) and the array that
    implements it; \<^verbatim>\<open>Shell_Memory\<close> and \<^verbatim>\<open>A2_Memory\<close> interpret it for the three shells.
  \<^item> \<^verbatim>\<open>A1_Shell\<close>: the interpreter and the loop of \<^verbatim>\<open>a1\<close>.
  \<^item> \<^verbatim>\<open>A2_Queue\<close>: process control blocks and the ready queue of \<^verbatim>\<open>a2\<close> (\<^verbatim>\<open>pcb.c\<close>, \<^verbatim>\<open>ready_queue.c\<close>) on a heap of
    nodes, refined to lists (locale \<open>job_queue\<close>). \<^verbatim>\<open>A2_Memory\<close>: its frame store, page loading and replacement
    (\<^verbatim>\<open>shellmemory.c\<close>). \<^verbatim>\<open>A2_Kernel\<close>: processes and schedulers (\<^verbatim>\<open>kernel.c\<close>). \<^verbatim>\<open>A2_Shell\<close>: its interpreter and parser.
  \<^item> \<^verbatim>\<open>Shell_Memory\<close>: the shell memories of \<^verbatim>\<open>a1\<close> and \<^verbatim>\<open>a3\<close> and the pages of \<^verbatim>\<open>a3/pcb.c\<close>. \<^verbatim>\<open>Linked_List\<close>: the lists of
    \<^verbatim>\<open>a3/linked_list.c\<close>. \<^verbatim>\<open>A3_Kernel\<close>: processes, page faults and schedulers (\<^verbatim>\<open>kernel.c\<close>, \<^verbatim>\<open>cpu.c\<close>).
    \<^verbatim>\<open>A3_Shell\<close>: its interpreter and parser, on the kernel and the file system.
  \<^item> \<^verbatim>\<open>Round_Robin\<close>: what a round robin scheduler promises (locale \<open>round_robin\<close>): it ends, and runs the lines of the
    programs in turn. Both kernels provide it.
  \<^item> \<^verbatim>\<open>Kernel_Invariant\<close>, \<^verbatim>\<open>A3_Start\<close>, \<^verbatim>\<open>A3_Faults\<close>: what the kernel of \<^verbatim>\<open>a3\<close> leaves alone (locale \<open>kernel_invariant\<close>) and that
    it is monotone in the parser; what starting processes establishes; and the scripts that fault for ever.

  \<^bold>\<open>Conventions.\<close> A C function is a function that returns an option; \<open>None\<close> is undefined behaviour or
  a computation that does not end. Error codes are values, and \<open>Exit\<close> in an \<open>outcome\<close> is a call of \<^verbatim>\<open>exit\<close>. An assertion that
  fails is an event on a console and the program goes on, as in the code. \<^verbatim>\<open>size_t\<close> is \<open>nat\<close> with the reduction written
  out, sector numbers are 32-bit words, \<^verbatim>\<open>int\<close> is \<open>int\<close> with overflow as \<open>None\<close> where it can occur. An access
  behind an array is \<open>None\<close>; only the buffer that \<open>inode_read_at\<close> fills is taken to be large enough. What C leaves
  open otherwise is a parameter: uninitialised memory (\<open>junk\<close>, \<open>heap\<close>) and the value of a function that ends without
  a return (\<open>noret\<close>).

  \<^bold>\<open>Fuel.\<close> Loops that follow pointers or run scripts are partial functions, and the lemmas show that they end.
  \<open>partition_scan\<close> has fuel because it need not end. \<open>free_map_allocate\<close> has a bound on the depth of its recursion, and one
  level is enough when the free map file has its full length. The parsers have a bound on the depth to which scripts run
  scripts: \<^verbatim>\<open>A1_Shell\<close> and \<^verbatim>\<open>A3_Shell\<close> show that a greater bound changes no result, and \<^verbatim>\<open>A2_Shell\<close> that two levels are
  enough for every line.

  \<^bold>\<open>Not modelled.\<close> The release of memory, except where the code uses a freed object: \<^verbatim>\<open>bitmap_destroy\<close> and most calls of
  \<^verbatim>\<open>free\<close> have no counterpart. The host's commands, files and terminal are the parameter of \<^verbatim>\<open>Shell_Host\<close>.
\<close>

end
